(* ===== verification/Prelude.thy ===== *)
theory Prelude
  imports Main "HOL-Library.Word"
begin

text \<open>
  What every component of the development shares: the faults a run of the C++ program can end
  in, the result type that carries them, the casts between the signed and unsigned 64-bit
  integers of the sources with their wrap-around, and generic lemmas on slices of lists.

  The library is compiled without \<open>NDEBUG\<close> (see src/Makefile), so \<open>assert\<close> is live: a false
  assertion is the fault \<open>AssertFailed\<close>. The macro \<open>log_fatal\<close> of src/logging.h ends in
  \<open>exit(1)\<close>: the fault \<open>ExitFailure\<close>. Undefined behaviour through a pointer outside its
  object is \<open>BadPointer\<close>, a call of an empty \<open>std::function\<close> is \<open>BadFunctionCall\<close>, the overflow
  of an \<open>int\<close>, undefined too, is \<open>IntOverflow\<close>; calls nested deeper than the stack allows are
  \<open>StackOverflow\<close>, and a call that loops for ever is \<open>NoReturn\<close>.
\<close>

section \<open>Faults and results\<close>

datatype fault =
    AssertFailed
  | ExitFailure
  | LengthError
  | DivideByZero
  | BadPointer
  | BadFunctionCall
  | IntOverflow
  | StackOverflow
  | NoReturn

type_synonym 'a res = "fault + 'a"

text \<open>\<open>bnd m f\<close> runs \<open>m\<close> and, unless it faulted, \<open>f\<close> on its value; \<open>must P r\<close> is
  \<open>assert(P)\<close> followed by \<open>r\<close>; \<open>fatal_unless P r\<close> is a guard whose failure calls
  \<open>log_fatal\<close>.\<close>

definition bnd :: "'a res \<Rightarrow> ('a \<Rightarrow> 'b res) \<Rightarrow> 'b res" where
  "bnd m f = (case m of Inl e \<Rightarrow> Inl e | Inr x \<Rightarrow> f x)"

definition must :: "bool \<Rightarrow> 'a res \<Rightarrow> 'a res" where
  "must P r = (if P then r else Inl AssertFailed)"

definition fatal_unless :: "bool \<Rightarrow> 'a res \<Rightarrow> 'a res" where
  "fatal_unless P r = (if P then r else Inl ExitFailure)"

definition valid_or :: "bool \<Rightarrow> 'a res \<Rightarrow> 'a res" where
  "valid_or P r = (if P then r else Inl BadPointer)"

named_theorems res_simps "evaluation and inversion of computations that may fault"

lemma bnd_Inl [simp]: "bnd (Inl e) f = Inl e"
  by (simp add: bnd_def)

lemma bnd_Inr [simp]: "bnd (Inr x) f = f x"
  by (simp add: bnd_def)

lemma must_True [simp]: "must True r = r"
  by (simp add: must_def)

lemma must_False [simp]: "must False r = Inl AssertFailed"
  by (simp add: must_def)

lemma fatal_unless_True [simp]: "fatal_unless True r = r"
  by (simp add: fatal_unless_def)

lemma fatal_unless_False [simp]: "fatal_unless False r = Inl ExitFailure"
  by (simp add: fatal_unless_def)

lemma valid_or_True [simp]: "valid_or True r = r"
  by (simp add: valid_or_def)

lemma valid_or_False [simp]: "valid_or False r = Inl BadPointer"
  by (simp add: valid_or_def)

lemma bnd_eq_Inr [res_simps]: "bnd m f = Inr y \<longleftrightarrow> (\<exists>x. m = Inr x \<and> f x = Inr y)"
  by (cases m) auto

lemma must_eq_Inr [res_simps]: "must P r = Inr y \<longleftrightarrow> P \<and> r = Inr y"
  by (simp add: must_def)

lemma fatal_unless_eq_Inr [res_simps]: "fatal_unless P r = Inr y \<longleftrightarrow> P \<and> r = Inr y"
  by (simp add: fatal_unless_def)

lemma valid_or_eq_Inr [res_simps]: "valid_or P r = Inr y \<longleftrightarrow> P \<and> r = Inr y"
  by (simp add: valid_or_def)

lemma bnd_assoc: "bnd (bnd m f) g = bnd m (\<lambda>x. bnd (f x) g)"
  by (cases m) simp_all

lemma bnd_cong [fundef_cong]:
  "m = m' \<Longrightarrow> (\<And>x. m' = Inr x \<Longrightarrow> f x = g x) \<Longrightarrow> bnd m f = bnd m' g"
  by (cases m') auto

text \<open>Updating a function at distinct arguments, one after the other.\<close>

definition upd_at :: "('x \<Rightarrow> 'k) \<Rightarrow> ('x \<Rightarrow> 'v \<Rightarrow> 'v) \<Rightarrow> 'x \<Rightarrow> ('k \<Rightarrow> 'v) \<Rightarrow> 'k \<Rightarrow> 'v" where
  "upd_at f g x m = m(f x := g x (m (f x)))"

lemma upd_at_same: "f x = c \<Longrightarrow> upd_at f g x m c = g x (m c)"
  by (simp add: upd_at_def)

lemma upd_at_other: "f x \<noteq> c \<Longrightarrow> upd_at f g x m c = m c"
  by (simp add: upd_at_def)

lemma fold_upd_at_other: "c \<notin> f ` set xs \<Longrightarrow> fold (upd_at f g) xs m c = m c"
  by (induction xs arbitrary: m) (auto simp: upd_at_other)

lemma fold_upd_at:
  "distinct (map f xs) \<Longrightarrow> x \<in> set xs \<Longrightarrow> fold (upd_at f g) xs m (f x) = g x (m (f x))"
proof (induction xs arbitrary: m)
  case Nil
  then show ?case by simp
next
  case (Cons y ys)
  show ?case
  proof (cases "x = y")
    case True
    with Cons.prems have "f x \<notin> f ` set ys" by simp
    then show ?thesis by (simp add: True fold_upd_at_other upd_at_same)
  next
    case False
    with Cons.prems have "x \<in> set ys" "f y \<noteq> f x" by auto
    with Cons show ?thesis by (simp add: upd_at_other)
  qed
qed

text \<open>A computation over a list of items, stopping at the first fault.\<close>

fun fold_res :: "('a \<Rightarrow> 's \<Rightarrow> 's res) \<Rightarrow> 'a list \<Rightarrow> 's \<Rightarrow> 's res" where
  "fold_res f [] s = Inr s"
| "fold_res f (x # xs) s = bnd (f x s) (fold_res f xs)"

lemma bnd_fold_Nil [simp]: "bnd m (fold_res f []) = m"
  by (cases m) simp_all

lemma fold_res_append: "fold_res f (xs @ ys) s = bnd (fold_res f xs s) (fold_res f ys)"
proof (induction xs arbitrary: s)
  case Nil
  show ?case by simp
next
  case (Cons x xs)
  then show ?case by (cases "f x s") simp_all
qed

lemma fold_res_invariant:
  assumes "fold_res f xs s = Inr s'" and "I s"
    and step: "\<And>x t t'. x \<in> set xs \<Longrightarrow> I t \<Longrightarrow> f x t = Inr t' \<Longrightarrow> I t'"
  shows "I s'"
  using assms
proof (induction xs arbitrary: s)
  case Nil
  then show ?case by simp
next
  case (Cons x xs)
  from Cons.prems(1) obtain t where t: "f x s = Inr t" and r: "fold_res f xs t = Inr s'"
    by (auto simp: res_simps)
  have "I t" using Cons.prems(2) Cons.prems(3) [OF _ _ t] by simp
  with r show ?case by (rule Cons.IH) (auto intro: Cons.prems(3))
qed

section \<open>Reachable states\<close>

definition reachable_from :: "('s \<Rightarrow> bool) \<Rightarrow> ('s \<Rightarrow> 's \<Rightarrow> bool) \<Rightarrow> 's \<Rightarrow> bool" where
  "reachable_from init step S \<longleftrightarrow> (\<exists>S0. init S0 \<and> step\<^sup>*\<^sup>* S0 S)"

text \<open>What holds initially and is kept by every step holds in every reachable state.\<close>

locale inductive_invariant =
  fixes init :: "'s \<Rightarrow> bool" and step :: "'s \<Rightarrow> 's \<Rightarrow> bool" and holds :: "'s \<Rightarrow> bool"
  assumes initially: "init S \<Longrightarrow> holds S"
    and kept: "step S S' \<Longrightarrow> holds S \<Longrightarrow> holds S'"
begin

lemma always: "reachable_from init step S \<Longrightarrow> holds S"
proof -
  assume "reachable_from init step S"
  then obtain S0 where "init S0" "step\<^sup>*\<^sup>* S0 S" by (auto simp: reachable_from_def)
  from this(2) this(1) show ?thesis by induction (auto intro: initially kept)
qed

end

section \<open>Casts between \<open>size_t\<close> and \<open>ssize_t\<close>\<close>

text \<open>
  The program runs on a 64-bit target: \<open>size_t\<close> is read modulo \<open>2^64\<close> and \<open>ssize_t\<close> in
  two's complement. \<open>to_size\<close> converts any integer to the unsigned type, \<open>to_ssize\<close> to the
  signed one.
\<close>

definition to_size :: "int \<Rightarrow> nat" where
  "to_size x = nat (x mod 18446744073709551616)"

definition to_ssize :: "int \<Rightarrow> int" where
  "to_ssize x = (x + 9223372036854775808) mod 18446744073709551616 - 9223372036854775808"

abbreviation (input) size_max :: nat where
  "size_max \<equiv> 9223372036854775807"

lemma to_size_id: "0 \<le> x \<Longrightarrow> x < 18446744073709551616 \<Longrightarrow> to_size x = nat x"
  by (simp add: to_size_def)

lemma to_ssize_id:
  "- 9223372036854775808 \<le> x \<Longrightarrow> x < 9223372036854775808 \<Longrightarrow> to_ssize x = x"
  by (simp add: to_ssize_def)

lemma to_ssize_range: "- 9223372036854775808 \<le> to_ssize x \<and> to_ssize x < 9223372036854775808"
proof -
  have "0 \<le> (x + 9223372036854775808) mod 18446744073709551616"
    and "(x + 9223372036854775808) mod 18446744073709551616 < 18446744073709551616"
    by simp_all
  then show ?thesis by (simp add: to_ssize_def)
qed

lemma to_size_negative: "- 18446744073709551616 \<le> x \<Longrightarrow> x < 0 \<Longrightarrow> to_size x = nat (x + 18446744073709551616)"
proof -
  assume a: "- 18446744073709551616 \<le> x" "x < 0"
  have "x mod 18446744073709551616 = (x + 18446744073709551616) mod 18446744073709551616"
    by simp
  also have "\<dots> = x + 18446744073709551616" using a by (simp del: mod_add_self2)
  finally show ?thesis by (simp add: to_size_def)
qed

section \<open>Slices and block copies of lists\<close>

text \<open>\<open>seg xs i j\<close> is the range \<open>[i, j)\<close>; \<open>blit xs i ys\<close> overwrites it at \<open>i\<close> with
  \<open>ys\<close>, as \<open>std::copy\<close> into a vector does.\<close>

definition seg :: "'a list \<Rightarrow> nat \<Rightarrow> nat \<Rightarrow> 'a list" where
  "seg xs i j = take (j - i) (drop i xs)"

definition blit :: "'a list \<Rightarrow> nat \<Rightarrow> 'a list \<Rightarrow> 'a list" where
  "blit xs i ys = take i xs @ ys @ drop (i + length ys) xs"

lemma length_seg [simp]: "length (seg xs i j) = min (j - i) (length xs - i)"
  by (simp add: seg_def)

lemma seg_empty [simp]: "j \<le> i \<Longrightarrow> seg xs i j = []"
  by (simp add: seg_def)

lemma seg_0_length [simp]: "seg xs 0 (length xs) = xs"
  by (simp add: seg_def)

lemma seg_append: "i \<le> j \<Longrightarrow> j \<le> k \<Longrightarrow> seg xs i j @ seg xs j k = seg xs i k"
proof -
  assume ij: "i \<le> j" and jk: "j \<le> k"
  have "drop j xs = drop (j - i) (drop i xs)" using ij by simp
  then have "seg xs j k = take (k - j) (drop (j - i) (drop i xs))"
    by (simp add: seg_def)
  moreover have "k - i = (j - i) + (k - j)" using ij jk by simp
  ultimately show ?thesis by (simp only: seg_def take_add)
qed

lemma take_seg: "take n (seg xs i j) = seg xs i (min j (i + n))"
proof -
  have "min n (j - i) = min j (i + n) - i" by arith
  then show ?thesis by (simp add: seg_def)
qed

lemma drop_seg: "drop n (seg xs i j) = seg xs (i + n) j"
  by (simp add: seg_def drop_take add.commute diff_diff_left)

lemma nth_seg: "k < j - i \<Longrightarrow> i + k < length xs \<Longrightarrow> seg xs i j ! k = xs ! (i + k)"
  by (simp add: seg_def)

lemma seg_take: "k \<le> n \<Longrightarrow> seg (take n xs) i k = seg xs i k"
  by (simp add: seg_def drop_take)

lemma seg_mid: "seg (a @ b @ c) (length a) (length a + length b) = b"
  by (simp add: seg_def)

lemma length_blit [simp]: "i + length ys \<le> length xs \<Longrightarrow> length (blit xs i ys) = length xs"
  by (simp add: blit_def)

lemma seg_blit_before:
  "j \<le> k \<Longrightarrow> k + length ys \<le> length xs \<Longrightarrow> seg (blit xs k ys) i j = seg xs i j"
proof -
  assume a: "j \<le> k" "k + length ys \<le> length xs"
  have "seg (blit xs k ys) i j = seg (take j (blit xs k ys)) i j"
    by (simp add: seg_take)
  also have "take j (blit xs k ys) = take j xs"
    using a by (simp add: blit_def min_def)
  finally show ?thesis by (simp add: seg_take)
qed

lemma seg_blit_same:
  "k + length ys \<le> length xs \<Longrightarrow> seg (blit xs k ys) k (k + length ys) = ys"
  by (simp add: seg_def blit_def)

lemma seg_blit_after:
  "k + length ys \<le> i \<Longrightarrow> k + length ys \<le> length xs \<Longrightarrow> seg (blit xs k ys) i j = seg xs i j"
proof -
  assume a: "k + length ys \<le> i" "k + length ys \<le> length xs"
  have "drop i (blit xs k ys) = drop i xs"
  proof -
    have "drop i (blit xs k ys) = drop (i - (k + length ys)) (drop (k + length ys) xs)"
      using a by (simp add: blit_def)
    also have "\<dots> = drop i xs" using a(1) by simp
    finally show ?thesis .
  qed
  then show ?thesis by (simp add: seg_def)
qed

lemma seg_append_left: "j \<le> length xs \<Longrightarrow> seg (xs @ ys) i j = seg xs i j"
  by (metis append_eq_conv_conj seg_take)

lemma blit_0_eq: "length ys = length xs \<Longrightarrow> blit xs 0 ys = ys"
  by (simp add: blit_def)

end
