(* ===== verification/Channel.thy ===== *)
theory Channel
  imports Prelude
begin

unbundle bit_operations_syntax

text \<open>
  The channel of src/channel.h and src/channel.cpp: one descriptor, the events its owner is
  interested in, the events \<open>poll\<close> reported, and up to four callbacks. A callback is a closure
  of another component; the record holds its name, of a type \<open>'cb\<close>, and \<open>handleEvent\<close> takes the
  interpreter that runs it. Channels live in a heap, indexed by their address.

  \<open>enableReading\<close> and the other operations that call \<open>update()\<close> are completed in EventLoop,
  where the poller is; here are the bits they set.
\<close>

section \<open>The model\<close>

definition POLLIN :: "32 word" where "POLLIN = 0x1"

definition POLLPRI :: "32 word" where "POLLPRI = 0x2"

definition POLLOUT :: "32 word" where "POLLOUT = 0x4"

definition POLLERR :: "32 word" where "POLLERR = 0x8"

definition POLLHUP :: "32 word" where "POLLHUP = 0x10"

definition POLLNVAL :: "32 word" where "POLLNVAL = 0x20"

definition POLLRDHUP :: "32 word" where "POLLRDHUP = 0x2000"

definition kNoneEvent :: "32 word" where "kNoneEvent = 0"

definition kReadEvent :: "32 word" where "kReadEvent = POLLIN OR POLLPRI"

definition kWriteEvent :: "32 word" where "kWriteEvent = POLLOUT"

named_theorems poll_bits "the values of the poll events"

lemmas [poll_bits] = POLLIN_def POLLPRI_def POLLOUT_def POLLERR_def POLLHUP_def POLLNVAL_def
  POLLRDHUP_def kNoneEvent_def kReadEvent_def kWriteEvent_def

record 'cb channel =
  ch_loop :: nat
  ch_fd :: int
  ch_event :: "32 word"
  ch_revent :: "32 word"
  ch_index :: int
  ch_eventHanding :: bool
  ch_readCallBack :: "'cb option"
  ch_writeCallBack :: "'cb option"
  ch_errorCallBack :: "'cb option"
  ch_closeCallBack :: "'cb option"

definition channel_new :: "nat \<Rightarrow> int \<Rightarrow> 'cb channel" where
  "channel_new loop fd = \<lparr>ch_loop = loop, ch_fd = fd, ch_event = 0, ch_revent = 0, ch_index = -1,
     ch_eventHanding = False, ch_readCallBack = None, ch_writeCallBack = None,
     ch_errorCallBack = None, ch_closeCallBack = None\<rparr>"

definition channel_destroy :: "'cb channel \<Rightarrow> unit res" where
  "channel_destroy ch = must (\<not> ch_eventHanding ch) (Inr ())"

definition setReadCallBack :: "'cb \<Rightarrow> 'cb channel \<Rightarrow> 'cb channel" where
  "setReadCallBack cb ch = ch\<lparr>ch_readCallBack := Some cb\<rparr>"

definition setWriteCallBack :: "'cb \<Rightarrow> 'cb channel \<Rightarrow> 'cb channel" where
  "setWriteCallBack cb ch = ch\<lparr>ch_writeCallBack := Some cb\<rparr>"

definition setErrorCallBack :: "'cb \<Rightarrow> 'cb channel \<Rightarrow> 'cb channel" where
  "setErrorCallBack cb ch = ch\<lparr>ch_errorCallBack := Some cb\<rparr>"

definition setCloseCallBack :: "'cb \<Rightarrow> 'cb channel \<Rightarrow> 'cb channel" where
  "setCloseCallBack cb ch = ch\<lparr>ch_closeCallBack := Some cb\<rparr>"

definition setEvent :: "32 word \<Rightarrow> 'cb channel \<Rightarrow> 'cb channel" where
  "setEvent revent ch = ch\<lparr>ch_revent := revent\<rparr>"

definition setIndex :: "int \<Rightarrow> 'cb channel \<Rightarrow> 'cb channel" where
  "setIndex idx ch = ch\<lparr>ch_index := idx\<rparr>"

definition isNoneEvent :: "'cb channel \<Rightarrow> bool" where
  "isNoneEvent ch \<longleftrightarrow> ch_event ch = kNoneEvent"

definition isWriting :: "'cb channel \<Rightarrow> bool" where
  "isWriting ch \<longleftrightarrow> ch_event ch AND kWriteEvent \<noteq> 0"

definition readingBits :: "'cb channel \<Rightarrow> 'cb channel" where
  "readingBits ch = ch\<lparr>ch_event := ch_event ch OR kReadEvent\<rparr>"

definition writingBits :: "'cb channel \<Rightarrow> 'cb channel" where
  "writingBits ch = ch\<lparr>ch_event := ch_event ch OR kWriteEvent\<rparr>"

definition noWritingBits :: "'cb channel \<Rightarrow> 'cb channel" where
  "noWritingBits ch = ch\<lparr>ch_event := ch_event ch AND NOT kWriteEvent\<rparr>"

definition noBits :: "'cb channel \<Rightarrow> 'cb channel" where
  "noBits ch = ch\<lparr>ch_event := kNoneEvent\<rparr>"

text \<open>The heap of channels, extended by the components with what else their state holds.\<close>

record 'cb chan_heap =
  chans :: "nat \<Rightarrow> 'cb channel"

definition upd_chan ::
  "nat \<Rightarrow> ('cb channel \<Rightarrow> 'cb channel) \<Rightarrow> ('cb, 'z) chan_heap_scheme \<Rightarrow> ('cb, 'z) chan_heap_scheme" where
  "upd_chan c f s = s\<lparr>chans := (chans s)(c := f (chans s c))\<rparr>"

text \<open>One guarded call of \<open>handleEvent\<close>: when the reported events meet the mask and a callback
  is set, it runs.\<close>

definition call_if :: "bool \<Rightarrow> 'cb option \<Rightarrow> ('cb \<Rightarrow> 's \<Rightarrow> 's res) \<Rightarrow> 's \<Rightarrow> 's res" where
  "call_if guard cb run s =
     (if guard then case cb of None \<Rightarrow> Inr s | Some f \<Rightarrow> run f s else Inr s)"

definition handleEvent ::
  "('cb \<Rightarrow> ('cb, 'z) chan_heap_scheme \<Rightarrow> ('cb, 'z) chan_heap_scheme res)
    \<Rightarrow> ('cb \<Rightarrow> int \<Rightarrow> ('cb, 'z) chan_heap_scheme \<Rightarrow> ('cb, 'z) chan_heap_scheme res)
    \<Rightarrow> nat \<Rightarrow> int \<Rightarrow> ('cb, 'z) chan_heap_scheme \<Rightarrow> ('cb, 'z) chan_heap_scheme res" where
  "handleEvent run runRead c receiveTime s =
     (let s = upd_chan c (\<lambda>ch. ch\<lparr>ch_eventHanding := True\<rparr>) s in
      bnd (let ch = chans s c in
           call_if (ch_revent ch AND POLLHUP \<noteq> 0 \<and> ch_revent ch AND POLLIN \<noteq> 0)
             (ch_closeCallBack ch) run s) (\<lambda>s.
      bnd (let ch = chans s c in
           call_if (ch_revent ch AND (POLLNVAL OR POLLERR) \<noteq> 0) (ch_errorCallBack ch) run s) (\<lambda>s.
      bnd (let ch = chans s c in
           call_if (ch_revent ch AND (POLLIN OR POLLPRI OR POLLRDHUP) \<noteq> 0) (ch_readCallBack ch)
             (\<lambda>f. runRead f receiveTime) s) (\<lambda>s.
      bnd (let ch = chans s c in
           call_if (ch_revent ch AND POLLOUT \<noteq> 0) (ch_writeCallBack ch) run s) (\<lambda>s.
      Inr (upd_chan c (\<lambda>ch. ch\<lparr>ch_eventHanding := False\<rparr>) s))))))"

section \<open>Which callbacks run, and in which order\<close>

datatype kind = CloseCB | ErrorCB | ReadCB | WriteCB

definition dispatch :: "32 word \<Rightarrow> kind list" where
  "dispatch revent =
     (if revent AND POLLHUP \<noteq> 0 \<and> revent AND POLLIN \<noteq> 0 then [CloseCB] else [])
   @ (if revent AND (POLLNVAL OR POLLERR) \<noteq> 0 then [ErrorCB] else [])
   @ (if revent AND (POLLIN OR POLLPRI OR POLLRDHUP) \<noteq> 0 then [ReadCB] else [])
   @ (if revent AND POLLOUT \<noteq> 0 then [WriteCB] else [])"

fun callback_of :: "'cb channel \<Rightarrow> kind \<Rightarrow> 'cb option" where
  "callback_of ch CloseCB = ch_closeCallBack ch"
| "callback_of ch ErrorCB = ch_errorCallBack ch"
| "callback_of ch ReadCB = ch_readCallBack ch"
| "callback_of ch WriteCB = ch_writeCallBack ch"

definition run_kind ::
  "('cb \<Rightarrow> 's \<Rightarrow> 's res) \<Rightarrow> ('cb \<Rightarrow> int \<Rightarrow> 's \<Rightarrow> 's res) \<Rightarrow> int \<Rightarrow> kind \<Rightarrow> 'cb \<Rightarrow> 's \<Rightarrow> 's res" where
  "run_kind run runRead t k f = (if k = ReadCB then runRead f t else run f)"

text \<open>What the callbacks may not do: change the reported events or the callbacks of the channel
  being handled. Only the poller writes the former, and only constructors set the latter.\<close>

definition keeps_dispatch ::
  "nat \<Rightarrow> (('cb, 'z) chan_heap_scheme \<Rightarrow> ('cb, 'z) chan_heap_scheme res) \<Rightarrow> bool" where
  "keeps_dispatch c m \<longleftrightarrow> (\<forall>s s'. m s = Inr s' \<longrightarrow>
     ch_revent (chans s' c) = ch_revent (chans s c)
   \<and> callback_of (chans s' c) = callback_of (chans s c))"

lemma keeps_dispatchD:
  assumes "keeps_dispatch c m" and "m s = Inr s'"
  shows "ch_revent (chans s' c) = ch_revent (chans s c)"
    and "callback_of (chans s' c) = callback_of (chans s c)"
  using assms by (auto simp: keeps_dispatch_def)

definition run_callback where
  "run_callback run runRead c t k s =
     (case callback_of (chans s c) k of None \<Rightarrow> Inr s | Some f \<Rightarrow> run_kind run runRead t k f s)"

lemma keeps_run_callback:
  assumes "\<And>f. keeps_dispatch c (run f)" and "\<And>f. keeps_dispatch c (runRead f t)"
  shows "keeps_dispatch c (run_callback run runRead c t k)"
  using assms unfolding keeps_dispatch_def run_callback_def run_kind_def
  by (auto split: option.splits if_splits)

lemma keeps_fold:
  assumes "\<And>k. keeps_dispatch c (f k)"
  shows "keeps_dispatch c (fold_res f ks)"
proof -
  have "fold_res f ks s = Inr s' \<Longrightarrow> ch_revent (chans s' c) = ch_revent (chans s c)
      \<and> callback_of (chans s' c) = callback_of (chans s c)" for s s'
    by (erule fold_res_invariant [where I = "\<lambda>x. ch_revent (chans x c) = ch_revent (chans s c)
          \<and> callback_of (chans x c) = callback_of (chans s c)"])
       (use assms in \<open>auto simp: keeps_dispatch_def\<close>)
  then show ?thesis by (simp add: keeps_dispatch_def)
qed

text \<open>The list of callbacks a set of reported events selects, with what was set for each.\<close>

definition selected :: "'cb channel \<Rightarrow> (kind \<times> 'cb) list" where
  "selected ch = List.map_filter (\<lambda>k. map_option (Pair k) (callback_of ch k)) (dispatch (ch_revent ch))"

lemma fold_selected:
  assumes "\<And>k. keeps_dispatch c (run_callback run runRead c t k)"
    and "callback_of (chans s c) = callback_of ch"
  shows "fold_res (run_callback run runRead c t) ks s
    = fold_res (\<lambda>(k, f). run_kind run runRead t k f)
        (List.map_filter (\<lambda>k. map_option (Pair k) (callback_of ch k)) ks) s"
  using assms(2)
proof (induction ks arbitrary: s)
  case Nil
  show ?case by (simp add: map_filter_simps)
next
  case (Cons k ks)
  show ?case
  proof (cases "callback_of ch k")
    case None
    then have "run_callback run runRead c t k s = Inr s"
      using Cons.prems by (simp add: run_callback_def)
    with None Cons show ?thesis by (simp add: map_filter_simps)
  next
    case (Some f)
    have r: "run_callback run runRead c t k s = run_kind run runRead t k f s"
      using Some Cons.prems by (simp add: run_callback_def)
    show ?thesis
    proof (cases "run_kind run runRead t k f s")
      case (Inl e)
      with r Some show ?thesis by (simp add: map_filter_simps)
    next
      case (Inr s')
      with r have "run_callback run runRead c t k s = Inr s'" by simp
      from keeps_dispatchD(2) [OF assms(1) this] Cons.prems
      have "callback_of (chans s' c) = callback_of ch" by simp
      from Cons.IH [OF this] r Inr Some show ?thesis by (simp add: map_filter_simps)
    qed
  qed
qed

lemma handleEvent_fold:
  assumes keeps: "\<And>k. keeps_dispatch c (run_callback run runRead c t k)"
  shows "handleEvent run runRead c t s =
    (let s1 = upd_chan c (\<lambda>ch. ch\<lparr>ch_eventHanding := True\<rparr>) s in
     bnd (fold_res (run_callback run runRead c t) (dispatch (ch_revent (chans s c))) s1)
       (\<lambda>s'. Inr (upd_chan c (\<lambda>ch. ch\<lparr>ch_eventHanding := False\<rparr>) s')))"
proof -
  let ?F = "fold_res (run_callback run runRead c t)"
  have k: "?F ks a = Inr b \<Longrightarrow> ch_revent (chans b c) = ch_revent (chans a c)" for ks a b
    using keeps_fold [OF keeps] by (rule keeps_dispatchD(1))
  have s1: "ch_revent (chans (upd_chan c (\<lambda>ch. ch\<lparr>ch_eventHanding := True\<rparr>) s) c) = ch_revent (chans s c)"
    by (simp add: upd_chan_def)
  show ?thesis
    unfolding handleEvent_def Let_def dispatch_def fold_res_append bnd_assoc
    unfolding s1
    by (intro bnd_cong refl)
      (auto dest!: k simp: s1 call_if_def run_callback_def run_kind_def split: option.splits)
qed

text \<open>C25. Handling the events of a channel runs exactly the callbacks that were set for them,
  in the order close, error, read, write: close only when \<open>POLLHUP\<close> comes with \<open>POLLIN\<close>, error on
  \<open>POLLNVAL\<close> or \<open>POLLERR\<close>, read on \<open>POLLIN\<close>, \<open>POLLPRI\<close> or \<open>POLLRDHUP\<close>, with the time the poll
  returned, write on \<open>POLLOUT\<close>; a fault in one of them stops the rest, and the channel is marked as
  being handled for the whole time. A hang-up reported alone runs nothing, so a level-triggered
  poll reports it again.\<close>

theorem handleEvent_selected:
  assumes run: "\<And>f. keeps_dispatch c (run f)" and runRead: "\<And>f. keeps_dispatch c (runRead f t)"
  shows "handleEvent run runRead c t s =
      bnd (fold_res (\<lambda>(k, f). run_kind run runRead t k f) (selected (chans s c))
             (upd_chan c (\<lambda>ch. ch\<lparr>ch_eventHanding := True\<rparr>) s))
        (\<lambda>s'. Inr (upd_chan c (\<lambda>ch. ch\<lparr>ch_eventHanding := False\<rparr>) s'))
    \<and> (ch_revent (chans s c) = POLLHUP \<longrightarrow>
        handleEvent run runRead c t s = Inr (upd_chan c (\<lambda>ch. ch\<lparr>ch_eventHanding := False\<rparr>) s))"
proof -
  note keeps = keeps_run_callback [of c run runRead t, OF run runRead]
  let ?s1 = "upd_chan c (\<lambda>ch. ch\<lparr>ch_eventHanding := True\<rparr>) s"
  have cb: "callback_of (chans ?s1 c) = callback_of (chans s c)"
  proof
    fix k show "callback_of (chans ?s1 c) k = callback_of (chans s c) k"
      by (cases k) (simp_all add: upd_chan_def)
  qed
  note sel = fold_selected [OF keeps cb, of "dispatch (ch_revent (chans s c))", folded selected_def]
  have eq: "handleEvent run runRead c t s =
      bnd (fold_res (\<lambda>(k, f). run_kind run runRead t k f) (selected (chans s c)) ?s1)
        (\<lambda>s'. Inr (upd_chan c (\<lambda>ch. ch\<lparr>ch_eventHanding := False\<rparr>) s'))"
    unfolding handleEvent_fold [OF keeps] Let_def sel ..
  moreover have "handleEvent run runRead c t s = Inr (upd_chan c (\<lambda>ch. ch\<lparr>ch_eventHanding := False\<rparr>) s)"
    if "ch_revent (chans s c) = POLLHUP"
  proof -
    have "dispatch POLLHUP = []" by (simp add: dispatch_def poll_bits)
    with that have "selected (chans s c) = []" by (simp add: selected_def map_filter_simps)
    then show ?thesis unfolding eq by (simp add: upd_chan_def)
  qed
  ultimately show ?thesis by blast
qed

text \<open>A state that records which callbacks ran, for the witness.\<close>

record traced_heap = "nat chan_heap" +
  calls :: "nat list"

definition sample_channel :: "32 word \<Rightarrow> nat channel" where
  "sample_channel revent = setEvent revent (setReadCallBack 3 (setWriteCallBack 4
     (setErrorCallBack 2 (setCloseCallBack 1 (channel_new 0 5)))))"

definition sample_heap :: "32 word \<Rightarrow> traced_heap" where
  "sample_heap revent = \<lparr>chans = (\<lambda>_. sample_channel revent), calls = []\<rparr>"

definition note_call :: "nat \<Rightarrow> traced_heap \<Rightarrow> traced_heap res" where
  "note_call f s = Inr (s\<lparr>calls := calls s @ [f]\<rparr>)"

lemma handleEvent_selected_witness:
  "(\<exists>s'. handleEvent note_call (\<lambda>f t. note_call (f + nat t)) 0 10
        (sample_heap (POLLIN OR POLLHUP OR POLLERR OR POLLOUT)) = Inr s' \<and> calls s' = [1, 2, 13, 4])
   \<and> handleEvent note_call (\<lambda>f t. note_call (f + nat t)) 0 10 (sample_heap POLLHUP)
      = Inr (upd_chan 0 (\<lambda>ch. ch\<lparr>ch_eventHanding := False\<rparr>) (sample_heap POLLHUP))"
proof -
  have k: "\<And>f. keeps_dispatch 0 (note_call f)"
    by (simp add: keeps_dispatch_def note_call_def)
  note he = handleEvent_selected [of 0 note_call "\<lambda>f t. note_call (f + nat t)" 10, OF k k]
  have "selected (chans (sample_heap (POLLIN OR POLLHUP OR POLLERR OR POLLOUT)) 0)
      = [(CloseCB, 1), (ErrorCB, 2), (ReadCB, 3), (WriteCB, 4)]"
    by (simp add: selected_def sample_heap_def sample_channel_def dispatch_def poll_bits map_filter_simps
        setEvent_def setReadCallBack_def setWriteCallBack_def setErrorCallBack_def setCloseCallBack_def)
  then have "\<exists>s'. handleEvent note_call (\<lambda>f t. note_call (f + nat t)) 0 10
        (sample_heap (POLLIN OR POLLHUP OR POLLERR OR POLLOUT)) = Inr s' \<and> calls s' = [1, 2, 13, 4]"
    using he [of "sample_heap (POLLIN OR POLLHUP OR POLLERR OR POLLOUT)", THEN conjunct1]
    by (simp add: run_kind_def note_call_def upd_chan_def sample_heap_def)
  moreover have "ch_revent (chans (sample_heap POLLHUP) 0) = POLLHUP"
    by (simp add: sample_heap_def sample_channel_def setEvent_def)
  then have "handleEvent note_call (\<lambda>f t. note_call (f + nat t)) 0 10 (sample_heap POLLHUP)
      = Inr (upd_chan 0 (\<lambda>ch. ch\<lparr>ch_eventHanding := False\<rparr>) (sample_heap POLLHUP))"
    using he [of "sample_heap POLLHUP"] by blast
  ultimately show ?thesis by blast
qed

end
