(* ===== verification/PollerSpec.thy ===== *)
theory PollerSpec
  imports Channel
begin

text \<open>
  What the event loop and its channels expect of the object that waits for events, whichever of
  \<open>Poller\<close> (src/poller.cpp) and \<open>Epoller\<close> (src/epoller.cpp) the build selects: a registry from
  descriptors to channels, changed by \<open>updateChannel\<close> and \<open>removeChannel\<close>. The locale
  \<open>channel_poller\<close> holds the laws of the two operations; its theorem is that every run of them
  that follows the protocol of the callers ends without a false assertion.
\<close>

section \<open>Runs of a client\<close>

text \<open>\<open>Watch c ev\<close>: the owner sets the event bits of channel \<open>c\<close> and calls \<open>update()\<close>;
  \<open>Unwatch c\<close>: it calls \<open>removeChannel\<close>.\<close>

datatype poll_op = Watch nat "32 word" | Unwatch nat

text \<open>The client's view: the channels never registered yet, the registry, and the event bits.\<close>

record registry =
  rg_fresh :: "nat set"
  rg_reg :: "int \<rightharpoonup> nat"
  rg_event :: "nat \<Rightarrow> 32 word"

text \<open>The protocol: a channel is registered once, on a descriptor that is free, and it is removed
  when it has no events.\<close>

fun legal :: "(nat \<Rightarrow> int) \<Rightarrow> poll_op \<Rightarrow> registry \<Rightarrow> bool" where
  "legal fdof (Watch c ev) g \<longleftrightarrow>
     rg_reg g (fdof c) = Some c \<or> rg_reg g (fdof c) = None \<and> c \<in> rg_fresh g \<and> 0 \<le> fdof c"
| "legal fdof (Unwatch c) g \<longleftrightarrow> rg_reg g (fdof c) = Some c \<and> rg_event g c = kNoneEvent"

fun registry_step :: "(nat \<Rightarrow> int) \<Rightarrow> poll_op \<Rightarrow> registry \<Rightarrow> registry" where
  "registry_step fdof (Watch c ev) g =
     g\<lparr>rg_fresh := rg_fresh g - {c}, rg_reg := (rg_reg g)(fdof c \<mapsto> c),
       rg_event := (rg_event g)(c := ev)\<rparr>"
| "registry_step fdof (Unwatch c) g = g\<lparr>rg_reg := (rg_reg g)(fdof c := None)\<rparr>"

fun legal_run :: "(nat \<Rightarrow> int) \<Rightarrow> poll_op list \<Rightarrow> registry \<Rightarrow> bool" where
  "legal_run fdof [] g \<longleftrightarrow> True"
| "legal_run fdof (x # xs) g \<longleftrightarrow> legal fdof x g \<and> legal_run fdof xs (registry_step fdof x g)"

definition registry_run :: "(nat \<Rightarrow> int) \<Rightarrow> poll_op list \<Rightarrow> registry \<Rightarrow> registry" where
  "registry_run fdof xs g = fold (registry_step fdof) xs g"

definition registry_empty :: registry where
  "registry_empty = \<lparr>rg_fresh = UNIV, rg_reg = Map.empty, rg_event = (\<lambda>_. 0)\<rparr>"

text \<open>How a run acts on a poller and the channels, for given operations of the poller.\<close>

fun poll_exec ::
  "(nat \<Rightarrow> 'p \<Rightarrow> (nat \<Rightarrow> 'cb channel) \<Rightarrow> ('p \<times> (nat \<Rightarrow> 'cb channel)) res)
    \<Rightarrow> (nat \<Rightarrow> 'p \<Rightarrow> (nat \<Rightarrow> 'cb channel) \<Rightarrow> ('p \<times> (nat \<Rightarrow> 'cb channel)) res)
    \<Rightarrow> poll_op \<Rightarrow> 'p \<times> (nat \<Rightarrow> 'cb channel) \<Rightarrow> ('p \<times> (nat \<Rightarrow> 'cb channel)) res" where
  "poll_exec upd rem (Watch c ev) (p, cs) = upd c p (cs(c := (cs c)\<lparr>ch_event := ev\<rparr>))"
| "poll_exec upd rem (Unwatch c) (p, cs) = rem c p cs"

definition registry_agrees ::
  "('p \<Rightarrow> (nat \<Rightarrow> 'cb channel) \<Rightarrow> bool) \<Rightarrow> ('p \<Rightarrow> int \<Rightarrow> nat option) \<Rightarrow> (nat \<Rightarrow> int) \<Rightarrow> registry
    \<Rightarrow> 'p \<times> (nat \<Rightarrow> 'cb channel) \<Rightarrow> bool" where
  "registry_agrees pinv reg fdof g s \<longleftrightarrow> pinv (fst s) (snd s) \<and> reg (fst s) = rg_reg g
     \<and> (\<forall>c. ch_fd (snd s c) = fdof c) \<and> (\<forall>c. ch_event (snd s c) = rg_event g c)
     \<and> (\<forall>c\<in>rg_fresh g. ch_index (snd s c) = -1) \<and> rg_fresh g \<inter> ran (rg_reg g) = {}"

text \<open>The operations may change nothing of a channel but its index, and the index of no channel
  outside the registry.\<close>

definition same_but_index :: "(nat \<Rightarrow> 'cb channel) \<Rightarrow> (nat \<Rightarrow> 'cb channel) \<Rightarrow> bool" where
  "same_but_index cs cs' \<longleftrightarrow> (\<forall>c. cs' c = (cs c)\<lparr>ch_index := ch_index (cs' c)\<rparr>)"

definition outside_kept :: "(int \<rightharpoonup> nat) \<Rightarrow> nat \<Rightarrow> (nat \<Rightarrow> 'cb channel) \<Rightarrow> (nat \<Rightarrow> 'cb channel) \<Rightarrow> bool" where
  "outside_kept r c cs cs' \<longleftrightarrow> (\<forall>d. d \<noteq> c \<longrightarrow> d \<notin> ran r \<longrightarrow> ch_index (cs' d) = ch_index (cs d))"

lemma same_but_indexD:
  assumes "same_but_index cs cs'"
  shows "ch_fd (cs' c) = ch_fd (cs c)" and "ch_event (cs' c) = ch_event (cs c)"
proof -
  have e: "cs' c = (cs c)\<lparr>ch_index := ch_index (cs' c)\<rparr>"
    using assms by (simp only: same_but_index_def)
  show "ch_fd (cs' c) = ch_fd (cs c)" by (subst e) simp
  show "ch_event (cs' c) = ch_event (cs c)" by (subst e) simp
qed

lemma same_but_index_refl: "same_but_index cs cs"
  by (simp add: same_but_index_def)

lemma same_but_index_upd: "same_but_index cs (cs(c := setIndex i (cs c)))"
  by (simp add: same_but_index_def setIndex_def)

lemma same_but_index_trans: "same_but_index a b \<Longrightarrow> same_but_index b c \<Longrightarrow> same_but_index a c"
proof -
  assume a: "same_but_index a b" and b: "same_but_index b c"
  have "c d = (a d)\<lparr>ch_index := ch_index (c d)\<rparr>" for d
  proof -
    have "c d = (b d)\<lparr>ch_index := ch_index (c d)\<rparr>" using b by (simp only: same_but_index_def)
    also have "\<dots> = ((a d)\<lparr>ch_index := ch_index (b d)\<rparr>)\<lparr>ch_index := ch_index (c d)\<rparr>"
      using a unfolding same_but_index_def by (metis channel.update_convs(5))
    finally show ?thesis by simp
  qed
  then show ?thesis by (simp only: same_but_index_def) blast
qed

section \<open>The contract\<close>

locale channel_poller =
  fixes pinv :: "'p \<Rightarrow> (nat \<Rightarrow> 'cb channel) \<Rightarrow> bool"
    and reg :: "'p \<Rightarrow> int \<Rightarrow> nat option"
    and upd :: "nat \<Rightarrow> 'p \<Rightarrow> (nat \<Rightarrow> 'cb channel) \<Rightarrow> ('p \<times> (nat \<Rightarrow> 'cb channel)) res"
    and rem :: "nat \<Rightarrow> 'p \<Rightarrow> (nat \<Rightarrow> 'cb channel) \<Rightarrow> ('p \<times> (nat \<Rightarrow> 'cb channel)) res"
  assumes inv_cong: "pinv p cs \<Longrightarrow> (\<And>c. ch_fd (cs' c) = ch_fd (cs c)) \<Longrightarrow>
        (\<And>c. ch_index (cs' c) = ch_index (cs c)) \<Longrightarrow> pinv p cs'"
    and reg_fd: "pinv p cs \<Longrightarrow> reg p fd = Some c \<Longrightarrow> ch_fd (cs c) = fd \<and> 0 \<le> fd"
    and upd_new: "pinv p cs \<Longrightarrow> ch_index (cs c) = -1 \<Longrightarrow> 0 \<le> ch_fd (cs c) \<Longrightarrow> reg p (ch_fd (cs c)) = None
        \<Longrightarrow> \<exists>p' cs'. upd c p cs = Inr (p', cs') \<and> pinv p' cs' \<and> reg p' = (reg p)(ch_fd (cs c) \<mapsto> c)
              \<and> same_but_index cs cs' \<and> outside_kept (reg p) c cs cs'"
    and upd_old: "pinv p cs \<Longrightarrow> reg p (ch_fd (cs c)) = Some c
        \<Longrightarrow> \<exists>p' cs'. upd c p cs = Inr (p', cs') \<and> pinv p' cs' \<and> reg p' = reg p
              \<and> same_but_index cs cs' \<and> outside_kept (reg p) c cs cs'"
    and rem_ok: "pinv p cs \<Longrightarrow> reg p (ch_fd (cs c)) = Some c \<Longrightarrow> isNoneEvent (cs c)
        \<Longrightarrow> \<exists>p' cs'. rem c p cs = Inr (p', cs') \<and> pinv p' cs' \<and> reg p' = (reg p)(ch_fd (cs c) := None)
              \<and> same_but_index cs cs' \<and> outside_kept (reg p) c cs cs'"
begin

abbreviation agrees where "agrees \<equiv> registry_agrees pinv reg"

abbreviation exec where "exec \<equiv> poll_exec upd rem"

text \<open>What the laws give of one step, whichever of them applies.\<close>

lemma agrees_step:
  assumes ag: "agrees fdof g (p, cs)" and pinv': "pinv p' cs'" and ev: "\<And>c. ch_event (cs1 c) = rg_event g' c"
    and fd: "\<And>c. ch_fd (cs1 c) = ch_fd (cs c)" and ix: "\<And>c. ch_index (cs1 c) = ch_index (cs c)"
    and same: "same_but_index cs1 cs'" and out: "outside_kept (rg_reg g) c cs1 cs'"
    and g': "reg p' = rg_reg g'" "rg_fresh g' \<subseteq> rg_fresh g - {c}" "ran (rg_reg g') \<subseteq> insert c (ran (rg_reg g))"
  shows "agrees fdof g' (p', cs')"
proof -
  have "ch_fd (cs' d) = fdof d" for d
    using same_but_indexD(1) [OF same, of d] fd ag by (simp add: registry_agrees_def)
  moreover have "ch_event (cs' d) = rg_event g' d" for d
    using same_but_indexD(2) [OF same, of d] ev by simp
  moreover have "ch_index (cs' d) = -1" if "d \<in> rg_fresh g'" for d
  proof -
    from that g' ag have "d \<noteq> c" "d \<notin> ran (rg_reg g)" "d \<in> rg_fresh g"
      by (auto simp: registry_agrees_def)
    with out ix ag show ?thesis by (simp add: outside_kept_def registry_agrees_def)
  qed
  moreover have "rg_fresh g' \<inter> ran (rg_reg g') = {}"
    using g' ag unfolding registry_agrees_def by blast
  ultimately show ?thesis using pinv' g' by (simp add: registry_agrees_def)
qed

lemma exec_legal:
  assumes ag: "agrees fdof g (p, cs)" and le: "legal fdof op g"
  shows "\<exists>s'. exec op (p, cs) = Inr s' \<and> agrees fdof (registry_step fdof op g) s'"
proof (cases op)
  case (Watch c ev)
  let ?cs = "cs(c := (cs c)\<lparr>ch_event := ev\<rparr>)"
  have pinv: "pinv p ?cs" using ag by (auto simp: registry_agrees_def intro: inv_cong)
  have fdc: "ch_fd (?cs c) = fdof c" and reg: "reg p = rg_reg g"
    using ag by (simp_all add: registry_agrees_def)
  have fin: "agrees fdof (registry_step fdof op g) (p', cs')"
    if "pinv p' cs'" "same_but_index ?cs cs'" "outside_kept (reg p) c ?cs cs'"
       "reg p' = (reg p)(fdof c \<mapsto> c)" for p' cs'
    by (rule agrees_step [OF ag that(1) _ _ _ that(2), of _ c])
       (use ag that in \<open>auto simp: Watch reg registry_agrees_def ran_def split: if_splits\<close>)
  from le consider (old) "reg p (fdof c) = Some c"
    | (new) "reg p (fdof c) = None" "c \<in> rg_fresh g" "0 \<le> fdof c"
    by (auto simp: Watch reg)
  then show ?thesis
  proof cases
    case old
    then have "(reg p)(fdof c \<mapsto> c) = reg p" by (simp add: map_upd_triv)
    with upd_old [OF pinv, of c] old fdc fin show ?thesis by (auto simp: Watch)
  next
    case new
    then have "ch_index (?cs c) = -1" using ag by (simp add: registry_agrees_def)
    with upd_new [OF pinv, of c] new fdc fin show ?thesis by (auto simp: Watch)
  qed
next
  case (Unwatch c)
  have pinv: "pinv p cs" and fdc: "ch_fd (cs c) = fdof c" and reg: "reg p = rg_reg g"
    and ev: "ch_event (cs c) = rg_event g c"
    using ag by (simp_all add: registry_agrees_def)
  have "reg p (ch_fd (cs c)) = Some c" "isNoneEvent (cs c)"
    using le by (auto simp: Unwatch reg fdc ev isNoneEvent_def)
  from rem_ok [OF pinv this] obtain p' cs' where
    "rem c p cs = Inr (p', cs')" and r: "pinv p' cs'" "reg p' = (reg p)(fdof c := None)"
      "same_but_index cs cs'" "outside_kept (reg p) c cs cs'"
    by (auto simp: fdc)
  moreover have "agrees fdof (registry_step fdof op g) (p', cs')"
  proof (rule agrees_step [OF ag r(1) _ _ _ r(3), of _ c])
    have "c \<in> ran (rg_reg g)" using le by (auto simp: Unwatch intro: ranI)
    then show "rg_fresh (registry_step fdof op g) \<subseteq> rg_fresh g - {c}"
      using ag by (auto simp: Unwatch registry_agrees_def)
    show "ran (rg_reg (registry_step fdof op g)) \<subseteq> insert c (ran (rg_reg g))"
      by (auto simp: Unwatch ran_def split: if_splits)
  qed (use ag r in \<open>simp_all add: Unwatch reg registry_agrees_def\<close>)
  ultimately show ?thesis by (simp add: Unwatch)
qed

theorem run_legal:
  "agrees fdof g s \<Longrightarrow> legal_run fdof ops g
    \<Longrightarrow> \<exists>s'. fold_res exec ops s = Inr s' \<and> agrees fdof (registry_run fdof ops g) s'"
proof (induction ops arbitrary: g s)
  case Nil
  then show ?case by (simp add: registry_run_def)
next
  case (Cons x ops)
  from Cons.prems exec_legal [of fdof g "fst s" "snd s" x] obtain s1
    where "exec x s = Inr s1" "agrees fdof (registry_step fdof x g) s1" by auto
  with Cons.IH [of "registry_step fdof x g" s1] Cons.prems show ?case
    by (simp add: registry_run_def)
qed

end

end
