(* ===== verification/Epoller.thy ===== *)
theory Epoller
  imports PollerSpec
begin

text \<open>
  The poller of src/epoller.h and src/epoller.cpp. The kernel's side of \<open>epoll_ctl\<close> is a
  parameter \<open>ctl\<close>, which says whether a call succeeds after the calls made before it; the state
  keeps those calls. Its documented behaviour, on which the theorems rest, is that adding a
  descriptor succeeds when it is not in the interest list, and changing or deleting one when it
  is. The answer of \<open>epoll_wait\<close> is an argument of the poll.
\<close>

section \<open>The model\<close>

datatype ctl_op = CtlAdd | CtlMod | CtlDel

datatype ctl_call = Ctl ctl_op int "32 word" nat

record epoller =
  ep_events :: "(32 word \<times> nat option) list"
  ep_channels :: "int \<rightharpoonup> nat"
  ep_calls :: "ctl_call list"

definition kNew :: int where "kNew = -1"

definition kAdded :: int where "kAdded = 1"

definition kDelete :: int where "kDelete = -2"

definition kInitEventListSize :: nat where "kInitEventListSize = 16"

text \<open>The constructor, for the descriptor \<open>epoll_create1\<close> returned.\<close>

definition epoller_new :: "int \<Rightarrow> epoller res" where
  "epoller_new epollfd = fatal_unless (\<not> epollfd < 0)
     (Inr \<lparr>ep_events = replicate kInitEventListSize (0, None), ep_channels = Map.empty, ep_calls = []\<rparr>)"

definition epoller_update ::
  "(ctl_call list \<Rightarrow> ctl_call \<Rightarrow> bool) \<Rightarrow> ctl_op \<Rightarrow> nat \<Rightarrow> epoller \<Rightarrow> (nat \<Rightarrow> 'cb channel) \<Rightarrow> epoller res" where
  "epoller_update ctl operation c ep cs =
     (let call = Ctl operation (ch_fd (cs c)) (ch_event (cs c)) c;
          failed = \<not> ctl (ep_calls ep) call;
          ep = ep\<lparr>ep_calls := ep_calls ep @ [call]\<rparr>
      in if failed then
           if operation = CtlDel then Inr ep else Inl ExitFailure
         else Inr ep)"

definition epoller_updateChannel ::
  "(ctl_call list \<Rightarrow> ctl_call \<Rightarrow> bool) \<Rightarrow> bool \<Rightarrow> nat \<Rightarrow> epoller \<Rightarrow> (nat \<Rightarrow> 'cb channel)
    \<Rightarrow> (epoller \<times> (nat \<Rightarrow> 'cb channel)) res" where
  "epoller_updateChannel ctl inLoopThread c ep cs =
     fatal_unless inLoopThread
     (let index = ch_index (cs c); fd = ch_fd (cs c) in
      if index = kNew \<or> index = kDelete then
        bnd (if index = kNew then
               must (ep_channels ep fd = None) (Inr (ep\<lparr>ep_channels := (ep_channels ep)(fd \<mapsto> c)\<rparr>))
             else
               must (ep_channels ep fd \<noteq> None) (must (ep_channels ep fd = Some c) (Inr ep)))
          (\<lambda>ep. let cs = cs(c := setIndex kAdded (cs c)) in
             bnd (epoller_update ctl CtlAdd c ep cs) (\<lambda>ep. Inr (ep, cs)))
      else
        must (ep_channels ep fd \<noteq> None) (must (ep_channels ep fd = Some c)
        (if isNoneEvent (cs c) then
           bnd (epoller_update ctl CtlDel c ep cs) (\<lambda>ep. Inr (ep, cs(c := setIndex kDelete (cs c))))
         else
           bnd (epoller_update ctl CtlMod c ep cs) (\<lambda>ep. Inr (ep, cs)))))"

definition epoller_removeChannel ::
  "(ctl_call list \<Rightarrow> ctl_call \<Rightarrow> bool) \<Rightarrow> bool \<Rightarrow> nat \<Rightarrow> epoller \<Rightarrow> (nat \<Rightarrow> 'cb channel)
    \<Rightarrow> (epoller \<times> (nat \<Rightarrow> 'cb channel)) res" where
  "epoller_removeChannel ctl inLoopThread c ep cs =
     fatal_unless inLoopThread
     (let fd = ch_fd (cs c); index = ch_index (cs c) in
      must (ep_channels ep fd \<noteq> None)
      (must (ep_channels ep fd = Some c)
      (must (isNoneEvent (cs c))
      (must (index = kAdded \<or> index = kDelete)
      (let ep = ep\<lparr>ep_channels := (ep_channels ep)(fd := None)\<rparr> in
       bnd (if index = kAdded then epoller_update ctl CtlDel c ep cs else Inr ep)
         (\<lambda>ep. Inr (ep, cs(c := setIndex kNew (cs c)))))))))"

fun epoller_fill_loop ::
  "(int \<rightharpoonup> nat) \<Rightarrow> (32 word \<times> nat option) list \<Rightarrow> nat list \<Rightarrow> (nat \<Rightarrow> 'cb channel)
    \<Rightarrow> (nat list \<times> (nat \<Rightarrow> 'cb channel)) res" where
  "epoller_fill_loop channels [] active cs = Inr (active, cs)"
| "epoller_fill_loop channels ((events, ptr) # es) active cs =
     (case ptr of
        None \<Rightarrow> Inl BadPointer
      | Some c \<Rightarrow>
          must (channels (ch_fd (cs c)) \<noteq> None)
          (must (channels (ch_fd (cs c)) = Some c)
          (epoller_fill_loop channels es (active @ [c]) (cs(c := setEvent events (cs c))))))"

definition epoller_fill ::
  "nat \<Rightarrow> nat list \<Rightarrow> epoller \<Rightarrow> (nat \<Rightarrow> 'cb channel) \<Rightarrow> (nat list \<times> (nat \<Rightarrow> 'cb channel)) res" where
  "epoller_fill numEvents active ep cs =
     must (numEvents \<le> length (ep_events ep))
       (epoller_fill_loop (ep_channels ep) (take numEvents (ep_events ep)) active cs)"

definition epoller_poll ::
  "int \<Rightarrow> (32 word \<times> nat) list \<Rightarrow> nat list \<Rightarrow> epoller \<Rightarrow> (nat \<Rightarrow> 'cb channel)
    \<Rightarrow> (nat list \<times> epoller \<times> (nat \<Rightarrow> 'cb channel)) res" where
  "epoller_poll numEvent answer active ep cs =
     (let ep = ep\<lparr>ep_events := blit (ep_events ep) 0 (map (map_prod id Some) answer)\<rparr> in
      if numEvent > 0 then
        bnd (epoller_fill (nat numEvent) active ep cs) (\<lambda>(active, cs).
          let n = length (ep_events ep);
              ep = (if nat numEvent = n
                    then ep\<lparr>ep_events := ep_events ep @ replicate n (0, None)\<rparr> else ep)
          in Inr (active, ep, cs))
      else Inr (active, ep, cs))"

section \<open>The kernel's interest list\<close>

text \<open>What a sequence of calls leaves in the interest list: events and user data by descriptor.\<close>

fun interest_step :: "ctl_call \<Rightarrow> (int \<rightharpoonup> 32 word \<times> nat) \<Rightarrow> int \<rightharpoonup> 32 word \<times> nat" where
  "interest_step (Ctl CtlAdd fd ev c) r = (if r fd = None then r(fd \<mapsto> (ev, c)) else r)"
| "interest_step (Ctl CtlMod fd ev c) r = (if r fd = None then r else r(fd \<mapsto> (ev, c)))"
| "interest_step (Ctl CtlDel fd ev c) r = r(fd := None)"

definition interest :: "ctl_call list \<Rightarrow> int \<rightharpoonup> 32 word \<times> nat" where
  "interest h = fold interest_step h Map.empty"

lemma interest_simps [simp]:
  "interest [] = Map.empty"
  "interest (h @ [call]) = interest_step call (interest h)"
  by (simp_all add: interest_def)

definition ctl_documented :: "(ctl_call list \<Rightarrow> ctl_call \<Rightarrow> bool) \<Rightarrow> bool" where
  "ctl_documented ctl \<longleftrightarrow>
     (\<forall>h fd ev c. interest h fd = None \<longrightarrow> ctl h (Ctl CtlAdd fd ev c))
   \<and> (\<forall>h fd ev c. interest h fd \<noteq> None \<longrightarrow> ctl h (Ctl CtlMod fd ev c) \<and> ctl h (Ctl CtlDel fd ev c))"

section \<open>The invariant\<close>

definition epoller_ok :: "epoller \<Rightarrow> (nat \<Rightarrow> 'cb channel) \<Rightarrow> bool" where
  "epoller_ok ep cs \<longleftrightarrow> 0 < length (ep_events ep)
   \<and> (\<forall>fd c. ep_channels ep fd = Some c \<longrightarrow> 0 \<le> fd \<and> ch_fd (cs c) = fd
        \<and> ch_index (cs c) = (if interest (ep_calls ep) fd = None then kDelete else kAdded))
   \<and> (\<forall>fd ev c. interest (ep_calls ep) fd = Some (ev, c) \<longrightarrow> ep_channels ep fd = Some c)"

lemma epoller_okD:
  assumes "epoller_ok ep cs" and "ep_channels ep fd = Some c"
  shows "0 \<le> fd" and "ch_fd (cs c) = fd"
    and "ch_index (cs c) = (if interest (ep_calls ep) fd = None then kDelete else kAdded)"
  using assms unfolding epoller_ok_def by blast+

lemma epoller_ok_interest:
  "epoller_ok ep cs \<Longrightarrow> interest (ep_calls ep) fd = Some (ev, c) \<Longrightarrow> ep_channels ep fd = Some c"
  by (simp add: epoller_ok_def)

lemma epoller_ok_free: "epoller_ok ep cs \<Longrightarrow> ep_channels ep fd = None \<Longrightarrow> interest (ep_calls ep) fd = None"
  by (cases "interest (ep_calls ep) fd") (auto dest: epoller_ok_interest)

lemma epoller_ok_events: "epoller_ok ep cs \<Longrightarrow> 0 < length (ep_events ep)"
  by (simp add: epoller_ok_def)

lemma epoller_ok_cong:
  assumes "epoller_ok ep cs" and "\<And>c. ch_fd (cs' c) = ch_fd (cs c)"
    and "\<And>c. ch_index (cs' c) = ch_index (cs c)"
  shows "epoller_ok ep cs'"
  using assms(1) unfolding epoller_ok_def assms(2, 3) .

lemma epoller_new_ok: "0 \<le> epollfd \<Longrightarrow> \<exists>ep. epoller_new epollfd = Inr ep \<and> epoller_ok ep cs
    \<and> ep_channels ep = Map.empty \<and> ep_calls ep = []"
  by (simp add: epoller_new_def epoller_ok_def kInitEventListSize_def)

text \<open>The invariant after a call and a change of one index: it is enough to look at that channel.\<close>

lemma epoller_ok_change:
  assumes ok: "epoller_ok ep cs" and fd: "0 \<le> fd" "ch_fd (cs c) = fd" "\<And>f. ep_channels ep f = Some c \<Longrightarrow> f = fd"
    and len: "0 < length (ep_events ep')"
    and other: "\<And>f. f \<noteq> fd \<Longrightarrow> ep_channels ep' f = ep_channels ep f"
      "\<And>f. f \<noteq> fd \<Longrightarrow> interest (ep_calls ep') f = interest (ep_calls ep) f"
      "\<And>d. d \<noteq> c \<Longrightarrow> cs' d = cs d"
    and here: "ch_fd (cs' c) = fd"
      "ep_channels ep' fd = Some c \<and> ch_index (cs' c) = (if interest (ep_calls ep') fd = None then kDelete else kAdded)
       \<or> ep_channels ep' fd = None"
      "\<And>ev d. interest (ep_calls ep') fd = Some (ev, d) \<Longrightarrow> ep_channels ep' fd = Some d"
  shows "epoller_ok ep' cs'"
proof -
  have "0 \<le> f \<and> ch_fd (cs' d) = f \<and> ch_index (cs' d) = (if interest (ep_calls ep') f = None then kDelete else kAdded)"
    if a: "ep_channels ep' f = Some d" for f d
  proof (cases "f = fd")
    case True
    with a here(2) have "d = c" by auto
    with a here(1,2) fd(1) True show ?thesis by auto
  next
    case False
    with a other(1) have r: "ep_channels ep f = Some d" by simp
    then have "d \<noteq> c" using fd(3) False by blast
    with epoller_okD [OF ok r] other(2) [OF False] other(3) show ?thesis by simp
  qed
  moreover have "ep_channels ep' f = Some d" if a: "interest (ep_calls ep') f = Some (ev, d)" for f ev d
  proof (cases "f = fd")
    case True
    with a here(3) show ?thesis by blast
  next
    case False
    with a other(2) have "interest (ep_calls ep) f = Some (ev, d)" by simp
    from epoller_ok_interest [OF ok this] other(1) [OF False] show ?thesis by simp
  qed
  ultimately show ?thesis using len unfolding epoller_ok_def by blast
qed

lemmas index_values = kNew_def kAdded_def kDelete_def

lemma epoller_update_accepted:
  assumes "ctl (ep_calls ep) (Ctl op (ch_fd (cs c)) (ch_event (cs c)) c)"
  shows "epoller_update ctl op c ep cs
    = Inr (ep\<lparr>ep_calls := ep_calls ep @ [Ctl op (ch_fd (cs c)) (ch_event (cs c)) c]\<rparr>)"
  using assms by (simp add: epoller_update_def Let_def)

section \<open>Updating and removing a channel\<close>

text \<open>What \<open>epoll_ctl\<close> is asked: to add a channel it does not watch, new or deleted before, and to change
  or delete one it watches.\<close>

lemma epoller_add:
  assumes doc: "ctl_documented ctl" and ok: "epoller_ok ep cs" and fd: "0 \<le> ch_fd (cs c)"
    and own: "\<And>f. ep_channels ep f = Some c \<Longrightarrow> f = ch_fd (cs c)"
    and none: "interest (ep_calls ep) (ch_fd (cs c)) = None"
    and idx: "ch_index (cs c) = kDelete \<and> ep_channels ep (ch_fd (cs c)) = Some c
      \<or> ch_index (cs c) = kNew \<and> ep_channels ep (ch_fd (cs c)) = None"
  shows "\<exists>ep'. epoller_updateChannel ctl True c ep cs = Inr (ep', cs(c := setIndex kAdded (cs c)))
    \<and> epoller_ok ep' (cs(c := setIndex kAdded (cs c)))
    \<and> ep_channels ep' = (ep_channels ep)(ch_fd (cs c) \<mapsto> c)
    \<and> interest (ep_calls ep') = (interest (ep_calls ep))(ch_fd (cs c) \<mapsto> (ch_event (cs c), c))"
proof -
  let ?fd = "ch_fd (cs c)" and ?ev = "ch_event (cs c)" and ?cs = "cs(c := setIndex kAdded (cs c))"
  let ?ep = "ep\<lparr>ep_channels := (ep_channels ep)(?fd \<mapsto> c), ep_calls := ep_calls ep @ [Ctl CtlAdd ?fd ?ev c]\<rparr>"
  have e: "ch_fd (?cs c) = ?fd" "ch_event (?cs c) = ?ev" by (simp_all add: setIndex_def)
  have acc: "ctl (ep_calls (ep\<lparr>ep_channels := (ep_channels ep)(?fd \<mapsto> c)\<rparr>)) (Ctl CtlAdd (ch_fd (?cs c)) (ch_event (?cs c)) c)"
    unfolding e using doc none by (simp add: ctl_documented_def)
  have keep: "ep\<lparr>ep_channels := (ep_channels ep)(?fd \<mapsto> c)\<rparr> = ep" if "ep_channels ep ?fd = Some c"
    using that by (simp add: map_upd_triv)
  have r: "epoller_updateChannel ctl True c ep cs = Inr (?ep, ?cs)"
    using idx epoller_update_accepted [where ctl = ctl and cs = ?cs and c = c, OF acc] keep unfolding e
    by (auto simp: epoller_updateChannel_def Let_def index_values)
  have "epoller_ok ?ep ?cs"
    by (rule epoller_ok_change [OF ok fd refl own]) (use epoller_ok_events [OF ok] none in \<open>auto simp: setIndex_def\<close>)
  with r none show ?thesis by (intro exI [of _ ?ep]) (simp del: fun_upd_apply)
qed

lemma epoller_modify:
  assumes doc: "ctl_documented ctl" and ok: "epoller_ok ep cs" and reg: "ep_channels ep (ch_fd (cs c)) = Some c"
    and some: "interest (ep_calls ep) (ch_fd (cs c)) \<noteq> None"
  defines "i \<equiv> if isNoneEvent (cs c) then kDelete else kAdded"
  shows "\<exists>ep'. epoller_updateChannel ctl True c ep cs = Inr (ep', cs(c := setIndex i (cs c)))
    \<and> epoller_ok ep' (cs(c := setIndex i (cs c))) \<and> ep_channels ep' = ep_channels ep
    \<and> interest (ep_calls ep') = (interest (ep_calls ep))(ch_fd (cs c) :=
        if isNoneEvent (cs c) then None else Some (ch_event (cs c), c))"
proof -
  let ?fd = "ch_fd (cs c)" and ?ev = "ch_event (cs c)" and ?cs = "cs(c := setIndex i (cs c))"
  let ?op = "if isNoneEvent (cs c) then CtlDel else CtlMod"
  let ?ep = "ep\<lparr>ep_calls := ep_calls ep @ [Ctl ?op ?fd ?ev c]\<rparr>"
  have fd: "0 \<le> ?fd" and idx: "ch_index (cs c) = kAdded" using epoller_okD [OF ok reg] some by simp_all
  have own: "f = ?fd" if "ep_channels ep f = Some c" for f using epoller_okD(2) [OF ok that] by simp
  have acc: "ctl (ep_calls ep) (Ctl ?op ?fd ?ev c)" using doc some by (simp add: ctl_documented_def)
  have triv: "cs(c := setIndex kAdded (cs c)) = cs" using idx by (simp add: setIndex_def fun_eq_iff)
  have r: "epoller_updateChannel ctl True c ep cs = Inr (?ep, ?cs)"
    using reg idx epoller_update_accepted [where ctl = ctl and cs = cs and c = c, OF acc] triv
    by (auto simp: epoller_updateChannel_def Let_def index_values i_def)
  have "epoller_ok ?ep ?cs"
    by (rule epoller_ok_change [OF ok fd refl own])
      (use reg some epoller_ok_events [OF ok] in \<open>auto simp: setIndex_def i_def split: if_splits\<close>)
  with r some show ?thesis by (intro exI [of _ ?ep]) auto
qed

text \<open>With a kernel that behaves as documented, updating a channel, new or registered, never ends
  the program: afterwards the kernel watches exactly the current events of the channel, or nothing
  when a watched channel has none left, and it watches the other descriptors as before. In contrast
  to the other poller a channel disabled earlier is watched again.\<close>

theorem epoller_update_interest:
  assumes doc: "ctl_documented ctl" and ok: "epoller_ok ep cs"
    and c: "ep_channels ep (ch_fd (cs c)) = Some c
      \<or> ch_index (cs c) = kNew \<and> ep_channels ep (ch_fd (cs c)) = None \<and> 0 \<le> ch_fd (cs c)"
  shows "\<exists>ep' i. epoller_updateChannel ctl True c ep cs = Inr (ep', cs(c := setIndex i (cs c)))
    \<and> epoller_ok ep' (cs(c := setIndex i (cs c)))
    \<and> ep_channels ep' = (ep_channels ep)(ch_fd (cs c) \<mapsto> c)
    \<and> interest (ep_calls ep') = (interest (ep_calls ep))(ch_fd (cs c) :=
        if ch_index (cs c) = kAdded \<and> isNoneEvent (cs c) then None else Some (ch_event (cs c), c))"
proof (cases "interest (ep_calls ep) (ch_fd (cs c)) = None")
  case True
  have fd: "0 \<le> ch_fd (cs c)" using c epoller_okD(1) [OF ok] by blast
  have own: "f = ch_fd (cs c)" if "ep_channels ep f = Some c" for f using epoller_okD(2) [OF ok that] by simp
  have idx: "ch_index (cs c) = kDelete \<and> ep_channels ep (ch_fd (cs c)) = Some c
      \<or> ch_index (cs c) = kNew \<and> ep_channels ep (ch_fd (cs c)) = None"
    using c epoller_okD(3) [OF ok, of "ch_fd (cs c)" c] True by auto
  then have "ch_index (cs c) \<noteq> kAdded" by (auto simp: index_values)
  with epoller_add [OF doc ok fd own True idx] show ?thesis by auto
next
  case False
  then have reg: "ep_channels ep (ch_fd (cs c)) = Some c" using c epoller_ok_free [OF ok, of "ch_fd (cs c)"] by auto
  then have "ch_index (cs c) = kAdded" using epoller_okD(3) [OF ok reg] False by simp
  with epoller_modify [OF doc ok reg False] reg show ?thesis by (auto simp: map_upd_triv)
qed

lemma epoller_remove:
  assumes doc: "ctl_documented ctl" and ok: "epoller_ok ep cs"
    and reg: "ep_channels ep (ch_fd (cs c)) = Some c" and none: "isNoneEvent (cs c)"
  shows "\<exists>ep'. epoller_removeChannel ctl True c ep cs = Inr (ep', cs(c := setIndex kNew (cs c)))
    \<and> epoller_ok ep' (cs(c := setIndex kNew (cs c)))
    \<and> ep_channels ep' = (ep_channels ep)(ch_fd (cs c) := None)"
proof -
  let ?fd = "ch_fd (cs c)" and ?ch = "(ep_channels ep)(ch_fd (cs c) := None)"
  let ?calls = "if interest (ep_calls ep) ?fd = None then ep_calls ep
    else ep_calls ep @ [Ctl CtlDel ?fd (ch_event (cs c)) c]"
  let ?ep = "ep\<lparr>ep_channels := ?ch, ep_calls := ?calls\<rparr>"
  let ?cs = "cs(c := setIndex kNew (cs c))"
  have own: "f = ?fd" if "ep_channels ep f = Some c" for f
    using epoller_okD(2) [OF ok that] by simp
  have r: "epoller_removeChannel ctl True c ep cs = Inr (?ep, ?cs)"
  proof (cases "interest (ep_calls ep) ?fd = None")
    case True
    then show ?thesis using reg none epoller_okD(3) [OF ok reg]
      by (simp add: epoller_removeChannel_def Let_def index_values)
  next
    case False
    have acc: "ctl (ep_calls (ep\<lparr>ep_channels := ?ch\<rparr>)) (Ctl CtlDel ?fd (ch_event (cs c)) c)"
      using doc False by (simp add: ctl_documented_def)
    show ?thesis using reg none epoller_okD(3) [OF ok reg] False epoller_update_accepted [where ctl = ctl and cs = cs and c = c, OF acc]
      by (simp add: epoller_removeChannel_def Let_def index_values)
  qed
  have "epoller_ok ?ep ?cs"
    by (rule epoller_ok_change [OF ok epoller_okD(1) [OF ok reg] refl own])
      (use epoller_ok_events [OF ok] in \<open>auto simp: setIndex_def split: if_splits\<close>)
  with r show ?thesis by (intro exI [of _ ?ep]) simp
qed

section \<open>The contract\<close>

locale epoll_kernel =
  fixes ctl :: "ctl_call list \<Rightarrow> ctl_call \<Rightarrow> bool"
  assumes documented: "ctl_documented ctl"

sublocale epoll_kernel \<subseteq> ep: channel_poller epoller_ok ep_channels
  "epoller_updateChannel ctl True" "epoller_removeChannel ctl True"
proof unfold_locales
  fix ep and cs cs' :: "nat \<Rightarrow> 'a channel"
  assume "epoller_ok ep cs" "\<And>c. ch_fd (cs' c) = ch_fd (cs c)" "\<And>c. ch_index (cs' c) = ch_index (cs c)"
  then show "epoller_ok ep cs'" by (rule epoller_ok_cong)
next
  fix ep and cs :: "nat \<Rightarrow> 'a channel" and fd c
  assume "epoller_ok ep cs" "ep_channels ep fd = Some c"
  then show "ch_fd (cs c) = fd \<and> 0 \<le> fd" using epoller_okD(1,2) by blast
next
  fix ep and cs :: "nat \<Rightarrow> 'a channel" and c
  assume a: "epoller_ok ep cs" "ch_index (cs c) = -1" "0 \<le> ch_fd (cs c)" "ep_channels ep (ch_fd (cs c)) = None"
  then have b: "ep_channels ep (ch_fd (cs c)) = Some c
      \<or> ch_index (cs c) = kNew \<and> ep_channels ep (ch_fd (cs c)) = None \<and> 0 \<le> ch_fd (cs c)"
    by (simp add: kNew_def)
  obtain ep' i where "epoller_updateChannel ctl True c ep cs = Inr (ep', cs(c := setIndex i (cs c)))"
    "epoller_ok ep' (cs(c := setIndex i (cs c)))" "ep_channels ep' = (ep_channels ep)(ch_fd (cs c) \<mapsto> c)"
    using epoller_update_interest [OF documented a(1) b] by blast
  then show "\<exists>p' cs'. epoller_updateChannel ctl True c ep cs = Inr (p', cs') \<and> epoller_ok p' cs'
      \<and> ep_channels p' = (ep_channels ep)(ch_fd (cs c) \<mapsto> c) \<and> same_but_index cs cs'
      \<and> outside_kept (ep_channels ep) c cs cs'"
    using same_but_index_upd [of cs c i]
    by (intro exI [of _ ep'] exI [of _ "cs(c := setIndex i (cs c))"]) (simp add: outside_kept_def)
next
  fix ep and cs :: "nat \<Rightarrow> 'a channel" and c
  assume a: "epoller_ok ep cs" "ep_channels ep (ch_fd (cs c)) = Some c"
  obtain ep' i where "epoller_updateChannel ctl True c ep cs = Inr (ep', cs(c := setIndex i (cs c)))"
    "epoller_ok ep' (cs(c := setIndex i (cs c)))" "ep_channels ep' = (ep_channels ep)(ch_fd (cs c) \<mapsto> c)"
    using epoller_update_interest [OF documented a(1) disjI1 [OF a(2)]] by blast
  moreover have "(ep_channels ep)(ch_fd (cs c) \<mapsto> c) = ep_channels ep" using a(2) by (rule map_upd_triv)
  ultimately show "\<exists>p' cs'. epoller_updateChannel ctl True c ep cs = Inr (p', cs') \<and> epoller_ok p' cs'
      \<and> ep_channels p' = ep_channels ep \<and> same_but_index cs cs' \<and> outside_kept (ep_channels ep) c cs cs'"
    using same_but_index_upd [of cs c i]
    by (intro exI [of _ ep'] exI [of _ "cs(c := setIndex i (cs c))"]) (simp add: outside_kept_def)
next
  fix ep and cs :: "nat \<Rightarrow> 'a channel" and c
  assume "epoller_ok ep cs" "ep_channels ep (ch_fd (cs c)) = Some c" "isNoneEvent (cs c)"
  from epoller_remove [OF documented this] obtain ep' where
    "epoller_removeChannel ctl True c ep cs = Inr (ep', cs(c := setIndex kNew (cs c)))"
    "epoller_ok ep' (cs(c := setIndex kNew (cs c)))" "ep_channels ep' = (ep_channels ep)(ch_fd (cs c) := None)"
    by blast
  then show "\<exists>p' cs'. epoller_removeChannel ctl True c ep cs = Inr (p', cs') \<and> epoller_ok p' cs'
      \<and> ep_channels p' = (ep_channels ep)(ch_fd (cs c) := None) \<and> same_but_index cs cs'
      \<and> outside_kept (ep_channels ep) c cs cs'"
    using same_but_index_upd [of cs c kNew]
    by (intro exI [of _ ep'] exI [of _ "cs(c := setIndex kNew (cs c))"]) (simp add: outside_kept_def)
qed

context epoll_kernel
begin

lemmas legal_runs = ep.run_legal

end

text \<open>A kernel that behaves as documented and refuses everything else.\<close>

fun strict_kernel :: "ctl_call list \<Rightarrow> ctl_call \<Rightarrow> bool" where
  "strict_kernel h (Ctl CtlAdd fd ev c) \<longleftrightarrow> interest h fd = None"
| "strict_kernel h (Ctl _ fd ev c) \<longleftrightarrow> interest h fd \<noteq> None"

lemma strict_kernel_documented: "ctl_documented strict_kernel"
  by (simp add: ctl_documented_def)

interpretation strict: epoll_kernel strict_kernel
  by unfold_locales (rule strict_kernel_documented)

definition sample_epoller :: epoller where
  "sample_epoller = \<lparr>ep_events = [(0, None), (0, None)], ep_channels = [3 \<mapsto> 0, 4 \<mapsto> 1],
     ep_calls = [Ctl CtlAdd 3 3 0, Ctl CtlAdd 4 3 1, Ctl CtlDel 4 0 1]\<rparr>"

definition sample_watched :: "nat \<Rightarrow> unit channel" where
  "sample_watched c = setIndex (if c = 0 then kAdded else if c = 1 then kDelete else kNew)
     ((channel_new 0 (int c + 3))\<lparr>ch_event := 3\<rparr>)"

lemma sample_interest: "interest (ep_calls sample_epoller) = [3 \<mapsto> (3, 0)]"
  by (auto simp: sample_epoller_def interest_def)

lemma sample_epoller_ok: "epoller_ok sample_epoller sample_watched"
  unfolding epoller_ok_def sample_interest
  by (auto simp: sample_epoller_def sample_watched_def setIndex_def channel_new_def index_values)

lemma epoller_update_interest_witness:
  "\<exists>ep' cs'. epoller_updateChannel strict_kernel True 1 sample_epoller sample_watched = Inr (ep', cs')
    \<and> interest (ep_calls ep') = [3 \<mapsto> (3, 0), 4 \<mapsto> (3, 1)]"
proof -
  have fd: "ch_fd (sample_watched 1) = 4" and ev: "ch_event (sample_watched 1) = 3"
    and ix: "ch_index (sample_watched 1) \<noteq> kAdded"
    by (simp_all add: sample_watched_def setIndex_def channel_new_def index_values)
  have "ep_channels sample_epoller (ch_fd (sample_watched 1)) = Some 1"
    unfolding fd by (simp add: sample_epoller_def)
  from epoller_update_interest [OF strict_kernel_documented sample_epoller_ok disjI1 [OF this]] ix
  show ?thesis unfolding sample_interest fd ev by auto
qed



section \<open>What a poll reports\<close>

text \<open>What epoll_wait(2) documents of its answer: at most as many events as the array holds, each
  with the user data of a descriptor in the interest list, no descriptor twice.\<close>

definition wait_documented :: "epoller \<Rightarrow> int \<Rightarrow> (32 word \<times> nat) list \<Rightarrow> bool" where
  "wait_documented ep numEvent answer \<longleftrightarrow>
     numEvent = int (length answer) \<and> length answer \<le> length (ep_events ep) \<and> distinct (map snd answer)
   \<and> (\<forall>c \<in> snd ` set answer. \<exists>fd ev. interest (ep_calls ep) fd = Some (ev, c))"

lemma epoller_fill_all:
  assumes "\<And>c. c \<in> snd ` set es \<Longrightarrow> channels (ch_fd (cs c)) = Some c" and "distinct (map snd es)"
  shows "epoller_fill_loop channels (map (map_prod id Some) es) active cs
    = Inr (active @ map snd es, fold (upd_at snd (\<lambda>e. setEvent (fst e))) es cs)"
  using assms
proof (induction es arbitrary: active cs)
  case Nil
  then show ?case by simp
next
  case (Cons e es)
  obtain ev c where e: "e = (ev, c)" by force
  have c: "channels (ch_fd (cs c)) = Some c" using Cons.prems(1) e by simp
  let ?cs = "cs(c := setEvent ev (cs c))"
  have "channels (ch_fd (?cs d)) = Some d" if "d \<in> snd ` set es" for d
    using that Cons.prems e by (auto simp: setEvent_def)
  moreover have "?cs = upd_at snd (\<lambda>e. setEvent (fst e)) e cs" by (simp add: upd_at_def e)
  ultimately show ?case using Cons.IH [of ?cs] Cons.prems(2) c e by simp
qed

text \<open>A poll appends to the active channels those of the kernel's answer in its order, each once,
  stores their events and changes no other channel; no assertion fails; and the array handed to
  \<open>epoll_wait\<close> doubles exactly when the answer filled it.\<close>

theorem epoll_reports:
  assumes ok: "epoller_ok ep cs" and doc: "wait_documented ep numEvent answer"
  shows "\<exists>ep' cs'. epoller_poll numEvent answer active ep cs = Inr (active @ map snd answer, ep', cs')
    \<and> epoller_ok ep' cs'
    \<and> length (ep_events ep') = (if length answer = length (ep_events ep) then 2 else 1) * length (ep_events ep)
    \<and> (\<forall>(ev, c) \<in> set answer. cs' c = setEvent ev (cs c)) \<and> (\<forall>c. c \<notin> snd ` set answer \<longrightarrow> cs' c = cs c)"
proof -
  let ?es = "map (map_prod id Some) answer"
  let ?ep = "ep\<lparr>ep_events := blit (ep_events ep) 0 ?es\<rparr>"
  let ?cs = "fold (upd_at snd (\<lambda>e. setEvent (fst e))) answer cs"
  have num: "numEvent = int (length answer)" and le: "length answer \<le> length (ep_events ep)"
    and dis: "distinct (map snd answer)"
    using doc by (auto simp: wait_documented_def)
  have len: "length (ep_events ?ep) = length (ep_events ep)" using le by simp
  have tk: "take (length answer) (ep_events ?ep) = ?es" by (simp add: blit_def)
  have "ep_channels ep (ch_fd (cs c)) = Some c" if "c \<in> snd ` set answer" for c
  proof -
    from doc that obtain fd ev where "interest (ep_calls ep) fd = Some (ev, c)"
      by (auto simp: wait_documented_def)
    then have "ep_channels ep fd = Some c" by (rule epoller_ok_interest [OF ok])
    then show ?thesis using epoller_okD(2) [OF ok] by blast
  qed
  from epoller_fill_all [OF this dis]
  have fill: "epoller_fill (length answer) active ?ep cs = Inr (active @ map snd answer, ?cs)"
    unfolding epoller_fill_def len tk using le by simp
  have at: "?cs c = setEvent ev (cs c)" if "(ev, c) \<in> set answer" for ev c
    using fold_upd_at [OF dis that, of "\<lambda>e. setEvent (fst e)" cs] by simp
  have other: "?cs c = cs c" if "c \<notin> snd ` set answer" for c
    using that by (rule fold_upd_at_other)
  have same: "ch_fd (?cs c) = ch_fd (cs c) \<and> ch_index (?cs c) = ch_index (cs c)" for c
    by (cases "c \<in> snd ` set answer") (use at other in \<open>auto simp: setEvent_def\<close>)
  have ok': "epoller_ok (ep\<lparr>ep_events := evs\<rparr>) ?cs" if "0 < length evs" for evs
    using epoller_ok_cong [OF ok, of ?cs] same that by (simp add: epoller_ok_def)
  let ?ep' = "if length answer = length (ep_events ep)
    then ep\<lparr>ep_events := ep_events ?ep @ replicate (length (ep_events ep)) (0, None)\<rparr> else ?ep"
  have none: "?cs = cs" if "answer = []" using that by simp
  have "epoller_poll numEvent answer active ep cs = Inr (active @ map snd answer, ?ep', ?cs)"
  proof (cases "answer = []")
    case True
    then show ?thesis using epoller_ok_events [OF ok] by (simp add: epoller_poll_def num blit_def)
  next
    case False
    then have "0 < numEvent" "nat numEvent = length answer" by (simp_all add: num)
    then show ?thesis using fill le by (simp add: epoller_poll_def Let_def)
  qed
  moreover have "epoller_ok ?ep' ?cs"
  proof (cases "length answer = length (ep_events ep)")
    case True
    then show ?thesis using ok' epoller_ok_events [OF ok] by simp
  next
    case False
    have "0 < length (blit (ep_events ep) 0 ?es)" using epoller_ok_events [OF ok] len by simp
    from ok' [OF this] False show ?thesis by simp
  qed
  moreover have "length (ep_events ?ep') = (if length answer = length (ep_events ep) then 2 else 1) * length (ep_events ep)"
    using len by simp
  ultimately show ?thesis using at other by (intro exI [of _ ?ep'] exI [of _ ?cs]) auto
qed

lemma epoll_reports_witness:
  "\<exists>ep' cs'. epoller_poll 1 [(4, 0)] [] sample_epoller sample_watched = Inr ([0], ep', cs')
    \<and> ch_revent (cs' 0) = POLLOUT \<and> length (ep_events ep') = 2"
proof -
  have d: "wait_documented sample_epoller 1 [(4, 0)]"
    unfolding wait_documented_def sample_interest by (auto simp: sample_epoller_def)
  show ?thesis using epoll_reports [OF sample_epoller_ok d, of "[]"]
    by (auto simp: sample_epoller_def setEvent_def poll_bits)
qed

end
