(* ===== verification/Poller.thy ===== *)
theory Poller
  imports PollerSpec
begin

text \<open>
  The poller of src/poller.h and src/poller.cpp, the default of the build: the array handed to
  \<open>poll(2)\<close> and a map from descriptors to channels, tied together by the index each channel
  stores. \<open>poll\<close> itself is the kernel's: its return value and the \<open>revents\<close> it writes are
  arguments. A descriptor is a non-negative \<open>int\<close>, so at most \<open>2^31\<close> channels exist and the
  casts of the sizes to \<open>int\<close> do not wrap.
\<close>

section \<open>The model\<close>

record pollfd =
  pfd_fd :: int
  pfd_events :: "16 word"
  pfd_revents :: "16 word"

record poller =
  pl_pollfds :: "pollfd list"
  pl_channels :: "int \<rightharpoonup> nat"

definition poller_new :: poller where
  "poller_new = \<lparr>pl_pollfds = [], pl_channels = Map.empty\<rparr>"

definition poller_updateChannel ::
  "bool \<Rightarrow> nat \<Rightarrow> poller \<Rightarrow> (nat \<Rightarrow> 'cb channel) \<Rightarrow> (poller \<times> (nat \<Rightarrow> 'cb channel)) res" where
  "poller_updateChannel inLoopThread c pl cs =
     fatal_unless inLoopThread
     (let ch = cs c; fds = pl_pollfds pl in
      if ch_index ch < 0 then
        must (pl_channels pl (ch_fd ch) = None)
        (let pfd = \<lparr>pfd_fd = ch_fd ch, pfd_events = ucast (ch_event ch), pfd_revents = 0\<rparr>;
             fds = fds @ [pfd];
             idx = int (length fds) - 1
         in Inr (\<lparr>pl_pollfds = fds, pl_channels = (pl_channels pl)(pfd_fd pfd \<mapsto> c)\<rparr>,
                 cs(c := setIndex idx ch)))
      else
        must (pl_channels pl (ch_fd ch) \<noteq> None)
        (must (pl_channels pl (ch_fd ch) = Some c)
        (let idx = ch_index ch in
         must (0 \<le> idx \<and> idx < int (length fds))
         (let pfd = fds ! nat idx in
          must (pfd_fd pfd = ch_fd ch \<or> pfd_fd pfd = - ch_fd ch - 1)
          (let pfd = pfd\<lparr>pfd_events := ucast (ch_event ch), pfd_revents := 0\<rparr>;
               pfd = (if isNoneEvent ch then pfd\<lparr>pfd_fd := - ch_fd ch - 1\<rparr> else pfd)
           in Inr (pl\<lparr>pl_pollfds := fds[nat idx := pfd]\<rparr>, cs))))))"

text \<open>The descriptor a slot belongs to, muted or not.\<close>

definition decoded :: "pollfd \<Rightarrow> int" where
  "decoded pfd = (if pfd_fd pfd < 0 then - pfd_fd pfd - 1 else pfd_fd pfd)"

definition poller_removeChannel ::
  "bool \<Rightarrow> nat \<Rightarrow> poller \<Rightarrow> (nat \<Rightarrow> 'cb channel) \<Rightarrow> (poller \<times> (nat \<Rightarrow> 'cb channel)) res" where
  "poller_removeChannel inLoopThread c pl cs =
     fatal_unless inLoopThread
     (let ch = cs c; fds = pl_pollfds pl; channels = pl_channels pl in
      must (channels (ch_fd ch) \<noteq> None)
      (must (channels (ch_fd ch) = Some c)
      (must (isNoneEvent ch)
      (let idx = ch_index ch in
       must (0 \<le> idx \<and> idx < int (length fds))
       (let channels = channels(ch_fd ch := None) in
        if nat idx = length fds - 1 then
          Inr (\<lparr>pl_pollfds = butlast fds, pl_channels = channels\<rparr>, cs)
        else
          let channelAtEnd = decoded (last fds);
              fds = fds[nat idx := last fds, length fds - 1 := fds ! nat idx]
          in case channels channelAtEnd of
               None \<Rightarrow> Inl BadPointer
             | Some d \<Rightarrow> Inr (\<lparr>pl_pollfds = butlast fds, pl_channels = channels\<rparr>,
                              cs(d := setIndex idx (cs d))))))))"

text \<open>\<open>fillActiveChannels\<close> walks the slots until \<open>nums\<close> of them were found; a \<open>short\<close> is
  compared as a signed number and widened with its sign.\<close>

fun poller_fill ::
  "(int \<rightharpoonup> nat) \<Rightarrow> pollfd list \<Rightarrow> int \<Rightarrow> nat list \<Rightarrow> (nat \<Rightarrow> 'cb channel)
    \<Rightarrow> (nat list \<times> (nat \<Rightarrow> 'cb channel)) res" where
  "poller_fill channels [] nums active cs = Inr (active, cs)"
| "poller_fill channels (pfd # fds) nums active cs =
     (if nums > 0 then
        if 0 < sint (pfd_revents pfd) then
          case channels (pfd_fd pfd) of
            None \<Rightarrow> Inl AssertFailed
          | Some c \<Rightarrow> poller_fill channels fds (nums - 1) (active @ [c])
                       (cs(c := setEvent (scast (pfd_revents pfd)) (cs c)))
        else poller_fill channels fds nums active cs
      else Inr (active, cs))"

definition poller_poll ::
  "int \<Rightarrow> 16 word list \<Rightarrow> nat list \<Rightarrow> poller \<Rightarrow> (nat \<Rightarrow> 'cb channel)
    \<Rightarrow> (nat list \<times> poller \<times> (nat \<Rightarrow> 'cb channel)) res" where
  "poller_poll nums revents active pl cs =
     (let pl = pl\<lparr>pl_pollfds := map2 (\<lambda>pfd r. pfd\<lparr>pfd_revents := r\<rparr>) (pl_pollfds pl) revents\<rparr> in
      if nums > 0 then
        bnd (poller_fill (pl_channels pl) (pl_pollfds pl) nums active cs)
          (\<lambda>(active, cs). Inr (active, pl, cs))
      else Inr (active, pl, cs))"

section \<open>The invariant\<close>

text \<open>The map and the array agree: a registered channel owns the slot its index names, and every
  slot is owned by the channel registered for its descriptor.\<close>

definition poller_ok :: "poller \<Rightarrow> (nat \<Rightarrow> 'cb channel) \<Rightarrow> bool" where
  "poller_ok pl cs \<longleftrightarrow>
     (\<forall>fd c. pl_channels pl fd = Some c \<longrightarrow> 0 \<le> fd \<and> ch_fd (cs c) = fd \<and> 0 \<le> ch_index (cs c)
        \<and> nat (ch_index (cs c)) < length (pl_pollfds pl)
        \<and> decoded (pl_pollfds pl ! nat (ch_index (cs c))) = fd)
   \<and> (\<forall>i < length (pl_pollfds pl). \<exists>c. pl_channels pl (decoded (pl_pollfds pl ! i)) = Some c
        \<and> ch_index (cs c) = int i)"

lemma poller_okD:
  assumes "poller_ok pl cs" and "pl_channels pl fd = Some c"
  shows "0 \<le> fd" and "ch_fd (cs c) = fd" and "0 \<le> ch_index (cs c)"
    and "nat (ch_index (cs c)) < length (pl_pollfds pl)"
    and "decoded (pl_pollfds pl ! nat (ch_index (cs c))) = fd"
    and "ch_index (cs c) < int (length (pl_pollfds pl))"
proof -
  have a: "0 \<le> fd \<and> ch_fd (cs c) = fd \<and> 0 \<le> ch_index (cs c)
        \<and> nat (ch_index (cs c)) < length (pl_pollfds pl)
        \<and> decoded (pl_pollfds pl ! nat (ch_index (cs c))) = fd"
    using assms unfolding poller_ok_def by blast
  then show "0 \<le> fd" and "ch_fd (cs c) = fd" and "0 \<le> ch_index (cs c)"
    and "nat (ch_index (cs c)) < length (pl_pollfds pl)"
    and "decoded (pl_pollfds pl ! nat (ch_index (cs c))) = fd" by blast+
  from a show "ch_index (cs c) < int (length (pl_pollfds pl))" by linarith
qed

lemma poller_ok_slot:
  assumes "poller_ok pl cs" and "i < length (pl_pollfds pl)"
  obtains c where "pl_channels pl (decoded (pl_pollfds pl ! i)) = Some c" and "ch_index (cs c) = int i"
  using assms by (auto simp: poller_ok_def)

lemma slot_inj:
  assumes "poller_ok pl cs" and "i < length (pl_pollfds pl)" and "j < length (pl_pollfds pl)"
    and "decoded (pl_pollfds pl ! i) = decoded (pl_pollfds pl ! j)"
  shows "i = j"
  using assms by (metis poller_ok_slot of_nat_eq_iff option.sel)

lemma index_inj:
  assumes ok: "poller_ok pl cs" and "pl_channels pl fd = Some c" and "pl_channels pl fd' = Some d"
    and "ch_index (cs c) = ch_index (cs d)"
  shows "fd = fd'"
  using poller_okD(5) [OF ok assms(2)] poller_okD(5) [OF ok assms(3)] assms(4) by simp

lemma decoded_cases: "0 \<le> fd \<Longrightarrow> decoded pfd = fd \<longleftrightarrow> pfd_fd pfd = fd \<or> pfd_fd pfd = - fd - 1"
  by (auto simp: decoded_def)

lemma poller_new_ok: "poller_ok poller_new cs"
  by (simp add: poller_ok_def poller_new_def)

lemma poller_ok_cong:
  assumes "poller_ok pl cs" and "\<And>c. ch_fd (cs' c) = ch_fd (cs c)"
    and "\<And>c. ch_index (cs' c) = ch_index (cs c)"
  shows "poller_ok pl cs'"
  using assms(1) unfolding poller_ok_def assms(2, 3) .

section \<open>The operations keep it\<close>

lemma poller_update_new:
  assumes ok: "poller_ok pl cs" and ix: "ch_index (cs c) < 0" and fd: "0 \<le> ch_fd (cs c)"
    and free: "pl_channels pl (ch_fd (cs c)) = None"
  shows "\<exists>pl'. poller_updateChannel True c pl cs
      = Inr (pl', cs(c := setIndex (int (length (pl_pollfds pl))) (cs c)))
    \<and> pl_pollfds pl' = pl_pollfds pl
         @ [\<lparr>pfd_fd = ch_fd (cs c), pfd_events = ucast (ch_event (cs c)), pfd_revents = 0\<rparr>]
    \<and> pl_channels pl' = (pl_channels pl)(ch_fd (cs c) \<mapsto> c)
    \<and> poller_ok pl' (cs(c := setIndex (int (length (pl_pollfds pl))) (cs c)))"
proof -
  let ?n = "length (pl_pollfds pl)"
  let ?pfd = "\<lparr>pfd_fd = ch_fd (cs c), pfd_events = ucast (ch_event (cs c)), pfd_revents = 0\<rparr>"
  let ?pl = "\<lparr>pl_pollfds = pl_pollfds pl @ [?pfd], pl_channels = (pl_channels pl)(ch_fd (cs c) \<mapsto> c)\<rparr>"
  let ?cs = "cs(c := setIndex (int ?n) (cs c))"
  have r: "poller_updateChannel True c pl cs = Inr (?pl, ?cs)"
    using ix free by (simp add: poller_updateChannel_def Let_def)
  have ne: "d \<noteq> c" if "pl_channels pl f = Some d" for f d
    using poller_okD(2) [OF ok that] free that by auto
  have dec: "decoded ?pfd = ch_fd (cs c)" using fd by (simp add: decoded_def)
  have "\<forall>f d. pl_channels ?pl f = Some d \<longrightarrow> 0 \<le> f \<and> ch_fd (?cs d) = f \<and> 0 \<le> ch_index (?cs d)
      \<and> nat (ch_index (?cs d)) < length (pl_pollfds ?pl)
      \<and> decoded (pl_pollfds ?pl ! nat (ch_index (?cs d))) = f"
  proof (intro allI impI)
    fix f d assume a: "pl_channels ?pl f = Some d"
    consider (here) "f = ch_fd (cs c)" "d = c" | (old) "pl_channels pl f = Some d" "d \<noteq> c"
    proof (cases "f = ch_fd (cs c)")
      case True
      have "d = c" using a unfolding True by simp
      with True show ?thesis by (rule that(1))
    next
      case False
      have old: "pl_channels pl f = Some d" using a False by simp
      show ?thesis by (rule that(2) [OF old ne [OF old]])
    qed
    then show "0 \<le> f \<and> ch_fd (?cs d) = f \<and> 0 \<le> ch_index (?cs d)
      \<and> nat (ch_index (?cs d)) < length (pl_pollfds ?pl)
      \<and> decoded (pl_pollfds ?pl ! nat (ch_index (?cs d))) = f"
    proof cases
      case here
      with fd dec show ?thesis by (simp add: setIndex_def)
    next
      case old
      note D = poller_okD [OF ok old(1)]
      have "(pl_pollfds pl @ [?pfd]) ! nat (ch_index (cs d)) = pl_pollfds pl ! nat (ch_index (cs d))"
        using D(4) by (rule nth_append_left)
      moreover have "?cs d = cs d" using old(2) by simp
      ultimately show ?thesis using D(1-5) by (simp only: poller.simps length_append) simp
    qed
  qed
  moreover have "\<forall>i < length (pl_pollfds ?pl). \<exists>d. pl_channels ?pl (decoded (pl_pollfds ?pl ! i)) = Some d
      \<and> ch_index (?cs d) = int i"
  proof (intro allI impI)
    fix i assume i: "i < length (pl_pollfds ?pl)"
    show "\<exists>d. pl_channels ?pl (decoded (pl_pollfds ?pl ! i)) = Some d \<and> ch_index (?cs d) = int i"
    proof (cases "i < ?n")
      case True
      obtain d where d: "pl_channels pl (decoded (pl_pollfds pl ! i)) = Some d" "ch_index (cs d) = int i"
        by (rule poller_ok_slot [OF ok True])
      moreover have "decoded (pl_pollfds pl ! i) \<noteq> ch_fd (cs c)" using d free by auto
      ultimately show ?thesis using True ne [OF d(1)] by (simp add: nth_append)
    next
      case False
      then have "i = ?n" using i by simp
      then show ?thesis using dec by (simp add: setIndex_def)
    qed
  qed
  ultimately have "poller_ok ?pl ?cs" by (simp add: poller_ok_def)
  then show ?thesis using r by (intro exI [of _ ?pl]) (simp del: fun_upd_apply)
qed

lemma poller_update_old:
  assumes ok: "poller_ok pl cs" and reg: "pl_channels pl (ch_fd (cs c)) = Some c"
  defines "i \<equiv> nat (ch_index (cs c))"
  defines "slot \<equiv> pl_pollfds pl ! i"
  shows "\<exists>pl'. poller_updateChannel True c pl cs = Inr (pl', cs)
    \<and> pl_pollfds pl' = (pl_pollfds pl)[i := slot\<lparr>pfd_events := ucast (ch_event (cs c)), pfd_revents := 0,
          pfd_fd := (if isNoneEvent (cs c) then - ch_fd (cs c) - 1 else pfd_fd slot)\<rparr>]
    \<and> pl_channels pl' = pl_channels pl \<and> poller_ok pl' cs"
proof -
  note D = poller_okD [OF ok reg]
  let ?slot = "slot\<lparr>pfd_events := ucast (ch_event (cs c)), pfd_revents := 0,
          pfd_fd := (if isNoneEvent (cs c) then - ch_fd (cs c) - 1 else pfd_fd slot)\<rparr>"
  let ?pl = "pl\<lparr>pl_pollfds := (pl_pollfds pl)[i := ?slot]\<rparr>"
  have ci: "ch_index (cs c) = int i" using D(3) by (simp add: i_def)
  have dec: "pfd_fd slot = ch_fd (cs c) \<or> pfd_fd slot = - ch_fd (cs c) - 1"
    using D(1,5) by (simp add: slot_def i_def decoded_cases)
  have r: "poller_updateChannel True c pl cs = Inr (?pl, cs)"
    using D(6) reg dec by (simp add: poller_updateChannel_def Let_def ci slot_def)
  have same: "decoded ((pl_pollfds pl)[i := ?slot] ! j) = decoded (pl_pollfds pl ! j)" for j
  proof (cases "j = i \<and> i < length (pl_pollfds pl)")
    case True
    then show ?thesis using D(1,5) dec by (auto simp: decoded_def slot_def i_def)
  next
    case False
    then show ?thesis by (metis list_update_beyond not_le nth_list_update_neq)
  qed
  have "poller_ok ?pl cs" using ok by (simp add: poller_ok_def same)
  then show ?thesis using r by (intro exI [of _ ?pl]) simp
qed

text \<open>Removing a channel moves the last slot into its place.\<close>

lemma poller_ok_swap_out:
  assumes ok: "poller_ok pl cs" and reg: "pl_channels pl (ch_fd (cs c)) = Some c"
    and n: "n = length (pl_pollfds pl)" and i: "ch_index (cs c) = int i"
    and e: "pl_channels pl (decoded (pl_pollfds pl ! (n - 1))) = Some e" "ch_index (cs e) = int (n - 1)"
    and len: "length fds' = n - 1"
    and fds': "\<And>j. j < n - 1 \<Longrightarrow> fds' ! j = pl_pollfds pl ! (if j = i then n - 1 else j)"
    and cs': "\<And>d. ch_fd (cs' d) = ch_fd (cs d)"
             "\<And>d. ch_index (cs' d) = (if d = e \<and> i < n - 1 then int i else ch_index (cs d))"
  shows "poller_ok \<lparr>pl_pollfds = fds', pl_channels = (pl_channels pl)(ch_fd (cs c) := None)\<rparr> cs'"
proof -
  let ?ch = "(pl_channels pl)(ch_fd (cs c) := None)"
  have in': "i < n" using poller_okD(6) [OF ok reg] by (simp add: i n)
  have first: "0 \<le> f \<and> ch_fd (cs' d) = f \<and> 0 \<le> ch_index (cs' d)
      \<and> nat (ch_index (cs' d)) < n - 1 \<and> decoded (fds' ! nat (ch_index (cs' d))) = f"
    if "?ch f = Some d" for f d
  proof -
    from that have f: "f \<noteq> ch_fd (cs c)" and d: "pl_channels pl f = Some d"
      by (simp_all split: if_splits)
    note D = poller_okD [OF ok d, folded n]
    have di: "ch_index (cs d) \<noteq> int i" using index_inj [OF ok d reg] f i by metis
    show ?thesis
    proof (cases "ch_index (cs d) = int (n - 1)")
      case True
      then have less: "i < n - 1" using di in' by linarith
      have dec: "decoded (pl_pollfds pl ! (n - 1)) = f" using D(5) True by simp
      then have "d = e" using d e(1) by simp
      then have "ch_index (cs' d) = int i" using cs'(2) less by simp
      then show ?thesis using D(1,2) cs'(1) less fds' [OF less] dec by simp
    next
      case False
      then have "d \<noteq> e" using e(2) by auto
      then have ix: "ch_index (cs' d) = ch_index (cs d)" using cs'(2) by simp
      have lt: "nat (ch_index (cs d)) < n - 1" using D(3,6) False by linarith
      have "nat (ch_index (cs d)) \<noteq> i" using D(3) di by linarith
      then show ?thesis using D cs'(1) ix lt fds' [OF lt] by simp
    qed
  qed
  have second: "\<exists>d. ?ch (decoded (fds' ! j)) = Some d \<and> ch_index (cs' d) = int j"
    if j: "j < n - 1" for j
  proof (cases "j = i")
    case True
    have "decoded (pl_pollfds pl ! (n - 1)) \<noteq> ch_fd (cs c)"
    proof
      assume "decoded (pl_pollfds pl ! (n - 1)) = ch_fd (cs c)"
      then have "e = c" using e(1) reg by simp
      with e(2) i j True show False by simp
    qed
    then show ?thesis using e(1) fds' [OF j] cs'(2) [of e] j True by auto
  next
    case False
    have "j < length (pl_pollfds pl)" using j n by simp
    then obtain d where d: "pl_channels pl (decoded (pl_pollfds pl ! j)) = Some d" "ch_index (cs d) = int j"
      by (rule poller_ok_slot [OF ok])
    have "d \<noteq> e" using d(2) e(2) j by auto
    moreover have "decoded (pl_pollfds pl ! j) \<noteq> ch_fd (cs c)"
    proof
      assume "decoded (pl_pollfds pl ! j) = ch_fd (cs c)"
      then have "d = c" using d(1) reg by simp
      with d(2) i False show False by simp
    qed
    ultimately show ?thesis using d fds' [OF j] cs'(2) [of d] False by simp
  qed
  show ?thesis unfolding poller_ok_def using first second len by simp
qed

lemma poller_remove:
  assumes ok: "poller_ok pl cs" and reg: "pl_channels pl (ch_fd (cs c)) = Some c"
    and none: "isNoneEvent (cs c)"
  shows "\<exists>pl' cs'. poller_removeChannel True c pl cs = Inr (pl', cs') \<and> poller_ok pl' cs'
    \<and> pl_channels pl' = (pl_channels pl)(ch_fd (cs c) := None) \<and> same_but_index cs cs'
    \<and> outside_kept (pl_channels pl) c cs cs'"
proof -
  let ?fds = "pl_pollfds pl" and ?ch = "(pl_channels pl)(ch_fd (cs c) := None)"
  let ?n = "length ?fds"
  note D = poller_okD [OF ok reg]
  obtain i where i: "ch_index (cs c) = int i" using D(3) nonneg_int_cases by metis
  have n: "i < ?n" using D(6) i by simp
  then have ne: "?fds \<noteq> []" by auto
  note last = last_conv_nth [OF ne]
  have "?n - 1 < ?n" using n by simp
  then obtain e where e: "pl_channels pl (decoded (?fds ! (?n - 1))) = Some e" "ch_index (cs e) = int (?n - 1)"
    by (rule poller_ok_slot [OF ok])
  note swap = poller_ok_swap_out [OF ok reg refl i e]
  show ?thesis
  proof (cases "i = ?n - 1")
    case True
    then have r: "poller_removeChannel True c pl cs
        = Inr (\<lparr>pl_pollfds = butlast ?fds, pl_channels = ?ch\<rparr>, cs)"
      unfolding poller_removeChannel_def Let_def i nat_int
      using reg none n by (simp add: True [symmetric] del: One_nat_def)
    have "poller_ok \<lparr>pl_pollfds = butlast ?fds, pl_channels = ?ch\<rparr> cs"
      by (rule swap) (use True in \<open>simp_all add: nth_butlast\<close>)
    with r show ?thesis by (simp add: same_but_index_refl outside_kept_def)
  next
    case False
    with n have less: "i < ?n - 1" by simp
    have dec: "decoded (last ?fds) \<noteq> ch_fd (cs c)"
      using e reg i False by (auto simp: last)
    let ?fds' = "butlast (?fds[i := last ?fds, ?n - 1 := ?fds ! i])"
    let ?cs = "cs(e := setIndex (int i) (cs e))"
    have r: "poller_removeChannel True c pl cs
        = Inr (\<lparr>pl_pollfds = ?fds', pl_channels = ?ch\<rparr>, ?cs)"
      using reg none n False dec e(1) by (simp add: poller_removeChannel_def Let_def i last)
    have "poller_ok \<lparr>pl_pollfds = ?fds', pl_channels = ?ch\<rparr> ?cs"
      by (rule swap) (use less in \<open>auto simp: nth_butlast last setIndex_def nth_list_update\<close>)
    moreover have "outside_kept (pl_channels pl) c cs ?cs"
      using ranI [of "pl_channels pl", OF e(1)] by (auto simp: outside_kept_def)
    ultimately show ?thesis using r same_but_index_upd [of cs e "int i"] by simp
  qed
qed

interpretation pl: channel_poller poller_ok pl_channels
  "poller_updateChannel True" "poller_removeChannel True"
proof unfold_locales
  fix pl and cs cs' :: "nat \<Rightarrow> 'a channel"
  assume "poller_ok pl cs" "\<And>c. ch_fd (cs' c) = ch_fd (cs c)" "\<And>c. ch_index (cs' c) = ch_index (cs c)"
  then show "poller_ok pl cs'" by (rule poller_ok_cong)
next
  fix pl and cs :: "nat \<Rightarrow> 'a channel" and fd c
  assume "poller_ok pl cs" "pl_channels pl fd = Some c"
  then show "ch_fd (cs c) = fd \<and> 0 \<le> fd" using poller_okD(1,2) by blast
next
  fix pl and cs :: "nat \<Rightarrow> 'a channel" and c
  assume a: "poller_ok pl cs" "ch_index (cs c) = -1" "0 \<le> ch_fd (cs c)" "pl_channels pl (ch_fd (cs c)) = None"
  let ?cs = "cs(c := setIndex (int (length (pl_pollfds pl))) (cs c))"
  have "ch_index (cs c) < 0" using a(2) by simp
  from poller_update_new [OF a(1) this a(3,4)] obtain pl' where
    "poller_updateChannel True c pl cs = Inr (pl', ?cs)" "poller_ok pl' ?cs"
    "pl_channels pl' = (pl_channels pl)(ch_fd (cs c) \<mapsto> c)" by blast
  then show "\<exists>p' cs'. poller_updateChannel True c pl cs = Inr (p', cs') \<and> poller_ok p' cs'
      \<and> pl_channels p' = (pl_channels pl)(ch_fd (cs c) \<mapsto> c) \<and> same_but_index cs cs'
      \<and> outside_kept (pl_channels pl) c cs cs'"
    using same_but_index_upd by (intro exI [of _ pl'] exI [of _ ?cs]) (simp add: outside_kept_def)
next
  fix pl and cs :: "nat \<Rightarrow> 'a channel" and c
  assume "poller_ok pl cs" "pl_channels pl (ch_fd (cs c)) = Some c"
  from poller_update_old [OF this]
  show "\<exists>p' cs'. poller_updateChannel True c pl cs = Inr (p', cs') \<and> poller_ok p' cs'
      \<and> pl_channels p' = pl_channels pl \<and> same_but_index cs cs' \<and> outside_kept (pl_channels pl) c cs cs'"
    using same_but_index_refl [of cs] by (auto simp: outside_kept_def)
next
  fix pl and cs :: "nat \<Rightarrow> 'a channel" and c
  assume "poller_ok pl cs" "pl_channels pl (ch_fd (cs c)) = Some c" "isNoneEvent (cs c)"
  then show "\<exists>p' cs'. poller_removeChannel True c pl cs = Inr (p', cs') \<and> poller_ok p' cs'
      \<and> pl_channels p' = (pl_channels pl)(ch_fd (cs c) := None) \<and> same_but_index cs cs'
      \<and> outside_kept (pl_channels pl) c cs cs'"
    by (rule poller_remove)
qed

section \<open>What a poll reports\<close>

text \<open>What poll(2) documents of its answer: the number of slots with events; no events for a
  negative descriptor; and the events themselves are positive as a \<open>short\<close>.\<close>

definition poll_documented :: "pollfd list \<Rightarrow> int \<Rightarrow> 16 word list \<Rightarrow> bool" where
  "poll_documented fds nums revents \<longleftrightarrow>
     length revents = length fds \<and> nums = int (length (filter (\<lambda>r. r \<noteq> 0) revents))
   \<and> (\<forall>i < length fds. revents ! i \<noteq> 0 \<longrightarrow> 0 \<le> pfd_fd (fds ! i) \<and> 0 < sint (revents ! i))"

definition slot_channel :: "poller \<Rightarrow> nat \<Rightarrow> nat" where
  "slot_channel pl i = the (pl_channels pl (pfd_fd (pl_pollfds pl ! i)))"

definition ready :: "poller \<Rightarrow> 16 word list \<Rightarrow> nat list" where
  "ready pl revents = map (slot_channel pl) (filter (\<lambda>i. revents ! i \<noteq> 0) [0..<length (pl_pollfds pl)])"

lemma poller_fill_all:
  assumes "\<And>p. p \<in> set fds \<Longrightarrow> pfd_revents p \<noteq> 0 \<Longrightarrow> 0 < sint (pfd_revents p) \<and> channels (pfd_fd p) \<noteq> None"
    and "nums = int (length (filter (\<lambda>p. pfd_revents p \<noteq> 0) fds))"
  shows "poller_fill channels fds nums active cs =
    Inr (active @ map (\<lambda>p. the (channels (pfd_fd p))) (filter (\<lambda>p. pfd_revents p \<noteq> 0) fds),
      fold (upd_at (\<lambda>p. the (channels (pfd_fd p))) (\<lambda>p. setEvent (scast (pfd_revents p))))
        (filter (\<lambda>p. pfd_revents p \<noteq> 0) fds) cs)"
  using assms
proof (induction fds arbitrary: nums active cs)
  case Nil
  then show ?case by simp
next
  case (Cons p fds)
  show ?case
  proof (cases "pfd_revents p = 0")
    case True
    show ?thesis
    proof (cases "nums > 0")
      case True
      with \<open>pfd_revents p = 0\<close> Cons show ?thesis by simp
    next
      case False
      with \<open>pfd_revents p = 0\<close> Cons.prems(2) have "filter (\<lambda>p. pfd_revents p \<noteq> 0) fds = []" by simp
      with False \<open>pfd_revents p = 0\<close> show ?thesis by simp
    qed
  next
    case False
    then obtain c where "0 < sint (pfd_revents p)" "channels (pfd_fd p) = Some c"
      using Cons.prems(1) [of p] by auto
    moreover from this(2) have "cs(c := setEvent (scast (pfd_revents p)) (cs c))
        = upd_at (\<lambda>p. the (channels (pfd_fd p))) (\<lambda>p. setEvent (scast (pfd_revents p))) p cs"
      by (simp add: upd_at_def)
    moreover have "nums > 0" using False Cons.prems(2) by simp
    ultimately show ?thesis using False Cons by simp
  qed
qed

lemma slot_channel_ok:
  assumes ok: "poller_ok pl cs" and i: "i < length (pl_pollfds pl)" and fd: "0 \<le> pfd_fd (pl_pollfds pl ! i)"
  shows "pl_channels pl (pfd_fd (pl_pollfds pl ! i)) = Some (slot_channel pl i)"
    and "ch_index (cs (slot_channel pl i)) = int i"
proof -
  obtain c where "pl_channels pl (decoded (pl_pollfds pl ! i)) = Some c" "ch_index (cs c) = int i"
    by (rule poller_ok_slot [OF ok i])
  then show "pl_channels pl (pfd_fd (pl_pollfds pl ! i)) = Some (slot_channel pl i)"
    and "ch_index (cs (slot_channel pl i)) = int i"
    using fd by (simp_all add: slot_channel_def decoded_def)
qed

lemma poller_ok_revents:
  assumes "poller_ok pl cs" and "map decoded fds' = map decoded (pl_pollfds pl)"
  shows "poller_ok (pl\<lparr>pl_pollfds := fds'\<rparr>) cs"
proof -
  have len: "length fds' = length (pl_pollfds pl)" using assms(2) by (metis length_map)
  have "decoded (fds' ! i) = decoded (pl_pollfds pl ! i)" if "i < length (pl_pollfds pl)" for i
    using that assms(2) len by (metis nth_map)
  then show ?thesis using assms(1) by (auto simp: poller_ok_def len)
qed

text \<open>A poll appends to the active channels exactly those whose slots the kernel reported, each once
  and in the order of the slots, and stores in each the events of its slot; no other channel
  changes, no assertion fails, and the map and the array still agree.\<close>

theorem poll_reports:
  assumes ok: "poller_ok pl cs" and doc: "poll_documented (pl_pollfds pl) nums revents"
  shows "\<exists>pl' cs'. poller_poll nums revents active pl cs = Inr (active @ ready pl revents, pl', cs')
    \<and> poller_ok pl' cs' \<and> pl_channels pl' = pl_channels pl \<and> distinct (ready pl revents)
    \<and> cs' = (\<lambda>c. if c \<in> set (ready pl revents)
                 then setEvent (scast (revents ! nat (ch_index (cs c)))) (cs c) else cs c)"
proof -
  let ?fds = "pl_pollfds pl" and ?n = "length (pl_pollfds pl)"
  let ?is = "filter (\<lambda>i. revents ! i \<noteq> 0) [0..<?n]"
  let ?h = "\<lambda>i. (?fds ! i)\<lparr>pfd_revents := revents ! i\<rparr>"
  let ?fds' = "map2 (\<lambda>pfd r. pfd\<lparr>pfd_revents := r\<rparr>) ?fds revents"
  let ?pl = "pl\<lparr>pl_pollfds := ?fds'\<rparr>"
  have len: "length revents = ?n" and nums: "nums = int (length (filter (\<lambda>r. r \<noteq> 0) revents))"
    and pos: "\<And>i. i < ?n \<Longrightarrow> revents ! i \<noteq> 0 \<Longrightarrow> 0 \<le> pfd_fd (?fds ! i) \<and> 0 < sint (revents ! i)"
    using doc by (auto simp: poll_documented_def)
  note slot = slot_channel_ok [OF ok _ pos [THEN conjunct1]]
  have fds': "?fds' = map ?h [0..<?n]" by (rule nth_equalityI) (simp_all add: len)
  have "revents = map ((!) revents) [0..<?n]" using len map_nth by metis
  then have "filter (\<lambda>r. r \<noteq> 0) revents = map ((!) revents) ?is"
    by (metis (no_types, lifting) filter_map comp_def filter_cong)
  then have nums': "nums = int (length ?is)" using nums by simp
  have filt: "filter (\<lambda>p. pfd_revents p \<noteq> 0) ?fds' = map ?h ?is"
    unfolding fds' filter_map by (simp add: comp_def)
  have inj: "distinct (map (slot_channel pl) ?is)"
    using slot(2) by (auto simp: distinct_map inj_on_def) (metis of_nat_eq_iff)
  let ?F = "upd_at (slot_channel pl) (\<lambda>i. setEvent (scast (revents ! i)))"
  have fill: "poller_fill (pl_channels pl) ?fds' nums active cs
      = Inr (active @ ready pl revents, fold ?F ?is cs)"
  proof (subst poller_fill_all)
    fix p assume "p \<in> set ?fds'" "pfd_revents p \<noteq> 0"
    then obtain i where "i < ?n" "p = ?h i" "revents ! i \<noteq> 0" unfolding fds' by auto
    with slot(1) [of i] pos [of i] show "0 < sint (pfd_revents p) \<and> pl_channels pl (pfd_fd p) \<noteq> None" by simp
  next
    show "nums = int (length (filter (\<lambda>p. pfd_revents p \<noteq> 0) ?fds'))" unfolding filt by (simp add: nums')
  qed (simp only: filt fold_map, simp add: ready_def slot_channel_def comp_def upd_at_def [abs_def])
  have cs': "fold ?F ?is cs = (\<lambda>c. if c \<in> set (ready pl revents)
      then setEvent (scast (revents ! nat (ch_index (cs c)))) (cs c) else cs c)"
  proof
    fix c
    show "fold ?F ?is cs c = (if c \<in> set (ready pl revents)
      then setEvent (scast (revents ! nat (ch_index (cs c)))) (cs c) else cs c)"
    proof (cases "c \<in> set (ready pl revents)")
      case True
      then obtain i where i: "i \<in> set ?is" "c = slot_channel pl i" by (auto simp: ready_def)
      then have "ch_index (cs c) = int i" using slot(2) [of i] by simp
      with True i show ?thesis
        using fold_upd_at [OF inj i(1), of "\<lambda>i. setEvent (scast (revents ! i))" cs] by simp
    next
      case False
      then have "c \<notin> slot_channel pl ` set ?is" by (simp add: ready_def)
      then have "fold ?F ?is cs c = cs c" by (rule fold_upd_at_other)
      with False show ?thesis by simp
    qed
  qed
  have "map decoded ?fds' = map decoded ?fds"
    by (rule nth_equalityI) (simp_all add: len decoded_def)
  then have "poller_ok ?pl cs" by (rule poller_ok_revents [OF ok])
  then have ok': "poller_ok ?pl (fold ?F ?is cs)"
    unfolding cs' by (rule poller_ok_cong) (simp_all add: setEvent_def)
  have none: "fold ?F ?is cs = cs \<and> ready pl revents = []" if "\<not> nums > 0"
    using that nums' by (simp add: ready_def)
  have "poller_poll nums revents active pl cs = Inr (active @ ready pl revents, ?pl, fold ?F ?is cs)"
    using fill none by (simp add: poller_poll_def Let_def)
  then show ?thesis using ok' inj unfolding cs' [symmetric] by (auto simp: ready_def)
qed

definition sample_poller :: poller where
  "sample_poller = \<lparr>pl_pollfds = [\<lparr>pfd_fd = 3, pfd_events = 3, pfd_revents = 0\<rparr>,
       \<lparr>pfd_fd = -5, pfd_events = 0, pfd_revents = 0\<rparr>, \<lparr>pfd_fd = 5, pfd_events = 7, pfd_revents = 0\<rparr>],
     pl_channels = [3 \<mapsto> 0, 4 \<mapsto> 1, 5 \<mapsto> 2]\<rparr>"

definition sample_channels :: "nat \<Rightarrow> unit channel" where
  "sample_channels c = setIndex (int c) ((channel_new 0 (int c + 3))\<lparr>ch_event := if c = 0 then 3 else 0\<rparr>)"

lemma sample_poller_ok: "poller_ok sample_poller sample_channels"
  by (auto simp: poller_ok_def sample_poller_def sample_channels_def setIndex_def channel_new_def
      decoded_def less_Suc_eq numeral_3_eq_3)

lemma poll_reports_witness:
  "\<exists>pl' cs'. poller_poll 2 [1, 0, 4] [] sample_poller sample_channels = Inr ([0, 2], pl', cs')
    \<and> ch_revent (cs' 0) = POLLIN \<and> ch_revent (cs' 2) = POLLOUT"
proof -
  have d: "poll_documented (pl_pollfds sample_poller) 2 [1, 0, 4]"
    by (auto simp: poll_documented_def sample_poller_def less_Suc_eq)
  have r: "ready sample_poller [1, 0, 4] = [0, 2]"
    by (simp add: ready_def sample_poller_def slot_channel_def upt_rec)
  show ?thesis using poll_reports [OF sample_poller_ok d, of "[]"] unfolding r
    by (auto simp: setEvent_def sample_channels_def setIndex_def poll_bits)
qed

section \<open>Runs of updates and removals\<close>

text \<open>C11. However channels are registered, changed and removed, as long as their owners follow the
  protocol (a channel registers once, on a free descriptor, and is removed without events), no
  assertion of the poller fails, the map and the array agree at the end, and the registered
  channels are those of the protocol.\<close>

theorem poller_legal_runs:
  assumes "legal_run fdof ops registry_empty"
  shows "\<exists>pl cs. fold_res (poll_exec (poller_updateChannel True) (poller_removeChannel True)) ops
        (poller_new, \<lambda>c. channel_new loop (fdof c)) = Inr (pl, cs)
    \<and> poller_ok pl cs \<and> pl_channels pl = rg_reg (registry_run fdof ops registry_empty)
    \<and> (\<forall>c. ch_event (cs c) = rg_event (registry_run fdof ops registry_empty) c)"
proof -
  have "registry_agrees poller_ok pl_channels fdof registry_empty
      (poller_new, \<lambda>c. channel_new loop (fdof c))"
    using poller_new_ok by (auto simp: registry_agrees_def registry_empty_def poller_new_def channel_new_def)
  from pl.run_legal [OF this assms] show ?thesis by (auto simp: registry_agrees_def)
qed

lemma poller_legal_runs_witness:
  "\<exists>pl cs. fold_res (poll_exec (poller_updateChannel True) (poller_removeChannel True))
      [Watch 0 3, Watch 1 3, Watch 2 3, Watch 0 0, Unwatch 0, Watch 1 7]
      (poller_new, \<lambda>c. channel_new 0 (int c + 3)) = Inr (pl, cs)
    \<and> pl_channels pl = [4 \<mapsto> 1, 5 \<mapsto> 2] \<and> ch_event (cs 1) = 7"
proof -
  let ?ops = "[Watch 0 3, Watch 1 3, Watch 2 3, Watch 0 0, Unwatch 0, Watch 1 7]"
  have l: "legal_run (\<lambda>c. int c + 3) ?ops registry_empty"
    by (simp add: registry_empty_def poll_bits)
  have "rg_reg (registry_run (\<lambda>c. int c + 3) ?ops registry_empty) = [4 \<mapsto> 1, 5 \<mapsto> 2]"
    by (rule ext) (simp add: registry_run_def registry_empty_def)
  moreover have "rg_event (registry_run (\<lambda>c. int c + 3) ?ops registry_empty) 1 = 7"
    by (simp add: registry_run_def registry_empty_def)
  ultimately show ?thesis using poller_legal_runs [OF l, of 0] by metis
qed

section \<open>What is watched\<close>

text \<open>The events poll(2) watches for a registered channel, if any.\<close>

definition poller_watch :: "poller \<Rightarrow> 'cb channel \<Rightarrow> 16 word option" where
  "poller_watch pl ch = (let pfd = pl_pollfds pl ! nat (ch_index ch) in
     if pfd_fd pfd < 0 then None else Some (pfd_events pfd))"

text \<open>C33. Updating a registered channel makes poll(2) watch its current events and leaves what it
  watches for every other channel alone; but a channel that was once updated without events stays
  unwatched whatever events it is given later, because its slot keeps the negative descriptor.\<close>

theorem watch_after_update:
  assumes ok: "poller_ok pl cs" and reg: "pl_channels pl (ch_fd (cs c)) = Some c"
  shows "\<exists>pl'. poller_updateChannel True c pl cs = Inr (pl', cs)
    \<and> poller_watch pl' (cs c) = (if isNoneEvent (cs c) \<or> poller_watch pl (cs c) = None then None
                                else Some (ucast (ch_event (cs c))))
    \<and> (\<forall>fd d. pl_channels pl fd = Some d \<longrightarrow> d \<noteq> c \<longrightarrow> poller_watch pl' (cs d) = poller_watch pl (cs d))"
proof -
  from poller_update_old [OF ok reg] obtain pl' where
    r: "poller_updateChannel True c pl cs = Inr (pl', cs)"
    and fds: "pl_pollfds pl' = (pl_pollfds pl)[nat (ch_index (cs c)) :=
      (pl_pollfds pl ! nat (ch_index (cs c)))\<lparr>pfd_events := ucast (ch_event (cs c)), pfd_revents := 0,
         pfd_fd := (if isNoneEvent (cs c) then - ch_fd (cs c) - 1
                    else pfd_fd (pl_pollfds pl ! nat (ch_index (cs c))))\<rparr>]" by blast
  note D = poller_okD [OF ok reg]
  have "poller_watch pl' (cs c) = (if isNoneEvent (cs c) \<or> poller_watch pl (cs c) = None then None
                                else Some (ucast (ch_event (cs c))))"
    unfolding poller_watch_def fds using D(1,4) by (simp add: Let_def)
  moreover have "poller_watch pl' (cs d) = poller_watch pl (cs d)"
    if d: "pl_channels pl fd = Some d" "d \<noteq> c" for fd d
  proof -
    have "ch_index (cs d) \<noteq> ch_index (cs c)"
      using index_inj [OF ok d(1) reg] d reg by auto
    then have "nat (ch_index (cs c)) \<noteq> nat (ch_index (cs d))"
      using D(3) poller_okD(3) [OF ok d(1)] by simp
    then show ?thesis unfolding poller_watch_def fds by simp
  qed
  ultimately show ?thesis using r by blast
qed

lemma watch_after_update_witness:
  "\<exists>pl'. poller_updateChannel True 1 sample_poller (sample_channels(1 := readingBits (sample_channels 1)))
      = Inr (pl', sample_channels(1 := readingBits (sample_channels 1)))
    \<and> ch_event (readingBits (sample_channels 1)) = kReadEvent
    \<and> poller_watch pl' (readingBits (sample_channels 1)) = None"
proof -
  let ?cs = "sample_channels(1 := readingBits (sample_channels 1))"
  have ok: "poller_ok sample_poller ?cs"
    by (rule poller_ok_cong [OF sample_poller_ok]) (simp_all add: readingBits_def)
  have reg: "pl_channels sample_poller (ch_fd (?cs 1)) = Some 1"
    by (simp add: sample_poller_def sample_channels_def readingBits_def setIndex_def channel_new_def)
  have "poller_watch sample_poller (?cs 1) = None"
    by (simp add: poller_watch_def sample_poller_def sample_channels_def readingBits_def setIndex_def)
  moreover have "ch_event (readingBits (sample_channels 1)) = kReadEvent"
    by (simp add: sample_channels_def readingBits_def setIndex_def)
  moreover obtain pl' where "poller_updateChannel True 1 sample_poller ?cs = Inr (pl', ?cs)"
    "poller_watch pl' (?cs 1) = (if isNoneEvent (?cs 1) \<or> poller_watch sample_poller (?cs 1) = None
       then None else Some (ucast (ch_event (?cs 1))))"
    using watch_after_update [OF ok reg] by blast
  ultimately show ?thesis by (simp del: One_nat_def)
qed

end
