(* ===== verification/EventLoop.thy ===== *)
theory EventLoop
  imports Poller
begin

text \<open>
  The event loop of src/eventLoop.h and src/eventLoop.cpp, and the operations of src/channel.cpp
  that reach it through \<open>update()\<close>. The state is a heap of loops and channels with the number of the
  running thread; a functor or a callback is a name of a type \<open>'cb\<close> that an interpreter \<open>run\<close>
  executes. The eventfd is the list of the reads and writes made on it; what its counter holds is
  read off that list as eventfd(2) documents it. Steps of several threads are in LoopThreads.
\<close>

section \<open>The model\<close>

datatype eventfd_op = EvWrite | EvRead

fun eventfd_step :: "eventfd_op \<Rightarrow> nat \<Rightarrow> nat" where
  "eventfd_step EvWrite v = (if v < 18446744073709551614 then v + 1 else v)"
| "eventfd_step EvRead v = 0"

definition eventfd_value :: "eventfd_op list \<Rightarrow> nat" where
  "eventfd_value ops = fold eventfd_step ops 0"

record 'cb loop =
  lp_threadId :: nat
  lp_looping :: bool
  lp_quit :: bool
  lp_callingPendingFunctors :: bool
  lp_poller :: poller
  lp_activeChannels :: "nat list"
  lp_pollReturnTime :: int
  lp_wakeupFd :: int
  lp_wakeupChannel :: nat
  lp_eventfd :: "eventfd_op list"
  lp_pendingFunctor :: "'cb list"

record 'cb world = "'cb chan_heap" +
  w_tid :: nat
  w_loops :: "nat \<Rightarrow> 'cb loop"
  w_loopInThread :: "nat \<Rightarrow> nat option"

definition upd_loop :: "nat \<Rightarrow> ('cb loop \<Rightarrow> 'cb loop) \<Rightarrow> ('cb, 'z) world_scheme \<Rightarrow> ('cb, 'z) world_scheme" where
  "upd_loop l f s = s\<lparr>w_loops := (w_loops s)(l := f (w_loops s l))\<rparr>"

definition isInLoopThread :: "nat \<Rightarrow> ('cb, 'z) world_scheme \<Rightarrow> bool" where
  "isInLoopThread l s \<longleftrightarrow> lp_threadId (w_loops s l) = w_tid s"

definition assertInLoopThread :: "nat \<Rightarrow> ('cb, 'z) world_scheme \<Rightarrow> unit res" where
  "assertInLoopThread l s = (if \<not> isInLoopThread l s then Inl ExitFailure else Inr ())"

subsection \<open>Channels\<close>

text \<open>Run an operation of the poller of loop \<open>l\<close> on the channels.\<close>

definition with_poller ::
  "nat \<Rightarrow> (poller \<Rightarrow> (nat \<Rightarrow> 'cb channel) \<Rightarrow> (poller \<times> (nat \<Rightarrow> 'cb channel)) res)
    \<Rightarrow> ('cb, 'z) world_scheme \<Rightarrow> ('cb, 'z) world_scheme res" where
  "with_poller l f s =
     bnd (f (lp_poller (w_loops s l)) (chans s))
       (\<lambda>(pl, cs). Inr (upd_loop l (\<lambda>lp. lp\<lparr>lp_poller := pl\<rparr>) (s\<lparr>chans := cs\<rparr>)))"

definition loop_updateChannel :: "nat \<Rightarrow> nat \<Rightarrow> ('cb, 'z) world_scheme \<Rightarrow> ('cb, 'z) world_scheme res" where
  "loop_updateChannel l c s =
     must (ch_loop (chans s c) = l)
     (bnd (assertInLoopThread l s) (\<lambda>_.
      with_poller l (poller_updateChannel (isInLoopThread l s) c) s))"

definition loop_removeChannel :: "nat \<Rightarrow> nat \<Rightarrow> ('cb, 'z) world_scheme \<Rightarrow> ('cb, 'z) world_scheme res" where
  "loop_removeChannel l c s =
     must (ch_loop (chans s c) = l)
     (bnd (assertInLoopThread l s) (\<lambda>_.
      with_poller l (poller_removeChannel (isInLoopThread l s) c) s))"

definition channel_update :: "nat \<Rightarrow> ('cb, 'z) world_scheme \<Rightarrow> ('cb, 'z) world_scheme res" where
  "channel_update c s = loop_updateChannel (ch_loop (chans s c)) c s"

definition enableReading :: "nat \<Rightarrow> ('cb, 'z) world_scheme \<Rightarrow> ('cb, 'z) world_scheme res" where
  "enableReading c s = channel_update c (upd_chan c readingBits s)"

definition enableWriting :: "nat \<Rightarrow> ('cb, 'z) world_scheme \<Rightarrow> ('cb, 'z) world_scheme res" where
  "enableWriting c s = channel_update c (upd_chan c writingBits s)"

definition disableWriting :: "nat \<Rightarrow> ('cb, 'z) world_scheme \<Rightarrow> ('cb, 'z) world_scheme res" where
  "disableWriting c s = channel_update c (upd_chan c noWritingBits s)"

definition disableAll :: "nat \<Rightarrow> ('cb, 'z) world_scheme \<Rightarrow> ('cb, 'z) world_scheme res" where
  "disableAll c s = channel_update c (upd_chan c noBits s)"

subsection \<open>The loop\<close>

definition wakeup :: "nat \<Rightarrow> ('cb, 'z) world_scheme \<Rightarrow> ('cb, 'z) world_scheme" where
  "wakeup l = upd_loop l (\<lambda>lp. lp\<lparr>lp_eventfd := lp_eventfd lp @ [EvWrite]\<rparr>)"

definition loop_handleRead :: "nat \<Rightarrow> ('cb, 'z) world_scheme \<Rightarrow> ('cb, 'z) world_scheme" where
  "loop_handleRead l = upd_loop l (\<lambda>lp. lp\<lparr>lp_eventfd := lp_eventfd lp @ [EvRead]\<rparr>)"

text \<open>\<open>queueInloop\<close> is two steps: the push under the lock, then the wake-up.\<close>

definition queue_push :: "nat \<Rightarrow> 'cb \<Rightarrow> ('cb, 'z) world_scheme \<Rightarrow> ('cb, 'z) world_scheme" where
  "queue_push l cb = upd_loop l (\<lambda>lp. lp\<lparr>lp_pendingFunctor := lp_pendingFunctor lp @ [cb]\<rparr>)"

definition queue_wake :: "nat \<Rightarrow> ('cb, 'z) world_scheme \<Rightarrow> ('cb, 'z) world_scheme" where
  "queue_wake l s =
     (if \<not> isInLoopThread l s \<or> lp_callingPendingFunctors (w_loops s l) then wakeup l s else s)"

definition queueInloop :: "nat \<Rightarrow> 'cb \<Rightarrow> ('cb, 'z) world_scheme \<Rightarrow> ('cb, 'z) world_scheme" where
  "queueInloop l cb s = queue_wake l (queue_push l cb s)"

definition runInLoop ::
  "('cb \<Rightarrow> ('cb, 'z) world_scheme \<Rightarrow> ('cb, 'z) world_scheme res) \<Rightarrow> nat \<Rightarrow> 'cb
    \<Rightarrow> ('cb, 'z) world_scheme \<Rightarrow> ('cb, 'z) world_scheme res" where
  "runInLoop run l cb s = (if isInLoopThread l s then run cb s else Inr (queueInloop l cb s))"

definition set_quit :: "nat \<Rightarrow> bool \<Rightarrow> ('cb, 'z) world_scheme \<Rightarrow> ('cb, 'z) world_scheme" where
  "set_quit l b = upd_loop l (\<lambda>lp. lp\<lparr>lp_quit := b\<rparr>)"

definition loop_quit :: "nat \<Rightarrow> ('cb, 'z) world_scheme \<Rightarrow> ('cb, 'z) world_scheme" where
  "loop_quit l s =
     (let s = set_quit l True s in if \<not> isInLoopThread l s then wakeup l s else s)"

text \<open>The steps of \<open>doPendingFunctors\<close>: the flag, the swap under the lock, the calls.\<close>

definition set_calling :: "nat \<Rightarrow> bool \<Rightarrow> ('cb, 'z) world_scheme \<Rightarrow> ('cb, 'z) world_scheme" where
  "set_calling l b = upd_loop l (\<lambda>lp. lp\<lparr>lp_callingPendingFunctors := b\<rparr>)"

definition swap_pending :: "nat \<Rightarrow> ('cb, 'z) world_scheme \<Rightarrow> 'cb list \<times> ('cb, 'z) world_scheme" where
  "swap_pending l s =
     (lp_pendingFunctor (w_loops s l), upd_loop l (\<lambda>lp. lp\<lparr>lp_pendingFunctor := []\<rparr>) s)"

definition doPendingFunctors ::
  "('cb \<Rightarrow> ('cb, 'z) world_scheme \<Rightarrow> ('cb, 'z) world_scheme res) \<Rightarrow> nat
    \<Rightarrow> ('cb, 'z) world_scheme \<Rightarrow> ('cb, 'z) world_scheme res" where
  "doPendingFunctors run l s =
     (case swap_pending l (set_calling l True s) of (functors, s) \<Rightarrow>
      bnd (fold_res run functors s) (\<lambda>s. Inr (set_calling l False s)))"

text \<open>What the environment gives one turn of the loop: the answer of poll(2), with the time read
  after it.\<close>

record poll_answer =
  pa_nums :: int
  pa_revents :: "16 word list"
  pa_now :: int

definition poll_active :: "nat \<Rightarrow> poll_answer \<Rightarrow> ('cb, 'z) world_scheme \<Rightarrow> ('cb, 'z) world_scheme res" where
  "poll_active l ans s =
     bnd (poller_poll (pa_nums ans) (pa_revents ans) [] (lp_poller (w_loops s l)) (chans s))
       (\<lambda>(active, pl, cs). Inr (upd_loop l (\<lambda>lp. lp\<lparr>lp_poller := pl, lp_activeChannels := active,
          lp_pollReturnTime := pa_now ans\<rparr>) (s\<lparr>chans := cs\<rparr>)))"

definition loop_turn ::
  "('cb \<Rightarrow> ('cb, 'z) world_scheme \<Rightarrow> ('cb, 'z) world_scheme res)
    \<Rightarrow> ('cb \<Rightarrow> int \<Rightarrow> ('cb, 'z) world_scheme \<Rightarrow> ('cb, 'z) world_scheme res)
    \<Rightarrow> nat \<Rightarrow> poll_answer \<Rightarrow> ('cb, 'z) world_scheme \<Rightarrow> ('cb, 'z) world_scheme res" where
  "loop_turn run runRead l ans s =
     bnd (poll_active l ans s) (\<lambda>s.
     bnd (fold_res (\<lambda>c. handleEvent run runRead c (pa_now ans)) (lp_activeChannels (w_loops s l)) s)
       (doPendingFunctors run l))"

text \<open>The loop over the answers of its polls, which ends when \<open>quit_\<close> is set; the flag of the result
  says whether it ended before the answers did.\<close>

fun loop_while ::
  "('cb \<Rightarrow> ('cb, 'z) world_scheme \<Rightarrow> ('cb, 'z) world_scheme res)
    \<Rightarrow> ('cb \<Rightarrow> int \<Rightarrow> ('cb, 'z) world_scheme \<Rightarrow> ('cb, 'z) world_scheme res)
    \<Rightarrow> nat \<Rightarrow> poll_answer list \<Rightarrow> ('cb, 'z) world_scheme \<Rightarrow> (bool \<times> ('cb, 'z) world_scheme) res" where
  "loop_while run runRead l [] s = Inr (lp_quit (w_loops s l), s)"
| "loop_while run runRead l (ans # answers) s =
     (if \<not> lp_quit (w_loops s l) then
        bnd (loop_turn run runRead l ans s) (loop_while run runRead l answers)
      else Inr (True, s))"

definition loop_loop ::
  "('cb \<Rightarrow> ('cb, 'z) world_scheme \<Rightarrow> ('cb, 'z) world_scheme res)
    \<Rightarrow> ('cb \<Rightarrow> int \<Rightarrow> ('cb, 'z) world_scheme \<Rightarrow> ('cb, 'z) world_scheme res)
    \<Rightarrow> nat \<Rightarrow> poll_answer list \<Rightarrow> ('cb, 'z) world_scheme \<Rightarrow> (bool \<times> ('cb, 'z) world_scheme) res" where
  "loop_loop run runRead l answers s =
     must (\<not> lp_looping (w_loops s l))
     (bnd (assertInLoopThread l s) (\<lambda>_.
      let s = upd_loop l (\<lambda>lp. lp\<lparr>lp_looping := True, lp_quit := False\<rparr>) s in
      bnd (loop_while run runRead l answers s) (\<lambda>(ended, s).
      Inr (ended, if ended then upd_loop l (\<lambda>lp. lp\<lparr>lp_looping := False\<rparr>) s else s))))"

text \<open>The constructor. \<open>quit_\<close> and \<open>callingPendingFunctors_\<close> have no initialiser, so what they hold is an
  argument, as are the descriptor \<open>eventfd\<close> returned, the address of the new channel, the name of
  the callback bound to \<open>handleRead\<close>, and the constructor of the timer queue, which runs after
  that of the poller.\<close>

definition loop_new ::
  "(nat \<Rightarrow> ('cb, 'z) world_scheme \<Rightarrow> ('cb, 'z) world_scheme res) \<Rightarrow> bool \<Rightarrow> bool \<Rightarrow> int \<Rightarrow> nat \<Rightarrow> 'cb
    \<Rightarrow> nat \<Rightarrow> ('cb, 'z) world_scheme \<Rightarrow> ('cb, 'z) world_scheme res" where
  "loop_new timerQueue_new quit0 calling0 wakeupFd wc readCb l s =
     (let s = upd_loop l (\<lambda>_. \<lparr>lp_threadId = w_tid s, lp_looping = False, lp_quit = quit0,
            lp_callingPendingFunctors = calling0, lp_poller = poller_new, lp_activeChannels = [],
            lp_pollReturnTime = 0, lp_wakeupFd = wakeupFd, lp_wakeupChannel = wc, lp_eventfd = [],
            lp_pendingFunctor = []\<rparr>) s in
      bnd (timerQueue_new l s) (\<lambda>s.
      fatal_unless (\<not> wakeupFd < 0)
      (let s = upd_chan wc (\<lambda>_. channel_new l wakeupFd) s in
       fatal_unless (w_loopInThread s (w_tid s) = None)
       (let s = s\<lparr>w_loopInThread := (w_loopInThread s)(w_tid s := Some l)\<rparr>;
            s = upd_chan wc (setReadCallBack readCb) s
        in enableReading wc s))))"

definition loop_destroy :: "nat \<Rightarrow> ('cb, 'z) world_scheme \<Rightarrow> ('cb, 'z) world_scheme res" where
  "loop_destroy l s =
     must (\<not> lp_looping (w_loops s l))
       (Inr (s\<lparr>w_loopInThread := (w_loopInThread s)(w_tid s := None)\<rparr>))"

section \<open>Reading the state after an operation\<close>

named_theorems loop_simps "what the operations of the loop change and keep"

lemma upd_loop_sel [loop_simps]:
  "w_loops (upd_loop l f s) = (w_loops s)(l := f (w_loops s l))"
  "chans (upd_loop l f s) = chans s"
  "w_tid (upd_loop l f s) = w_tid s"
  "w_loopInThread (upd_loop l f s) = w_loopInThread s"
  "world.more (upd_loop l f s) = world.more s"
  by (simp_all add: upd_loop_def)

lemma upd_chan_sel [loop_simps]:
  "chans (upd_chan c g s) = (chans s)(c := g (chans s c))"
  "w_loops (upd_chan c g s) = w_loops s"
  "w_tid (upd_chan c g s) = w_tid s"
  "w_loopInThread (upd_chan c g s) = w_loopInThread s"
  "world.more (upd_chan c g s) = world.more s"
  by (simp_all add: upd_chan_def)

lemmas loop_defs = wakeup_def loop_handleRead_def queue_push_def queue_wake_def queueInloop_def
  set_quit_def loop_quit_def set_calling_def isInLoopThread_def

lemma assertInLoopThread_eq [res_simps]: "assertInLoopThread l s = Inr u \<longleftrightarrow> isInLoopThread l s"
  by (simp add: assertInLoopThread_def)

lemma assertInLoopThread_in [loop_simps]: "isInLoopThread l s \<Longrightarrow> assertInLoopThread l s = Inr ()"
  by (simp add: assertInLoopThread_def)

lemma assertInLoopThread_out [loop_simps]: "\<not> isInLoopThread l s \<Longrightarrow> assertInLoopThread l s = Inl ExitFailure"
  by (simp add: assertInLoopThread_def)

definition eventfd_of :: "nat \<Rightarrow> ('cb, 'z) world_scheme \<Rightarrow> nat" where
  "eventfd_of l s = eventfd_value (lp_eventfd (w_loops s l))"

definition pending_of :: "nat \<Rightarrow> ('cb, 'z) world_scheme \<Rightarrow> 'cb list" where
  "pending_of l s = lp_pendingFunctor (w_loops s l)"

definition calling_of :: "nat \<Rightarrow> ('cb, 'z) world_scheme \<Rightarrow> bool" where
  "calling_of l s = lp_callingPendingFunctors (w_loops s l)"

lemmas view_defs = eventfd_of_def pending_of_def calling_of_def

lemma eventfd_value_snoc: "eventfd_value (ops @ [x]) = eventfd_step x (eventfd_value ops)"
  by (simp add: eventfd_value_def)

lemma wakeup_value: "0 < eventfd_of l (wakeup l s)"
  by (simp add: view_defs wakeup_def loop_simps eventfd_value_snoc)

section \<open>Queueing and running\<close>

text \<open>\<open>runInLoop\<close> calls the functor at once in the thread of the loop; in any other thread it
  only appends it to the pending functors and wakes the loop, so that the eventfd becomes readable.
  \<open>queueInloop\<close> always appends, and wakes the loop unless it runs in the thread of the loop while
  the loop is not calling pending functors.\<close>

theorem run_or_queue:
  "runInLoop run l f s = (if isInLoopThread l s then run f s else Inr (queueInloop l f s))
   \<and> pending_of l (queueInloop l f s) = pending_of l s @ [f]
   \<and> chans (queueInloop l f s) = chans s
   \<and> (\<forall>l'. l' \<noteq> l \<longrightarrow> w_loops (queueInloop l f s) l' = w_loops s l')
   \<and> (if isInLoopThread l s \<and> \<not> calling_of l s
      then lp_eventfd (w_loops (queueInloop l f s) l) = lp_eventfd (w_loops s l)
      else 0 < eventfd_of l (queueInloop l f s))"
  by (auto simp: runInLoop_def loop_defs view_defs loop_simps eventfd_value_snoc)

section \<open>The pending functors\<close>

text \<open>What a functor may do to its loop: queue further functors of the kind \<open>F\<close>, and leave the loop awake
  when it does so while the pending functors are being called. It runs in one thread and does not read
  the eventfd.\<close>

definition loop_kept :: "'cb set \<Rightarrow> nat \<Rightarrow> ('cb, 'z) world_scheme \<Rightarrow> ('cb, 'z) world_scheme \<Rightarrow> bool" where
  "loop_kept F l s s' \<longleftrightarrow>
     calling_of l s' = calling_of l s \<and> (0 < eventfd_of l s \<longrightarrow> 0 < eventfd_of l s')
   \<and> (\<exists>gs. set gs \<subseteq> F \<and> pending_of l s' = pending_of l s @ gs
        \<and> (gs \<noteq> [] \<longrightarrow> calling_of l s \<longrightarrow> 0 < eventfd_of l s'))"

definition functor_ok ::
  "'cb set \<Rightarrow> ('cb \<Rightarrow> ('cb, 'z) world_scheme \<Rightarrow> ('cb, 'z) world_scheme res) \<Rightarrow> nat \<Rightarrow> bool" where
  "functor_ok F run l \<longleftrightarrow> (\<forall>f\<in>F. \<forall>s s'. run f s = Inr s' \<longrightarrow> loop_kept F l s s')"

lemma loop_kept_same:
  "pending_of l s' = pending_of l s \<Longrightarrow> calling_of l s' = calling_of l s \<Longrightarrow> eventfd_of l s' = eventfd_of l s
    \<Longrightarrow> loop_kept F l s s'"
  by (simp add: loop_kept_def)

lemma queueInloop_view:
  "pending_of l (queueInloop l f s) = pending_of l s @ [f]"
  "calling_of l (queueInloop l f s) = calling_of l s"
  "0 < eventfd_of l s \<Longrightarrow> 0 < eventfd_of l (queueInloop l f s)"
  "calling_of l s \<Longrightarrow> 0 < eventfd_of l (queueInloop l f s)"
  by (auto simp: loop_defs view_defs loop_simps eventfd_value_snoc)

lemma loop_kept_queue:
  assumes "f \<in> F"
  shows "loop_kept F l s (queueInloop k f s)"
proof (cases "k = l")
  case True
  note v = queueInloop_view [where l = l and f = f and s = s]
  from assms True show ?thesis unfolding loop_kept_def by (intro conjI exI [of _ "[f]"]) (auto simp: v)
next
  case False
  then show ?thesis by (intro loop_kept_same) (simp_all add: loop_defs view_defs loop_simps)
qed

lemma loop_kept_trans:
  assumes "loop_kept F l s t" and "loop_kept F l t u"
  shows "loop_kept F l s u"
proof -
  from assms(1) obtain gs where g: "set gs \<subseteq> F" "pending_of l t = pending_of l s @ gs"
      "gs \<noteq> [] \<longrightarrow> calling_of l s \<longrightarrow> 0 < eventfd_of l t"
    unfolding loop_kept_def by (elim conjE exE) (rule that)
  from assms(2) obtain hs where h: "set hs \<subseteq> F" "pending_of l u = pending_of l t @ hs"
      "hs \<noteq> [] \<longrightarrow> calling_of l t \<longrightarrow> 0 < eventfd_of l u"
    unfolding loop_kept_def by (elim conjE exE) (rule that)
  from assms have "calling_of l u = calling_of l s" "0 < eventfd_of l s \<longrightarrow> 0 < eventfd_of l u"
    "0 < eventfd_of l t \<longrightarrow> 0 < eventfd_of l u" "calling_of l t = calling_of l s" by (auto simp: loop_kept_def)
  then show ?thesis unfolding loop_kept_def by (intro conjI exI [of _ "gs @ hs"]) (use g h in auto)
qed

locale functor_runner =
  fixes F :: "'cb set" and run :: "'cb \<Rightarrow> ('cb, 'z) world_scheme \<Rightarrow> ('cb, 'z) world_scheme res" and l :: nat
  assumes ok: "functor_ok F run l"
begin

lemma run_one:
  assumes "run f s = Inr s'" and "f \<in> F"
  shows "loop_kept F l s s'"
  using ok assms unfolding functor_ok_def by blast

lemma run_list:
  assumes "fold_res run fs s = Inr s'" and "set fs \<subseteq> F"
  shows "calling_of l s' = calling_of l s \<and> (0 < eventfd_of l s \<longrightarrow> 0 < eventfd_of l s')
    \<and> (\<exists>gss. length gss = length fs \<and> pending_of l s' = pending_of l s @ concat gss \<and> set (concat gss) \<subseteq> F
        \<and> (concat gss \<noteq> [] \<longrightarrow> calling_of l s \<longrightarrow> 0 < eventfd_of l s'))"
  using assms
proof (induction fs arbitrary: s)
  case Nil
  then show ?case by simp
next
  case (Cons f fs)
  from Cons.prems obtain t where t: "run f s = Inr t" and r: "fold_res run fs t = Inr s'" and f: "f \<in> F" "set fs \<subseteq> F"
    by (auto simp: res_simps)
  from run_one [OF t f(1)] obtain gs where a: "calling_of l t = calling_of l s"
    "0 < eventfd_of l s \<longrightarrow> 0 < eventfd_of l t" "set gs \<subseteq> F"
    "pending_of l t = pending_of l s @ gs" "gs \<noteq> [] \<longrightarrow> calling_of l s \<longrightarrow> 0 < eventfd_of l t"
    unfolding loop_kept_def by (elim conjE exE) (rule that)
  from Cons.IH [OF r f(2)] obtain gss where b: "calling_of l s' = calling_of l t"
    "0 < eventfd_of l t \<longrightarrow> 0 < eventfd_of l s'" "length gss = length fs"
    "pending_of l s' = pending_of l t @ concat gss" "set (concat gss) \<subseteq> F"
    "concat gss \<noteq> [] \<longrightarrow> calling_of l t \<longrightarrow> 0 < eventfd_of l s'"
    by (elim conjE exE) (rule that)
  show ?case
    by (intro conjI exI [of _ "gs # gss"]) (use a b in auto)
qed

lemma pending_round:
  assumes "doPendingFunctors run l s = Inr s'" and "set (pending_of l s) \<subseteq> F"
  shows "\<not> calling_of l s' \<and> set (pending_of l s') \<subseteq> F
    \<and> (\<exists>gss. length gss = length (pending_of l s) \<and> pending_of l s' = concat gss
        \<and> (pending_of l s' \<noteq> [] \<longrightarrow> 0 < eventfd_of l s'))"
proof -
  let ?s1 = "upd_loop l (\<lambda>lp. lp\<lparr>lp_pendingFunctor := []\<rparr>) (set_calling l True s)"
  have fs: "swap_pending l (set_calling l True s) = (pending_of l s, ?s1)"
    by (simp add: swap_pending_def set_calling_def loop_simps view_defs)
  from assms obtain t where t: "fold_res run (pending_of l s) ?s1 = Inr t" and s': "s' = set_calling l False t"
    by (auto simp: doPendingFunctors_def fs res_simps)
  have c: "calling_of l ?s1" and p: "pending_of l ?s1 = []"
    by (simp_all add: set_calling_def loop_simps view_defs)
  have e: "pending_of l s' = pending_of l t" "eventfd_of l s' = eventfd_of l t" "\<not> calling_of l s'"
    by (simp_all add: s' set_calling_def loop_simps view_defs)
  from run_list [OF t assms(2)] c p e show ?thesis by auto
qed

end

text \<open>Functors as scripts: a number, and the scripts it queues when it runs. The state keeps the numbers
  of those that ran.\<close>

datatype script = Script nat "script list"

record scripted_world = "script world" +
  sw_ran :: "nat list"

fun run_script :: "nat \<Rightarrow> script \<Rightarrow> scripted_world \<Rightarrow> scripted_world res" where
  "run_script l (Script n ss) s = Inr (fold (queueInloop l) ss (s\<lparr>sw_ran := sw_ran s @ [n]\<rparr>))"

lemma run_script_ok: "functor_ok UNIV (run_script l) l"
proof -
  have v: "loop_kept UNIV l s (s\<lparr>sw_ran := r\<rparr>)" for s :: scripted_world and r
    by (rule loop_kept_same) (simp_all add: view_defs)
  have q: "loop_kept UNIV l s (fold (queueInloop l) ss s)" for s :: scripted_world and ss
    by (induction ss arbitrary: s) (auto intro: loop_kept_same loop_kept_trans loop_kept_queue)
  show ?thesis unfolding functor_ok_def
  proof (intro ballI allI impI)
    fix f :: script and s s' :: scripted_world
    assume "run_script l f s = Inr s'"
    then show "loop_kept UNIV l s s'" by (cases f) (auto intro: loop_kept_trans [OF v q])
  qed
qed

interpretation scripts: functor_runner UNIV "run_script l" l for l
  by unfold_locales (rule run_script_ok)

text \<open>C27. A call of the pending functors runs each functor that was queued when it began, once and in the
  order of queueing, as long as a functor only queues functors of the kind that may be queued. What these
  queue is not run in the same call: it stays queued, in order, is of that kind again, and
  whenever anything is left the eventfd is readable, so the next poll returns at once.\<close>

theorem pending_functors_round:
  assumes ok: "functor_ok F run l" and fs: "set (pending_of l s) \<subseteq> F" and r: "doPendingFunctors run l s = Inr s'"
  shows "(\<exists>t. fold_res run (pending_of l s)
             (upd_loop l (\<lambda>lp. lp\<lparr>lp_pendingFunctor := []\<rparr>) (set_calling l True s)) = Inr t
           \<and> s' = set_calling l False t)
    \<and> (\<exists>gss. length gss = length (pending_of l s) \<and> pending_of l s' = concat gss) \<and> set (pending_of l s') \<subseteq> F
    \<and> (pending_of l s' \<noteq> [] \<longrightarrow> 0 < eventfd_of l s') \<and> \<not> calling_of l s'"
proof -
  have "swap_pending l (set_calling l True s)
      = (pending_of l s, upd_loop l (\<lambda>lp. lp\<lparr>lp_pendingFunctor := []\<rparr>) (set_calling l True s))"
    by (simp add: swap_pending_def set_calling_def loop_simps view_defs)
  then have "\<exists>t. fold_res run (pending_of l s)
             (upd_loop l (\<lambda>lp. lp\<lparr>lp_pendingFunctor := []\<rparr>) (set_calling l True s)) = Inr t
           \<and> s' = set_calling l False t"
    using r by (auto simp: doPendingFunctors_def res_simps)
  moreover note functor_runner.pending_round [OF functor_runner.intro [OF ok] r fs]
  ultimately show ?thesis by blast
qed

definition sample_world :: scripted_world where
  "sample_world = \<lparr>chans = (\<lambda>_. channel_new 0 0), w_tid = 7,
     w_loops = (\<lambda>_. \<lparr>lp_threadId = 7, lp_looping = True, lp_quit = False, lp_callingPendingFunctors = False,
       lp_poller = poller_new, lp_activeChannels = [], lp_pollReturnTime = 0, lp_wakeupFd = 5,
       lp_wakeupChannel = 0, lp_eventfd = [],
       lp_pendingFunctor = [Script 1 [Script 3 [], Script 4 []], Script 2 [Script 5 []]]\<rparr>),
     w_loopInThread = (\<lambda>_. Some 0), sw_ran = []\<rparr>"

lemma pending_functors_round_witness:
  "\<exists>s'. doPendingFunctors (run_script 0) 0 sample_world = Inr s' \<and> sw_ran s' = [1, 2]
    \<and> pending_of 0 s' = [Script 3 [], Script 4 [], Script 5 []] \<and> 0 < eventfd_of 0 s'"
proof -
  obtain s' where s': "doPendingFunctors (run_script 0) 0 sample_world = Inr s'"
    and "sw_ran s' = [1, 2]" and p: "pending_of 0 s' = [Script 3 [], Script 4 [], Script 5 []]"
    by (simp add: doPendingFunctors_def swap_pending_def sample_world_def loop_defs upd_loop_def view_defs)
  moreover have "pending_of 0 s' \<noteq> []" unfolding p by simp
  ultimately show ?thesis using pending_functors_round [OF run_script_ok _ s'] p by blast
qed

section \<open>Updating a registered channel\<close>

text \<open>The channel is registered with the poller of its loop, whose thread runs.\<close>

definition registered :: "nat \<Rightarrow> ('cb, 'z) world_scheme \<Rightarrow> bool" where
  "registered c s \<longleftrightarrow> isInLoopThread (ch_loop (chans s c)) s
     \<and> poller_ok (lp_poller (w_loops s (ch_loop (chans s c)))) (chans s)
     \<and> pl_channels (lp_poller (w_loops s (ch_loop (chans s c)))) (ch_fd (chans s c)) = Some c"

definition keeps_identity :: "('cb channel \<Rightarrow> 'cb channel) \<Rightarrow> bool" where
  "keeps_identity g \<longleftrightarrow> (\<forall>ch. ch_fd (g ch) = ch_fd ch \<and> ch_index (g ch) = ch_index ch \<and> ch_loop (g ch) = ch_loop ch)"

lemma bits_keep_identity [simp]:
  "keeps_identity readingBits" "keeps_identity writingBits" "keeps_identity noWritingBits" "keeps_identity noBits"
  by (simp_all add: keeps_identity_def readingBits_def writingBits_def noWritingBits_def noBits_def)

lemma channel_update_registered:
  assumes reg: "registered c s" and g: "keeps_identity g"
  shows "\<exists>pl. channel_update c (upd_chan c g s)
      = Inr (upd_loop (ch_loop (chans s c)) (\<lambda>lp. lp\<lparr>lp_poller := pl\<rparr>) (upd_chan c g s))
    \<and> registered c (upd_loop (ch_loop (chans s c)) (\<lambda>lp. lp\<lparr>lp_poller := pl\<rparr>) (upd_chan c g s))
    \<and> pl_channels pl = pl_channels (lp_poller (w_loops s (ch_loop (chans s c))))"
proof -
  let ?l = "ch_loop (chans s c)" and ?s = "upd_chan c g s"
  let ?pl = "lp_poller (w_loops s ?l)"
  have same: "ch_fd (g (chans s c)) = ch_fd (chans s c)" "ch_index (g (chans s c)) = ch_index (chans s c)"
    "ch_loop (g (chans s c)) = ?l" using g by (simp_all add: keeps_identity_def)
  have "poller_ok ?pl (chans s)" using reg by (simp add: registered_def)
  then have ok: "poller_ok ?pl (chans ?s)" by (rule poller_ok_cong) (auto simp: loop_simps same)
  have r: "pl_channels ?pl (ch_fd (chans ?s c)) = Some c"
    using reg by (simp add: registered_def loop_simps same)
  have here: "isInLoopThread ?l ?s" using reg by (simp add: registered_def isInLoopThread_def loop_simps)
  from poller_update_old [OF ok r] obtain pl where
    pl: "poller_updateChannel True c ?pl (chans ?s) = Inr (pl, chans ?s)" "pl_channels pl = pl_channels ?pl"
      "poller_ok pl (chans ?s)" by blast
  have id: "?s\<lparr>chans := chans ?s\<rparr> = ?s" by simp
  have "channel_update c ?s = Inr (upd_loop ?l (\<lambda>lp. lp\<lparr>lp_poller := pl\<rparr>) ?s)"
    unfolding channel_update_def loop_updateChannel_def with_poller_def
    using here pl(1) id by (simp add: assertInLoopThread_in loop_simps same)
  moreover have "registered c (upd_loop ?l (\<lambda>lp. lp\<lparr>lp_poller := pl\<rparr>) ?s)"
    using pl(2,3) r here by (simp add: registered_def loop_simps same isInLoopThread_def)
  ultimately show ?thesis using pl(2) by blast
qed

lemma registered_cong:
  assumes "registered c s" and "chans s' = chans s" and "w_loops s' = w_loops s" and "w_tid s' = w_tid s"
  shows "registered c s'"
  using assms by (simp add: registered_def isInLoopThread_def)

text \<open>The first update of a channel registers it.\<close>

definition registrable :: "nat \<Rightarrow> ('cb, 'z) world_scheme \<Rightarrow> bool" where
  "registrable c s \<longleftrightarrow> isInLoopThread (ch_loop (chans s c)) s
     \<and> poller_ok (lp_poller (w_loops s (ch_loop (chans s c)))) (chans s)
     \<and> ch_index (chans s c) < 0 \<and> 0 \<le> ch_fd (chans s c)
     \<and> pl_channels (lp_poller (w_loops s (ch_loop (chans s c)))) (ch_fd (chans s c)) = None"

lemma registrable_cong:
  assumes "registrable c s" and "chans s' = chans s" and "w_loops s' = w_loops s" and "w_tid s' = w_tid s"
  shows "registrable c s'"
  using assms by (simp add: registrable_def isInLoopThread_def)

text \<open>The channels registered with the poller of a loop, by descriptor.\<close>

definition loop_channels :: "nat \<Rightarrow> ('cb, 'z) world_scheme \<Rightarrow> int \<rightharpoonup> nat" where
  "loop_channels l s = pl_channels (lp_poller (w_loops s l))"

lemma setIndex_sel [simp]:
  "ch_fd (setIndex i ch) = ch_fd ch" "ch_loop (setIndex i ch) = ch_loop ch" "ch_event (setIndex i ch) = ch_event ch"
  "isWriting (setIndex i ch) = isWriting ch" "isNoneEvent (setIndex i ch) = isNoneEvent ch"
  by (simp_all add: setIndex_def isWriting_def isNoneEvent_def)

definition set_poller :: "nat \<Rightarrow> poller \<Rightarrow> (nat \<Rightarrow> 'cb channel) \<Rightarrow> ('cb, 'z) world_scheme \<Rightarrow> ('cb, 'z) world_scheme" where
  "set_poller l pl cs s = upd_loop l (\<lambda>lp. lp\<lparr>lp_poller := pl\<rparr>) (s\<lparr>chans := cs\<rparr>)"

lemma set_poller_sel [loop_simps]:
  "chans (set_poller l pl cs s) = cs"
  "w_loops (set_poller l pl cs s) = (w_loops s)(l := (w_loops s l)\<lparr>lp_poller := pl\<rparr>)"
  "w_tid (set_poller l pl cs s) = w_tid s"
  "isInLoopThread k (set_poller l pl cs s) = isInLoopThread k s"
  by (simp_all add: set_poller_def upd_loop_def isInLoopThread_def)

lemma channel_update_new:
  assumes new: "registrable c s" and g: "keeps_identity g"
  shows "\<exists>pl i. channel_update c (upd_chan c g s)
      = Inr (set_poller (ch_loop (chans s c)) pl ((chans s)(c := setIndex i (g (chans s c)))) s)
    \<and> registered c (set_poller (ch_loop (chans s c)) pl ((chans s)(c := setIndex i (g (chans s c)))) s)
    \<and> pl_channels pl = (pl_channels (lp_poller (w_loops s (ch_loop (chans s c)))))(ch_fd (chans s c) \<mapsto> c)"
proof -
  let ?l = "ch_loop (chans s c)" and ?s = "upd_chan c g s"
  let ?pl = "lp_poller (w_loops s ?l)"
  have same: "ch_fd (g (chans s c)) = ch_fd (chans s c)" "ch_index (g (chans s c)) = ch_index (chans s c)"
    "ch_loop (g (chans s c)) = ?l" using g by (simp_all add: keeps_identity_def)
  have "poller_ok ?pl (chans s)" using new by (simp add: registrable_def)
  then have ok: "poller_ok ?pl (chans ?s)" by (rule poller_ok_cong) (auto simp: loop_simps same)
  have "ch_index (chans ?s c) < 0" "0 \<le> ch_fd (chans ?s c)" "pl_channels ?pl (ch_fd (chans ?s c)) = None"
    using new by (simp_all add: registrable_def loop_simps same)
  from poller_update_new [OF ok this] obtain pl i where
    pl: "poller_updateChannel True c ?pl (chans ?s) = Inr (pl, (chans ?s)(c := setIndex i (chans ?s c)))"
      "pl_channels pl = (pl_channels ?pl)(ch_fd (chans ?s c) \<mapsto> c)"
      "poller_ok pl ((chans ?s)(c := setIndex i (chans ?s c)))" by blast
  have here: "isInLoopThread ?l s" using new by (simp add: registrable_def)
  have here': "isInLoopThread ?l ?s" using here by (simp add: isInLoopThread_def loop_simps)
  let ?cs = "(chans s)(c := setIndex i (g (chans s c)))"
  have cs: "(chans ?s)(c := setIndex i (chans ?s c)) = ?cs" by (simp add: loop_simps)
  have "?s\<lparr>chans := ?cs\<rparr> = s\<lparr>chans := ?cs\<rparr>" by (simp add: upd_chan_def)
  then have "channel_update c ?s = Inr (set_poller ?l pl ?cs s)"
    unfolding channel_update_def loop_updateChannel_def with_poller_def set_poller_def
    using here' pl(1) cs by (simp add: assertInLoopThread_in loop_simps same)
  moreover have "ch_loop (?cs c) = ?l" "ch_fd (?cs c) = ch_fd (chans s c)"
    by (simp_all add: same setIndex_def)
  then have "registered c (set_poller ?l pl ?cs s)"
    using pl(2,3) here cs by (simp add: registered_def loop_simps same)
  moreover have "pl_channels pl = (pl_channels ?pl)(ch_fd (chans s c) \<mapsto> c)" using pl(2) by (simp add: loop_simps same)
  ultimately show ?thesis by blast
qed

text \<open>A registered channel without events can be removed.\<close>

lemma remove_registered:
  assumes reg: "registered c s" and none: "isNoneEvent (chans s c)"
  shows "\<exists>pl cs. loop_removeChannel (ch_loop (chans s c)) c s = Inr (set_poller (ch_loop (chans s c)) pl cs s)
    \<and> poller_ok pl cs \<and> same_but_index (chans s) cs
    \<and> pl_channels pl = (pl_channels (lp_poller (w_loops s (ch_loop (chans s c)))))(ch_fd (chans s c) := None)"
proof -
  let ?l = "ch_loop (chans s c)"
  have ok: "poller_ok (lp_poller (w_loops s ?l)) (chans s)"
    and r: "pl_channels (lp_poller (w_loops s ?l)) (ch_fd (chans s c)) = Some c"
    and here: "isInLoopThread ?l s" using reg by (simp_all add: registered_def)
  from poller_remove [OF ok r none] obtain pl cs where
    pl: "poller_removeChannel True c (lp_poller (w_loops s ?l)) (chans s) = Inr (pl, cs)" and rest: "poller_ok pl cs"
      "pl_channels pl = (pl_channels (lp_poller (w_loops s ?l)))(ch_fd (chans s c) := None)"
      "same_but_index (chans s) cs" by blast
  have "loop_removeChannel ?l c s = Inr (set_poller ?l pl cs s)"
    using here pl by (simp add: loop_removeChannel_def with_poller_def set_poller_def assertInLoopThread_in)
  with rest show ?thesis by blast
qed

end
