(* ===== verification/LoopThreads.thy ===== *)
theory LoopThreads
  imports EventLoop
begin

text \<open>
  An event loop and the threads that use it: the thread of the loop walks through \<open>loop()\<close> of
  src/eventLoop.cpp, and any thread may call \<open>queueInloop\<close> or \<open>quit\<close>. Every step is one of
  the operations of EventLoop that the code performs without giving up the processor in between:
  the push under the lock, the wake-up, the swap under the lock. The relation starts when the
  thread of the loop is about to call \<open>loop()\<close>.
\<close>

section \<open>The step relation\<close>

text \<open>Where the thread of the loop is: before \<open>loop()\<close>, at the test of \<open>quit_\<close>, in poll(2),
  calling the handlers (the flag says that the eventfd was reported and is still to be read),
  about to swap, calling the functors that are left, and after \<open>loop()\<close>.\<close>

datatype 'cb loop_pc =
    Entering | Testing | Polling | Handling bool | Swapping | Running "'cb list" | Left

text \<open>Where a thread is between the two steps of \<open>queueInloop\<close> or of \<open>quit\<close>.\<close>

datatype phase = Idle | Pushed | QuitSet

record 'cb system =
  sy_world :: "'cb world"
  sy_pc :: "'cb loop_pc"
  sy_phase :: "nat \<Rightarrow> phase"
  sy_pushed :: "'cb list"
  sy_ran :: "'cb list"

definition as_thread :: "nat \<Rightarrow> ('cb, 'z) world_scheme \<Rightarrow> ('cb, 'z) world_scheme" where
  "as_thread t s = s\<lparr>w_tid := t\<rparr>"

definition loop_thread :: "nat \<Rightarrow> 'cb system \<Rightarrow> nat" where
  "loop_thread l S = lp_threadId (w_loops (sy_world S) l)"

definition quit_of :: "nat \<Rightarrow> ('cb, 'z) world_scheme \<Rightarrow> bool" where
  "quit_of l s = lp_quit (w_loops s l)"

text \<open>The thread of the loop runs code of its own only in handlers and in functors.\<close>

fun user_code :: "'cb loop_pc \<Rightarrow> bool" where
  "user_code (Handling b) = True"
| "user_code (Running fs) = True"
| "user_code _ = False"

definition may_call :: "nat \<Rightarrow> nat \<Rightarrow> 'cb system \<Rightarrow> bool" where
  "may_call l t S \<longleftrightarrow> sy_phase S t = Idle \<and> (t \<noteq> loop_thread l S \<or> user_code (sy_pc S))"

definition loop_free :: "nat \<Rightarrow> 'cb system \<Rightarrow> bool" where
  "loop_free l S \<longleftrightarrow> sy_phase S (loop_thread l S) = Idle"

inductive sys_step :: "nat \<Rightarrow> 'cb system \<Rightarrow> 'cb system \<Rightarrow> bool" for l :: nat where
  push: "may_call l t S \<Longrightarrow>
    sys_step l S (S\<lparr>sy_world := queue_push l f (as_thread t (sy_world S)),
      sy_phase := (sy_phase S)(t := Pushed), sy_pushed := sy_pushed S @ [f]\<rparr>)"
| wake: "sy_phase S t = Pushed \<Longrightarrow>
    sys_step l S (S\<lparr>sy_world := queue_wake l (as_thread t (sy_world S)),
      sy_phase := (sy_phase S)(t := Idle)\<rparr>)"
| quit_set: "may_call l t S \<Longrightarrow>
    sys_step l S (S\<lparr>sy_world := set_quit l True (as_thread t (sy_world S)),
      sy_phase := (sy_phase S)(t := QuitSet)\<rparr>)"
| quit_wake: "sy_phase S t = QuitSet \<Longrightarrow>
    sys_step l S (S\<lparr>sy_world := (if \<not> isInLoopThread l (as_thread t (sy_world S))
        then wakeup l (as_thread t (sy_world S)) else as_thread t (sy_world S)),
      sy_phase := (sy_phase S)(t := Idle)\<rparr>)"
| enter: "sy_pc S = Entering \<Longrightarrow>
    sys_step l S (S\<lparr>sy_world := set_quit l False (sy_world S), sy_pc := Testing\<rparr>)"
| test_poll: "sy_pc S = Testing \<Longrightarrow> \<not> quit_of l (sy_world S) \<Longrightarrow> sys_step l S (S\<lparr>sy_pc := Polling\<rparr>)"
| test_leave: "sy_pc S = Testing \<Longrightarrow> quit_of l (sy_world S) \<Longrightarrow> sys_step l S (S\<lparr>sy_pc := Left\<rparr>)"
| poll_return: "sy_pc S = Polling \<Longrightarrow>
    sys_step l S (S\<lparr>sy_pc := Handling (0 < eventfd_of l (sy_world S))\<rparr>)"
| read_eventfd: "sy_pc S = Handling True \<Longrightarrow> loop_free l S \<Longrightarrow>
    sys_step l S (S\<lparr>sy_world := loop_handleRead l (sy_world S), sy_pc := Handling False\<rparr>)"
| handled: "sy_pc S = Handling False \<Longrightarrow> loop_free l S \<Longrightarrow>
    sys_step l S (S\<lparr>sy_world := set_calling l True (sy_world S), sy_pc := Swapping\<rparr>)"
| swap: "sy_pc S = Swapping \<Longrightarrow> swap_pending l (sy_world S) = (fs, w) \<Longrightarrow>
    sys_step l S (S\<lparr>sy_world := w, sy_pc := Running fs\<rparr>)"
| run: "sy_pc S = Running (f # fs) \<Longrightarrow> loop_free l S \<Longrightarrow>
    sys_step l S (S\<lparr>sy_pc := Running fs, sy_ran := sy_ran S @ [f]\<rparr>)"
| ran: "sy_pc S = Running [] \<Longrightarrow> loop_free l S \<Longrightarrow>
    sys_step l S (S\<lparr>sy_world := set_calling l False (sy_world S), sy_pc := Testing\<rparr>)"

text \<open>Initially nothing is queued, and no thread is inside an operation.\<close>

definition sys_init :: "nat \<Rightarrow> 'cb system \<Rightarrow> bool" where
  "sys_init l S \<longleftrightarrow> sy_pc S = Entering \<and> (\<forall>t. sy_phase S t = Idle) \<and> sy_pushed S = [] \<and> sy_ran S = []
     \<and> pending_of l (sy_world S) = []"

definition sys_reachable :: "nat \<Rightarrow> 'cb system \<Rightarrow> bool" where
  "sys_reachable l = reachable_from (sys_init l) (sys_step l)"

section \<open>What the steps do to the loop\<close>

named_theorems sys_simps "the view of the loop after each step"

lemma as_thread_view [sys_simps]:
  "pending_of l (as_thread t s) = pending_of l s" "eventfd_of l (as_thread t s) = eventfd_of l s"
  "calling_of l (as_thread t s) = calling_of l s" "quit_of l (as_thread t s) = quit_of l s"
  "w_loops (as_thread t s) = w_loops s"
  "isInLoopThread l (as_thread t s) \<longleftrightarrow> lp_threadId (w_loops s l) = t"
  by (simp_all add: as_thread_def view_defs quit_of_def isInLoopThread_def)

lemma queue_push_view [sys_simps]:
  "pending_of l (queue_push l f s) = pending_of l s @ [f]" "eventfd_of l (queue_push l f s) = eventfd_of l s"
  "calling_of l (queue_push l f s) = calling_of l s" "quit_of l (queue_push l f s) = quit_of l s"
  "lp_threadId (w_loops (queue_push l f s) l) = lp_threadId (w_loops s l)"
  by (simp_all add: loop_defs loop_simps view_defs quit_of_def)

lemma wakeup_view [sys_simps]:
  "pending_of l (wakeup l s) = pending_of l s" "0 < eventfd_of l (wakeup l s)"
  "calling_of l (wakeup l s) = calling_of l s" "quit_of l (wakeup l s) = quit_of l s"
  "lp_threadId (w_loops (wakeup l s) l) = lp_threadId (w_loops s l)"
  by (simp_all add: wakeup_value, simp_all add: loop_defs loop_simps view_defs quit_of_def)

lemma set_quit_view [sys_simps]:
  "pending_of l (set_quit l b s) = pending_of l s" "eventfd_of l (set_quit l b s) = eventfd_of l s"
  "calling_of l (set_quit l b s) = calling_of l s" "quit_of l (set_quit l b s) = b"
  "lp_threadId (w_loops (set_quit l b s) l) = lp_threadId (w_loops s l)"
  by (simp_all add: loop_defs loop_simps view_defs quit_of_def)

lemma set_calling_view [sys_simps]:
  "pending_of l (set_calling l b s) = pending_of l s" "eventfd_of l (set_calling l b s) = eventfd_of l s"
  "calling_of l (set_calling l b s) = b" "quit_of l (set_calling l b s) = quit_of l s"
  "lp_threadId (w_loops (set_calling l b s) l) = lp_threadId (w_loops s l)"
  by (simp_all add: loop_defs loop_simps view_defs quit_of_def)

lemma handleRead_view [sys_simps]:
  "pending_of l (loop_handleRead l s) = pending_of l s" "eventfd_of l (loop_handleRead l s) = 0"
  "calling_of l (loop_handleRead l s) = calling_of l s" "quit_of l (loop_handleRead l s) = quit_of l s"
  "lp_threadId (w_loops (loop_handleRead l s) l) = lp_threadId (w_loops s l)"
  by (simp_all add: loop_defs loop_simps view_defs quit_of_def eventfd_value_snoc)

lemma swap_pending_view:
  "swap_pending l s = (fs, w) \<Longrightarrow> fs = pending_of l s \<and> pending_of l w = []
    \<and> eventfd_of l w = eventfd_of l s \<and> calling_of l w = calling_of l s \<and> quit_of l w = quit_of l s
    \<and> lp_threadId (w_loops w l) = lp_threadId (w_loops s l)"
  by (auto simp: swap_pending_def loop_simps view_defs quit_of_def)

lemma queue_wake_cases:
  "queue_wake l s = (if isInLoopThread l s \<and> \<not> calling_of l s then s else wakeup l s)"
  by (simp add: queue_wake_def view_defs)

section \<open>The invariant\<close>

fun running :: "'cb loop_pc \<Rightarrow> 'cb list" where
  "running (Running fs) = fs"
| "running _ = []"

text \<open>A thread that is about to write the eventfd because of a functor it queued.\<close>

definition waking :: "nat \<Rightarrow> 'cb system \<Rightarrow> nat \<Rightarrow> bool" where
  "waking l S t \<longleftrightarrow> sy_phase S t = Pushed \<and> (t \<noteq> loop_thread l S \<or> calling_of l (sy_world S))"

definition awake :: "nat \<Rightarrow> 'cb system \<Rightarrow> bool" where
  "awake l S \<longleftrightarrow> 0 < eventfd_of l (sy_world S) \<or> (\<exists>t. waking l S t)"

fun past_swap :: "'cb loop_pc \<Rightarrow> bool" where
  "past_swap (Handling b) = False"
| "past_swap Swapping = False"
| "past_swap _ = True"

fun within_calls :: "'cb loop_pc \<Rightarrow> bool" where
  "within_calls (Running fs) = True"
| "within_calls Swapping = True"
| "within_calls _ = False"

definition sys_ok :: "nat \<Rightarrow> 'cb system \<Rightarrow> bool" where
  "sys_ok l S \<longleftrightarrow>
     (past_swap (sy_pc S) \<longrightarrow> pending_of l (sy_world S) \<noteq> [] \<longrightarrow> awake l S)
   \<and> (within_calls (sy_pc S) \<longrightarrow> calling_of l (sy_world S))
   \<and> (sy_phase S (loop_thread l S) \<noteq> Idle \<longrightarrow> user_code (sy_pc S))
   \<and> (sy_pc S = Polling \<longrightarrow> quit_of l (sy_world S) \<longrightarrow>
        0 < eventfd_of l (sy_world S) \<or> (\<exists>t. t \<noteq> loop_thread l S \<and> sy_phase S t = QuitSet))
   \<and> sy_pushed S = sy_ran S @ running (sy_pc S) @ pending_of l (sy_world S)"

lemma sys_okD:
  assumes "sys_ok l S"
  shows "past_swap (sy_pc S) \<Longrightarrow> pending_of l (sy_world S) \<noteq> [] \<Longrightarrow> awake l S"
    and "within_calls (sy_pc S) \<Longrightarrow> calling_of l (sy_world S)"
    and "sy_phase S (loop_thread l S) \<noteq> Idle \<Longrightarrow> user_code (sy_pc S)"
    and "sy_pc S = Polling \<Longrightarrow> quit_of l (sy_world S) \<Longrightarrow>
        0 < eventfd_of l (sy_world S) \<or> (\<exists>t. t \<noteq> loop_thread l S \<and> sy_phase S t = QuitSet)"
    and "sy_pushed S = sy_ran S @ running (sy_pc S) @ pending_of l (sy_world S)"
  using assms by (auto simp: sys_ok_def)

lemma sys_init_ok: "sys_init l S \<Longrightarrow> sys_ok l S"
  by (auto simp: sys_init_def sys_ok_def)

text \<open>Awake survives what other threads do in between.\<close>

lemma awake_mono:
  assumes "awake l S" and "0 < eventfd_of l (sy_world S) \<Longrightarrow> 0 < eventfd_of l (sy_world S')"
    and "\<And>t. waking l S t \<Longrightarrow> waking l S' t \<or> 0 < eventfd_of l (sy_world S')"
  shows "awake l S'"
  using assms unfolding awake_def by blast

lemma kept_push:
  assumes "may_call l t S" and ok: "sys_ok l S"
  shows "sys_ok l (S\<lparr>sy_world := queue_push l f (as_thread t (sy_world S)),
      sy_phase := (sy_phase S)(t := Pushed), sy_pushed := sy_pushed S @ [f]\<rparr>)" (is "sys_ok l ?S")
proof -
  have idle: "sy_phase S t = Idle" and may: "t \<noteq> loop_thread l S \<or> user_code (sy_pc S)"
    using assms(1) by (simp_all add: may_call_def)
  have lt: "loop_thread l ?S = loop_thread l S" by (simp add: loop_thread_def sys_simps)
  have "awake l ?S" if "past_swap (sy_pc S)"
  proof -
    have "t \<noteq> loop_thread l S \<or> calling_of l (sy_world S)"
      using may that sys_okD(2) [OF ok] by (cases "sy_pc S") auto
    then have "waking l ?S t" by (simp add: waking_def lt, simp add: sys_simps)
    then show ?thesis by (auto simp: awake_def)
  qed
  moreover have "sy_phase ?S (loop_thread l S) \<noteq> Idle \<longrightarrow> user_code (sy_pc S)"
    using may sys_okD(3) [OF ok] by auto
  moreover have "u \<noteq> t" if "sy_phase S u = QuitSet" for u
    using that idle by auto
  ultimately show ?thesis using sys_okD(2,4,5) [OF ok] unfolding sys_ok_def lt
    by (auto simp: sys_simps) metis
qed

lemma kept_wake:
  assumes ph: "sy_phase S t = Pushed" and ok: "sys_ok l S"
  shows "sys_ok l (S\<lparr>sy_world := queue_wake l (as_thread t (sy_world S)),
      sy_phase := (sy_phase S)(t := Idle)\<rparr>)" (is "sys_ok l ?S")
proof -
  let ?w = "as_thread t (sy_world S)"
  have lt: "loop_thread l ?S = loop_thread l S"
    by (simp add: loop_thread_def queue_wake_cases sys_simps)
  have view: "pending_of l (queue_wake l ?w) = pending_of l (sy_world S)"
    "calling_of l (queue_wake l ?w) = calling_of l (sy_world S)"
    "quit_of l (queue_wake l ?w) = quit_of l (sy_world S)"
    by (simp_all add: queue_wake_cases sys_simps)
  have ev: "0 < eventfd_of l (sy_world S) \<Longrightarrow> 0 < eventfd_of l (queue_wake l ?w)"
    by (simp add: queue_wake_cases sys_simps)
  have woken: "0 < eventfd_of l (queue_wake l ?w)" if "waking l S t"
    using that by (auto simp: queue_wake_cases waking_def loop_thread_def sys_simps)
  have "awake l ?S" if "awake l S"
  proof (rule awake_mono [OF that])
    fix u assume u: "waking l S u"
    show "waking l ?S u \<or> 0 < eventfd_of l (sy_world ?S)"
      by (cases "u = t") (use u woken lt in \<open>auto simp: waking_def view\<close>)
  qed (use ev in simp)
  moreover have "u \<noteq> t" if "sy_phase S u = QuitSet" for u
    using that ph by auto
  ultimately show ?thesis using sys_okD [OF ok] ev unfolding sys_ok_def lt
    by (auto simp: view)
qed

lemma kept_quit_set:
  assumes "may_call l t S" and ok: "sys_ok l S"
  shows "sys_ok l (S\<lparr>sy_world := set_quit l True (as_thread t (sy_world S)),
      sy_phase := (sy_phase S)(t := QuitSet)\<rparr>)" (is "sys_ok l ?S")
proof -
  have idle: "sy_phase S t = Idle" and may: "t \<noteq> loop_thread l S \<or> user_code (sy_pc S)"
    using assms(1) by (simp_all add: may_call_def)
  have lt: "loop_thread l ?S = loop_thread l S" by (simp add: loop_thread_def sys_simps)
  have "awake l ?S" if "awake l S"
  proof (rule awake_mono [OF that])
    fix u assume u: "waking l S u"
    then have "u \<noteq> t" using idle by (auto simp: waking_def)
    then show "waking l ?S u \<or> 0 < eventfd_of l (sy_world ?S)"
      using u lt by (simp add: waking_def sys_simps)
  qed (simp add: sys_simps)
  moreover have "\<exists>u. u \<noteq> loop_thread l S \<and> sy_phase ?S u = QuitSet" if "sy_pc S = Polling"
    using may that by (intro exI [of _ t]) simp
  ultimately show ?thesis using sys_okD(1,2,3,5) [OF ok] may unfolding sys_ok_def lt
    by (auto simp: sys_simps)
qed

lemma kept_quit_wake:
  assumes ph: "sy_phase S t = QuitSet" and ok: "sys_ok l S"
  shows "sys_ok l (S\<lparr>sy_world := (if \<not> isInLoopThread l (as_thread t (sy_world S))
        then wakeup l (as_thread t (sy_world S)) else as_thread t (sy_world S)),
      sy_phase := (sy_phase S)(t := Idle)\<rparr>)" (is "sys_ok l (S\<lparr>sy_world := ?w, sy_phase := _\<rparr>)")
proof -
  let ?S = "S\<lparr>sy_world := ?w, sy_phase := (sy_phase S)(t := Idle)\<rparr>"
  have lt: "loop_thread l ?S = loop_thread l S" by (simp add: loop_thread_def sys_simps)
  have view: "pending_of l ?w = pending_of l (sy_world S)" "calling_of l ?w = calling_of l (sy_world S)"
    "quit_of l ?w = quit_of l (sy_world S)"
    by (simp_all add: sys_simps)
  have ev: "0 < eventfd_of l (sy_world S) \<Longrightarrow> 0 < eventfd_of l ?w" by (simp add: sys_simps)
  have other: "t \<noteq> loop_thread l S \<Longrightarrow> 0 < eventfd_of l ?w"
    by (auto simp: loop_thread_def sys_simps)
  have "awake l ?S" if "awake l S"
  proof (rule awake_mono [OF that])
    fix u assume u: "waking l S u"
    then have "u \<noteq> t" using ph by (auto simp: waking_def)
    then show "waking l ?S u \<or> 0 < eventfd_of l (sy_world ?S)"
      using u lt by (simp add: waking_def view)
  qed (use ev in simp)
  moreover have "0 < eventfd_of l ?w \<or> (\<exists>u. u \<noteq> loop_thread l S \<and> sy_phase ?S u = QuitSet)"
    if "0 < eventfd_of l (sy_world S) \<or> (\<exists>u. u \<noteq> loop_thread l S \<and> sy_phase S u = QuitSet)"
  proof (cases "t = loop_thread l S")
    case True
    with that ev show ?thesis by auto
  next
    case False
    with other show ?thesis by blast
  qed
  ultimately show ?thesis using sys_okD [OF ok] unfolding sys_ok_def lt by (auto simp: view)
qed

text \<open>The steps of the thread of the loop.\<close>

lemma kept_loop:
  assumes ok: "sys_ok l S" and same: "sy_phase S' = sy_phase S"
    and lt: "loop_thread l S' = loop_thread l S"
    and aw: "past_swap (sy_pc S') \<Longrightarrow> pending_of l (sy_world S') \<noteq> [] \<Longrightarrow> awake l S'"
    and ca: "within_calls (sy_pc S') \<Longrightarrow> calling_of l (sy_world S')"
    and us: "user_code (sy_pc S') \<or> sy_phase S (loop_thread l S) = Idle"
    and qu: "sy_pc S' = Polling \<Longrightarrow> \<not> quit_of l (sy_world S')"
    and pu: "sy_pushed S' = sy_ran S' @ running (sy_pc S') @ pending_of l (sy_world S')"
  shows "sys_ok l S'"
  using assms unfolding sys_ok_def by auto

lemma awake_same:
  assumes "awake l S" and "sy_phase S' = sy_phase S" and "loop_thread l S' = loop_thread l S"
    and "calling_of l (sy_world S') = calling_of l (sy_world S) \<or> sy_phase S (loop_thread l S) = Idle"
    and "eventfd_of l (sy_world S') = eventfd_of l (sy_world S)"
  shows "awake l S'"
  by (rule awake_mono [OF assms(1)]) (use assms(2-) in \<open>auto simp: waking_def\<close>)

lemma sys_step_kept:
  assumes "sys_step l S S'" and ok: "sys_ok l S"
  shows "sys_ok l S'"
  using assms(1)
proof cases
  case (push t f)
  then show ?thesis using kept_push [OF _ ok] by simp
next
  case (wake t)
  then show ?thesis using kept_wake [OF _ ok] by simp
next
  case (quit_set t)
  then show ?thesis using kept_quit_set [OF _ ok] by simp
next
  case (quit_wake t)
  then show ?thesis using kept_quit_wake [OF _ ok] by simp
next
  case enter
  have "loop_thread l S' = loop_thread l S" by (simp add: enter loop_thread_def sys_simps)
  with enter show ?thesis
    using awake_same [of l S S'] sys_okD [OF ok] by (intro kept_loop [OF ok]) (auto simp: sys_simps)
next
  case test_poll
  have "loop_thread l S' = loop_thread l S" by (simp add: test_poll loop_thread_def)
  with test_poll show ?thesis
    using awake_same [of l S S'] sys_okD [OF ok] by (intro kept_loop [OF ok]) auto
next
  case test_leave
  have "loop_thread l S' = loop_thread l S" by (simp add: test_leave loop_thread_def)
  with test_leave show ?thesis
    using awake_same [of l S S'] sys_okD [OF ok] by (intro kept_loop [OF ok]) auto
next
  case poll_return
  have "loop_thread l S' = loop_thread l S" by (simp add: poll_return loop_thread_def)
  with poll_return show ?thesis
    using sys_okD [OF ok] by (intro kept_loop [OF ok]) auto
next
  case read_eventfd
  have "loop_thread l S' = loop_thread l S" by (simp add: read_eventfd loop_thread_def sys_simps)
  with read_eventfd show ?thesis
    using sys_okD [OF ok] by (intro kept_loop [OF ok]) (auto simp: sys_simps)
next
  case handled
  have "loop_thread l S' = loop_thread l S" by (simp add: handled loop_thread_def sys_simps)
  with handled show ?thesis
    using sys_okD [OF ok] by (intro kept_loop [OF ok]) (auto simp: sys_simps loop_free_def)
next
  case (swap fs w)
  note v = swap_pending_view [OF swap(3)]
  have "loop_thread l S' = loop_thread l S" by (simp add: swap loop_thread_def v)
  with swap show ?thesis
    using sys_okD [OF ok] v by (intro kept_loop [OF ok]) auto
next
  case (run f fs)
  have "loop_thread l S' = loop_thread l S" by (simp add: run loop_thread_def)
  with run show ?thesis
    using awake_same [of l S S'] sys_okD [OF ok] by (intro kept_loop [OF ok]) auto
next
  case ran
  have "loop_thread l S' = loop_thread l S" by (simp add: ran loop_thread_def sys_simps)
  with ran show ?thesis
    using awake_same [of l S S'] sys_okD [OF ok]
    by (intro kept_loop [OF ok]) (auto simp: sys_simps loop_free_def)
qed

interpretation threads: inductive_invariant "sys_init l" "sys_step l" "sys_ok l" for l
  by unfold_locales (auto intro: sys_init_ok sys_step_kept)

section \<open>Properties of all interleavings\<close>

text \<open>C8. However the calls of \<open>queueInloop\<close> and \<open>quit\<close> of any threads interleave with the loop,
  when the loop sits in poll(2) with functors pending or with \<open>quit_\<close> set, the eventfd is already
  readable or another thread is about to write it: no functor and no request to quit made while it
  loops waits for a poll that does not return.\<close>

theorem no_lost_wakeup:
  assumes "sys_reachable l S" and polling: "sy_pc S = Polling"
  shows "(pending_of l (sy_world S) \<noteq> [] \<longrightarrow>
        0 < eventfd_of l (sy_world S) \<or> (\<exists>t. t \<noteq> loop_thread l S \<and> sy_phase S t = Pushed))
    \<and> (quit_of l (sy_world S) \<longrightarrow>
        0 < eventfd_of l (sy_world S) \<or> (\<exists>t. t \<noteq> loop_thread l S \<and> sy_phase S t = QuitSet))"
proof -
  have ok: "sys_ok l S" using threads.always assms(1) by (simp add: sys_reachable_def)
  have "sy_phase S (loop_thread l S) = Idle" using sys_okD(3) [OF ok] polling by auto
  then have "0 < eventfd_of l (sy_world S) \<or> (\<exists>t. t \<noteq> loop_thread l S \<and> sy_phase S t = Pushed)"
    if "awake l S"
    using that unfolding awake_def waking_def by (metis phase.distinct(1))
  then show ?thesis using sys_okD(1,4) [OF ok] polling by auto
qed

text \<open>C13. In every interleaving the functors run once each and in the order in which they were pushed:
  those that ran, those the loop has taken and not yet called, and those still queued are, in this
  order, all that were ever pushed.\<close>

theorem functors_run_in_order:
  assumes "sys_reachable l S"
  shows "sy_pushed S = sy_ran S @ running (sy_pc S) @ pending_of l (sy_world S)"
  using sys_okD(5) threads.always assms by (auto simp: sys_reachable_def)

definition start_world :: "nat world" where
  "start_world = \<lparr>chans = (\<lambda>_. channel_new 0 0), w_tid = 7,
     w_loops = (\<lambda>_. \<lparr>lp_threadId = 7, lp_looping = False, lp_quit = False, lp_callingPendingFunctors = False,
       lp_poller = poller_new, lp_activeChannels = [], lp_pollReturnTime = 0, lp_wakeupFd = 5,
       lp_wakeupChannel = 0, lp_eventfd = [], lp_pendingFunctor = []\<rparr>), w_loopInThread = (\<lambda>_. Some 0)\<rparr>"

definition start_system :: "nat system" where
  "start_system = \<lparr>sy_world = start_world, sy_pc = Entering, sy_phase = (\<lambda>_. Idle), sy_pushed = [], sy_ran = []\<rparr>"

lemma start_system_init: "sys_init l start_system"
  by (simp add: sys_init_def start_system_def start_world_def pending_of_def)

lemma start_loop_thread: "lp_threadId (w_loops start_world l) = 7"
  by (simp add: start_world_def)

lemma start_world_view: "pending_of l start_world = []" "eventfd_of l start_world = 0" "\<not> quit_of l start_world"
  by (simp_all add: start_world_def view_defs quit_of_def eventfd_value_def)

lemmas start_simps = start_system_def start_loop_thread start_world_view loop_thread_def may_call_def
  loop_free_def sys_simps

text \<open>The loop polls; thread 8 has pushed a functor and thread 9 has set the flag to quit.\<close>

definition busy_system :: "nat system" where
  "busy_system = (let w = set_quit 0 True (as_thread 9 (queue_push 0 42 (as_thread 8 (set_quit 0 False start_world))))
     in \<lparr>sy_world = w, sy_pc = Polling, sy_phase = (\<lambda>_. Idle)(8 := Pushed, 9 := QuitSet),
         sy_pushed = [42], sy_ran = []\<rparr>)"

lemma busy_reachable: "sys_reachable 0 busy_system"
proof -
  let ?a = "start_system\<lparr>sy_world := set_quit 0 False start_world, sy_pc := Testing\<rparr>"
  let ?b = "?a\<lparr>sy_pc := Polling\<rparr>"
  let ?c = "?b\<lparr>sy_world := queue_push 0 42 (as_thread 8 (sy_world ?b)),
      sy_phase := (sy_phase ?b)(8 := Pushed), sy_pushed := sy_pushed ?b @ [42]\<rparr>"
  let ?d = "?c\<lparr>sy_world := set_quit 0 True (as_thread 9 (sy_world ?c)), sy_phase := (sy_phase ?c)(9 := QuitSet)\<rparr>"
  have "sys_step 0 start_system ?a"
    using sys_step.enter [of start_system 0] by (simp add: start_system_def)
  moreover have "sys_step 0 ?a ?b" by (rule sys_step.test_poll) (simp_all add: start_simps)
  moreover have "sys_step 0 ?b ?c" by (rule sys_step.push) (simp add: start_simps)
  moreover have "sys_step 0 ?c ?d" by (rule sys_step.quit_set) (simp add: start_simps)
  moreover have "?d = busy_system" by (simp add: busy_system_def start_system_def)
  ultimately have "(sys_step 0)\<^sup>*\<^sup>* start_system busy_system"
    by (metis (no_types, lifting) rtranclp.rtrancl_into_rtrancl rtranclp.rtrancl_refl)
  then show ?thesis using start_system_init by (auto simp: sys_reachable_def reachable_from_def)
qed

lemma no_lost_wakeup_witness:
  "pending_of 0 (sy_world busy_system) = [42] \<and> quit_of 0 (sy_world busy_system)
   \<and> (0 < eventfd_of 0 (sy_world busy_system) \<or> (\<exists>t. t \<noteq> 7 \<and> sy_phase busy_system t = Pushed))
   \<and> (0 < eventfd_of 0 (sy_world busy_system) \<or> (\<exists>t. t \<noteq> 7 \<and> sy_phase busy_system t = QuitSet))"
proof -
  have v: "sy_pc busy_system = Polling" "pending_of 0 (sy_world busy_system) = [42]"
    "quit_of 0 (sy_world busy_system)" "loop_thread 0 busy_system = 7"
    by (simp_all add: busy_system_def Let_def start_simps)
  show ?thesis using no_lost_wakeup [OF busy_reachable v(1)] v(2-4) by auto
qed

lemma functors_run_in_order_witness:
  "sy_pushed busy_system = [42] \<and> sy_pushed busy_system
    = sy_ran busy_system @ running (sy_pc busy_system) @ pending_of 0 (sy_world busy_system)"
  using functors_run_in_order [OF busy_reachable] by (simp add: busy_system_def)

text \<open>The two steps of \<open>quit\<close>, made by one thread, are \<open>EventLoop::quit\<close>.\<close>

definition quit_called :: "nat \<Rightarrow> nat \<Rightarrow> 'cb system \<Rightarrow> 'cb system" where
  "quit_called l t S = S\<lparr>sy_world := loop_quit l (as_thread t (sy_world S))\<rparr>"

lemma quit_steps:
  assumes "may_call l t S"
  shows "(sys_step l)\<^sup>*\<^sup>* S (quit_called l t S)"
proof -
  let ?a = "S\<lparr>sy_world := set_quit l True (as_thread t (sy_world S)), sy_phase := (sy_phase S)(t := QuitSet)\<rparr>"
  let ?w = "if \<not> isInLoopThread l (as_thread t (sy_world ?a)) then wakeup l (as_thread t (sy_world ?a)) else as_thread t (sy_world ?a)"
  let ?b = "?a\<lparr>sy_world := ?w, sy_phase := (sy_phase ?a)(t := Idle)\<rparr>"
  have a: "sys_step l S ?a" by (rule sys_step.quit_set [OF assms])
  have b: "sys_step l ?a ?b" by (rule sys_step.quit_wake) simp
  have t: "as_thread t (set_quit l True (as_thread t u)) = set_quit l True (as_thread t u)" for u :: "'a world"
    by (simp add: as_thread_def set_quit_def upd_loop_def)
  have "(sy_phase S)(t := Idle) = sy_phase S" using assms by (simp add: may_call_def fun_upd_idem_iff)
  then have "?b = quit_called l t S" by (simp add: quit_called_def loop_quit_def Let_def t)
  with a b show ?thesis by (metis converse_rtranclp_into_rtranclp r_into_rtranclp)
qed

lemma quit_called_view:
  "pending_of l (sy_world (quit_called l t S)) = pending_of l (sy_world S)" "quit_of l (sy_world (quit_called l t S))"
  "t \<noteq> loop_thread l S \<Longrightarrow> 0 < eventfd_of l (sy_world (quit_called l t S))"
  "sy_pc (quit_called l t S) = sy_pc S" "sy_phase (quit_called l t S) = sy_phase S"
  by (simp_all add: quit_called_def loop_quit_def Let_def sys_simps loop_thread_def isInLoopThread_def, simp add: as_thread_def set_quit_def upd_loop_def)

text \<open>The steps of the thread of the loop while nobody calls \<open>queueInloop\<close> or \<open>quit\<close>.\<close>

definition loop_alone :: "nat \<Rightarrow> 'cb system \<Rightarrow> 'cb system \<Rightarrow> bool" where
  "loop_alone l S S' \<longleftrightarrow> sys_step l S S' \<and> sy_phase S' = sy_phase S \<and> (\<forall>t. sy_phase S t = Idle)"

definition quit_forgotten :: "nat \<Rightarrow> 'cb system \<Rightarrow> bool" where
  "quit_forgotten l S \<longleftrightarrow> sy_pc S = Entering \<or> \<not> quit_of l (sy_world S) \<and> sy_pc S \<noteq> Left"

lemma alone_forgets:
  assumes "loop_alone l S S'" and "quit_forgotten l S"
  shows "quit_forgotten l S'"
proof -
  have step: "sys_step l S S'" and idle: "\<And>t. sy_phase S t = Idle" "\<And>t. sy_phase S' t = Idle"
    using assms(1) by (simp_all add: loop_alone_def)
  show ?thesis using step
  proof cases
    case (push t f)
    with idle(2) [of t] show ?thesis by simp
  next
    case (wake t)
    with idle(1) [of t] show ?thesis by simp
  next
    case (quit_set t)
    with idle(2) [of t] show ?thesis by simp
  next
    case (quit_wake t)
    with idle(1) [of t] show ?thesis by simp
  next
    case (swap fs w)
    with swap_pending_view [OF swap(3)] assms(2) show ?thesis by (simp add: quit_forgotten_def)
  qed (use assms(2) in \<open>simp_all add: quit_forgotten_def sys_simps\<close>)
qed

lemma alone_never_leaves:
  assumes "(loop_alone l)\<^sup>*\<^sup>* S S'" and "quit_forgotten l S"
  shows "quit_forgotten l S'"
  using assms by (induction rule: rtranclp_induct) (auto intro: alone_forgets)

lemmas loop_alone_more = rtranclp.rtrancl_into_rtrancl [of "loop_alone l" for l]

text \<open>The turn of a loop that finds its eventfd readable, up to its next test of \<open>quit_\<close>: the wake-up is drained.\<close>

lemma alone_turn:
  assumes pc: "sy_pc B = Polling" and idle: "\<forall>t. sy_phase B t = Idle"
    and vb: "0 < eventfd_of l (sy_world B)" "pending_of l (sy_world B) = []"
  shows "\<exists>S. (loop_alone l)\<^sup>*\<^sup>* B S \<and> sy_pc S = Testing \<and> quit_of l (sy_world S) = quit_of l (sy_world B)
    \<and> eventfd_of l (sy_world S) = 0 \<and> pending_of l (sy_world S) = [] \<and> (\<forall>t. sy_phase S t = Idle)"
proof -
  let ?e = "B\<lparr>sy_pc := Handling True\<rparr>"
  let ?f = "?e\<lparr>sy_world := loop_handleRead l (sy_world ?e), sy_pc := Handling False\<rparr>"
  let ?g = "?f\<lparr>sy_world := set_calling l True (sy_world ?f), sy_pc := Swapping\<rparr>"
  obtain fs v where v: "swap_pending l (sy_world ?g) = (fs, v)" by force
  let ?h = "?g\<lparr>sy_world := v, sy_pc := Running fs\<rparr>"
  let ?i = "?h\<lparr>sy_world := set_calling l False (sy_world ?h), sy_pc := Testing\<rparr>"
  note sv = swap_pending_view [OF v]
  have fs: "fs = []" using sv vb by (simp add: sys_simps)
  have "sys_step l B ?e" using sys_step.poll_return [OF pc, of l] vb(1) by simp
  moreover have "sys_step l ?e ?f" by (rule sys_step.read_eventfd) (simp_all add: idle loop_free_def)
  moreover have "sys_step l ?f ?g" by (rule sys_step.handled) (simp_all add: idle loop_free_def)
  moreover have "sys_step l ?g ?h" by (rule sys_step.swap [OF _ v]) simp
  moreover have "sys_step l ?h ?i" by (rule sys_step.ran) (simp_all add: fs idle loop_free_def)
  ultimately have "loop_alone l B ?e" "loop_alone l ?e ?f" "loop_alone l ?f ?g" "loop_alone l ?g ?h" "loop_alone l ?h ?i"
    using idle by (simp_all add: loop_alone_def)
  note loop_alone_more [OF loop_alone_more [OF loop_alone_more [OF loop_alone_more [OF r_into_rtranclp [of "loop_alone l", OF this(1)] this(2)] this(3)] this(4)] this(5)]
  moreover have "quit_of l (sy_world ?i) = quit_of l (sy_world B)" "eventfd_of l (sy_world ?i) = 0" "pending_of l (sy_world ?i) = []"
    using sv by (simp_all add: sys_simps)
  ultimately show ?thesis using idle by (intro exI [of _ ?i]) simp
qed

text \<open>A loop that is entered clears its flag and comes to its first poll.\<close>

lemma alone_enters:
  assumes pc: "sy_pc B = Entering" and idle: "\<forall>t. sy_phase B t = Idle"
  shows "\<exists>S. (loop_alone l)\<^sup>*\<^sup>* B S \<and> sy_pc S = Polling \<and> \<not> quit_of l (sy_world S) \<and> loop_thread l S = loop_thread l B
    \<and> eventfd_of l (sy_world S) = eventfd_of l (sy_world B) \<and> pending_of l (sy_world S) = pending_of l (sy_world B)
    \<and> (\<forall>t. sy_phase S t = Idle)"
proof -
  let ?c = "B\<lparr>sy_world := set_quit l False (sy_world B), sy_pc := Testing\<rparr>"
  let ?d = "?c\<lparr>sy_pc := Polling\<rparr>"
  have "sys_step l B ?c" by (rule sys_step.enter [OF pc])
  moreover have "sys_step l ?c ?d" by (rule sys_step.test_poll) (simp_all add: sys_simps)
  ultimately have "loop_alone l B ?c" "loop_alone l ?c ?d" using idle by (simp_all add: loop_alone_def)
  then have "(loop_alone l)\<^sup>*\<^sup>* B ?d" by (metis converse_rtranclp_into_rtranclp rtranclp.rtrancl_refl)
  then show ?thesis using idle by (intro exI [of _ ?d]) (simp add: sys_simps loop_thread_def)
qed

lemma quit_then_enter:
  assumes "sy_pc B = Entering" and "\<forall>t. sy_phase B t = Idle" and "0 < eventfd_of l (sy_world B)" "pending_of l (sy_world B) = []"
  shows "\<exists>S. (loop_alone l)\<^sup>*\<^sup>* B S \<and> sy_pc S = Polling \<and> eventfd_of l (sy_world S) = 0 \<and> pending_of l (sy_world S) = []"
proof -
  from alone_enters [OF assms(1,2), of l] obtain P where P: "(loop_alone l)\<^sup>*\<^sup>* B P" "sy_pc P = Polling" "\<not> quit_of l (sy_world P)"
    "0 < eventfd_of l (sy_world P)" "pending_of l (sy_world P) = []" "\<forall>t. sy_phase P t = Idle"
    using assms(3,4) by auto
  from alone_turn [OF P(2,6,4,5)] P(3) obtain T where T: "(loop_alone l)\<^sup>*\<^sup>* P T" "sy_pc T = Testing" "\<not> quit_of l (sy_world T)"
    "eventfd_of l (sy_world T) = 0" "pending_of l (sy_world T) = []" "\<forall>t. sy_phase T t = Idle" by auto
  have "loop_alone l T (T\<lparr>sy_pc := Polling\<rparr>)" using sys_step.test_poll [OF T(2,3)] T(6) by (simp add: loop_alone_def)
  with P(1) T(1) have "(loop_alone l)\<^sup>*\<^sup>* B (T\<lparr>sy_pc := Polling\<rparr>)" by (metis rtranclp.rtrancl_into_rtrancl rtranclp_trans)
  then show ?thesis using T(4,5) by (intro exI [of _ "T\<lparr>sy_pc := Polling\<rparr>"]) simp
qed

lemma quit_while_polling:
  assumes "sy_pc B = Entering" and "\<forall>t. sy_phase B t = Idle" and "pending_of l (sy_world B) = []" and t: "t \<noteq> loop_thread l B"
  shows "\<exists>P Q. (loop_alone l)\<^sup>*\<^sup>* B P \<and> sy_pc P = Polling \<and> (loop_alone l)\<^sup>*\<^sup>* (quit_called l t P) Q \<and> sy_pc Q = Left"
proof -
  from alone_enters [OF assms(1,2), of l] obtain P where P: "(loop_alone l)\<^sup>*\<^sup>* B P" "sy_pc P = Polling"
    "t \<noteq> loop_thread l P" "pending_of l (sy_world P) = []" "\<forall>t. sy_phase P t = Idle"
    using assms(3,4) by auto
  note v = quit_called_view [where l = l and t = t and S = P]
  have "sy_pc (quit_called l t P) = Polling" "\<forall>u. sy_phase (quit_called l t P) u = Idle"
    "0 < eventfd_of l (sy_world (quit_called l t P))" "pending_of l (sy_world (quit_called l t P)) = []"
    using P v by simp_all
  from alone_turn [OF this] v(2) obtain T where T: "(loop_alone l)\<^sup>*\<^sup>* (quit_called l t P) T" "sy_pc T = Testing" "quit_of l (sy_world T)"
    "\<forall>t. sy_phase T t = Idle" by auto
  have "loop_alone l T (T\<lparr>sy_pc := Left\<rparr>)" using sys_step.test_leave [OF T(2,3)] T(4) by (simp add: loop_alone_def)
  with T(1) have "(loop_alone l)\<^sup>*\<^sup>* (quit_called l t P) (T\<lparr>sy_pc := Left\<rparr>)" by (metis rtranclp.rtrancl_into_rtrancl)
  with P(1,2) show ?thesis by (intro exI [of _ P] exI [of _ "T\<lparr>sy_pc := Left\<rparr>"]) simp
qed

text \<open>C32. A request to quit made before the thread of the loop enters \<open>loop()\<close> is lost. Take a loop as it is
  before its \<open>loop()\<close> is called, nothing queued, its flag clear and its eventfd not written, and let
  another thread call \<open>quit()\<close>: the flag is set and the wake-up written. When the thread of the loop
  then calls \<open>loop()\<close> and nobody calls anything else, the flag is cleared and the loop is never left, in
  no run whatever; and it gets to wait in poll(2) with its eventfd drained and nothing queued. The same
  call of a thread that finds the loop waiting in its first poll(2) ends the loop. The destructor of
  \<open>EventLoopThread\<close> makes such a request and then joins the thread.\<close>

theorem early_quit_is_lost:
  assumes "sys_init l S" and "\<not> quit_of l (sy_world S)" and "eventfd_of l (sy_world S) = 0" and "t \<noteq> loop_thread l S"
  shows "(sys_step l)\<^sup>*\<^sup>* S (quit_called l t S)
    \<and> quit_of l (sy_world (quit_called l t S)) \<and> 0 < eventfd_of l (sy_world (quit_called l t S))
    \<and> (\<forall>S'. (loop_alone l)\<^sup>*\<^sup>* (quit_called l t S) S' \<longrightarrow>
         sy_pc S' \<noteq> Left \<and> (sy_pc S' \<noteq> Entering \<longrightarrow> \<not> quit_of l (sy_world S')))
    \<and> (\<exists>S'. (loop_alone l)\<^sup>*\<^sup>* (quit_called l t S) S' \<and> sy_pc S' = Polling \<and> eventfd_of l (sy_world S') = 0
         \<and> pending_of l (sy_world S') = [])
    \<and> (\<exists>P Q. (loop_alone l)\<^sup>*\<^sup>* S P \<and> sy_pc P = Polling
         \<and> (loop_alone l)\<^sup>*\<^sup>* (quit_called l t P) Q \<and> sy_pc Q = Left)"
proof -
  have i: "sy_pc S = Entering" "\<forall>t. sy_phase S t = Idle" "pending_of l (sy_world S) = []"
    using assms(1) by (simp_all add: sys_init_def)
  have "may_call l t S" using i(2) assms(4) by (simp add: may_call_def)
  note r = quit_steps [OF this]
  let ?S = "quit_called l t S"
  note v = quit_called_view [where l = l and t = t and S = S]
  have "sy_pc S' \<noteq> Left \<and> (sy_pc S' \<noteq> Entering \<longrightarrow> \<not> quit_of l (sy_world S'))" if "(loop_alone l)\<^sup>*\<^sup>* ?S S'" for S'
    using alone_never_leaves [OF that] by (auto simp: quit_forgotten_def v(4) i(1))
  moreover have "\<exists>S'. (loop_alone l)\<^sup>*\<^sup>* ?S S' \<and> sy_pc S' = Polling \<and> eventfd_of l (sy_world S') = 0 \<and> pending_of l (sy_world S') = []"
    by (rule quit_then_enter) (use i v(1,4,5) v(3) [OF assms(4)] in simp_all)
  moreover note quit_while_polling [OF i assms(4)]
  ultimately show ?thesis using r v(2) v(3) [OF assms(4)] by blast
qed

lemma early_quit_is_lost_witness:
  "quit_of 0 (sy_world (quit_called 0 8 start_system))
    \<and> (\<exists>S. (loop_alone 0)\<^sup>*\<^sup>* (quit_called 0 8 start_system) S \<and> sy_pc S = Polling \<and> eventfd_of 0 (sy_world S) = 0)"
proof -
  have "\<not> quit_of 0 (sy_world start_system)" "eventfd_of 0 (sy_world start_system) = 0" "8 \<noteq> loop_thread 0 start_system"
    by (simp_all add: start_simps)
  from early_quit_is_lost [OF start_system_init this] show ?thesis by blast
qed

end
