(* ===== verification/LoopStart.thy ===== *)
theory LoopStart
  imports EventLoop
begin

text \<open>
  A thread with a loop of its own: src/eventLoopThread.h and src/eventLoopThread.cpp. \<open>startLoop\<close> makes
  the thread and waits, on a mutex and a condition variable, until \<open>threadFunc\<close> has stored the address
  of the loop it constructed. The two threads are interleaved; the wait may also end without a
  notification. It is the hand-over that \<open>startLoop\<close> of EventLoopThreadPool takes as one step.
\<close>

section \<open>The model\<close>

text \<open>Where the caller of \<open>startLoop\<close> is: before the thread is made, at the lock, at the test of the loop,
  in the wait, woken and at the lock again, at the unlock, behind it with \<open>return loop_\<close> to come, and
  returned with a pointer, perhaps null.\<close>

datatype caller_pc =
    MakeThread | CallerLock | TestLoop | Waiting | Woken | CallerUnlock | ReadLoop | Returned "nat option"

text \<open>Where the new thread is: not yet made, in the constructor of the loop, at the lock, at the store, at
  the notification, at the unlock, and in \<open>loop()\<close>.\<close>

datatype runner_pc =
    NoThread | Constructing | RunnerLock | StoreLoop | NotifyOne | RunnerUnlock | InLoop

datatype party = Caller | Runner

lemma not_Caller [simp]: "a \<noteq> Caller \<longleftrightarrow> a = Runner"
  by (cases a) simp_all

record loop_start =
  st_loop :: "nat option"
  st_mtx :: "party option"
  st_caller :: caller_pc
  st_runner :: runner_pc

definition start_new :: loop_start where
  "start_new = \<lparr>st_loop = None, st_mtx = None, st_caller = MakeThread, st_runner = NoThread\<rparr>"

text \<open>\<open>start_step spurious l\<close>: the loop of the thread is at the address \<open>l\<close>; a spurious step ends the wait
  without a notification.\<close>

inductive start_step :: "bool \<Rightarrow> nat \<Rightarrow> loop_start \<Rightarrow> loop_start \<Rightarrow> bool" for spurious :: bool and l :: nat where
  make: "st_caller S = MakeThread \<Longrightarrow> \<not> spurious \<Longrightarrow>
    start_step spurious l S (S\<lparr>st_caller := CallerLock, st_runner := Constructing\<rparr>)"
| caller_lock: "st_caller S = CallerLock \<Longrightarrow> st_mtx S = None \<Longrightarrow> \<not> spurious \<Longrightarrow>
    start_step spurious l S (S\<lparr>st_caller := TestLoop, st_mtx := Some Caller\<rparr>)"
| wait: "st_caller S = TestLoop \<Longrightarrow> st_loop S = None \<Longrightarrow> \<not> spurious \<Longrightarrow>
    start_step spurious l S (S\<lparr>st_caller := Waiting, st_mtx := None\<rparr>)"
| spurious: "st_caller S = Waiting \<Longrightarrow> spurious \<Longrightarrow>
    start_step spurious l S (S\<lparr>st_caller := Woken\<rparr>)"
| relock: "st_caller S = Woken \<Longrightarrow> st_mtx S = None \<Longrightarrow> \<not> spurious \<Longrightarrow>
    start_step spurious l S (S\<lparr>st_caller := TestLoop, st_mtx := Some Caller\<rparr>)"
| found: "st_caller S = TestLoop \<Longrightarrow> st_loop S \<noteq> None \<Longrightarrow> \<not> spurious \<Longrightarrow>
    start_step spurious l S (S\<lparr>st_caller := CallerUnlock\<rparr>)"
| caller_unlock: "st_caller S = CallerUnlock \<Longrightarrow> \<not> spurious \<Longrightarrow>
    start_step spurious l S (S\<lparr>st_caller := ReadLoop, st_mtx := None\<rparr>)"
| return: "st_caller S = ReadLoop \<Longrightarrow> \<not> spurious \<Longrightarrow>
    start_step spurious l S (S\<lparr>st_caller := Returned (st_loop S)\<rparr>)"
| construct: "st_runner S = Constructing \<Longrightarrow> \<not> spurious \<Longrightarrow>
    start_step spurious l S (S\<lparr>st_runner := RunnerLock\<rparr>)"
| runner_lock: "st_runner S = RunnerLock \<Longrightarrow> st_mtx S = None \<Longrightarrow> \<not> spurious \<Longrightarrow>
    start_step spurious l S (S\<lparr>st_runner := StoreLoop, st_mtx := Some Runner\<rparr>)"
| store: "st_runner S = StoreLoop \<Longrightarrow> \<not> spurious \<Longrightarrow>
    start_step spurious l S (S\<lparr>st_runner := NotifyOne, st_loop := Some l\<rparr>)"
| notify: "st_runner S = NotifyOne \<Longrightarrow> \<not> spurious \<Longrightarrow>
    start_step spurious l S (S\<lparr>st_runner := RunnerUnlock,
      st_caller := (if st_caller S = Waiting then Woken else st_caller S)\<rparr>)"
| runner_unlock: "st_runner S = RunnerUnlock \<Longrightarrow> \<not> spurious \<Longrightarrow>
    start_step spurious l S (S\<lparr>st_runner := InLoop, st_mtx := None\<rparr>)"

inductive_simps start_step_iff: "start_step spurious l S S'"

definition start_reachable :: "nat \<Rightarrow> loop_start \<Rightarrow> bool" where
  "start_reachable l = reachable_from (\<lambda>S. S = start_new) (\<lambda>S S'. \<exists>spurious. start_step spurious l S S')"

text \<open>The destructor: a call through \<open>loop_\<close>; the join that follows waits for the end of \<open>threadFunc\<close>.\<close>

definition loop_thread_destroy :: "nat option \<Rightarrow> ('cb, 'z) world_scheme \<Rightarrow> ('cb, 'z) world_scheme res" where
  "loop_thread_destroy loop s = (case loop of None \<Rightarrow> Inl BadPointer | Some l \<Rightarrow> Inr (loop_quit l s))"

section \<open>The invariant\<close>

definition caller_holds :: "caller_pc \<Rightarrow> bool" where
  "caller_holds pc \<longleftrightarrow> pc \<in> {TestLoop, CallerUnlock}"

definition runner_holds :: "runner_pc \<Rightarrow> bool" where
  "runner_holds pc \<longleftrightarrow> pc \<in> {StoreLoop, NotifyOne, RunnerUnlock}"

text \<open>The mutex belongs to the one that is between lock and unlock; the loop is stored exactly from the
  store on; a caller that waits has not been notified yet; one behind the test has
  found the new thread in its loop.\<close>

definition start_ok :: "nat \<Rightarrow> loop_start \<Rightarrow> bool" where
  "start_ok l S \<longleftrightarrow>
     (st_mtx S = Some Caller \<longleftrightarrow> caller_holds (st_caller S)) \<and> (st_mtx S = Some Runner \<longleftrightarrow> runner_holds (st_runner S))
   \<and> st_loop S = (if st_runner S \<in> {NotifyOne, RunnerUnlock, InLoop} then Some l else None)
   \<and> (st_caller S = MakeThread \<longleftrightarrow> st_runner S = NoThread)
   \<and> (st_caller S = Waiting \<longrightarrow> st_runner S \<notin> {RunnerUnlock, InLoop})
   \<and> (st_caller S \<in> {CallerUnlock, ReadLoop} \<longrightarrow> st_runner S = InLoop)
   \<and> (\<forall>r. st_caller S = Returned r \<longrightarrow> r = Some l \<and> st_runner S = InLoop)"

lemma start_ok_step: "start_step spurious l S S' \<Longrightarrow> start_ok l S \<Longrightarrow> start_ok l S'"
  by (erule start_step.cases; cases "st_runner S"; cases "st_caller S")
    (simp_all add: start_ok_def caller_holds_def runner_holds_def, auto)

lemma start_ok_new: "start_ok l start_new"
  by (simp add: start_ok_def start_new_def caller_holds_def runner_holds_def)

interpretation start_inv: inductive_invariant "\<lambda>S. S = start_new" "\<lambda>S S'. \<exists>spurious. start_step spurious l S S'" "start_ok l"
  by unfold_locales (use start_ok_new start_ok_step in blast)+

section \<open>Progress\<close>

text \<open>How far the two threads still have to go, spurious wake-ups apart.\<close>

fun caller_left :: "bool \<Rightarrow> caller_pc \<Rightarrow> nat" where
  "caller_left stored MakeThread = 20"
| "caller_left stored CallerLock = (if stored then 8 else 12)"
| "caller_left stored Woken = (if stored then 8 else 12)"
| "caller_left stored TestLoop = (if stored then 6 else 11)"
| "caller_left stored Waiting = 10"
| "caller_left stored CallerUnlock = 4"
| "caller_left stored ReadLoop = 2"
| "caller_left stored (Returned r) = 0"

fun runner_left :: "runner_pc \<Rightarrow> nat" where
  "runner_left NoThread = 6"
| "runner_left Constructing = 5"
| "runner_left RunnerLock = 4"
| "runner_left StoreLoop = 3"
| "runner_left NotifyOne = 2"
| "runner_left RunnerUnlock = 1"
| "runner_left InLoop = 0"

definition start_left :: "loop_start \<Rightarrow> nat" where
  "start_left S = caller_left (st_loop S \<noteq> None) (st_caller S) + runner_left (st_runner S)"

lemma start_left_step:
  assumes "start_step False l S S'" and "start_ok l S"
  shows "start_left S' < start_left S"
  using assms
  by (elim start_step.cases; cases "st_runner S"; cases "st_caller S")
    (simp_all add: start_left_def start_ok_def caller_holds_def runner_holds_def)

lemma start_not_stuck:
  assumes "start_ok l S" and "st_caller S \<noteq> Returned (Some l)"
  shows "\<exists>S'. start_step False l S S'"
  using assms
  by (cases "st_runner S"; cases "st_caller S"; cases "st_mtx S")
    (auto simp: start_ok_def caller_holds_def runner_holds_def intro: start_step.intros)

section \<open>Properties\<close>

text \<open>C14. \<open>startLoop\<close> returns the loop of the new thread, whatever the interleaving. At most one of the two
  threads is inside the critical section; when \<open>startLoop\<close> has returned, its result is the loop, never
  null, and the new thread has constructed it and given up the lock; until then some thread can always
  take a step, so that no notification is lost and the two never block each other; and every step that is
  not a spurious wake-up brings the hand-over nearer to its end.\<close>

theorem startLoop_hands_over:
  assumes "start_reachable l S"
  shows "\<not> (caller_holds (st_caller S) \<and> runner_holds (st_runner S))
    \<and> (\<forall>r. st_caller S = Returned r \<longrightarrow> r = Some l \<and> st_runner S = InLoop \<and> st_mtx S = None)
    \<and> (st_caller S \<noteq> Returned (Some l) \<longrightarrow> (\<exists>S'. start_step False l S S'))
    \<and> (\<forall>S'. start_step False l S S' \<longrightarrow> start_left S' < start_left S)"
proof -
  have ok: "start_ok l S" using assms start_inv.always unfolding start_reachable_def by blast
  have "st_mtx S = None" if "st_caller S = Returned r" for r
    using ok that by (cases "st_mtx S") (auto simp: start_ok_def caller_holds_def runner_holds_def)
  then show ?thesis
    using start_not_stuck [OF ok] start_left_step [OF _ ok] ok by (auto simp: start_ok_def)
qed

text \<open>The caller waits before the new thread stores its loop, and is woken once.\<close>

definition waiting_start :: "loop_start" where
  "waiting_start = \<lparr>st_loop = None, st_mtx = None, st_caller = Waiting, st_runner = Constructing\<rparr>"

lemma waiting_start_reachable: "start_reachable l waiting_start"
proof -
  let ?a = "start_new\<lparr>st_caller := CallerLock, st_runner := Constructing\<rparr>"
  let ?b = "?a\<lparr>st_caller := TestLoop, st_mtx := Some Caller\<rparr>"
  let ?step = "\<lambda>S S'. \<exists>spurious. start_step spurious l S S'"
  have a: "?step start_new ?a" by (rule exI, rule start_step.make [of _ False]) (simp_all add: start_new_def)
  have b: "?step ?a ?b" by (rule exI, rule start_step.caller_lock [of _ False]) (simp_all add: start_new_def)
  have w: "?step ?b waiting_start"
    using start_step.wait [of ?b False l] by (intro exI [of _ False]) (simp add: start_new_def waiting_start_def)
  have "?step\<^sup>*\<^sup>* start_new waiting_start"
    by (rule rtranclp.rtrancl_into_rtrancl [where r = ?step and b = ?b, OF _ w],
        rule rtranclp.rtrancl_into_rtrancl [where r = ?step and b = ?a, OF _ b],
        rule r_into_rtranclp [where r = ?step, OF a])
  then show ?thesis unfolding start_reachable_def reachable_from_def by blast
qed

lemma startLoop_hands_over_witness:
  "(\<exists>S'. start_step False 5 waiting_start S') \<and> \<not> runner_holds (st_runner waiting_start)"
  using startLoop_hands_over [OF waiting_start_reachable, of 5]
  by (simp add: waiting_start_def runner_holds_def)

text \<open>A thread whose \<open>startLoop\<close> was never called has a null pointer for its destructor.\<close>

lemma destroy_unstarted: "loop_thread_destroy (st_loop start_new) s = Inl BadPointer"
  by (simp add: loop_thread_destroy_def start_new_def)

end
