(* ===== verification/Closures.thy ===== *)
theory Closures
  imports EventLoop
begin

text \<open>
  The closures the program builds with \<open>std::bind\<close>: one constructor for each bound member function,
  with the objects and values it is bound to, and one for the functions of the user. They are the
  callbacks stored in channels and timers and the functors queued in loops.
\<close>

datatype closure =
    LoopHandleRead nat
  | TimerHandleRead nat
  | AddTimerInloop nat nat
  | CancelInLoop nat nat int
  | ConnHandleRead nat
  | ConnHandleWrite nat
  | ConnHandleClose nat
  | ConnHandleError nat
  | SendInloop nat string
  | ShutdownInloop nat
  | ConnectEstablished nat
  | ConnectDestory nat
  | RemoveConnectionInLoop nat nat
  | AcceptorListen nat
  | AcceptorHandleRead nat
  | ConnectorStartInloop nat
  | ConnectorHandleWrite nat
  | ConnectorHandleError nat
  | ConnectorResetChannel nat
  | UserTask nat

end
