(* ===== verification/StdContainers.thy ===== *)
theory StdContainers
  imports Prelude "HOL-Library.Char_ord" "HOL-Library.List_Lexorder" "HOL-Library.Product_Lexorder"
begin

text \<open>
  The ordered containers of the C++ standard library the sources use: \<open>std::map\<close> as a list
  of pairs sorted by key (the order in which an iterator visits them) and \<open>std::set\<close> as a
  sorted list. Keys are compared by the library's orders: strings lexicographically by unsigned
  bytes, pairs lexicographically. The locale \<open>dictionary\<close> states what a lookup
  returns after an update, and its clients learn what a lookup returns after a run of updates.
\<close>

section \<open>\<open>std::map\<close>\<close>

fun map_put :: "'k::linorder \<Rightarrow> 'v \<Rightarrow> ('k \<times> 'v) list \<Rightarrow> ('k \<times> 'v) list" where
  "map_put k v [] = [(k, v)]"
| "map_put k v ((k', v') # m) =
     (if k < k' then (k, v) # (k', v') # m
      else if k = k' then (k, v) # m
      else (k', v') # map_put k v m)"

fun map_find :: "'k::linorder \<Rightarrow> ('k \<times> 'v) list \<Rightarrow> 'v option" where
  "map_find k [] = None"
| "map_find k ((k', v) # m) = (if k = k' then Some v else map_find k m)"

fun map_erase :: "'k::linorder \<Rightarrow> ('k \<times> 'v) list \<Rightarrow> nat \<times> ('k \<times> 'v) list" where
  "map_erase k [] = (0, [])"
| "map_erase k ((k', v) # m) =
     (if k = k' then (1, m) else map_prod id ((#) (k', v)) (map_erase k m))"

definition map_ok :: "('k::linorder \<times> 'v) list \<Rightarrow> bool" where
  "map_ok m \<longleftrightarrow> sorted_wrt (<) (map fst m)"

lemma map_find_notin: "k \<notin> fst ` set m \<Longrightarrow> map_find k m = None"
  by (induction m) auto

lemma fst_map_put: "fst ` set (map_put k v m) = insert k (fst ` set m)"
  by (induction k v m rule: map_put.induct) auto

lemma map_ok_put: "map_ok m \<Longrightarrow> map_ok (map_put k v m)"
proof (induction k v m rule: map_put.induct)
  case (1 k v)
  then show ?case by (simp add: map_ok_def)
next
  case (2 k v k' v' m)
  show ?case
  proof (cases "k' < k")
    case True
    then have ne: "\<not> k < k'" "k \<noteq> k'" by auto
    with 2 have "map_ok (map_put k v m)" by (simp add: map_ok_def)
    moreover have "\<forall>x\<in>fst ` set (map_put k v m). k' < x"
      using True "2.prems" by (auto simp: fst_map_put map_ok_def)
    ultimately show ?thesis using ne by (simp add: map_ok_def)
  next
    case False
    with "2.prems" show ?thesis by (auto simp: map_ok_def)
  qed
qed

lemma map_find_put: "map_find k' (map_put k v m) = (if k' = k then Some v else map_find k' m)"
  by (induction k v m rule: map_put.induct) auto

lemma map_erase_count: "fst (map_erase k m) = (if map_find k m = None then 0 else 1)"
  by (induction m) (auto split: if_splits)

lemma map_erase_subset: "set (snd (map_erase k m)) \<subseteq> set m"
  by (induction m) (auto split: if_splits)

lemma map_ok_erase: "map_ok m \<Longrightarrow> map_ok (snd (map_erase k m))"
proof (induction m)
  case Nil
  then show ?case by simp
next
  case (Cons p m)
  obtain k' v where p: "p = (k', v)" by force
  show ?case
  proof (cases "k = k'")
    case True
    with Cons.prems p show ?thesis by (simp add: map_ok_def)
  next
    case False
    have "map_ok (snd (map_erase k m))" using Cons by (simp add: map_ok_def)
    moreover have "\<forall>x\<in>fst ` set (snd (map_erase k m)). k' < x"
      using Cons.prems p map_erase_subset [of k m] by (fastforce simp: map_ok_def)
    ultimately show ?thesis using p False by (auto simp: map_ok_def)
  qed
qed

lemma map_find_erase:
  "map_ok m \<Longrightarrow> map_find k' (snd (map_erase k m)) = (if k' = k then None else map_find k' m)"
proof (induction m)
  case Nil
  then show ?case by simp
next
  case (Cons p m)
  obtain k1 v where p: "p = (k1, v)" by force
  have "map_ok m" "k1 \<notin> fst ` set m" using Cons.prems p by (auto simp: map_ok_def)
  with Cons.IH p show ?case by (auto simp: map_find_notin)
qed

section \<open>The contract of a dictionary\<close>

locale dictionary =
  fixes ok :: "'m \<Rightarrow> bool"
    and find :: "'k \<Rightarrow> 'm \<Rightarrow> 'v option"
    and put :: "'k \<Rightarrow> 'v \<Rightarrow> 'm \<Rightarrow> 'm"
    and del :: "'k \<Rightarrow> 'm \<Rightarrow> 'm"
  assumes ok_put: "ok m \<Longrightarrow> ok (put k v m)"
    and ok_del: "ok m \<Longrightarrow> ok (del k m)"
    and find_put: "ok m \<Longrightarrow> find k' (put k v m) = (if k' = k then Some v else find k' m)"
    and find_del: "ok m \<Longrightarrow> find k' (del k m) = (if k' = k then None else find k' m)"
begin

lemma put_all_ok: "ok m \<Longrightarrow> ok (fold (\<lambda>(k, v). put k v) kvs m)"
  by (induction kvs arbitrary: m) (auto simp: ok_put)

text \<open>Of several values put under a key the last one is found.\<close>

lemma find_put_all:
  "ok m \<Longrightarrow> find k (fold (\<lambda>(k, v). put k v) kvs m) = (case map_of (rev kvs) k of None \<Rightarrow> find k m | Some v \<Rightarrow> Some v)"
proof (induction kvs arbitrary: m)
  case Nil
  then show ?case by simp
next
  case (Cons p kvs)
  obtain k1 v1 where p: "p = (k1, v1)" by force
  from Cons.IH [OF ok_put [OF Cons.prems]] show ?case
    by (simp add: p find_put [OF Cons.prems] map_add_def split: option.splits)
qed

lemma find_del_put: "ok m \<Longrightarrow> find k (del k (put k v m)) = None"
  by (simp add: find_del ok_put)

end

interpretation sm: dictionary map_ok map_find map_put "\<lambda>k m. snd (map_erase k m)"
  by unfold_locales (auto simp: map_ok_put map_ok_erase map_find_put map_find_erase)

section \<open>\<open>std::set\<close>\<close>

text \<open>\<open>insert\<close> also returns whether the element was new, \<open>erase\<close> how many were removed.\<close>

fun set_put :: "'a::linorder \<Rightarrow> 'a list \<Rightarrow> bool \<times> 'a list" where
  "set_put x [] = (True, [x])"
| "set_put x (y # ys) =
     (if x < y then (True, x # y # ys)
      else if x = y then (False, y # ys)
      else map_prod id ((#) y) (set_put x ys))"

fun set_erase :: "'a::linorder \<Rightarrow> 'a list \<Rightarrow> nat \<times> 'a list" where
  "set_erase x [] = (0, [])"
| "set_erase x (y # ys) =
     (if x = y then (1, ys) else map_prod id ((#) y) (set_erase x ys))"

text \<open>The elements before \<open>lower_bound(x)\<close> and those from it on.\<close>

definition below :: "'a::linorder \<Rightarrow> 'a list \<Rightarrow> 'a list" where
  "below x ys = takeWhile (\<lambda>y. y < x) ys"

definition from_bound :: "'a::linorder \<Rightarrow> 'a list \<Rightarrow> 'a list" where
  "from_bound x ys = dropWhile (\<lambda>y. y < x) ys"

definition set_ok :: "'a::linorder list \<Rightarrow> bool" where
  "set_ok ys \<longleftrightarrow> sorted_wrt (<) ys"

lemma set_set_put: "set (snd (set_put x ys)) = insert x (set ys)"
  by (induction ys) (auto)

lemma set_put_new: "set_ok ys \<Longrightarrow> fst (set_put x ys) \<longleftrightarrow> x \<notin> set ys"
  by (induction ys) (auto simp: set_ok_def)

lemma set_put_old: "set_ok ys \<Longrightarrow> x \<in> set ys \<Longrightarrow> set_put x ys = (False, ys)"
  by (induction ys) (auto simp: set_ok_def)

lemma set_ok_put: "set_ok ys \<Longrightarrow> set_ok (snd (set_put x ys))"
proof (induction ys)
  case Nil
  then show ?case by (simp add: set_ok_def)
next
  case (Cons y ys)
  have ok: "set_ok (snd (set_put x ys))" using Cons by (simp add: set_ok_def)
  show ?case
  proof (cases "y < x")
    case True
    then have "\<not> x < y" "x \<noteq> y" by auto
    moreover have "\<forall>z\<in>set (snd (set_put x ys)). y < z"
      using Cons.prems True by (auto simp: set_set_put set_ok_def)
    ultimately show ?thesis using ok by (simp add: set_ok_def)
  next
    case False
    with Cons.prems show ?thesis by (auto simp: set_ok_def)
  qed
qed

lemma set_erase_count: "fst (set_erase x ys) = (if x \<in> set ys then 1 else 0)"
  by (induction ys) (auto)

lemma set_set_erase: "set_ok ys \<Longrightarrow> set (snd (set_erase x ys)) = set ys - {x}"
  by (induction ys) (auto simp: set_ok_def)

lemma set_ok_erase: "set_ok ys \<Longrightarrow> set_ok (snd (set_erase x ys))"
proof (induction ys)
  case Nil
  then show ?case by simp
next
  case (Cons y ys)
  have "set_ok ys" using Cons.prems by (simp add: set_ok_def)
  then have "set_ok (snd (set_erase x ys))" "set (snd (set_erase x ys)) \<subseteq> set ys"
    using Cons.IH by (auto simp: set_set_erase)
  with Cons.prems show ?case by (auto simp: set_ok_def)
qed

lemma set_erase_notin: "x \<notin> set ys \<Longrightarrow> set_erase x ys = (0, ys)"
  by (induction ys) auto

lemma length_set_put: "set_ok ys \<Longrightarrow> x \<notin> set ys \<Longrightarrow> length (snd (set_put x ys)) = Suc (length ys)"
  by (induction ys) (auto simp: set_ok_def)

lemma length_set_erase: "x \<in> set ys \<Longrightarrow> Suc (length (snd (set_erase x ys))) = length ys"
  by (induction ys) (auto)

lemma below_from: "below x ys @ from_bound x ys = ys"
  by (simp add: below_def from_bound_def)

lemma set_ok_ConsD: "set_ok (y # ys) \<Longrightarrow> set_ok ys \<and> (\<forall>z\<in>set ys. y < z)"
  by (simp add: set_ok_def)

lemma set_below: "set_ok ys \<Longrightarrow> set (below x ys) = {y \<in> set ys. y < x}"
proof (induction ys)
  case Nil
  show ?case by (simp add: below_def)
next
  case (Cons y ys)
  note ys = set_ok_ConsD [OF Cons.prems]
  show ?case
  proof (cases "y < x")
    case True
    with Cons.IH ys show ?thesis by (auto simp: below_def)
  next
    case False
    with ys have "\<forall>z\<in>set ys. \<not> z < x" by (meson less_trans)
    with False show ?thesis by (auto simp: below_def)
  qed
qed

lemma set_from_bound:
  assumes "set_ok ys"
  shows "set (from_bound x ys) = {y \<in> set ys. x \<le> y}"
proof -
  have d: "distinct (below x ys @ from_bound x ys)"
    using assms by (simp only: below_from set_ok_def strict_sorted_iff)
  then have "set (below x ys) \<inter> set (from_bound x ys) = {}" by (simp only: distinct_append)
  moreover have "set (below x ys) \<union> set (from_bound x ys) = set ys"
    by (metis below_from set_append)
  ultimately have "set (from_bound x ys) = set ys - set (below x ys)" by blast
  then have "set (from_bound x ys) = {y \<in> set ys. \<not> y < x}"
    unfolding set_below [OF assms] by blast
  then show ?thesis by (simp only: not_less)
qed

lemma set_ok_split:
  assumes "set_ok ys"
  shows "set_ok (below x ys)" and "set_ok (from_bound x ys)"
proof -
  have "sorted_wrt (<) (below x ys @ from_bound x ys)"
    using assms by (simp only: below_from set_ok_def)
  then show "set_ok (below x ys)" and "set_ok (from_bound x ys)"
    by (simp_all only: set_ok_def sorted_wrt_append)
qed

lemma set_ok_distinct: "set_ok ys \<Longrightarrow> distinct ys"
  by (simp add: set_ok_def strict_sorted_iff)

lemma set_erase_filter: "set_ok ys \<Longrightarrow> snd (set_erase x ys) = filter (\<lambda>y. y \<noteq> x) ys"
proof (induction ys)
  case Nil
  show ?case by simp
next
  case (Cons y ys)
  note ys = set_ok_ConsD [OF Cons.prems]
  show ?case
  proof (cases "x = y")
    case True
    with ys have "\<forall>z\<in>set ys. z \<noteq> x" by auto
    with True show ?thesis by (simp add: filter_id_conv)
  next
    case False
    with Cons.IH ys show ?thesis by simp
  qed
qed

lemma set_ok_filter: "set_ok ys \<Longrightarrow> set_ok (filter P ys)"
  by (simp add: set_ok_def sorted_wrt_filter)

lemma set_ok_unique: "set_ok xs \<Longrightarrow> set_ok ys \<Longrightarrow> set xs = set ys \<Longrightarrow> xs = ys"
  unfolding set_ok_def by (simp add: strict_sorted_equal)

text \<open>Erasing several elements, each of which must be there.\<close>

lemma erase_all:
  assumes "set_ok ys" and "distinct (map f es)"
  shows "fold_res (\<lambda>e ys. case set_erase (f e) ys of (n, ys) \<Rightarrow> must (n = 1) (Inr ys)) es ys
    = (if f ` set es \<subseteq> set ys then Inr (filter (\<lambda>y. y \<notin> f ` set es) ys) else Inl AssertFailed)"
  using assms
proof (induction es arbitrary: ys)
  case Nil
  show ?case by simp
next
  case (Cons e es)
  have er: "set_erase (f e) ys = (if f e \<in> set ys then 1 else 0, filter (\<lambda>y. y \<noteq> f e) ys)"
    using set_erase_count [of "f e" ys] set_erase_filter [OF Cons.prems(1), of "f e"] by (metis prod.collapse)
  show ?case
  proof (cases "f e \<in> set ys")
    case False
    then show ?thesis by (simp add: er)
  next
    case True
    have ok: "set_ok (filter (\<lambda>y. y \<noteq> f e) ys)" using Cons.prems(1) by (rule set_ok_filter)
    have "(f ` set es \<subseteq> set (filter (\<lambda>y. y \<noteq> f e) ys)) = (f ` set (e # es) \<subseteq> set ys)"
      using True Cons.prems(2) by auto (metis image_eqI)
    moreover have "filter (\<lambda>y. y \<notin> f ` set es) (filter (\<lambda>y. y \<noteq> f e) ys) = filter (\<lambda>y. y \<notin> f ` set (e # es)) ys"
      by (simp add: conj_commute)
    ultimately show ?thesis using Cons.IH [OF ok] Cons.prems(2) True by (simp add: er)
  qed
qed

end
