(* ===== verification/TimeStamp.thy ===== *)
theory TimeStamp
  imports Decimal
begin

text \<open>
  The time stamps of src/timeStamp.h and src/timeStamp.cpp: microseconds since the epoch, in an
  \<open>int64_t\<close> that the program does not bring near its bounds. A \<open>double\<close> argument is a pair
  \<open>(m, e)\<close> for the number \<open>m * 2 ^ e\<close> with a 53-bit \<open>m\<close>; a product is rounded to nearest, ties
  to even, and infinities, NaNs and subnormal results are left out. Of \<open>gettimeofday\<close> and
  \<open>gmtime_r\<close> the results are arguments.
\<close>

section \<open>The model\<close>

definition kMicroSecondsPerSecond :: int where
  "kMicroSecondsPerSecond = 1000 * 1000"

definition timestamp_now :: "int \<Rightarrow> int \<Rightarrow> int" where
  "timestamp_now tv_sec tv_usec = tv_sec * kMicroSecondsPerSecond + tv_usec"

definition timestamp_valid :: "int \<Rightarrow> bool" where
  "timestamp_valid t \<longleftrightarrow> t > 0"

definition timestamp_invaild :: int where
  "timestamp_invaild = 0"

definition timestamp_swap :: "int \<Rightarrow> int \<Rightarrow> int \<times> int" where
  "timestamp_swap t that = (that, t)"

text \<open>Division and remainder of C, which truncate.\<close>

definition c_div :: "int \<Rightarrow> int \<Rightarrow> int" where
  "c_div a b = sgn a * sgn b * (\<bar>a\<bar> div \<bar>b\<bar>)"

definition c_mod :: "int \<Rightarrow> int \<Rightarrow> int" where
  "c_mod a b = a - b * c_div a b"

definition timestamp_toString :: "int \<Rightarrow> string" where
  "timestamp_toString t =
     (let seconds = c_div t kMicroSecondsPerSecond; microseconds = c_mod t kMicroSecondsPerSecond
      in snprintf 31 (dec_int seconds @ ''.'' @ dec_pad 6 microseconds))"

record tm =
  tm_year :: int
  tm_mon :: int
  tm_mday :: int
  tm_hour :: int
  tm_min :: int
  tm_sec :: int

definition timestamp_toFormattedString :: "(int \<Rightarrow> tm) \<Rightarrow> bool \<Rightarrow> int \<Rightarrow> string" where
  "timestamp_toFormattedString gmtime showMicroseconds t =
     (let tm = gmtime (c_div t kMicroSecondsPerSecond);
          date = dec_blank 4 (tm_year tm + 1900) @ dec_pad 2 (tm_mon tm + 1) @ dec_pad 2 (tm_mday tm) @ '' ''
            @ dec_pad 2 (tm_hour tm) @ '':'' @ dec_pad 2 (tm_min tm) @ '':'' @ dec_pad 2 (tm_sec tm)
      in if showMicroseconds
         then snprintf 32 (date @ ''.'' @ dec_pad 6 (c_mod t kMicroSecondsPerSecond))
         else snprintf 32 date)"

section \<open>Doubles\<close>

type_synonym double = "int \<times> int"

fun round_even :: "nat \<Rightarrow> int \<Rightarrow> int" where
  "round_even k a =
     (let q = a div 2 ^ k; r = a mod 2 ^ k in
      if 2 * r > 2 ^ k \<or> 2 * r = 2 ^ k \<and> odd q then q + 1 else q)"

text \<open>The number of low bits a value of more than 53 bits loses.\<close>

function excess :: "int \<Rightarrow> nat" where
  "excess a = (if a < 9007199254740992 then 0 else Suc (excess (a div 2)))"
  by auto

termination by (relation "measure nat") auto

declare excess.simps [simp del]

definition double_round :: "double \<Rightarrow> double" where
  "double_round d = (case d of (m, e) \<Rightarrow>
     let k = excess \<bar>m\<bar> in (sgn m * round_even k \<bar>m\<bar>, e + int k))"

definition double_mul_int :: "double \<Rightarrow> int \<Rightarrow> double" where
  "double_mul_int d n = (case d of (m, e) \<Rightarrow> double_round (m * n, e))"

text \<open>A quotient by a positive number below \<open>2 ^ 30\<close>, rounded to nearest: enough bits of the quotient, then a
  bit that says whether it is exact.\<close>

definition double_div_int :: "double \<Rightarrow> int \<Rightarrow> double" where
  "double_div_int d n = (case d of (m, e) \<Rightarrow>
     let a = \<bar>m\<bar> * 2 ^ 84; q = 2 * (a div n) + (if a mod n = 0 then 0 else 1)
     in double_round (sgn m * q, e - 85))"

definition double_to_int :: "double \<Rightarrow> int" where
  "double_to_int d = (case d of (m, e) \<Rightarrow>
     if 0 \<le> e then m * 2 ^ nat e else sgn m * (\<bar>m\<bar> div 2 ^ nat (- e)))"

definition double_positive :: "double \<Rightarrow> bool" where
  "double_positive d \<longleftrightarrow> fst d > 0"

definition addTime :: "int \<Rightarrow> double \<Rightarrow> int" where
  "addTime now second =
     (let delta = double_to_int (double_mul_int second kMicroSecondsPerSecond) in now + delta)"

lemma double_round_exact: "\<bar>m\<bar> < 9007199254740992 \<Longrightarrow> double_round (m, e) = (m, e)"
  by (simp add: double_round_def excess.simps [of "\<bar>m\<bar>"] sgn_mult_abs)

text \<open>The difference is converted to a double, which rounds it when it has more than 53 bits, and divided.\<close>

definition timeDifference :: "int \<Rightarrow> int \<Rightarrow> double" where
  "timeDifference high low =
     (let diff = high - low in double_div_int (double_round (diff, 0)) kMicroSecondsPerSecond)"

text \<open>Without rounding, \<open>addTime\<close> adds the exact number of microseconds, truncated.\<close>

lemma addTime_exact:
  assumes "\<bar>m * 1000000\<bar> < 9007199254740992"
  shows "addTime now (m, e) = now + double_to_int (m * 1000000, e)"
  unfolding addTime_def double_mul_int_def kMicroSecondsPerSecond_def Let_def
  using double_round_exact [OF assms] by simp

lemma addTime_seconds: "\<bar>n\<bar> < 9007199254 \<Longrightarrow> addTime now (n, 0) = now + n * 1000000"
  by (simp add: addTime_exact double_to_int_def)

section \<open>The printed form\<close>

lemma dec_pad_length: "0 \<le> i \<Longrightarrow> i < 10 ^ w \<Longrightarrow> 0 < w \<Longrightarrow> length (dec_pad w i) = w"
  using length_dec [of "nat i" w] by (simp add: dec_pad_def Let_def nat_less_iff)

lemma undec_zeros: "undec (replicate n (CHR ''0'') @ s) = undec s"
proof -
  have "undec (replicate n (CHR ''0'')) = 0"
    by (induction n) (simp_all add: undec_def undigit_def)
  then show ?thesis by (simp add: undec_def)
qed

lemma undec_pad: "0 \<le> i \<Longrightarrow> undec (dec_pad w i) = nat i"
  using undec_zeros [of _ "dec (nat i)"] by (simp add: dec_pad_def Let_def undec_dec)

lemma c_div_nonneg: "0 \<le> a \<Longrightarrow> 0 < b \<Longrightarrow> c_div a b = a div b"
  by (cases "a = 0") (simp_all add: c_div_def)

lemma c_mod_nonneg: "0 \<le> a \<Longrightarrow> 0 < b \<Longrightarrow> c_mod a b = a mod b"
  by (simp add: c_mod_def c_div_nonneg minus_mult_div_eq_mod)

text \<open>A time stamp prints as its seconds, a point and exactly six digits of microseconds, the
  buffer is large enough for every \<open>int64_t\<close>, and the two numbers read back give the time stamp.\<close>

theorem timestamp_text:
  assumes "0 \<le> t" and "t < 9223372036854775808"
  shows "\<exists>sec usec. timestamp_toString t = sec @ ''.'' @ usec \<and> length usec = 6
    \<and> CHR ''.'' \<notin> set sec \<and> int (undec sec) * 1000000 + int (undec usec) = t"
proof -
  let ?s = "t div 1000000" and ?u = "t mod 1000000"
  have s: "0 \<le> ?s" "nat ?s < 10 ^ 13" using assms by simp_all
  have u: "0 \<le> ?u" "?u < 10 ^ 6" by simp_all
  have len: "length (dec (nat ?s)) \<le> 13" using length_dec [OF s(2)] by simp
  have lu: "length (dec_pad 6 ?u) = 6" using u by (intro dec_pad_length) simp_all
  have "timestamp_toString t = dec (nat ?s) @ ''.'' @ dec_pad 6 ?u"
    unfolding timestamp_toString_def kMicroSecondsPerSecond_def Let_def
    using assms s len lu by (simp add: c_div_nonneg c_mod_nonneg dec_int_def snprintf_fits)
  moreover have "CHR ''.'' \<notin> set (dec (nat ?s))" by (rule dec_no) simp
  moreover have "int (undec (dec (nat ?s))) * 1000000 + int (undec (dec_pad 6 ?u)) = t"
    using s u by (simp add: undec_dec undec_pad)
  ultimately show ?thesis using lu by blast
qed

lemma timestamp_text_witness:
  "\<exists>sec usec. timestamp_toString 1500000000000042 = sec @ ''.'' @ usec \<and> length usec = 6
    \<and> int (undec sec) * 1000000 + int (undec usec) = 1500000000000042"
  using timestamp_text [of 1500000000000042] by auto

end
