(* ===== verification/TimerQueue.thy ===== *)
theory TimerQueue
  imports Closures StdContainers TimeStamp
begin

text \<open>
  Timers and the timer queue of a loop: src/timer.h, src/timer.cpp, src/timerId.h, src/timerId.cpp,
  src/timerQueue.h, src/timerQueue.cpp and the timer operations of src/eventLoop.cpp. Timers live
  in a heap by address; the address \<open>new\<close> returned is an argument, address 0 is \<open>nullptr\<close>. The
  queue of loop \<open>l\<close> is entry \<open>l\<close> of the state. \<open>Timer::numCreated\<close> is the counter of all timers
  ever created, as in the source, not the number of one timer. The clock is a parameter: the
  result of the n-th call of \<open>TimeStamp::now\<close>.
\<close>

section \<open>The model\<close>

record timer =
  tm_callBack :: closure
  tm_expiration :: int
  tm_interval :: double
  tm_repeat :: bool
  tm_sequence :: int

record timer_queue =
  tq_timerfd :: int
  tq_channel :: nat
  tq_timers :: "(int \<times> nat) list"
  tq_callingExpiredTimers :: bool
  tq_activeTimers :: "(nat \<times> int) list"
  tq_cancelingTimers :: "(nat \<times> int) list"
  tq_settime :: "(int \<times> int) list"

record timer_world = "closure world" +
  tw_timers :: "nat \<Rightarrow> timer option"
  tw_created :: int
  tw_queues :: "nat \<Rightarrow> timer_queue"
  tw_ticks :: nat

type_synonym clock = "nat \<Rightarrow> int"

definition clock_now :: "clock \<Rightarrow> 'z timer_world_scheme \<Rightarrow> int \<times> 'z timer_world_scheme" where
  "clock_now clock s = (clock (tw_ticks s), s\<lparr>tw_ticks := Suc (tw_ticks s)\<rparr>)"

definition upd_queue :: "nat \<Rightarrow> (timer_queue \<Rightarrow> timer_queue) \<Rightarrow> 'z timer_world_scheme \<Rightarrow> 'z timer_world_scheme" where
  "upd_queue l f s = s\<lparr>tw_queues := (tw_queues s)(l := f (tw_queues s l))\<rparr>"

definition upd_timer :: "nat \<Rightarrow> timer option \<Rightarrow> 'z timer_world_scheme \<Rightarrow> 'z timer_world_scheme" where
  "upd_timer p t s = s\<lparr>tw_timers := (tw_timers s)(p := t)\<rparr>"

text \<open>A use of the timer at an address.\<close>

definition with_timer :: "nat \<Rightarrow> 'z timer_world_scheme \<Rightarrow> (timer \<Rightarrow> 'a res) \<Rightarrow> 'a res" where
  "with_timer p s f = (case tw_timers s p of None \<Rightarrow> Inl BadPointer | Some t \<Rightarrow> f t)"

definition timer_new :: "nat \<Rightarrow> closure \<Rightarrow> int \<Rightarrow> double \<Rightarrow> 'z timer_world_scheme \<Rightarrow> 'z timer_world_scheme" where
  "timer_new p cb whn interval s =
     (upd_timer p (Some \<lparr>tm_callBack = cb, tm_expiration = whn, tm_interval = interval,
        tm_repeat = double_positive interval, tm_sequence = tw_created s\<rparr>) s)
       \<lparr>tw_created := tw_created s + 1\<rparr>"

definition numCreated :: "'z timer_world_scheme \<Rightarrow> int" where
  "numCreated s = tw_created s"

definition timer_restart :: "int \<Rightarrow> timer \<Rightarrow> timer" where
  "timer_restart now t =
     (if tm_repeat t then t\<lparr>tm_expiration := addTime now (tm_interval t)\<rparr>
      else t\<lparr>tm_expiration := timestamp_invaild\<rparr>)"

text \<open>\<open>timespec\<close> as a pair of seconds and nanoseconds; the second argument is the time read by
  \<open>TimeStamp::now\<close>.\<close>

definition howMuchTimeFromNow :: "int \<Rightarrow> int \<Rightarrow> int \<times> int" where
  "howMuchTimeFromNow whn now =
     (let microseconds = whn - now;
          microseconds = (if microseconds < 100 then 100 else microseconds)
      in (c_div microseconds kMicroSecondsPerSecond, c_mod microseconds kMicroSecondsPerSecond * 1000))"

definition resetTimerfd :: "clock \<Rightarrow> nat \<Rightarrow> int \<Rightarrow> 'z timer_world_scheme \<Rightarrow> 'z timer_world_scheme" where
  "resetTimerfd clock l expiration s =
     (case clock_now clock s of (now, s) \<Rightarrow>
      upd_queue l (\<lambda>q. q\<lparr>tq_settime := tq_settime q @ [howMuchTimeFromNow expiration now]\<rparr>) s)"

definition timer_queue_new ::
  "int \<Rightarrow> nat \<Rightarrow> nat \<Rightarrow> 'z timer_world_scheme \<Rightarrow> 'z timer_world_scheme res" where
  "timer_queue_new timerfd c l s =
     (let s = upd_queue l (\<lambda>_. \<lparr>tq_timerfd = timerfd, tq_channel = c, tq_timers = [],
            tq_callingExpiredTimers = False, tq_activeTimers = [], tq_cancelingTimers = [],
            tq_settime = []\<rparr>) s;
          s = upd_chan c (\<lambda>_. setReadCallBack (TimerHandleRead l) (channel_new l timerfd)) s
      in enableReading c s)"

definition timer_queue_destroy :: "nat \<Rightarrow> 'z timer_world_scheme \<Rightarrow> 'z timer_world_scheme" where
  "timer_queue_destroy l s = fold (\<lambda>(_, p). upd_timer p None) (tq_timers (tw_queues s l)) s"

text \<open>\<open>insert\<close> also returns whether the new timer is the earliest.\<close>

definition timer_insert :: "nat \<Rightarrow> nat \<Rightarrow> 'z timer_world_scheme \<Rightarrow> (bool \<times> 'z timer_world_scheme) res" where
  "timer_insert l p s =
     with_timer p s (\<lambda>t.
     let q = tw_queues s l;
         whn = tm_expiration t;
         earliestChanged = (case tq_timers q of [] \<Rightarrow> True | (first, _) # _ \<Rightarrow> whn < first)
     in case set_put (whn, p) (tq_timers q) of (new, timers) \<Rightarrow>
        must new
        (case set_put (p, numCreated s) (tq_activeTimers q) of (new, active) \<Rightarrow>
         must new
         (Inr (earliestChanged,
               upd_queue l (\<lambda>q. q\<lparr>tq_timers := timers, tq_activeTimers := active\<rparr>) s))))"

definition addTimerInloop :: "clock \<Rightarrow> nat \<Rightarrow> nat \<Rightarrow> 'z timer_world_scheme \<Rightarrow> 'z timer_world_scheme res" where
  "addTimerInloop clock l p s =
     bnd (assertInLoopThread l s) (\<lambda>_.
     bnd (timer_insert l p s) (\<lambda>(earliestChange, s).
     if earliestChange then with_timer p s (\<lambda>t. Inr (resetTimerfd clock l (tm_expiration t) s))
     else Inr s))"

definition addTimer ::
  "(closure \<Rightarrow> 'z timer_world_scheme \<Rightarrow> 'z timer_world_scheme res) \<Rightarrow> nat \<Rightarrow> closure \<Rightarrow> int \<Rightarrow> double
    \<Rightarrow> nat \<Rightarrow> 'z timer_world_scheme \<Rightarrow> ((nat \<times> int) \<times> 'z timer_world_scheme) res" where
  "addTimer run p cb whn interval l s =
     (let s = timer_new p cb whn interval s in
      bnd (runInLoop run l (AddTimerInloop l p) s) (\<lambda>s. Inr ((p, numCreated s), s)))"

definition timer_cancelInLoop :: "nat \<Rightarrow> nat \<Rightarrow> int \<Rightarrow> 'z timer_world_scheme \<Rightarrow> 'z timer_world_scheme res" where
  "timer_cancelInLoop l p sequence s =
     bnd (assertInLoopThread l s) (\<lambda>_.
     let q = tw_queues s l in
     must (length (tq_timers q) = length (tq_activeTimers q))
     (if (p, sequence) \<in> set (tq_activeTimers q) then
        with_timer p s (\<lambda>t.
        case set_erase (tm_expiration t, p) (tq_timers q) of (n, timers) \<Rightarrow>
        must (n = 1)
        (Inr (upd_queue l (\<lambda>q. q\<lparr>tq_timers := timers,
                 tq_activeTimers := snd (set_erase (p, sequence) (tq_activeTimers q))\<rparr>)
               (upd_timer p None s))))
      else if tq_callingExpiredTimers q then
        Inr (upd_queue l (\<lambda>q. q\<lparr>tq_cancelingTimers := snd (set_put (p, sequence) (tq_cancelingTimers q))\<rparr>) s)
      else Inr s))"

definition timer_cancel ::
  "(closure \<Rightarrow> 'z timer_world_scheme \<Rightarrow> 'z timer_world_scheme res) \<Rightarrow> nat \<times> int \<Rightarrow> nat
    \<Rightarrow> 'z timer_world_scheme \<Rightarrow> 'z timer_world_scheme res" where
  "timer_cancel run timerId l s = runInLoop run l (CancelInLoop l (fst timerId) (snd timerId)) s"

definition uintptr_max :: nat where
  "uintptr_max = 18446744073709551615"

definition getExpired :: "int \<Rightarrow> nat \<Rightarrow> 'z timer_world_scheme \<Rightarrow> ((int \<times> nat) list \<times> 'z timer_world_scheme) res" where
  "getExpired now l s =
     (let q = tw_queues s l;
          expired = below (now, uintptr_max) (tq_timers q);
          rest = from_bound (now, uintptr_max) (tq_timers q)
      in must (rest = [] \<or> now < fst (hd rest))
         (let s = upd_queue l (\<lambda>q. q\<lparr>tq_timers := rest\<rparr>) s in
          bnd (fold_res (\<lambda>entry active.
                 case set_erase (snd entry, numCreated s) active of (n, active) \<Rightarrow>
                 must (n = 1) (Inr active)) expired (tq_activeTimers q))
            (\<lambda>active. Inr (expired, upd_queue l (\<lambda>q. q\<lparr>tq_activeTimers := active\<rparr>) s))))"

definition timer_reset_one :: "int \<Rightarrow> nat \<Rightarrow> int \<times> nat \<Rightarrow> 'z timer_world_scheme \<Rightarrow> 'z timer_world_scheme res" where
  "timer_reset_one now l entry s =
     with_timer (snd entry) s (\<lambda>t.
     if tm_repeat t \<and> (snd entry, numCreated s) \<notin> set (tq_cancelingTimers (tw_queues s l)) then
       bnd (timer_insert l (snd entry) (upd_timer (snd entry) (Some (timer_restart now t)) s))
         (\<lambda>(_, s). Inr s)
     else Inr (upd_timer (snd entry) None s))"

definition timer_reset :: "clock \<Rightarrow> (int \<times> nat) list \<Rightarrow> int \<Rightarrow> nat \<Rightarrow> 'z timer_world_scheme \<Rightarrow> 'z timer_world_scheme res" where
  "timer_reset clock expire now l s =
     bnd (fold_res (timer_reset_one now l) expire s) (\<lambda>s.
     let nextExpire = (case tq_timers (tw_queues s l) of [] \<Rightarrow> timestamp_invaild | (t, _) # _ \<Rightarrow> t)
     in Inr (if timestamp_valid nextExpire then resetTimerfd clock l nextExpire s else s))"

definition timer_run ::
  "(closure \<Rightarrow> 'z timer_world_scheme \<Rightarrow> 'z timer_world_scheme res) \<Rightarrow> int \<times> nat
    \<Rightarrow> 'z timer_world_scheme \<Rightarrow> 'z timer_world_scheme res" where
  "timer_run run entry s = with_timer (snd entry) s (\<lambda>t. run (tm_callBack t) s)"

definition timer_handleRead ::
  "clock \<Rightarrow> (closure \<Rightarrow> 'z timer_world_scheme \<Rightarrow> 'z timer_world_scheme res) \<Rightarrow> nat
    \<Rightarrow> 'z timer_world_scheme \<Rightarrow> 'z timer_world_scheme res" where
  "timer_handleRead clock run l s =
     bnd (assertInLoopThread l s) (\<lambda>_.
     case clock_now clock s of (now, s) \<Rightarrow>
     bnd (getExpired now l s) (\<lambda>(expire, s).
     let s = upd_queue l (\<lambda>q. q\<lparr>tq_callingExpiredTimers := True, tq_cancelingTimers := []\<rparr>) s in
     bnd (fold_res (timer_run run) expire s) (\<lambda>s.
     timer_reset clock expire now l (upd_queue l (\<lambda>q. q\<lparr>tq_callingExpiredTimers := False\<rparr>) s))))"

text \<open>The operations of the loop that reach the queue.\<close>

definition runAt where
  "runAt run p time cb l s = addTimer run p cb time (0, 0) l s"

definition runAfter where
  "runAfter clock run p delay cb l s =
     (case clock_now clock s of (now, s) \<Rightarrow> runAt run p (addTime now delay) cb l s)"

definition runEvery where
  "runEvery clock run p interval cb l s =
     (case clock_now clock s of (now, s) \<Rightarrow> addTimer run p cb (addTime now interval) interval l s)"

section \<open>The invariant\<close>

lemma upd_queue_sel [loop_simps]:
  "tw_queues (upd_queue l f s) = (tw_queues s)(l := f (tw_queues s l))"
  "tw_timers (upd_queue l f s) = tw_timers s" "tw_created (upd_queue l f s) = tw_created s"
  "tw_ticks (upd_queue l f s) = tw_ticks s"
  "w_tid (upd_queue l f s) = w_tid s" "w_loops (upd_queue l f s) = w_loops s" "chans (upd_queue l f s) = chans s"
  by (simp_all add: upd_queue_def)

lemma upd_timer_sel [loop_simps]:
  "tw_timers (upd_timer p t s) = (tw_timers s)(p := t)"
  "tw_queues (upd_timer p t s) = tw_queues s" "tw_created (upd_timer p t s) = tw_created s"
  "tw_ticks (upd_timer p t s) = tw_ticks s"
  "w_tid (upd_timer p t s) = w_tid s" "w_loops (upd_timer p t s) = w_loops s" "chans (upd_timer p t s) = chans s"
  by (simp_all add: upd_timer_def)

lemma with_timer_Some: "tw_timers s p = Some t \<Longrightarrow> with_timer p s f = f t"
  by (simp add: with_timer_def)

text \<open>The two sets of a queue hold the same timers, by time and by address; each is alive and is filed
  under its own expiration; the numbers filed with them are at most the counter.\<close>

definition tq_ok :: "nat \<Rightarrow> 'z timer_world_scheme \<Rightarrow> bool" where
  "tq_ok l s \<longleftrightarrow> (let q = tw_queues s l in
     set_ok (tq_timers q) \<and> set_ok (tq_activeTimers q) \<and> distinct (map fst (tq_activeTimers q))
   \<and> fst ` set (tq_activeTimers q) = snd ` set (tq_timers q)
   \<and> (\<forall>(t, p) \<in> set (tq_timers q). p < uintptr_max \<and> (\<exists>tm. tw_timers s p = Some tm \<and> tm_expiration tm = t))
   \<and> (\<forall>(p, n) \<in> set (tq_activeTimers q). n \<le> tw_created s))"

lemma tq_okD:
  assumes "tq_ok l s"
  shows "set_ok (tq_timers (tw_queues s l))" and "set_ok (tq_activeTimers (tw_queues s l))"
    and "distinct (map fst (tq_activeTimers (tw_queues s l)))"
    and "fst ` set (tq_activeTimers (tw_queues s l)) = snd ` set (tq_timers (tw_queues s l))"
    and "(t, p) \<in> set (tq_timers (tw_queues s l)) \<Longrightarrow>
      p < uintptr_max \<and> (\<exists>tm. tw_timers s p = Some tm \<and> tm_expiration tm = t)"
    and "(p, n) \<in> set (tq_activeTimers (tw_queues s l)) \<Longrightarrow> n \<le> tw_created s"
  using assms unfolding tq_ok_def Let_def by blast+

lemma tq_ok_distinct:
  assumes "tq_ok l s"
  shows "distinct (map snd (tq_timers (tw_queues s l)))"
proof -
  have "inj_on snd (set (tq_timers (tw_queues s l)))"
  proof (rule inj_onI)
    fix x y
    assume x: "x \<in> set (tq_timers (tw_queues s l))" and y: "y \<in> set (tq_timers (tw_queues s l))"
      and same: "snd x = snd y"
    have e: "\<exists>tm. tw_timers s (snd z) = Some tm \<and> tm_expiration tm = fst z"
      if "z \<in> set (tq_timers (tw_queues s l))" for z
      using tq_okD(5) [OF assms, of "fst z" "snd z"] that by simp
    from e [OF x] e [OF y] same show "x = y" by (auto simp: prod_eq_iff)
  qed
  then show ?thesis using set_ok_distinct [OF tq_okD(1) [OF assms]] by (simp add: distinct_map)
qed

lemma tq_ok_length:
  assumes "tq_ok l s"
  shows "length (tq_timers (tw_queues s l)) = length (tq_activeTimers (tw_queues s l))"
proof -
  have "length (tq_timers (tw_queues s l)) = card (snd ` set (tq_timers (tw_queues s l)))"
    using tq_ok_distinct [OF assms] by (metis distinct_card length_map list.set_map)
  also have "\<dots> = card (fst ` set (tq_activeTimers (tw_queues s l)))"
    using tq_okD(4) [OF assms] by simp
  also have "\<dots> = length (tq_activeTimers (tw_queues s l))"
    using tq_okD(3) [OF assms] by (metis distinct_card length_map list.set_map)
  finally show ?thesis .
qed

lemma sorted_first:
  assumes "set_ok ((t, p) # ys)"
  shows "(whn::int) < t \<longleftrightarrow> (\<forall>(t', p') \<in> set ((t, p) # ys). whn < t')"
proof -
  have "t \<le> t'" if "(t', p') \<in> set ys" for t' p'
    using assms that by (auto simp: set_ok_def less_prod_def)
  then show ?thesis by fastforce
qed

text \<open>Inserting a live timer that is not in the queue.\<close>

definition inserted :: "nat \<Rightarrow> nat \<Rightarrow> int \<Rightarrow> 'z timer_world_scheme \<Rightarrow> 'z timer_world_scheme" where
  "inserted l p whn s = upd_queue l (\<lambda>q. q\<lparr>tq_timers := snd (set_put (whn, p) (tq_timers q)),
     tq_activeTimers := snd (set_put (p, tw_created s) (tq_activeTimers q))\<rparr>) s"

lemma insert_ok:
  assumes ok: "tq_ok l s" and t: "tw_timers s p = Some t" and p: "p < uintptr_max"
    and new: "p \<notin> snd ` set (tq_timers (tw_queues s l))"
  shows "timer_insert l p s
      = Inr (\<forall>(t', p') \<in> set (tq_timers (tw_queues s l)). tm_expiration t < t', inserted l p (tm_expiration t) s)
    \<and> tq_ok l (inserted l p (tm_expiration t) s)"
proof -
  let ?q = "tw_queues s l" and ?e = "(tm_expiration t, p)" and ?a = "(p, tw_created s)"
  note D = tq_okD [OF ok]
  have e: "?e \<notin> set (tq_timers ?q)" using new by (auto simp: image_iff)
  have ap: "p \<notin> fst ` set (tq_activeTimers ?q)" using new D(4) by simp
  then have a: "?a \<notin> set (tq_activeTimers ?q)" by (auto simp: image_iff)
  have pe: "set_put ?e (tq_timers ?q) = (True, snd (set_put ?e (tq_timers ?q)))"
    using set_put_new [OF D(1), of ?e] e by (metis prod.collapse)
  have pa: "set_put ?a (tq_activeTimers ?q) = (True, snd (set_put ?a (tq_activeTimers ?q)))"
    using set_put_new [OF D(2), of ?a] a by (metis prod.collapse)
  have ear: "(case tq_timers ?q of [] \<Rightarrow> True | (first, _) # _ \<Rightarrow> tm_expiration t < first)
      = (\<forall>(t', p') \<in> set (tq_timers ?q). tm_expiration t < t')"
  proof (cases "tq_timers ?q")
    case Nil
    then show ?thesis by simp
  next
    case (Cons y ys)
    obtain t1 p1 where y: "y = (t1, p1)" by force
    have "set_ok ((t1, p1) # ys)" using D(1) by (simp add: Cons y)
    from sorted_first [OF this, of "tm_expiration t"] show ?thesis by (simp add: Cons y)
  qed
  have r: "timer_insert l p s = Inr (\<forall>(t', p') \<in> set (tq_timers ?q). tm_expiration t < t', inserted l p (tm_expiration t) s)"
    unfolding timer_insert_def with_timer_Some [of s, OF t] numCreated_def Let_def ear inserted_def
    by (subst pe, subst pa) (simp add: upd_queue_def)
  have "distinct (map fst (snd (set_put ?a (tq_activeTimers ?q))))"
  proof -
    have "inj_on fst (set (snd (set_put ?a (tq_activeTimers ?q))))"
      using D(3) ap by (auto simp: set_set_put distinct_map)
    then show ?thesis using set_ok_distinct [OF set_ok_put [OF D(2)]] by (simp add: distinct_map)
  qed
  then have "tq_ok l (inserted l p (tm_expiration t) s)"
    unfolding tq_ok_def inserted_def Let_def
    using D t p by (auto simp: loop_simps set_ok_put set_set_put)
  with r show ?thesis by blast
qed

section \<open>Expiry\<close>

definition due :: "int \<Rightarrow> nat \<Rightarrow> 'z timer_world_scheme \<Rightarrow> (int \<times> nat) list" where
  "due now l s = filter (\<lambda>(t, p). t \<le> now) (tq_timers (tw_queues s l))"

definition not_due :: "int \<Rightarrow> nat \<Rightarrow> 'z timer_world_scheme \<Rightarrow> (int \<times> nat) list" where
  "not_due now l s = filter (\<lambda>(t, p). now < t) (tq_timers (tw_queues s l))"

lemma split_due:
  assumes ok: "tq_ok l s"
  shows "below (now, uintptr_max) (tq_timers (tw_queues s l)) = due now l s"
    and "from_bound (now, uintptr_max) (tq_timers (tw_queues s l)) = not_due now l s"
proof -
  note D = tq_okD [OF ok]
  have b: "(t, p) < (now, uintptr_max) \<longleftrightarrow> t \<le> now" if "(t, p) \<in> set (tq_timers (tw_queues s l))" for t p
    using D(5) [OF that] by (auto simp: less_prod_def)
  have le: "(now, uintptr_max) \<le> (t, p) \<longleftrightarrow> now < t" if "(t, p) \<in> set (tq_timers (tw_queues s l))" for t p
    using b [OF that] by (metis linorder_not_le)
  show "below (now, uintptr_max) (tq_timers (tw_queues s l)) = due now l s"
  proof (rule set_ok_unique)
    show "set (below (now, uintptr_max) (tq_timers (tw_queues s l))) = set (due now l s)"
      unfolding set_below [OF D(1)] due_def by (auto simp: b simp del: less_prod_simp)
  qed (simp_all add: D(1) set_ok_split set_ok_filter due_def)
  show "from_bound (now, uintptr_max) (tq_timers (tw_queues s l)) = not_due now l s"
  proof (rule set_ok_unique)
    show "set (from_bound (now, uintptr_max) (tq_timers (tw_queues s l))) = set (not_due now l s)"
      unfolding set_from_bound [OF D(1)] not_due_def by (auto simp: le simp del: less_eq_prod_simp)
  qed (simp_all add: D(1) set_ok_split set_ok_filter not_due_def)
qed

definition expired_state :: "int \<Rightarrow> nat \<Rightarrow> 'z timer_world_scheme \<Rightarrow> 'z timer_world_scheme" where
  "expired_state now l s = upd_queue l (\<lambda>q. q\<lparr>tq_timers := not_due now l s,
     tq_activeTimers := filter (\<lambda>(p, n). p \<notin> snd ` set (due now l s)) (tq_activeTimers q)\<rparr>) s"

lemma expired_state_ok:
  assumes ok: "tq_ok l s"
  shows "tq_ok l (expired_state now l s)"
proof -
  note D = tq_okD [OF ok]
  let ?ts = "tq_timers (tw_queues s l)" and ?as = "tq_activeTimers (tw_queues s l)"
  have part: "set ?ts = set (due now l s) \<union> set (not_due now l s)"
    by (auto simp: due_def not_due_def)
  have "snd ` set (due now l s) \<inter> snd ` set (not_due now l s) = {}"
  proof -
    have inj: "inj_on snd (set ?ts)" using tq_ok_distinct [OF ok] by (simp add: distinct_map)
    have "set (due now l s) \<inter> set (not_due now l s) = {}" by (auto simp: due_def not_due_def)
    then show ?thesis using inj_on_image_Int [OF inj, of "set (due now l s)" "set (not_due now l s)"]
      part by auto
  qed
  then have "fst ` set (filter (\<lambda>(p, n). p \<notin> snd ` set (due now l s)) ?as) = snd ` set (not_due now l s)"
  proof -
    have "fst ` set (filter (\<lambda>(p, n). p \<notin> snd ` set (due now l s)) ?as)
        = fst ` set ?as - snd ` set (due now l s)"
      by force
    also have "\<dots> = snd ` set (not_due now l s)"
      using D(4) part \<open>snd ` set (due now l s) \<inter> snd ` set (not_due now l s) = {}\<close> by auto
    finally show ?thesis .
  qed
  moreover have "\<forall>(t, p) \<in> set (not_due now l s). p < uintptr_max \<and>
      (\<exists>tm. tw_timers s p = Some tm \<and> tm_expiration tm = t)"
    using D(5) by (auto simp: not_due_def)
  moreover have "\<forall>(p, n) \<in> set (filter (\<lambda>(p, n). p \<notin> snd ` set (due now l s)) ?as). n \<le> tw_created s"
    using D(6) by auto
  moreover have "set_ok (not_due now l s)" using D(1) by (simp add: set_ok_filter not_due_def)
  moreover have "set_ok (filter (\<lambda>(p, n). p \<notin> snd ` set (due now l s)) ?as)"
    using D(2) by (simp add: set_ok_filter)
  moreover have "distinct (map fst (filter (\<lambda>(p, n). p \<notin> snd ` set (due now l s)) ?as))"
    using D(3) by (simp add: distinct_map_filter)
  ultimately show ?thesis unfolding tq_ok_def expired_state_def Let_def upd_queue_sel by simp
qed

lemma getExpired_eq:
  assumes ok: "tq_ok l s"
  shows "getExpired now l s =
      (if \<forall>(t, p) \<in> set (due now l s). (p, tw_created s) \<in> set (tq_activeTimers (tw_queues s l))
       then Inr (due now l s, expired_state now l s) else Inl AssertFailed)
    \<and> tq_ok l (expired_state now l s) \<and> set_ok (due now l s)"
proof -
  note D = tq_okD [OF ok]
  let ?q = "tw_queues s l" and ?as = "tq_activeTimers (tw_queues s l)"
  let ?f = "\<lambda>e. (snd e, tw_created s)"
  have rest: "not_due now l s = [] \<or> now < fst (hd (not_due now l s))"
    by (cases "not_due now l s") (auto simp: not_due_def filter_eq_Cons_iff)
  have "distinct (map snd (due now l s))"
    using tq_ok_distinct [OF ok] by (simp add: due_def distinct_map_filter)
  then have dis: "distinct (map ?f (due now l s))"
    by (auto simp: distinct_map inj_on_def)
  have sub: "?f ` set (due now l s) \<subseteq> set ?as \<longleftrightarrow> (\<forall>(t, p) \<in> set (due now l s). (p, tw_created s) \<in> set ?as)"
    by auto
  have filt: "filter (\<lambda>y. y \<notin> ?f ` set (due now l s)) ?as
      = filter (\<lambda>(p, n). p \<notin> snd ` set (due now l s)) ?as"
    if "\<forall>(t, p) \<in> set (due now l s). (p, tw_created s) \<in> set ?as"
  proof (rule filter_cong [OF refl])
    fix y assume y: "y \<in> set ?as"
    obtain p n where pn: "y = (p, n)" by force
    have "n = tw_created s" if "(t, p) \<in> set (due now l s)" for t
      using eq_key_imp_eq_value [OF D(3), of p n "tw_created s"] y that
        \<open>\<forall>(t, p) \<in> set (due now l s). (p, tw_created s) \<in> set ?as\<close> pn by auto
    then show "(y \<notin> ?f ` set (due now l s)) = (case y of (p, n) \<Rightarrow> p \<notin> snd ` set (due now l s))"
      using pn by (auto simp: image_iff)
  qed
  have "getExpired now l s =
      (if \<forall>(t, p) \<in> set (due now l s). (p, tw_created s) \<in> set ?as
       then Inr (due now l s, expired_state now l s) else Inl AssertFailed)"
    unfolding getExpired_def Let_def split_due [OF ok] numCreated_def upd_queue_sel
    using rest erase_all [OF D(2) dis] sub filt
    by (simp add: expired_state_def upd_queue_def)
  then show ?thesis using expired_state_ok [OF ok] D(1) by (simp add: due_def set_ok_filter)
qed

text \<open>C28. In a well-formed queue \<open>getExpired\<close> takes out exactly the timers that are due, in the order of
  their expiration, and leaves a well-formed queue with the others; but it succeeds only when each
  of them was filed under the present value of the counter of created timers. When any timer was
  created after a due one was filed, its assertion fails and the program aborts.\<close>

theorem getExpired_due:
  assumes ok: "tq_ok l s"
  shows "getExpired now l s =
      (if \<forall>(t, p) \<in> set (due now l s). (p, tw_created s) \<in> set (tq_activeTimers (tw_queues s l))
       then Inr (due now l s, expired_state now l s) else Inl AssertFailed)
    \<and> tq_ok l (expired_state now l s) \<and> set_ok (due now l s)"
  by (rule getExpired_eq [OF ok])

section \<open>Cancelling\<close>

lemma tq_ok_upd_timer:
  assumes "tq_ok l s" and "p \<notin> snd ` set (tq_timers (tw_queues s l))"
  shows "tq_ok l (upd_timer p t s)"
proof -
  have "\<forall>(t', p') \<in> set (tq_timers (tw_queues s l)). p' < uintptr_max \<and>
      (\<exists>tm. tw_timers (upd_timer p t s) p' = Some tm \<and> tm_expiration tm = t')"
  proof clarify
    fix t' p' assume a: "(t', p') \<in> set (tq_timers (tw_queues s l))"
    then have "p' \<noteq> p" using assms(2) by force
    with tq_okD(5) [OF assms(1) a] show "p' < uintptr_max \<and>
      (\<exists>tm. tw_timers (upd_timer p t s) p' = Some tm \<and> tm_expiration tm = t')"
      by (simp add: upd_timer_sel)
  qed
  then show ?thesis using assms(1) by (simp add: tq_ok_def Let_def upd_timer_sel)
qed

text \<open>Cancelling a pending timer by its identifier takes it out of both sets of the queue and frees
  it, and the queue stays well formed. An identifier that is not filed (the timer is being called,
  is gone, or was filed under another number) changes nothing outside the calls of expired timers;
  during them it is remembered, so that the timer is not started again.\<close>

theorem cancel_pending:
  assumes ok: "tq_ok l s" and here: "isInLoopThread l s"
  defines "q \<equiv> tw_queues s l"
  shows "\<exists>s'. timer_cancelInLoop l p n s = Inr s' \<and> tq_ok l s'
    \<and> (if (p, n) \<in> set (tq_activeTimers q) then
         set (tq_timers (tw_queues s' l)) = {e \<in> set (tq_timers q). snd e \<noteq> p}
         \<and> set (tq_activeTimers (tw_queues s' l)) = set (tq_activeTimers q) - {(p, n)}
         \<and> tw_timers s' = (tw_timers s)(p := None)
       else tq_timers (tw_queues s' l) = tq_timers q \<and> tw_timers s' = tw_timers s
         \<and> set (tq_cancelingTimers (tw_queues s' l)) =
             (if tq_callingExpiredTimers q then insert (p, n) (set (tq_cancelingTimers q))
              else set (tq_cancelingTimers q)))"
proof (cases "(p, n) \<in> set (tq_activeTimers q)")
  case False
  let ?s = "if tq_callingExpiredTimers q
    then upd_queue l (\<lambda>q. q\<lparr>tq_cancelingTimers := snd (set_put (p, n) (tq_cancelingTimers q))\<rparr>) s else s"
  have "timer_cancelInLoop l p n s = Inr ?s"
    using False tq_ok_length [OF ok]
    by (simp add: timer_cancelInLoop_def Let_def assertInLoopThread_in [OF here] q_def)
  moreover have "tq_ok l ?s" using ok by (simp add: tq_ok_def Let_def upd_queue_sel)
  ultimately show ?thesis using False by (auto simp: q_def upd_queue_sel set_set_put)
next
  case True
  note D = tq_okD [OF ok, folded q_def]
  have "p \<in> fst ` set (tq_activeTimers q)" using True by force
  then have "p \<in> snd ` set (tq_timers q)" by (simp add: D(4))
  then obtain t where tp: "(t, p) \<in> set (tq_timers q)" by auto
  obtain tm where tm: "tw_timers s p = Some tm" "tm_expiration tm = t" using D(5) [OF tp] by blast
  have only: "e = (t, p)" if "e \<in> set (tq_timers q)" "snd e = p" for e
    using that tp tq_ok_distinct [OF ok, folded q_def] by (auto simp: distinct_map inj_on_def)
  have onlya: "a = (p, n)" if "a \<in> set (tq_activeTimers q)" "fst a = p" for a
    using that True D(3) by (auto simp: distinct_map inj_on_def)
  obtain ts where er: "set_erase (t, p) (tq_timers q) = (1, ts)"
    using set_erase_count [of "(t, p)" "tq_timers q"] tp by (metis prod.collapse)
  then have tsd: "ts = snd (set_erase (t, p) (tq_timers q))" by simp
  let ?s = "upd_queue l (\<lambda>q. q\<lparr>tq_timers := ts,
      tq_activeTimers := snd (set_erase (p, n) (tq_activeTimers q))\<rparr>) (upd_timer p None s)"
  have r: "timer_cancelInLoop l p n s = Inr ?s"
    unfolding timer_cancelInLoop_def Let_def q_def [symmetric] assertInLoopThread_in [OF here]
      with_timer_Some [of s, OF tm(1)] tm(2) er
    using True tq_ok_length [OF ok, folded q_def] by (simp add: upd_queue_def upd_timer_sel q_def)
  have ts: "set ts = {e \<in> set (tq_timers q). snd e \<noteq> p}"
  proof (rule set_eqI)
    fix e show "e \<in> set ts \<longleftrightarrow> e \<in> {e \<in> set (tq_timers q). snd e \<noteq> p}"
      unfolding tsd set_set_erase [OF D(1)] using only [of e] by (cases e) auto
  qed
  have as: "set (snd (set_erase (p, n) (tq_activeTimers q))) = set (tq_activeTimers q) - {(p, n)}"
    by (rule set_set_erase [OF D(2)])
  have "fst ` (set (tq_activeTimers q) - {(p, n)}) = snd ` {e \<in> set (tq_timers q). snd e \<noteq> p}"
  proof -
    have "fst ` (set (tq_activeTimers q) - {(p, n)}) = fst ` set (tq_activeTimers q) - {p}"
      using onlya by force
    also have "\<dots> = snd ` {e \<in> set (tq_timers q). snd e \<noteq> p}" unfolding D(4) by force
    finally show ?thesis .
  qed
  moreover have "distinct (map fst (snd (set_erase (p, n) (tq_activeTimers q))))"
    using D(3) by (simp add: set_erase_filter [OF D(2)] distinct_map_filter)
  moreover have "\<forall>(t', p') \<in> {e \<in> set (tq_timers q). snd e \<noteq> p}. p' < uintptr_max \<and>
      (\<exists>tm. tw_timers ?s p' = Some tm \<and> tm_expiration tm = t')"
    using D(5) by (auto simp: upd_queue_sel upd_timer_sel)
  moreover have "\<forall>(p', n') \<in> set (tq_activeTimers q) - {(p, n)}. n' \<le> tw_created s" using D(6) by auto
  ultimately have "tq_ok l ?s"
    unfolding tq_ok_def Let_def upd_queue_sel upd_timer_sel fun_upd_same
    using set_ok_erase [OF D(1), of "(t, p)", folded tsd] set_ok_erase [OF D(2)] ts as by (simp add: q_def) blast
  with r show ?thesis using True ts as by (auto simp: upd_queue_sel upd_timer_sel q_def)
qed

section \<open>Starting again\<close>

text \<open>The entries \<open>reset\<close> makes for expired timers.\<close>

definition again :: "(int \<times> nat) list \<Rightarrow> int \<Rightarrow> nat \<Rightarrow> 'z timer_world_scheme \<Rightarrow> (int \<times> nat) set" where
  "again es now l s = {(addTime now (tm_interval tm), p) |p tm. p \<in> snd ` set es \<and> tw_timers s p = Some tm
     \<and> tm_repeat tm \<and> (p, tw_created s) \<notin> set (tq_cancelingTimers (tw_queues s l))}"

lemma reset_step:
  assumes ok: "tq_ok l s" and p: "p < uintptr_max" "p \<notin> snd ` set (tq_timers (tw_queues s l))" and tm: "tw_timers s p = Some tm"
  defines "keep \<equiv> tm_repeat tm \<and> (p, tw_created s) \<notin> set (tq_cancelingTimers (tw_queues s l))"
  shows "\<exists>s1. timer_reset_one now l (t, p) s = Inr s1 \<and> tq_ok l s1
    \<and> set (tq_timers (tw_queues s1 l)) = (if keep then {(addTime now (tm_interval tm), p)} else {}) \<union> set (tq_timers (tw_queues s l))
    \<and> (\<not> keep \<longrightarrow> tw_timers s1 p = None) \<and> (\<forall>p'. p' \<noteq> p \<longrightarrow> tw_timers s1 p' = tw_timers s p')
    \<and> tq_cancelingTimers (tw_queues s1 l) = tq_cancelingTimers (tw_queues s l) \<and> tw_created s1 = tw_created s
    \<and> tq_settime (tw_queues s1 l) = tq_settime (tw_queues s l) \<and> tw_ticks s1 = tw_ticks s"
proof (cases keep)
  case True
  let ?s = "upd_timer p (Some (timer_restart now tm)) s"
  let ?whn = "addTime now (tm_interval tm)"
  have rep: "tm_repeat tm" and ca: "(p, tw_created s) \<notin> set (tq_cancelingTimers (tw_queues s l))"
    using True by (simp_all add: keep_def)
  have "tq_ok l ?s" by (rule tq_ok_upd_timer [OF ok p(2)])
  moreover have "tw_timers ?s p = Some (timer_restart now tm)" by (simp add: upd_timer_sel)
  moreover have "p \<notin> snd ` set (tq_timers (tw_queues ?s l))" using p(2) by (simp add: upd_timer_sel)
  ultimately have "timer_insert l p ?s = Inr (\<forall>(t', p') \<in> set (tq_timers (tw_queues ?s l)).
      tm_expiration (timer_restart now tm) < t', inserted l p (tm_expiration (timer_restart now tm)) ?s)
    \<and> tq_ok l (inserted l p (tm_expiration (timer_restart now tm)) ?s)"
    by (intro insert_ok) (use p(1) in auto)
  moreover have "tm_expiration (timer_restart now tm) = ?whn" using rep by (simp add: timer_restart_def)
  ultimately have "timer_reset_one now l (t, p) s = Inr (inserted l p ?whn ?s) \<and> tq_ok l (inserted l p ?whn ?s)"
    using rep ca by (simp add: timer_reset_one_def with_timer_Some [of s, OF tm] numCreated_def)
  then show ?thesis using True
    by (intro exI [of _ "inserted l p ?whn ?s"]) (auto simp: inserted_def upd_queue_sel upd_timer_sel set_set_put)
next
  case False
  then have "timer_reset_one now l (t, p) s = Inr (upd_timer p None s)"
    by (auto simp: keep_def timer_reset_one_def with_timer_Some [of s, OF tm] numCreated_def)
  then show ?thesis using False tq_ok_upd_timer [OF ok p(2), of None]
    by (intro exI [of _ "upd_timer p None s"]) (auto simp: upd_timer_sel)
qed

text \<open>The entries of a list of timers are those of its first and of the others.\<close>

lemma again_Cons:
  "tw_timers s p = Some tm \<Longrightarrow> again ((t, p) # es) now l s =
    (if tm_repeat tm \<and> (p, tw_created s) \<notin> set (tq_cancelingTimers (tw_queues s l))
     then {(addTime now (tm_interval tm), p)} else {}) \<union> again es now l s"
  by (auto simp: again_def)

lemma again_cong:
  assumes "\<forall>p \<in> snd ` set es. tw_timers s' p = tw_timers s p" and "tw_created s' = tw_created s"
    and "tq_cancelingTimers (tw_queues s' l) = tq_cancelingTimers (tw_queues s l)"
  shows "again es now l s' = again es now l s"
  using assms by (auto simp: again_def) (metis image_eqI snd_conv)+

lemma reset_all:
  assumes "tq_ok l s" and "distinct (map snd es)"
    and "\<forall>p \<in> snd ` set es. p < uintptr_max \<and> p \<notin> snd ` set (tq_timers (tw_queues s l)) \<and> tw_timers s p \<noteq> None"
  shows "\<exists>s'. fold_res (timer_reset_one now l) es s = Inr s' \<and> tq_ok l s'
    \<and> set (tq_timers (tw_queues s' l)) = set (tq_timers (tw_queues s l)) \<union> again es now l s
    \<and> (\<forall>p \<in> snd ` set es. p \<notin> snd ` again es now l s \<longrightarrow> tw_timers s' p = None)
    \<and> (\<forall>p. p \<notin> snd ` set es \<longrightarrow> tw_timers s' p = tw_timers s p)
    \<and> tq_settime (tw_queues s' l) = tq_settime (tw_queues s l) \<and> tw_ticks s' = tw_ticks s"
  using assms
proof (induction es arbitrary: s)
  case Nil
  then show ?case by (simp add: again_def)
next
  case (Cons e es)
  obtain t p where e: "e = (t, p)" by force
  have p: "p < uintptr_max" "p \<notin> snd ` set (tq_timers (tw_queues s l))" "tw_timers s p \<noteq> None"
    using Cons.prems(3) e by auto
  then obtain tm where tm: "tw_timers s p = Some tm" by blast
  have pes: "p \<notin> snd ` set es" and dis: "distinct (map snd es)" using Cons.prems(2) e by auto
  let ?keep = "tm_repeat tm \<and> (p, tw_created s) \<notin> set (tq_cancelingTimers (tw_queues s l))"
  let ?new = "if ?keep then {(addTime now (tm_interval tm), p)} else {}"
  from reset_step [OF Cons.prems(1) p(1,2) tm, of now t] obtain s1 where
    s1: "timer_reset_one now l e s = Inr s1" "tq_ok l s1" "set (tq_timers (tw_queues s1 l)) = ?new \<union> set (tq_timers (tw_queues s l))"
      "\<not> ?keep \<longrightarrow> tw_timers s1 p = None" "\<forall>p'. p' \<noteq> p \<longrightarrow> tw_timers s1 p' = tw_timers s p'"
      "tq_cancelingTimers (tw_queues s1 l) = tq_cancelingTimers (tw_queues s l)" "tw_created s1 = tw_created s"
      "tq_settime (tw_queues s1 l) = tq_settime (tw_queues s l)" "tw_ticks s1 = tw_ticks s"
    unfolding e by blast
  have ag1: "again es now l s1 = again es now l s" by (rule again_cong) (use s1(5-7) pes in auto)
  have ag: "again (e # es) now l s = ?new \<union> again es now l s" unfolding e by (rule again_Cons [of s, OF tm])
  have "\<forall>p' \<in> snd ` set es. p' < uintptr_max \<and> p' \<notin> snd ` set (tq_timers (tw_queues s1 l)) \<and> tw_timers s1 p' \<noteq> None"
  proof
    fix p' assume p': "p' \<in> snd ` set es"
    then have "p' \<noteq> p" using pes by blast
    moreover have "p' < uintptr_max \<and> p' \<notin> snd ` set (tq_timers (tw_queues s l)) \<and> tw_timers s p' \<noteq> None"
      using Cons.prems(3) p' by auto
    ultimately show "p' < uintptr_max \<and> p' \<notin> snd ` set (tq_timers (tw_queues s1 l)) \<and> tw_timers s1 p' \<noteq> None"
      using s1(5) by (auto simp: s1(3))
  qed
  from Cons.IH [OF s1(2) dis this] obtain s' where s':
    "fold_res (timer_reset_one now l) es s1 = Inr s'" "tq_ok l s'"
    "set (tq_timers (tw_queues s' l)) = set (tq_timers (tw_queues s1 l)) \<union> again es now l s1"
    "\<forall>p \<in> snd ` set es. p \<notin> snd ` again es now l s1 \<longrightarrow> tw_timers s' p = None"
    "\<forall>p. p \<notin> snd ` set es \<longrightarrow> tw_timers s' p = tw_timers s1 p"
    "tq_settime (tw_queues s' l) = tq_settime (tw_queues s1 l)" "tw_ticks s' = tw_ticks s1" by blast
  have "tw_timers s' p = None" if "p \<notin> snd ` again (e # es) now l s"
    using that s1(4) s'(5) pes unfolding ag by (auto split: if_splits)
  moreover have "tw_timers s' p' = None" if "p' \<in> snd ` set es" "p' \<notin> snd ` again (e # es) now l s" for p'
    using that s'(4) by (auto simp: ag ag1)
  ultimately have "\<forall>p' \<in> snd ` set (e # es). p' \<notin> snd ` again (e # es) now l s \<longrightarrow> tw_timers s' p' = None"
    by (auto simp: e)
  moreover have "\<forall>p'. p' \<notin> snd ` set (e # es) \<longrightarrow> tw_timers s' p' = tw_timers s p'"
    using s'(5) s1(5) by (auto simp: e)
  moreover have "set (tq_timers (tw_queues s' l)) = set (tq_timers (tw_queues s l)) \<union> again (e # es) now l s"
    unfolding s'(3) s1(3) ag ag1 by auto
  ultimately show ?case using s1(1,8,9) s'(1,2,6,7) by (intro exI [of _ s']) auto
qed

text \<open>What \<open>reset\<close> does, in terms of the test it makes: the number a timer is looked up with among the
  cancelled ones is the counter of created timers as it stands then.\<close>

lemma reset_effect:
  assumes ok: "tq_ok l s" and dis: "distinct (map snd es)"
    and live: "\<forall>p \<in> snd ` set es. p < uintptr_max \<and> p \<notin> snd ` set (tq_timers (tw_queues s l)) \<and> tw_timers s p \<noteq> None"
  shows "\<exists>s'. timer_reset clock es now l s = Inr s' \<and> tq_ok l s'
    \<and> set (tq_timers (tw_queues s' l)) = set (tq_timers (tw_queues s l)) \<union> again es now l s
    \<and> (\<forall>p \<in> snd ` set es. p \<notin> snd ` again es now l s \<longrightarrow> tw_timers s' p = None)
    \<and> tq_settime (tw_queues s' l) = tq_settime (tw_queues s l)
        @ (case tq_timers (tw_queues s' l) of [] \<Rightarrow> []
           | (t, _) # _ \<Rightarrow> if 0 < t then [howMuchTimeFromNow t (clock (tw_ticks s))] else [])"
proof -
  from reset_all [OF ok dis live, of now] obtain s1 where s1:
    "fold_res (timer_reset_one now l) es s = Inr s1" "tq_ok l s1"
    "set (tq_timers (tw_queues s1 l)) = set (tq_timers (tw_queues s l)) \<union> again es now l s"
    "\<forall>p \<in> snd ` set es. p \<notin> snd ` again es now l s \<longrightarrow> tw_timers s1 p = None"
    "tq_settime (tw_queues s1 l) = tq_settime (tw_queues s l)" "tw_ticks s1 = tw_ticks s" by blast
  let ?next = "case tq_timers (tw_queues s1 l) of [] \<Rightarrow> timestamp_invaild | (t, _) # _ \<Rightarrow> t"
  let ?s = "if timestamp_valid ?next then resetTimerfd clock l ?next s1 else s1"
  have "timer_reset clock es now l s = Inr ?s" by (simp add: timer_reset_def s1(1) Let_def)
  moreover have "tq_timers (tw_queues ?s l) = tq_timers (tw_queues s1 l)" "tw_timers ?s = tw_timers s1"
    by (simp_all add: resetTimerfd_def clock_now_def upd_queue_def)
  moreover have "tq_ok l ?s" using s1(2)
    by (simp add: tq_ok_def Let_def resetTimerfd_def clock_now_def upd_queue_def)
  moreover have "tq_settime (tw_queues ?s l) = tq_settime (tw_queues s l)
        @ (case tq_timers (tw_queues s1 l) of [] \<Rightarrow> []
           | (t, _) # _ \<Rightarrow> if 0 < t then [howMuchTimeFromNow t (clock (tw_ticks s))] else [])"
    using s1(5,6) by (auto simp: resetTimerfd_def clock_now_def upd_queue_def timestamp_valid_def
        timestamp_invaild_def split: list.splits)
  ultimately show ?thesis using s1(3,4) by (intro exI [of _ ?s]) simp
qed

section \<open>The time to wait\<close>

text \<open>The time the descriptor is armed with is the time left until the expiration, but never less
  than 100 microseconds, split into seconds and a nanosecond part below a second.\<close>

theorem howMuchTimeFromNow_bounds:
  "case howMuchTimeFromNow whn now of (sec, nsec) \<Rightarrow>
     0 \<le> sec \<and> 0 \<le> nsec \<and> nsec < 1000000000 \<and> sec * 1000000000 + nsec = max 100 (whn - now) * 1000"
proof -
  let ?m = "max 100 (whn - now)"
  have m: "0 \<le> ?m" by simp
  have e: "(if whn - now < 100 then 100 else whn - now) = ?m" by simp
  have "c_div ?m 1000000 = ?m div 1000000" "c_mod ?m 1000000 = ?m mod 1000000"
    using m by (simp_all add: c_div_nonneg c_mod_nonneg del: max.bounded_iff)
  then have "howMuchTimeFromNow whn now = (?m div 1000000, ?m mod 1000000 * 1000)"
    unfolding howMuchTimeFromNow_def Let_def kMicroSecondsPerSecond_def e by simp
  moreover have "?m mod 1000000 < 1000000" "0 \<le> ?m mod 1000000" by simp_all
  moreover have "?m div 1000000 * 1000000000 + ?m mod 1000000 * 1000 = ?m * 1000"
    using div_mult_mod_eq [of ?m 1000000] by linarith
  moreover have "0 \<le> ?m div 1000000" using m by simp
  ultimately show ?thesis by simp
qed

section \<open>Adding a timer\<close>

lemma timer_new_sel [loop_simps]:
  "tw_queues (timer_new p cb whn interval s) = tw_queues s"
  "tw_created (timer_new p cb whn interval s) = tw_created s + 1"
  "w_loops (timer_new p cb whn interval s) = w_loops s" "w_tid (timer_new p cb whn interval s) = w_tid s"
  "tw_ticks (timer_new p cb whn interval s) = tw_ticks s"
  "tw_timers (timer_new p cb whn interval s) p = Some \<lparr>tm_callBack = cb, tm_expiration = whn,
     tm_interval = interval, tm_repeat = double_positive interval, tm_sequence = tw_created s\<rparr>"
  "p' \<noteq> p \<Longrightarrow> tw_timers (timer_new p cb whn interval s) p' = tw_timers s p'"
  by (simp_all add: timer_new_def upd_timer_def)

text \<open>The state after \<open>addTimer\<close> in the thread of the loop.\<close>

definition filed ::
  "clock \<Rightarrow> nat \<Rightarrow> nat \<Rightarrow> closure \<Rightarrow> int \<Rightarrow> double \<Rightarrow> 'z timer_world_scheme \<Rightarrow> 'z timer_world_scheme" where
  "filed clock l p cb whn interval s =
     (let s' = inserted l p whn (timer_new p cb whn interval s) in
      if \<forall>(t, _) \<in> set (tq_timers (tw_queues s l)). whn < t then resetTimerfd clock l whn s' else s')"

lemma filed_sel [loop_simps]:
  "chans (filed clock l p cb whn interval s) = chans s" "w_loops (filed clock l p cb whn interval s) = w_loops s"
  "w_tid (filed clock l p cb whn interval s) = w_tid s"
  "tw_timers (filed clock l p cb whn interval s) = (tw_timers s)(p := Some \<lparr>tm_callBack = cb, tm_expiration = whn,
     tm_interval = interval, tm_repeat = double_positive interval, tm_sequence = tw_created s\<rparr>)"
  "tw_created (filed clock l p cb whn interval s) = tw_created s + 1"
  by (simp_all add: filed_def Let_def resetTimerfd_def clock_now_def upd_queue_def inserted_def timer_new_def upd_timer_def)

lemma addTimer_eq:
  assumes ok: "tq_ok l s" and here: "isInLoopThread l s" and p: "tw_timers s p = None" "p < uintptr_max"
    and run: "run (AddTimerInloop l p) = addTimerInloop clock l p"
  shows "addTimer run p cb whn interval l s = Inr ((p, tw_created s + 1), filed clock l p cb whn interval s)"
    and "tq_ok l (filed clock l p cb whn interval s)"
proof -
  let ?s = "timer_new p cb whn interval s"
  note D = tq_okD [OF ok]
  have new: "p \<notin> snd ` set (tq_timers (tw_queues s l))" using D(5) p(1) by fastforce
  have live: "p' < uintptr_max \<and> (\<exists>tm. tw_timers ?s p' = Some tm \<and> tm_expiration tm = t')"
    if "(t', p') \<in> set (tq_timers (tw_queues s l))" for t' p'
  proof -
    have "p' \<noteq> p" using that new by force
    with D(5) [OF that] show ?thesis by (simp add: timer_new_sel)
  qed
  have "tq_ok l ?s"
    unfolding tq_ok_def Let_def timer_new_sel using D(1-4) D(6) live by (auto dest: D(6))
  moreover have "p \<notin> snd ` set (tq_timers (tw_queues ?s l))" using new by (simp add: timer_new_sel)
  ultimately have ins: "timer_insert l p ?s
      = Inr (\<forall>(t', _) \<in> set (tq_timers (tw_queues s l)). whn < t', inserted l p whn ?s)"
    "tq_ok l (inserted l p whn ?s)"
    using insert_ok [OF _ timer_new_sel(6) p(2), of l cb whn interval s] by (auto simp: timer_new_sel)
  let ?r = "filed clock l p cb whn interval s"
  have here': "isInLoopThread l ?s" using here by (simp add: isInLoopThread_def timer_new_sel)
  have tm: "tw_timers (inserted l p whn ?s) p = tw_timers ?s p" by (simp add: inserted_def upd_queue_sel)
  have "addTimerInloop clock l p ?s = Inr ?r"
    by (simp add: addTimerInloop_def assertInLoopThread_in [OF here'] ins(1) with_timer_def tm timer_new_sel filed_def Let_def)
  then show "addTimer run p cb whn interval l s = Inr ((p, tw_created s + 1), ?r)"
    by (simp add: addTimer_def runInLoop_def here' run Let_def numCreated_def filed_sel)
  show "tq_ok l ?r" using ins(2)
    by (simp add: filed_def tq_ok_def Let_def resetTimerfd_def clock_now_def upd_queue_def)
qed

lemma filed_queue:
  "set (tq_timers (tw_queues (filed clock l p cb whn interval s) l)) = insert (whn, p) (set (tq_timers (tw_queues s l)))"
  "(p, tw_created s + 1) \<in> set (tq_activeTimers (tw_queues (filed clock l p cb whn interval s) l))"
  "tq_settime (tw_queues (filed clock l p cb whn interval s) l) = tq_settime (tw_queues s l)
    @ (if \<forall>(t, _) \<in> set (tq_timers (tw_queues s l)). whn < t then [howMuchTimeFromNow whn (clock (tw_ticks s))] else [])"
  by (simp_all add: filed_def Let_def resetTimerfd_def clock_now_def upd_queue_def inserted_def timer_new_sel set_set_put)

text \<open>In the thread of the loop \<open>addTimer\<close> files the new timer under its expiration, arms the
  descriptor when it is the earliest of the queue and only then, keeps the queue well formed, and
  returns an identifier under which the timer is filed.\<close>

theorem addTimer_files:
  assumes "tq_ok l s" and "isInLoopThread l s" and "tw_timers s p = None" "p < uintptr_max"
    and "run (AddTimerInloop l p) = addTimerInloop clock l p"
  shows "\<exists>timerId s'. addTimer run p cb whn interval l s = Inr (timerId, s') \<and> tq_ok l s'
    \<and> set (tq_timers (tw_queues s' l)) = insert (whn, p) (set (tq_timers (tw_queues s l)))
    \<and> timerId \<in> set (tq_activeTimers (tw_queues s' l)) \<and> fst timerId = p
    \<and> tq_settime (tw_queues s' l) = tq_settime (tw_queues s l)
        @ (if \<forall>(t, _) \<in> set (tq_timers (tw_queues s l)). whn < t
           then [howMuchTimeFromNow whn (clock (tw_ticks s))] else [])"
  by (intro exI [of _ "(p, tw_created s + 1)"] exI [of _ "filed clock l p cb whn interval s"] conjI filed_queue
      addTimer_eq [where run = run, OF assms] fst_conv)

section \<open>A poll with expired timers\<close>

text \<open>What the callback of a timer may do to the queue of its own loop: have a timer allocated at an
  address and added, and cancel a timer by its identifier.\<close>

datatype timer_act = Creates nat closure int double | Cancels nat int

definition timer_closures :: "clock \<Rightarrow> closure \<Rightarrow> 'z timer_world_scheme \<Rightarrow> 'z timer_world_scheme res" where
  "timer_closures clock cb s = (case cb of
     AddTimerInloop k p \<Rightarrow> addTimerInloop clock k p s
   | CancelInLoop k p n \<Rightarrow> timer_cancelInLoop k p n s
   | _ \<Rightarrow> Inr s)"

fun do_timer_act :: "clock \<Rightarrow> nat \<Rightarrow> timer_act \<Rightarrow> 'z timer_world_scheme \<Rightarrow> 'z timer_world_scheme res" where
  "do_timer_act clock l (Creates p cb whn interval) s =
     bnd (addTimer (timer_closures clock) p cb whn interval l s) (\<lambda>(_, s). Inr s)"
| "do_timer_act clock l (Cancels p n) s = timer_cancel (timer_closures clock) (p, n) l s"

definition callback_acts :: "(closure \<Rightarrow> timer_act list) \<Rightarrow> (int \<times> nat) list \<Rightarrow> 'z timer_world_scheme \<Rightarrow> timer_act list" where
  "callback_acts acts es s = concat (map (\<lambda>(_, p). case tw_timers s p of None \<Rightarrow> [] | Some tm \<Rightarrow> acts (tm_callBack tm)) es)"

text \<open>The allocator returns an address that is not in use when it is called.\<close>

fun allocates :: "clock \<Rightarrow> nat \<Rightarrow> timer_act list \<Rightarrow> 'z timer_world_scheme \<Rightarrow> bool" where
  "allocates clock l [] s \<longleftrightarrow> True"
| "allocates clock l (a # as) s \<longleftrightarrow>
     (case a of Creates p _ _ _ \<Rightarrow> tw_timers s p = None \<and> p < uintptr_max | Cancels _ _ \<Rightarrow> True)
   \<and> (case do_timer_act clock l a s of Inl _ \<Rightarrow> True | Inr s' \<Rightarrow> allocates clock l as s')"

definition creations :: "timer_act list \<Rightarrow> timer_act list" where
  "creations = filter (\<lambda>a. case a of Creates _ _ _ _ \<Rightarrow> True | Cancels _ _ \<Rightarrow> False)"

definition creates :: "timer_act list \<Rightarrow> bool" where
  "creates h \<longleftrightarrow> list_ex (\<lambda>a. case a of Creates _ _ _ _ \<Rightarrow> True | Cancels _ _ \<Rightarrow> False) h"

definition cancelled :: "nat \<Rightarrow> timer_act list \<Rightarrow> bool" where
  "cancelled p h \<longleftrightarrow> list_ex (\<lambda>a. case a of Creates _ _ _ _ \<Rightarrow> False | Cancels q _ \<Rightarrow> q = p) h"

text \<open>The state in which the callbacks are called.\<close>

definition callbacks_start :: "clock \<Rightarrow> nat \<Rightarrow> 'z timer_world_scheme \<Rightarrow> 'z timer_world_scheme" where
  "callbacks_start clock l s = upd_queue l (\<lambda>q. q\<lparr>tq_callingExpiredTimers := True, tq_cancelingTimers := []\<rparr>)
     (expired_state (clock (tw_ticks s)) l (s\<lparr>tw_ticks := Suc (tw_ticks s)\<rparr>))"

text \<open>Between the callbacks: what they have done, \<open>h\<close>, to a queue whose expired timers are those at \<open>P\<close>.\<close>

definition acted :: "nat \<Rightarrow> nat set \<Rightarrow> 'z timer_world_scheme \<Rightarrow> timer_act list \<Rightarrow> 'z timer_world_scheme \<Rightarrow> bool" where
  "acted l P s0 h s \<longleftrightarrow> tq_ok l s \<and> isInLoopThread l s \<and> tq_callingExpiredTimers (tw_queues s l)
   \<and> (\<forall>p\<in>P. p \<notin> snd ` set (tq_timers (tw_queues s l)) \<and> tw_timers s p = tw_timers s0 p
        \<and> (\<forall>n. (p, n) \<in> set (tq_cancelingTimers (tw_queues s l)) \<longleftrightarrow> Cancels p n \<in> set h))
   \<and> tw_created s = tw_created s0 + int (length (creations h))
   \<and> (\<forall>(t, p)\<in>set (tq_timers (tw_queues s0 l)). \<not> cancelled p h \<longrightarrow> (t, p) \<in> set (tq_timers (tw_queues s l)))
   \<and> (\<forall>p cb whn interval. Creates p cb whn interval \<in> set h \<longrightarrow> \<not> cancelled p h
        \<longrightarrow> (whn, p) \<in> set (tq_timers (tw_queues s l)))"

lemma actedD:
  assumes "acted l P s0 h s"
  shows "tq_ok l s" "isInLoopThread l s" "tq_callingExpiredTimers (tw_queues s l)"
    "p \<in> P \<Longrightarrow> p \<notin> snd ` set (tq_timers (tw_queues s l))" "p \<in> P \<Longrightarrow> tw_timers s p = tw_timers s0 p"
    "p \<in> P \<Longrightarrow> (p, n) \<in> set (tq_cancelingTimers (tw_queues s l)) \<longleftrightarrow> Cancels p n \<in> set h"
    "tw_created s = tw_created s0 + int (length (creations h))"
    "(t, p) \<in> set (tq_timers (tw_queues s0 l)) \<Longrightarrow> \<not> cancelled p h \<Longrightarrow> (t, p) \<in> set (tq_timers (tw_queues s l))"
    "Creates p cb whn interval \<in> set h \<Longrightarrow> \<not> cancelled p h \<Longrightarrow> (whn, p) \<in> set (tq_timers (tw_queues s l))"
  using assms unfolding acted_def by blast+

lemma acts_append:
  "creations (h @ [Cancels p n]) = creations h" "length (creations (h @ [Creates p cb whn interval])) = Suc (length (creations h))"
  "cancelled q (h @ [Cancels p n]) \<longleftrightarrow> cancelled q h \<or> p = q" "cancelled q (h @ [Creates p cb whn interval]) \<longleftrightarrow> cancelled q h"
  by (simp_all add: creations_def cancelled_def)

lemma cancel_same:
  "timer_cancelInLoop l p n s = Inr s' \<Longrightarrow> tw_created s' = tw_created s \<and> w_loops s' = w_loops s \<and> w_tid s' = w_tid s
    \<and> tq_callingExpiredTimers (tw_queues s' l) = tq_callingExpiredTimers (tw_queues s l)
    \<and> ((p, n) \<in> set (tq_activeTimers (tw_queues s l)) \<longrightarrow> tq_cancelingTimers (tw_queues s' l) = tq_cancelingTimers (tw_queues s l))"
  by (auto simp: timer_cancelInLoop_def Let_def with_timer_def res_simps upd_queue_sel upd_timer_sel
      split: if_splits option.splits prod.splits)

lemma acted_cancel:
  assumes a: "acted l P s0 h s"
  shows "\<exists>s'. do_timer_act clock l (Cancels p n) s = Inr s' \<and> acted l P s0 (h @ [Cancels p n]) s'"
proof -
  note D = actedD [OF a]
  let ?q = "tw_queues s l"
  have call: "do_timer_act clock l (Cancels p n) s = timer_cancelInLoop l p n s"
    using D(2) by (simp add: timer_cancel_def runInLoop_def timer_closures_def)
  from cancel_pending [OF D(1,2), of p n] obtain s' where r: "timer_cancelInLoop l p n s = Inr s'" and ok: "tq_ok l s'"
    and e: "if (p, n) \<in> set (tq_activeTimers ?q) then
         set (tq_timers (tw_queues s' l)) = {e \<in> set (tq_timers ?q). snd e \<noteq> p}
         \<and> set (tq_activeTimers (tw_queues s' l)) = set (tq_activeTimers ?q) - {(p, n)}
         \<and> tw_timers s' = (tw_timers s)(p := None)
       else tq_timers (tw_queues s' l) = tq_timers ?q \<and> tw_timers s' = tw_timers s
         \<and> set (tq_cancelingTimers (tw_queues s' l)) =
             (if tq_callingExpiredTimers ?q then insert (p, n) (set (tq_cancelingTimers ?q)) else set (tq_cancelingTimers ?q))"
    by blast
  note same = cancel_same [OF r]
  have pend: "p \<notin> P" if "(p, n) \<in> set (tq_activeTimers ?q)"
    using that tq_okD(4) [OF D(1)] D(4) [of p] by force
  have tm: "tq_timers (tw_queues s' l) = tq_timers ?q \<or> set (tq_timers (tw_queues s' l)) = {e \<in> set (tq_timers ?q). snd e \<noteq> p}"
    using e by (auto split: if_splits)
  have "\<forall>q\<in>P. q \<notin> snd ` set (tq_timers (tw_queues s' l)) \<and> tw_timers s' q = tw_timers s0 q
      \<and> (\<forall>m. (q, m) \<in> set (tq_cancelingTimers (tw_queues s' l)) \<longleftrightarrow> Cancels q m \<in> set (h @ [Cancels p n]))"
    using D(3-6) pend same e by (cases "(p, n) \<in> set (tq_activeTimers ?q)") auto
  moreover have "isInLoopThread l s'" using D(2) same by (simp add: isInLoopThread_def)
  moreover have "\<forall>(t, q)\<in>set (tq_timers (tw_queues s0 l)). \<not> cancelled q (h @ [Cancels p n]) \<longrightarrow> (t, q) \<in> set (tq_timers (tw_queues s' l))"
    using D(8) tm by (auto simp: acts_append)
  moreover have "\<forall>q cb whn interval. Creates q cb whn interval \<in> set (h @ [Cancels p n]) \<longrightarrow> \<not> cancelled q (h @ [Cancels p n])
      \<longrightarrow> (whn, q) \<in> set (tq_timers (tw_queues s' l))"
    using D(9) tm by (auto simp: acts_append)
  ultimately have "acted l P s0 (h @ [Cancels p n]) s'"
    using ok D(3,7) same unfolding acted_def acts_append by simp
  then show ?thesis using call r by auto
qed

lemma filed_flags:
  "tq_callingExpiredTimers (tw_queues (filed clock l p cb whn interval s) l) = tq_callingExpiredTimers (tw_queues s l)"
  "tq_cancelingTimers (tw_queues (filed clock l p cb whn interval s) l) = tq_cancelingTimers (tw_queues s l)"
  by (simp_all add: filed_def Let_def resetTimerfd_def clock_now_def upd_queue_def inserted_def timer_new_sel)

lemma acted_create:
  assumes a: "acted l P s0 h s" and p: "tw_timers s p = None" "p < uintptr_max" and live: "\<forall>q\<in>P. tw_timers s0 q \<noteq> None"
  shows "\<exists>s'. do_timer_act clock l (Creates p cb whn interval) s = Inr s' \<and> acted l P s0 (h @ [Creates p cb whn interval]) s'"
proof -
  note D = actedD [OF a]
  let ?s = "filed clock l p cb whn interval s"
  have run: "timer_closures clock (AddTimerInloop l p) = addTimerInloop clock l p" by (simp add: timer_closures_def fun_eq_iff)
  note add = addTimer_eq [where run = "timer_closures clock", OF D(1,2) p run]
  have new: "q \<noteq> p" if "q \<in> P" for q using live that p(1) D(5) [OF that] by auto
  have "acted l P s0 (h @ [Creates p cb whn interval]) ?s"
    using add(2) D(2-9) new unfolding acted_def acts_append
    by (auto simp: filed_queue filed_flags filed_sel isInLoopThread_def)
  then show ?thesis using add(1) [of cb whn interval] by simp
qed

lemma acts_run:
  assumes "acted l P s0 h s" and "allocates clock l (as @ rest) s" and "\<forall>q\<in>P. tw_timers s0 q \<noteq> None"
  shows "\<exists>s'. fold_res (do_timer_act clock l) as s = Inr s' \<and> acted l P s0 (h @ as) s' \<and> allocates clock l rest s'"
  using assms(1,2)
proof (induction as arbitrary: s h)
  case Nil
  then show ?case by simp
next
  case (Cons a as)
  have "\<exists>s1. do_timer_act clock l a s = Inr s1 \<and> acted l P s0 (h @ [a]) s1"
  proof (cases a)
    case (Creates p cb whn interval)
    then have "tw_timers s p = None" "p < uintptr_max" using Cons.prems(2) by simp_all
    from acted_create [OF Cons.prems(1) this assms(3)] Creates show ?thesis by blast
  next
    case (Cancels p n)
    with acted_cancel [OF Cons.prems(1)] show ?thesis by blast
  qed
  then obtain s1 where s1: "do_timer_act clock l a s = Inr s1" "acted l P s0 (h @ [a]) s1" by blast
  from Cons.prems(2) s1(1) have "allocates clock l (as @ rest) s1" by simp
  from Cons.IH [OF s1(2) this] s1(1) show ?case by auto
qed

lemma callbacks_run:
  assumes "acted l P s0 h s" and "allocates clock l (callback_acts acts es s0) s" and "\<forall>q\<in>P. tw_timers s0 q \<noteq> None" and "snd ` set es \<subseteq> P"
  shows "\<exists>s'. fold_res (timer_run (\<lambda>cb. fold_res (do_timer_act clock l) (acts cb))) es s = Inr s' \<and> acted l P s0 (h @ callback_acts acts es s0) s'"
  using assms(1,2,4)
proof (induction es arbitrary: s h)
  case Nil
  then show ?case by (simp add: callback_acts_def)
next
  case (Cons e es)
  obtain t p where e: "e = (t, p)" by force
  have p: "p \<in> P" using Cons.prems(3) e by auto
  then obtain tm where tm: "tw_timers s0 p = Some tm" using assms(3) by blast
  have as: "callback_acts acts (e # es) s0 = acts (tm_callBack tm) @ callback_acts acts es s0" by (simp add: callback_acts_def e tm)
  from acts_run [OF Cons.prems(1) Cons.prems(2) [unfolded as] assms(3)] obtain s1 where
    s1: "fold_res (do_timer_act clock l) (acts (tm_callBack tm)) s = Inr s1" "acted l P s0 (h @ acts (tm_callBack tm)) s1"
      "allocates clock l (callback_acts acts es s0) s1" by blast
  have "timer_run (\<lambda>cb. fold_res (do_timer_act clock l) (acts cb)) e s = Inr s1"
    using s1(1) actedD(5) [OF Cons.prems(1) p] by (simp add: timer_run_def e with_timer_def tm)
  with Cons.IH [OF s1(2,3)] Cons.prems(3) show ?case by (auto simp: as)
qed

text \<open>The callbacks begin with a queue that holds the timers that are not due.\<close>

lemma callbacks_start_acted:
  assumes ok: "tq_ok l s" and here: "isInLoopThread l s" and s0: "s0 = callbacks_start clock l s"
  shows "acted l (snd ` set (due (clock (tw_ticks s)) l s)) s0 [] s0" "tw_timers s0 = tw_timers s" "tw_created s0 = tw_created s"
    "tq_timers (tw_queues s0 l) = not_due (clock (tw_ticks s)) l s"
proof -
  let ?now = "clock (tw_ticks s)" and ?s = "s\<lparr>tw_ticks := Suc (tw_ticks s)\<rparr>"
  have v: "due ?now l ?s = due ?now l s" "not_due ?now l ?s = not_due ?now l s" by (simp_all add: due_def not_due_def)
  show q: "tq_timers (tw_queues s0 l) = not_due ?now l s" and "tw_timers s0 = tw_timers s" "tw_created s0 = tw_created s"
    by (simp_all add: s0 callbacks_start_def expired_state_def upd_queue_sel v)
  have "tq_ok l ?s" using ok by (simp add: tq_ok_def Let_def)
  from expired_state_ok [OF this, of ?now] have "tq_ok l s0"
    by (simp add: s0 callbacks_start_def tq_ok_def Let_def upd_queue_sel)
  moreover have "p \<notin> snd ` set (not_due ?now l s)" if p: "p \<in> snd ` set (due ?now l s)" for p
  proof
    assume "p \<in> snd ` set (not_due ?now l s)"
    with p obtain t t' where t: "(t, p) \<in> set (tq_timers (tw_queues s l))" "t \<le> ?now" "(t', p) \<in> set (tq_timers (tw_queues s l))" "?now < t'"
      by (auto simp: due_def not_due_def)
    from tq_okD(5) [OF ok t(1)] tq_okD(5) [OF ok t(3)] t(2,4) show False by auto
  qed
  moreover have "isInLoopThread l s0" using here
    by (simp add: s0 callbacks_start_def expired_state_def isInLoopThread_def upd_queue_sel)
  moreover have "tq_callingExpiredTimers (tw_queues s0 l)" "tq_cancelingTimers (tw_queues s0 l) = []"
    by (simp_all add: s0 callbacks_start_def upd_queue_sel)
  ultimately show "acted l (snd ` set (due ?now l s)) s0 [] s0" unfolding acted_def q by (auto simp: creations_def)
qed

text \<open>The state when the callbacks have been called.\<close>

lemma callbacks_effect:
  assumes ok: "tq_ok l s" and here: "isInLoopThread l s" and now: "now = clock (tw_ticks s)"
    and filed: "\<forall>(t, p)\<in>set (due now l s). (p, tw_created s) \<in> set (tq_activeTimers (tw_queues s l))"
    and h: "h = callback_acts acts (due now l s) s" and alloc: "allocates clock l h (callbacks_start clock l s)"
  shows "\<exists>v. timer_handleRead clock (\<lambda>cb. fold_res (do_timer_act clock l) (acts cb)) l s
      = timer_reset clock (due now l s) now l (upd_queue l (\<lambda>q. q\<lparr>tq_callingExpiredTimers := False\<rparr>) v)
    \<and> acted l (snd ` set (due now l s)) (callbacks_start clock l s) h v"
proof -
  let ?s = "s\<lparr>tw_ticks := Suc (tw_ticks s)\<rparr>" and ?start = "callbacks_start clock l s"
  note S = callbacks_start_acted [OF ok here refl, of clock, folded now]
  have "tq_ok l ?s" using ok by (simp add: tq_ok_def Let_def)
  moreover have d: "due now l ?s = due now l s" by (simp add: due_def)
  ultimately have ex: "getExpired now l ?s = Inr (due now l s, expired_state now l ?s)"
    using getExpired_eq [of l ?s now] filed by simp
  have live: "\<forall>q\<in>snd ` set (due now l s). tw_timers ?start q \<noteq> None"
    using tq_okD(5) [OF ok] by (fastforce simp: S(2) due_def)
  have "h = callback_acts acts (due now l s) ?start" by (simp add: h callback_acts_def S(2))
  with callbacks_run [OF S(1) _ live subset_refl, of clock acts] alloc obtain v where
    v: "fold_res (timer_run (\<lambda>cb. fold_res (do_timer_act clock l) (acts cb))) (due now l s) ?start = Inr v"
      "acted l (snd ` set (due now l s)) ?start h v" by auto
  have s0: "?start = upd_queue l (\<lambda>q. q\<lparr>tq_callingExpiredTimers := True, tq_cancelingTimers := []\<rparr>) (expired_state now l ?s)"
    by (simp add: callbacks_start_def now)
  have "timer_handleRead clock (\<lambda>cb. fold_res (do_timer_act clock l) (acts cb)) l s
      = timer_reset clock (due now l s) now l (upd_queue l (\<lambda>q. q\<lparr>tq_callingExpiredTimers := False\<rparr>) v)"
    by (simp add: timer_handleRead_def assertInLoopThread_in [OF here] clock_now_def now [symmetric] ex s0 [symmetric] v(1) Let_def)
  with v(2) show ?thesis by blast
qed

text \<open>Which of the expired timers are filed again: the number \<open>reset\<close> looks for is that of the timer only
  if none was created meanwhile.\<close>

lemma again_acted:
  assumes a: "acted l P s0 h v" and p: "p \<in> P" "P = snd ` set es" "tw_timers s0 p = Some tm"
    and v': "v' = upd_queue l (\<lambda>q. q\<lparr>tq_callingExpiredTimers := False\<rparr>) v"
  shows "p \<in> snd ` again es now l v' \<longleftrightarrow>
      tm_repeat tm \<and> Cancels p (tw_created s0 + int (length (creations h))) \<notin> set h"
    and "p \<in> snd ` again es now l v' \<Longrightarrow> (addTime now (tm_interval tm), p) \<in> again es now l v'"
proof -
  note D = actedD [OF a]
  have tm: "tw_timers v' p = Some tm" using D(5) [OF p(1)] p(3) by (simp add: v' upd_queue_sel)
  have c: "tw_created v' = tw_created s0 + int (length (creations h))"
    "(p, n) \<in> set (tq_cancelingTimers (tw_queues v' l)) \<longleftrightarrow> Cancels p n \<in> set h" for n
    using D(6) [OF p(1)] D(7) by (simp_all add: v' upd_queue_sel)
  have "p \<in> snd ` set es" using p(1,2) by simp
  then have m: "(e, p) \<in> again es now l v' \<longleftrightarrow> e = addTime now (tm_interval tm) \<and> tm_repeat tm
      \<and> Cancels p (tw_created s0 + int (length (creations h))) \<notin> set h" for e
    by (auto simp: again_def tm c)
  show "p \<in> snd ` again es now l v' \<longleftrightarrow> tm_repeat tm \<and> Cancels p (tw_created s0 + int (length (creations h))) \<notin> set h"
    by (auto simp: image_iff m) (metis m snd_conv)
  then show "p \<in> snd ` again es now l v' \<Longrightarrow> (addTime now (tm_interval tm), p) \<in> again es now l v'" using m by blast
qed

lemma creates_iff: "creates h \<longleftrightarrow> 0 < length (creations h)"
  by (induction h) (auto simp: creates_def creations_def split: timer_act.split)

lemma cancelled_iff: "cancelled p h \<longleftrightarrow> (\<exists>n. Cancels p n \<in> set h)"
  by (induction h) (auto simp: cancelled_def split: timer_act.split)


section \<open>Witnesses\<close>

text \<open>A queue with a one-shot timer due at 10 and a repeating one due at 20; the number under which the
  first is filed is a parameter, the counter stands at 7.\<close>

definition sample_timers :: "int \<Rightarrow> timer_world" where
  "sample_timers n = \<lparr>chans = (\<lambda>_. channel_new 0 0), w_tid = 7,
     w_loops = (\<lambda>_. \<lparr>lp_threadId = 7, lp_looping = True, lp_quit = False, lp_callingPendingFunctors = False,
       lp_poller = poller_new, lp_activeChannels = [], lp_pollReturnTime = 0, lp_wakeupFd = 5,
       lp_wakeupChannel = 0, lp_eventfd = [], lp_pendingFunctor = []\<rparr>),
     w_loopInThread = (\<lambda>_. Some 0),
     tw_timers = [1 \<mapsto> \<lparr>tm_callBack = UserTask 1, tm_expiration = 10, tm_interval = (0, 0),
                       tm_repeat = False, tm_sequence = 5\<rparr>,
                  2 \<mapsto> \<lparr>tm_callBack = UserTask 2, tm_expiration = 20, tm_interval = (3, 0),
                       tm_repeat = True, tm_sequence = 6\<rparr>],
     tw_created = 7,
     tw_queues = (\<lambda>_. \<lparr>tq_timerfd = 4, tq_channel = 1, tq_timers = [(10, 1), (20, 2)],
       tq_callingExpiredTimers = False, tq_activeTimers = [(1, n), (2, 7)], tq_cancelingTimers = [],
       tq_settime = []\<rparr>),
     tw_ticks = 0\<rparr>"

lemma sample_timers_ok: "n \<le> 7 \<Longrightarrow> tq_ok l (sample_timers n)"
  by (simp add: tq_ok_def sample_timers_def set_ok_def uintptr_max_def)

lemma sample_timers_due: "due 15 0 (sample_timers n) = [(10, 1)]"
  by (simp add: due_def sample_timers_def)

text \<open>Filed under the present number the due timer is taken out; filed before the other was created, as
  happens whenever two timers are pending, it aborts the program.\<close>

lemma getExpired_due_witness:
  "getExpired 15 0 (sample_timers 6) = Inl AssertFailed
   \<and> getExpired 15 0 (sample_timers 7) = Inr ([(10, 1)], expired_state 15 0 (sample_timers 7))"
proof -
  have "(1, tw_created (sample_timers 6)) \<notin> set (tq_activeTimers (tw_queues (sample_timers 6) 0))"
    "(1, tw_created (sample_timers 7)) \<in> set (tq_activeTimers (tw_queues (sample_timers 7) 0))"
    by (simp_all add: sample_timers_def)
  then show ?thesis
    using getExpired_due [OF sample_timers_ok, of 6 15 0] getExpired_due [OF sample_timers_ok, of 7 15 0]
    unfolding sample_timers_due by simp
qed

lemma cancel_pending_witness:
  "\<exists>s'. timer_cancelInLoop 0 2 7 (sample_timers 7) = Inr s' \<and> tq_ok 0 s'
    \<and> set (tq_timers (tw_queues s' 0)) = {(10, 1)} \<and> tw_timers s' 2 = None"
proof -
  have "isInLoopThread 0 (sample_timers 7)" by (simp add: isInLoopThread_def sample_timers_def)
  moreover have "(2, 7) \<in> set (tq_activeTimers (tw_queues (sample_timers 7) 0))"
    "{e \<in> set (tq_timers (tw_queues (sample_timers 7) 0)). snd e \<noteq> 2} = {(10, 1)}"
    by (auto simp: sample_timers_def)
  ultimately show ?thesis
    using cancel_pending [OF sample_timers_ok, of 7 0 2 7] by auto
qed

text \<open>The repeating timer of the queue, due when the poll returns, and two callbacks for it: one only cancels it,
  the other makes a timer first.\<close>

definition sample_expired :: timer_world where
  "sample_expired = upd_queue 0 (\<lambda>q. q\<lparr>tq_timers := [(20, 2)], tq_activeTimers := [(2, 7)]\<rparr>) (sample_timers 7)"

definition cancel_only :: "closure \<Rightarrow> timer_act list" where
  "cancel_only cb = [Cancels 2 7]"

definition create_and_cancel :: "closure \<Rightarrow> timer_act list" where
  "create_and_cancel cb = [Creates 3 (UserTask 3) 90 (0, 0), Cancels 2 7]"

lemma sample_expired_ok:
  "tq_ok 0 sample_expired" "isInLoopThread 0 sample_expired" "due 25 0 sample_expired = [(20, 2)]"
  "tw_created sample_expired = 7" "tq_activeTimers (tw_queues sample_expired 0) = [(2, 7)]"
  "tw_timers sample_expired 2 = Some \<lparr>tm_callBack = UserTask 2, tm_expiration = 20, tm_interval = (3, 0),
     tm_repeat = True, tm_sequence = 6\<rparr>" "tw_timers sample_expired 3 = None"
  by (simp_all add: sample_expired_def tq_ok_def upd_queue_sel isInLoopThread_def due_def)
    (simp_all add: sample_timers_def set_ok_def uintptr_max_def)


lemma addTimer_files_witness:
  "\<exists>timerId s'. addTimer (\<lambda>_. addTimerInloop (\<lambda>_. 0) 0 3) 3 (UserTask 3) 5 (0, 0) 0 (sample_timers 7)
      = Inr (timerId, s') \<and> tq_ok 0 s' \<and> set (tq_timers (tw_queues s' 0)) = {(5, 3), (10, 1), (20, 2)}
    \<and> tq_settime (tw_queues s' 0) = [(0, 100000)]"
proof -
  have h: "isInLoopThread 0 (sample_timers 7)" by (simp add: isInLoopThread_def sample_timers_def)
  have p: "tw_timers (sample_timers 7) 3 = None" "3 < uintptr_max"
    by (simp_all add: sample_timers_def uintptr_max_def)
  have "howMuchTimeFromNow 5 0 = (0, 100000)" by code_simp
  moreover have "set (tq_timers (tw_queues (sample_timers 7) 0)) = {(10, 1), (20, 2)}"
    "tq_settime (tw_queues (sample_timers 7) 0) = []"
    by (simp_all add: sample_timers_def)
  ultimately show ?thesis
    using addTimer_files [OF sample_timers_ok h p, of "\<lambda>_. addTimerInloop (\<lambda>_. 0) 0 3" "\<lambda>_. 0" "UserTask 3" 5 "(0, 0)"]
    by auto
qed

end
