(* ===== verification/NetAddress.thy ===== *)
theory NetAddress
  imports Decimal
begin

unbundle bit_operations_syntax

text \<open>
  The addresses of src/netAddress.h and src/netAddress.cpp: a \<open>sockaddr_in\<close> with its port in network
  byte order and the four bytes of its IPv4 address. \<open>inet_pton\<close> is a parameter; \<open>inet_ntop\<close>
  writes the four bytes in decimal.
\<close>

section \<open>The model\<close>

record net_address =
  sin_family :: nat
  sin_port :: "16 word"
  sin_addr :: "nat \<times> nat \<times> nat \<times> nat"

definition AF_INET :: nat where "AF_INET = 2"

text \<open>The target is little-endian, so \<open>htons\<close> and \<open>ntohs\<close> swap the two bytes.\<close>

definition htons :: "16 word \<Rightarrow> 16 word" where
  "htons x = push_bit 8 x OR drop_bit 8 x"

definition address_zero :: net_address where
  "address_zero = \<lparr>sin_family = 0, sin_port = 0, sin_addr = (0, 0, 0, 0)\<rparr>"

definition address_of_port :: "16 word \<Rightarrow> net_address" where
  "address_of_port port =
     address_zero\<lparr>sin_family := AF_INET, sin_addr := (0, 0, 0, 0), sin_port := htons port\<rparr>"

definition address_of_ip ::
  "(string \<Rightarrow> (nat \<times> nat \<times> nat \<times> nat) option) \<Rightarrow> string \<Rightarrow> 16 word \<Rightarrow> net_address" where
  "address_of_ip inet_pton ip port =
     (let addr = address_zero\<lparr>sin_family := AF_INET\<rparr>;
          addr = (case inet_pton ip of None \<Rightarrow> addr | Some bytes \<Rightarrow> addr\<lparr>sin_addr := bytes\<rparr>)
      in addr\<lparr>sin_port := htons port\<rparr>)"

definition setSockAddr :: "net_address \<Rightarrow> net_address \<Rightarrow> net_address" where
  "setSockAddr addr a = addr"

fun inet_ntop :: "nat \<times> nat \<times> nat \<times> nat \<Rightarrow> string" where
  "inet_ntop (a, b, c, d) = dec a @ ''.'' @ dec b @ ''.'' @ dec c @ ''.'' @ dec d"

definition INET_ADDRSTRLEN :: nat where "INET_ADDRSTRLEN = 16"

text \<open>The port is converted to a \<open>short\<close>, which the variable argument list widens with its sign, and
  is printed as an unsigned \<open>int\<close>; the size given to \<open>snprintf\<close> is that of \<open>host\<close>.\<close>

definition toHostPort :: "net_address \<Rightarrow> string" where
  "toHostPort a =
     (let host = snprintf INET_ADDRSTRLEN (inet_ntop (sin_addr a));
          port = htons (sin_port a);
          promoted = scast port :: 32 word
      in snprintf INET_ADDRSTRLEN (host @ '':'' @ dec (unat promoted)))"

section \<open>The printed form\<close>

lemma htons_htons: "htons (htons x) = x"
proof (rule bit_eqI)
  fix n assume "possible_bit TYPE(16 word) n"
  then have "n < 16" by simp
  then show "bit (htons (htons x)) n = bit x n"
    by (auto simp: htons_def bit_simps not_less)
qed

lemma port_of_address: "htons (sin_port (address_of_port p)) = p" "htons (sin_port (address_of_ip f ip p)) = p"
  by (simp_all add: address_of_port_def address_of_ip_def htons_htons Let_def split: option.splits)

definition bytes_ok :: "net_address \<Rightarrow> bool" where
  "bytes_ok a \<longleftrightarrow> (case sin_addr a of (x, y, z, w) \<Rightarrow> x < 256 \<and> y < 256 \<and> z < 256 \<and> w < 256)"

lemma length_dec_byte: "x < 256 \<Longrightarrow> length (dec x) \<le> 3"
  using length_dec [of x 3] by simp

lemma length_inet_ntop: "bytes_ok a \<Longrightarrow> length (inet_ntop (sin_addr a)) \<le> 15"
proof -
  assume ok: "bytes_ok a"
  obtain x y z w where e: "sin_addr a = (x, y, z, w)" by (metis prod_cases4)
  with ok have "x < 256" "y < 256" "z < 256" "w < 256" by (simp_all add: bytes_ok_def)
  then have "length (dec x) \<le> 3" "length (dec y) \<le> 3" "length (dec z) \<le> 3" "length (dec w) \<le> 3"
    by (simp_all add: length_dec_byte)
  then show ?thesis by (simp add: e)
qed

lemma signed_short: "n < 65536 \<Longrightarrow> signed_take_bit 15 (int n) = (if n < 32768 then int n else int n - 65536)"
proof -
  assume lt: "n < 65536"
  show ?thesis
  proof (cases "n < 32768")
    case True
    then show ?thesis by (simp add: signed_take_bit_int_eq_self)
  next
    case False
    have "take_bit 16 (int n) = take_bit 16 (int n - 65536)"
      by (simp add: take_bit_eq_mod)
    then have "signed_take_bit 15 (int n) = signed_take_bit 15 (int n - 65536)"
      by (simp add: signed_take_bit_eq_iff_take_bit_eq)
    also have "\<dots> = int n - 65536"
      using False lt by (intro signed_take_bit_int_eq_self) simp_all
    finally show ?thesis using False by simp
  qed
qed

lemma promoted_port:
  "unat (scast (p :: 16 word) :: 32 word) = (if unat p < 32768 then unat p else unat p + 4294901760)"
proof -
  have lt: "unat p < 65536" using unsigned_less [of p] by simp
  have "sint p = signed_take_bit 15 (int (unat p))" unfolding sint_uint uint_nat by simp
  then have s: "sint p = (if unat p < 32768 then int (unat p) else int (unat p) - 65536)"
    using signed_short [OF lt] by simp
  have v: "unat (word_of_int (int n) :: 32 word) = n" if "n < 4294967296" for n
    using that by (simp add: unat_of_nat)
  have w: "word_of_int (int n - 65536) = (word_of_int (int (n + 4294901760)) :: 32 word)" for n
    by (simp add: word_of_int_eq_iff take_bit_eq_mod)
  show ?thesis
  proof (cases "unat p < 32768")
    case True
    have "unat (scast p :: 32 word) = unat (word_of_int (int (unat p)) :: 32 word)"
      unfolding scast_eq s using True by (simp only: if_True)
    also have "\<dots> = unat p" using lt by (intro v) linarith
    finally show ?thesis using True by (simp only: if_True)
  next
    case False
    have "unat (scast p :: 32 word) = unat (word_of_int (int (unat p) - 65536) :: 32 word)"
      unfolding scast_eq s using False by (simp only: if_False)
    also have "\<dots> = unat p + 4294901760" unfolding w using lt by (intro v) linarith
    finally show ?thesis using False by (simp only: if_False)
  qed
qed

text \<open>C39. \<open>toHostPort\<close> prints the address and the port as \<open>ip:port\<close> only when the port is below 32768 and
  the text has at most 15 characters; a larger port is printed with 4294901760 added, and a
  longer text is cut to its first 15 characters, which loses digits of the port.\<close>

theorem toHostPort_text:
  assumes ok: "bytes_ok a"
  defines "port \<equiv> unat (htons (sin_port a))"
  shows "toHostPort a =
    take 15 (inet_ntop (sin_addr a) @ '':'' @ dec (if port < 32768 then port else port + 4294901760))"
  using length_inet_ntop [OF ok]
  by (simp add: toHostPort_def Let_def snprintf_def INET_ADDRSTRLEN_def promoted_port port_def)

text \<open>Two addresses whose ports differ in the last digits print alike, and a high port is not its
  number.\<close>

lemma toHostPort_text_witness:
  "toHostPort ((address_of_port 8080)\<lparr>sin_addr := (192, 168, 100, 200)\<rparr>)
     = toHostPort ((address_of_port 8090)\<lparr>sin_addr := (192, 168, 100, 200)\<rparr>)
   \<and> toHostPort (address_of_port 8080) = ''0.0.0.0:8080''"
proof -
  let ?a = "\<lambda>p. (address_of_port p)\<lparr>sin_addr := (192, 168, 100, 200)\<rparr>"
  have ok: "bytes_ok (?a p)" "bytes_ok (address_of_port p)" for p
    by (simp_all add: bytes_ok_def address_of_port_def)
  have port: "unat (htons (sin_port (?a 8080))) = 8080" "unat (htons (sin_port (?a 8090))) = 8090"
    "unat (htons (sin_port (address_of_port 8080))) = 8080"
    by (simp_all add: port_of_address)
  have "toHostPort (?a 8080) = take 15 (inet_ntop (192, 168, 100, 200) @ '':'' @ dec 8080)"
    using toHostPort_text [OF ok(1), of 8080] unfolding port by simp
  also have "\<dots> = take 15 (inet_ntop (192, 168, 100, 200) @ '':'' @ dec 8090)"
    by (simp add: dec.simps)
  also have "\<dots> = toHostPort (?a 8090)"
    using toHostPort_text [OF ok(1), of 8090] unfolding port by simp
  finally have "toHostPort (?a 8080) = toHostPort (?a 8090)" .
  moreover have "toHostPort (address_of_port 8080) = ''0.0.0.0:8080''"
    using toHostPort_text [OF ok(2), of 8080] unfolding port by (simp add: dec.simps address_of_port_def)
  ultimately show ?thesis by blast
qed

end
