(* ===== verification/Sockets.thy ===== *)
theory Sockets
  imports TimerQueue NetAddress
begin

text \<open>
  The sockets of src/socket.h and src/socket.cpp and the system calls the program makes on them.
  The kernel is a parameter: a function from the calls made so far, with their answers, and the
  present call to its answer. The state keeps the calls made, so that theorems can speak of the
  bytes handed to the kernel and of what was closed or shut down.
\<close>

section \<open>System calls\<close>

datatype sysc =
    SysSocket
  | SysBind int net_address
  | SysListen int
  | SysAccept int
  | SysConnect int net_address
  | SysClose int
  | SysShutdownWr int
  | SysReuseAddr int bool
  | SysTcpNoDelay int bool
  | SysSockError int
  | SysGetsockname int
  | SysGetpeername int
  | SysWrite int string
  | SysReadv int nat
  | SysOpen string
  | SysRename string string
  | SysDup2 int int

text \<open>What a call may yield: its value, \<open>errno\<close>, and what it wrote through its pointers.\<close>

record answer =
  an_ret :: int
  an_errno :: int
  an_val :: int
  an_addr :: net_address
  an_data :: string

type_synonym trace = "(sysc \<times> answer) list"

type_synonym kernel = "trace \<Rightarrow> sysc \<Rightarrow> answer"

record sock_world = timer_world +
  sk_trace :: trace

definition syscall :: "kernel \<Rightarrow> sysc \<Rightarrow> 'z sock_world_scheme \<Rightarrow> answer \<times> 'z sock_world_scheme" where
  "syscall K call s = (let a = K (sk_trace s) call in (a, s\<lparr>sk_trace := sk_trace s @ [(call, a)]\<rparr>))"

definition EPERM :: int where "EPERM = 1"
definition EINTR :: int where "EINTR = 4"
definition EBADF :: int where "EBADF = 9"
definition EAGAIN :: int where "EAGAIN = 11"
definition EACCES :: int where "EACCES = 13"
definition EFAULT :: int where "EFAULT = 14"
definition EMFILE :: int where "EMFILE = 24"
definition EPROTO :: int where "EPROTO = 71"
definition ENOTSOCK :: int where "ENOTSOCK = 88"
definition EAFNOSUPPORT :: int where "EAFNOSUPPORT = 97"
definition EADDRINUSE :: int where "EADDRINUSE = 98"
definition EADDRNOTAVAIL :: int where "EADDRNOTAVAIL = 99"
definition ENETUNREACH :: int where "ENETUNREACH = 101"
definition EISCONN :: int where "EISCONN = 106"
definition ECONNREFUSED :: int where "ECONNREFUSED = 111"
definition EALREADY :: int where "EALREADY = 114"
definition EINPROGRESS :: int where "EINPROGRESS = 115"

named_theorems errno_values "the error numbers of the target"

lemmas [errno_values] = EPERM_def EINTR_def EBADF_def EAGAIN_def EACCES_def EFAULT_def EMFILE_def
  EPROTO_def ENOTSOCK_def EAFNOSUPPORT_def EADDRINUSE_def EADDRNOTAVAIL_def ENETUNREACH_def
  EISCONN_def ECONNREFUSED_def EALREADY_def EINPROGRESS_def

section \<open>The socket\<close>

definition sys_close :: "kernel \<Rightarrow> int \<Rightarrow> 'z sock_world_scheme \<Rightarrow> 'z sock_world_scheme" where
  "sys_close K fd s = snd (syscall K (SysClose fd) s)"

definition socket_destroy :: "kernel \<Rightarrow> int \<Rightarrow> 'z sock_world_scheme \<Rightarrow> 'z sock_world_scheme" where
  "socket_destroy K fd s = sys_close K fd s"

definition socket_bindAddress :: "kernel \<Rightarrow> int \<Rightarrow> net_address \<Rightarrow> 'z sock_world_scheme \<Rightarrow> 'z sock_world_scheme res" where
  "socket_bindAddress K fd localAddr s =
     (case syscall K (SysBind fd localAddr) s of (a, s) \<Rightarrow> fatal_unless (\<not> an_ret a < 0) (Inr s))"

definition socket_listen :: "kernel \<Rightarrow> int \<Rightarrow> 'z sock_world_scheme \<Rightarrow> 'z sock_world_scheme res" where
  "socket_listen K fd s =
     (case syscall K (SysListen fd) s of (a, s) \<Rightarrow> fatal_unless (\<not> an_ret a < 0) (Inr s))"

text \<open>\<open>accept\<close> returns the descriptor and what \<open>peerAddr\<close> holds afterwards; the errors that are not
  transient end the program.\<close>

definition socket_accept ::
  "kernel \<Rightarrow> int \<Rightarrow> net_address \<Rightarrow> 'z sock_world_scheme \<Rightarrow> (int \<times> net_address \<times> 'z sock_world_scheme) res" where
  "socket_accept K fd peerAddr s =
     (case syscall K (SysAccept fd) s of (a, s) \<Rightarrow>
      let connfd = an_ret a; saveErrno = an_errno a in
      if connfd < 0 then
        if saveErrno \<in> {EAGAIN, EINTR, EPROTO, EPERM, EMFILE} then Inr (connfd, peerAddr, s)
        else Inl ExitFailure
      else Inr (connfd, setSockAddr (an_addr a) peerAddr, s))"

definition socket_setReuseAddr :: "kernel \<Rightarrow> int \<Rightarrow> bool \<Rightarrow> 'z sock_world_scheme \<Rightarrow> 'z sock_world_scheme" where
  "socket_setReuseAddr K fd flag s = snd (syscall K (SysReuseAddr fd flag) s)"

definition socket_shutdownWrite :: "kernel \<Rightarrow> int \<Rightarrow> 'z sock_world_scheme \<Rightarrow> 'z sock_world_scheme" where
  "socket_shutdownWrite K fd s = snd (syscall K (SysShutdownWr fd) s)"

definition socket_setTcpNoDelay :: "kernel \<Rightarrow> int \<Rightarrow> bool \<Rightarrow> 'z sock_world_scheme \<Rightarrow> 'z sock_world_scheme" where
  "socket_setTcpNoDelay K fd flag s = snd (syscall K (SysTcpNoDelay fd flag) s)"

definition getLocalAddr :: "kernel \<Rightarrow> int \<Rightarrow> 'z sock_world_scheme \<Rightarrow> net_address \<times> 'z sock_world_scheme" where
  "getLocalAddr K sockfd s =
     (case syscall K (SysGetsockname sockfd) s of (a, s) \<Rightarrow>
      (if an_ret a < 0 then address_zero else an_addr a, s))"

definition getPeerAddr :: "kernel \<Rightarrow> int \<Rightarrow> 'z sock_world_scheme \<Rightarrow> net_address \<times> 'z sock_world_scheme" where
  "getPeerAddr K sockfd s =
     (case syscall K (SysGetpeername sockfd) s of (a, s) \<Rightarrow>
      (if an_ret a < 0 then address_zero else an_addr a, s))"

definition createNoBlockSock :: "kernel \<Rightarrow> 'z sock_world_scheme \<Rightarrow> (int \<times> 'z sock_world_scheme) res" where
  "createNoBlockSock K s =
     (case syscall K SysSocket s of (a, s) \<Rightarrow> fatal_unless (\<not> an_ret a < 0) (Inr (an_ret a, s)))"

definition getSocketError :: "kernel \<Rightarrow> int \<Rightarrow> 'z sock_world_scheme \<Rightarrow> int \<times> 'z sock_world_scheme" where
  "getSocketError K sockfd s =
     (case syscall K (SysSockError sockfd) s of (a, s) \<Rightarrow>
      (if an_ret a \<noteq> 0 then an_errno a else an_val a, s))"

definition isSelfConnect :: "kernel \<Rightarrow> int \<Rightarrow> 'z sock_world_scheme \<Rightarrow> bool \<times> 'z sock_world_scheme" where
  "isSelfConnect K sockfd s =
     (case getLocalAddr K sockfd s of (localaddr, s) \<Rightarrow>
      case getPeerAddr K sockfd s of (peeraddr, s) \<Rightarrow>
      (sin_addr localaddr = sin_addr peeraddr \<and> sin_port localaddr = sin_port peeraddr, s))"

section \<open>Reading the calls back\<close>

lemma syscall_sel [loop_simps]:
  "sk_trace (snd (syscall K call s)) = sk_trace s @ [(call, fst (syscall K call s))]"
  "fst (syscall K call s) = K (sk_trace s) call"
  "chans (snd (syscall K call s)) = chans s" "w_loops (snd (syscall K call s)) = w_loops s"
  "w_tid (snd (syscall K call s)) = w_tid s"
  "tw_timers (snd (syscall K call s)) = tw_timers s" "tw_queues (snd (syscall K call s)) = tw_queues s"
  "tw_created (snd (syscall K call s)) = tw_created s" "tw_ticks (snd (syscall K call s)) = tw_ticks s"
  by (simp_all add: syscall_def Let_def)

lemma sk_trace_sel [loop_simps]:
  "sk_trace (upd_loop l f s) = sk_trace s" "sk_trace (upd_chan c g s) = sk_trace s"
  "sk_trace (upd_queue l h s) = sk_trace s" "sk_trace (upd_timer p t s) = sk_trace s"
  by (simp_all add: upd_loop_def upd_chan_def upd_queue_def upd_timer_def)

text \<open>The bytes the kernel accepted on a descriptor, and the shutdowns of its write side.\<close>

fun written_by :: "int \<Rightarrow> sysc \<times> answer \<Rightarrow> string" where
  "written_by fd (SysWrite fd' bytes, a) = (if fd' = fd then take (nat (an_ret a)) bytes else [])"
| "written_by fd _ = []"

definition written :: "int \<Rightarrow> trace \<Rightarrow> string" where
  "written fd tr = concat (map (written_by fd) tr)"

definition shutdowns :: "int \<Rightarrow> trace \<Rightarrow> nat" where
  "shutdowns fd tr = length (filter (\<lambda>e. fst e = SysShutdownWr fd) tr)"

lemma written_snoc: "written fd (tr @ [e]) = written fd tr @ written_by fd e"
  by (simp add: written_def)

lemma shutdowns_snoc: "shutdowns fd (tr @ [e]) = shutdowns fd tr + (if fst e = SysShutdownWr fd then 1 else 0)"
  by (simp add: shutdowns_def)

text \<open>What write(2) documents of its answer: at most as many bytes as were offered.\<close>

definition write_documented :: "kernel \<Rightarrow> bool" where
  "write_documented K \<longleftrightarrow> (\<forall>tr fd bytes. an_ret (K tr (SysWrite fd bytes)) \<le> int (length bytes))"

end
