(* ===== verification/Connector.thy ===== *)
theory Connector
  imports Sockets
begin

text \<open>
  The connector of src/connector.h and src/connector.cpp: it opens a connection to a server without
  blocking, and tries again after a growing delay. Connectors live in a heap by address. The clock,
  the kernel, and the addresses of a new channel and of a new timer are arguments.
\<close>

section \<open>The model\<close>

datatype connector_status = kDisconnect | kConnecting | kConnected

definition kMaxRetryDelay :: int where "kMaxRetryDelay = 30 * 1000"

definition kInitRetryDelay :: int where "kInitRetryDelay = 500"

record connector =
  ct_loop :: nat
  ct_serverAddr :: net_address
  ct_connect :: bool
  ct_state :: connector_status
  ct_channel :: "nat option"
  ct_connectCallback :: "nat option"
  ct_retryDelayMs :: int
  ct_timerId :: "nat \<times> int"

record connector_world = sock_world +
  kw_connectors :: "nat \<Rightarrow> connector"

text \<open>What the operations of a connector are given: the kernel, the clock, the interpreter of closures,
  the callback, and where the next channel and the next timer are allocated.\<close>

record 's connector_env =
  ke_kernel :: kernel
  ke_clock :: clock
  ke_run :: "closure \<Rightarrow> 's \<Rightarrow> 's res"
  ke_connected :: "nat \<Rightarrow> int \<Rightarrow> 's \<Rightarrow> 's res"
  ke_channel :: nat
  ke_timer :: nat

definition upd_connector :: "nat \<Rightarrow> (connector \<Rightarrow> connector) \<Rightarrow> 'z connector_world_scheme \<Rightarrow> 'z connector_world_scheme" where
  "upd_connector k f s = s\<lparr>kw_connectors := (kw_connectors s)(k := f (kw_connectors s k))\<rparr>"

definition connector_new :: "nat \<Rightarrow> net_address \<Rightarrow> nat \<Rightarrow> 'z connector_world_scheme \<Rightarrow> 'z connector_world_scheme" where
  "connector_new loop serverAddr k =
     upd_connector k (\<lambda>_. \<lparr>ct_loop = loop, ct_serverAddr = serverAddr, ct_connect = False, ct_state = kDisconnect,
       ct_channel = None, ct_connectCallback = None, ct_retryDelayMs = kInitRetryDelay, ct_timerId = (0, 0)\<rparr>)"

definition connector_destroy ::
  "(closure \<Rightarrow> 'z connector_world_scheme \<Rightarrow> 'z connector_world_scheme res) \<Rightarrow> nat
    \<Rightarrow> 'z connector_world_scheme \<Rightarrow> 'z connector_world_scheme res" where
  "connector_destroy run k s = timer_cancel run (ct_timerId (kw_connectors s k)) (ct_loop (kw_connectors s k)) s"

definition setNewConnectionCallBack :: "nat option \<Rightarrow> connector \<Rightarrow> connector" where
  "setNewConnectionCallBack cb ct = ct\<lparr>ct_connectCallback := cb\<rparr>"

definition setStatus :: "connector_status \<Rightarrow> connector \<Rightarrow> connector" where
  "setStatus e ct = ct\<lparr>ct_state := e\<rparr>"

definition connector_stop :: "connector \<Rightarrow> connector" where
  "connector_stop ct = ct\<lparr>ct_connect := False\<rparr>"

definition removeAndResetChannel ::
  "nat \<Rightarrow> 'z connector_world_scheme \<Rightarrow> (int \<times> 'z connector_world_scheme) res" where
  "removeAndResetChannel k s =
     (case ct_channel (kw_connectors s k) of
        None \<Rightarrow> Inl BadPointer
      | Some ch \<Rightarrow>
          bnd (disableAll ch s) (\<lambda>s.
          let sockfd = ch_fd (chans s ch); loop = ct_loop (kw_connectors s k) in
          bnd (loop_removeChannel loop ch s) (\<lambda>s.
          Inr (sockfd, queueInloop loop (ConnectorResetChannel k) s))))"

definition resetChannel :: "nat \<Rightarrow> 'z connector_world_scheme \<Rightarrow> 'z connector_world_scheme" where
  "resetChannel k = upd_connector k (\<lambda>ct. ct\<lparr>ct_channel := None\<rparr>)"

definition retry ::
  "('z connector_world_scheme) connector_env \<Rightarrow> nat \<Rightarrow> int \<Rightarrow> 'z connector_world_scheme \<Rightarrow> 'z connector_world_scheme res" where
  "retry E k sockfd s =
     (let s = sys_close (ke_kernel E) sockfd s;
          s = upd_connector k (setStatus kDisconnect) s;
          ct = kw_connectors s k in
      if ct_connect ct then
        bnd (runAfter (ke_clock E) (ke_run E) (ke_timer E) (double_div_int (ct_retryDelayMs ct, 0) 1000)
               (ConnectorStartInloop k) (ct_loop ct) s) (\<lambda>(timerId, s).
        let s = upd_connector k (\<lambda>ct. ct\<lparr>ct_timerId := timerId\<rparr>) s in
        Inr (upd_connector k (\<lambda>ct. ct\<lparr>ct_retryDelayMs := min (ct_retryDelayMs ct * 2) kMaxRetryDelay\<rparr>) s))
      else Inr s)"

definition connecting ::
  "('z connector_world_scheme) connector_env \<Rightarrow> nat \<Rightarrow> int \<Rightarrow> 'z connector_world_scheme \<Rightarrow> 'z connector_world_scheme res" where
  "connecting E k sockfd s =
     (let s = upd_connector k (setStatus kConnecting) s in
      must (ct_channel (kw_connectors s k) = None)
      (let ch = ke_channel E;
           s = upd_chan ch (\<lambda>_. channel_new (ct_loop (kw_connectors s k)) sockfd) s;
           s = upd_connector k (\<lambda>ct. ct\<lparr>ct_channel := Some ch\<rparr>) s;
           s = upd_chan ch (setWriteCallBack (ConnectorHandleWrite k)) s;
           s = upd_chan ch (setErrorCallBack (ConnectorHandleError k)) s
       in enableWriting ch s))"

definition connect ::
  "('z connector_world_scheme) connector_env \<Rightarrow> nat \<Rightarrow> 'z connector_world_scheme \<Rightarrow> 'z connector_world_scheme res" where
  "connect E k s =
     bnd (createNoBlockSock (ke_kernel E) s) (\<lambda>(fd, s).
     case syscall (ke_kernel E) (SysConnect fd (ct_serverAddr (kw_connectors s k))) s of (a, s) \<Rightarrow>
     let saveError = (if an_ret a = 0 then 0 else an_errno a) in
     if saveError \<in> {0, EINPROGRESS, EINTR, EISCONN} then connecting E k fd s
     else if saveError \<in> {EAGAIN, EADDRINUSE, EADDRNOTAVAIL, ECONNREFUSED, ENETUNREACH} then retry E k fd s
     else if saveError \<in> {EACCES, EPERM, EAFNOSUPPORT, EALREADY, EBADF, EFAULT, ENOTSOCK}
     then Inr (sys_close (ke_kernel E) fd s)
     else Inr (sys_close (ke_kernel E) fd s))"

definition startInloop ::
  "('z connector_world_scheme) connector_env \<Rightarrow> nat \<Rightarrow> 'z connector_world_scheme \<Rightarrow> 'z connector_world_scheme res" where
  "startInloop E k s =
     bnd (assertInLoopThread (ct_loop (kw_connectors s k)) s) (\<lambda>_.
     must (ct_state (kw_connectors s k) = kDisconnect)
     (if ct_connect (kw_connectors s k) then connect E k s else Inr s))"

definition connector_start ::
  "('z connector_world_scheme) connector_env \<Rightarrow> nat \<Rightarrow> 'z connector_world_scheme \<Rightarrow> 'z connector_world_scheme res" where
  "connector_start E k s =
     (let s = upd_connector k (\<lambda>ct. ct\<lparr>ct_connect := True\<rparr>) s in
      runInLoop (ke_run E) (ct_loop (kw_connectors s k)) (ConnectorStartInloop k) s)"

definition connector_restart ::
  "('z connector_world_scheme) connector_env \<Rightarrow> nat \<Rightarrow> 'z connector_world_scheme \<Rightarrow> 'z connector_world_scheme res" where
  "connector_restart E k s =
     bnd (assertInLoopThread (ct_loop (kw_connectors s k)) s) (\<lambda>_.
     startInloop E k (upd_connector k (\<lambda>ct. (setStatus kDisconnect ct)
       \<lparr>ct_retryDelayMs := kInitRetryDelay, ct_connect := True\<rparr>) s))"

definition connector_handleWrite ::
  "('z connector_world_scheme) connector_env \<Rightarrow> nat \<Rightarrow> 'z connector_world_scheme \<Rightarrow> 'z connector_world_scheme res" where
  "connector_handleWrite E k s =
     (if ct_state (kw_connectors s k) = kConnecting then
        bnd (removeAndResetChannel k s) (\<lambda>(sockfd, s).
        case getSocketError (ke_kernel E) sockfd s of (err, s) \<Rightarrow>
        if err \<noteq> 0 then retry E k sockfd s
        else
          (case isSelfConnect (ke_kernel E) sockfd s of (self, s) \<Rightarrow>
           if self then retry E k sockfd s
           else
             (let s = upd_connector k (setStatus kConnected) s; ct = kw_connectors s k in
              if ct_connect ct then
                (case ct_connectCallback ct of
                   None \<Rightarrow> Inl BadFunctionCall
                 | Some n \<Rightarrow> ke_connected E n sockfd s)
              else Inr (sys_close (ke_kernel E) sockfd s))))
      else Inr s)"

definition connector_handleError ::
  "('z connector_world_scheme) connector_env \<Rightarrow> nat \<Rightarrow> 'z connector_world_scheme \<Rightarrow> 'z connector_world_scheme res" where
  "connector_handleError E k s =
     bnd (removeAndResetChannel k s) (\<lambda>(sockfd, s).
     case getSocketError (ke_kernel E) sockfd s of (err, s) \<Rightarrow> retry E k sockfd s)"

section \<open>Reading the state after an operation\<close>

lemma upd_connector_sel [loop_simps]:
  "kw_connectors (upd_connector k f s) = (kw_connectors s)(k := f (kw_connectors s k))"
  "chans (upd_connector k f s) = chans s" "w_loops (upd_connector k f s) = w_loops s" "w_tid (upd_connector k f s) = w_tid s"
  "sk_trace (upd_connector k f s) = sk_trace s" "tw_timers (upd_connector k f s) = tw_timers s"
  "tw_queues (upd_connector k f s) = tw_queues s" "tw_ticks (upd_connector k f s) = tw_ticks s"
  "tw_created (upd_connector k f s) = tw_created s" "isInLoopThread l (upd_connector k f s) = isInLoopThread l s"
  "tq_ok l (upd_connector k f s) = tq_ok l s"
  by (simp_all add: upd_connector_def isInLoopThread_def tq_ok_def)

lemma kw_connectors_sel [loop_simps]:
  "kw_connectors (upd_loop l g s) = kw_connectors s" "kw_connectors (upd_chan ch h s) = kw_connectors s"
  "kw_connectors (snd (syscall K call s)) = kw_connectors s" "kw_connectors (set_poller l pl cs s) = kw_connectors s"
  "kw_connectors (queueInloop l cb s) = kw_connectors s" "kw_connectors (filed clock l p cb whn interval s) = kw_connectors s"
  "kw_connectors (s\<lparr>tw_ticks := n\<rparr>) = kw_connectors s"
  by (simp_all add: upd_loop_def upd_chan_def syscall_def Let_def set_poller_def loop_defs filed_def resetTimerfd_def
      clock_now_def upd_queue_def inserted_def timer_new_def upd_timer_def)

lemma sk_trace_filed [loop_simps]:
  "sk_trace (filed clock l p cb whn interval s) = sk_trace s" "sk_trace (set_poller l pl cs s) = sk_trace s"
  "sk_trace (queueInloop l cb s) = sk_trace s"
  by (simp_all add: filed_def Let_def resetTimerfd_def clock_now_def upd_queue_def inserted_def timer_new_def upd_timer_def
      set_poller_def loop_defs upd_loop_def)

lemma tq_ok_syscall [loop_simps]: "tq_ok l (snd (syscall K call s)) = tq_ok l s"
  by (simp add: tq_ok_def syscall_def Let_def)

lemma tq_ok_ticks [loop_simps]: "tq_ok l (s\<lparr>tw_ticks := n\<rparr>) = tq_ok l s" "isInLoopThread l (s\<lparr>tw_ticks := n\<rparr>) = isInLoopThread l s"
  by (simp_all add: tq_ok_def isInLoopThread_def)

lemma isInLoopThread_syscall [loop_simps]: "isInLoopThread l (snd (syscall K call s)) = isInLoopThread l s"
  by (simp add: isInLoopThread_def syscall_def Let_def)

section \<open>Backing off\<close>

text \<open>The delays there are, in milliseconds; as doubles they are exact, and the timer is set for exactly so
  many microseconds later.\<close>

definition backoff :: "nat \<Rightarrow> int" where
  "backoff n = min (500 * 2 ^ n) 30000"

lemma backoff_Suc: "min (backoff n * 2) kMaxRetryDelay = backoff (Suc n)"
  by (simp add: backoff_def kMaxRetryDelay_def min_def)

lemma backoff_values: "backoff n \<in> {500, 1000, 2000, 4000, 8000, 16000, 30000}"
proof (cases "n < 6")
  case True
  then have "n = 0 \<or> n = 1 \<or> n = 2 \<or> n = 3 \<or> n = 4 \<or> n = 5" by arith
  then show ?thesis by (elim disjE) (simp_all add: backoff_def)
next
  case False
  then have "(2 :: int) ^ 6 \<le> 2 ^ n" by (intro power_increasing) auto
  then show ?thesis by (simp add: backoff_def min_def)
qed

lemma backoff_microseconds: "addTime now (double_div_int (backoff n, 0) 1000) = now + 1000 * backoff n"
proof -
  have "double_to_int (double_mul_int (double_div_int (d, 0) 1000) kMicroSecondsPerSecond) = 1000 * d"
    if "d \<in> {500, 1000, 2000, 4000, 8000, 16000, 30000}" for d
    using that by (elim insertE emptyE; hypsubst; code_simp)
  from this [OF backoff_values] show ?thesis by (simp add: addTime_def)
qed

text \<open>What an attempt needs of its environment: it runs in the thread of its loop, whose timers are well
  formed and get the new timer at a free address.\<close>

definition connector_ok :: "('z connector_world_scheme) connector_env \<Rightarrow> nat \<Rightarrow> 'z connector_world_scheme \<Rightarrow> bool" where
  "connector_ok E k s \<longleftrightarrow> (let l = ct_loop (kw_connectors s k) in
     isInLoopThread l s \<and> tq_ok l s \<and> tw_timers s (ke_timer E) = None \<and> ke_timer E < uintptr_max
   \<and> ke_run E (AddTimerInloop l (ke_timer E)) = addTimerInloop (ke_clock E) l (ke_timer E))"

lemma retry_eq:
  fixes fd :: int
  assumes ok: "connector_ok E k s"
  defines "ct \<equiv> kw_connectors s k"
  defines "t \<equiv> upd_connector k (setStatus kDisconnect) (sys_close (ke_kernel E) fd s)"
  defines "whn \<equiv> addTime (ke_clock E (tw_ticks s)) (double_div_int (ct_retryDelayMs ct, 0) 1000)"
  shows "retry E k fd s = Inr (if ct_connect ct then
      upd_connector k (\<lambda>ct. ct\<lparr>ct_retryDelayMs := min (ct_retryDelayMs ct * 2) kMaxRetryDelay\<rparr>)
        (upd_connector k (\<lambda>ct. ct\<lparr>ct_timerId := (ke_timer E, tw_created s + 1)\<rparr>)
          (filed (ke_clock E) (ct_loop ct) (ke_timer E) (ConnectorStartInloop k) whn (0, 0) (t\<lparr>tw_ticks := Suc (tw_ticks s)\<rparr>)))
    else t)"
    and "ct_connect ct \<Longrightarrow> tq_ok (ct_loop ct)
      (filed (ke_clock E) (ct_loop ct) (ke_timer E) (ConnectorStartInloop k) whn (0, 0) (t\<lparr>tw_ticks := Suc (tw_ticks s)\<rparr>))"
proof -
  have kc: "kw_connectors t k = setStatus kDisconnect ct" "tw_ticks t = tw_ticks s" "tw_created t = tw_created s"
    "tw_timers t = tw_timers s" by (simp_all add: t_def sys_close_def loop_simps ct_def)
  let ?u = "t\<lparr>tw_ticks := Suc (tw_ticks s)\<rparr>"
  have "tq_ok (ct_loop ct) ?u" "isInLoopThread (ct_loop ct) ?u" "tw_timers ?u (ke_timer E) = None" "ke_timer E < uintptr_max"
    "ke_run E (AddTimerInloop (ct_loop ct) (ke_timer E)) = addTimerInloop (ke_clock E) (ct_loop ct) (ke_timer E)"
    using ok by (simp_all add: connector_ok_def Let_def ct_def t_def sys_close_def loop_simps)
  note add = addTimer_eq [where run = "ke_run E", OF this, of "ConnectorStartInloop k" whn "(0, 0)"]
  show "ct_connect ct \<Longrightarrow> tq_ok (ct_loop ct)
      (filed (ke_clock E) (ct_loop ct) (ke_timer E) (ConnectorStartInloop k) whn (0, 0) ?u)" using add(2) .
  have "retry E k fd s = (if ct_connect ct then
      bnd (addTimer (ke_run E) (ke_timer E) (ConnectorStartInloop k) whn (0, 0) (ct_loop ct) ?u) (\<lambda>(timerId, s).
        Inr (upd_connector k (\<lambda>ct. ct\<lparr>ct_retryDelayMs := min (ct_retryDelayMs ct * 2) kMaxRetryDelay\<rparr>)
          (upd_connector k (\<lambda>ct. ct\<lparr>ct_timerId := timerId\<rparr>) s)))
      else Inr t)"
    unfolding retry_def Let_def t_def [symmetric] runAfter_def runAt_def clock_now_def kc
    by (simp add: setStatus_def whn_def)
  then show "retry E k fd s = Inr (if ct_connect ct then
      upd_connector k (\<lambda>ct. ct\<lparr>ct_retryDelayMs := min (ct_retryDelayMs ct * 2) kMaxRetryDelay\<rparr>)
        (upd_connector k (\<lambda>ct. ct\<lparr>ct_timerId := (ke_timer E, tw_created s + 1)\<rparr>)
          (filed (ke_clock E) (ct_loop ct) (ke_timer E) (ConnectorStartInloop k) whn (0, 0) ?u))
    else t)" using add(1) by (simp add: kc(3))
qed

text \<open>C20. A failed attempt closes its descriptor and, while the connector is wanted, files one timer that
  starts the next attempt: after the n-th failure in a row exactly 500 * 2^n milliseconds later, at
  most 30 seconds, whatever the rounding of the division to seconds.\<close>

theorem retry_backs_off:
  assumes "connector_ok E k s" and "ct_connect (kw_connectors s k)"
    and "ct_retryDelayMs (kw_connectors s k) = backoff n"
  shows "\<exists>s' tm. retry E k fd s = Inr s'
    \<and> kw_connectors s' k = (kw_connectors s k)\<lparr>ct_state := kDisconnect, ct_timerId := (ke_timer E, tw_created s + 1),
        ct_retryDelayMs := backoff (Suc n)\<rparr>
    \<and> tq_ok (ct_loop (kw_connectors s k)) s'
    \<and> set (tq_timers (tw_queues s' (ct_loop (kw_connectors s k))))
        = insert (ke_clock E (tw_ticks s) + 1000 * backoff n, ke_timer E) (set (tq_timers (tw_queues s (ct_loop (kw_connectors s k)))))
    \<and> tw_timers s' (ke_timer E) = Some tm \<and> tm_callBack tm = ConnectorStartInloop k \<and> \<not> tm_repeat tm
    \<and> sk_trace s' = sk_trace s @ [(SysClose fd, ke_kernel E (sk_trace s) (SysClose fd))]"
  using retry_eq [OF assms(1), of fd] assms(2)
  by (auto simp: assms(3) backoff_microseconds backoff_Suc loop_simps filed_queue sys_close_def setStatus_def
      double_positive_def intro!: exI)

section \<open>An attempt\<close>

text \<open>The errors of \<open>connect\<close> after which the attempt goes on, and those after which it is repeated.\<close>

definition in_progress :: "int \<Rightarrow> bool" where
  "in_progress e \<longleftrightarrow> e \<in> {0, EINPROGRESS, EINTR, EISCONN}"

definition worth_retrying :: "int \<Rightarrow> bool" where
  "worth_retrying e \<longleftrightarrow> e \<in> {EAGAIN, EADDRINUSE, EADDRNOTAVAIL, ECONNREFUSED, ENETUNREACH}"

text \<open>A new channel for a descriptor can be registered with the loop of the connector.\<close>

definition can_watch :: "('z connector_world_scheme) connector_env \<Rightarrow> nat \<Rightarrow> int \<Rightarrow> 'z connector_world_scheme \<Rightarrow> bool" where
  "can_watch E k fd s \<longleftrightarrow> (let l = ct_loop (kw_connectors s k) in
     isInLoopThread l s \<and> poller_ok (lp_poller (w_loops s l)) ((chans s)(ke_channel E := channel_new l fd))
   \<and> loop_channels l s fd = None \<and> 0 \<le> fd)"

lemma connecting_eq:
  assumes w: "can_watch E k fd s" and none: "ct_channel (kw_connectors s k) = None"
  shows "\<exists>s'. connecting E k fd s = Inr s' \<and> registered (ke_channel E) s'
    \<and> kw_connectors s' k = (kw_connectors s k)\<lparr>ct_state := kConnecting, ct_channel := Some (ke_channel E)\<rparr>
    \<and> ch_fd (chans s' (ke_channel E)) = fd \<and> ch_event (chans s' (ke_channel E)) = kWriteEvent
    \<and> ch_loop (chans s' (ke_channel E)) = ct_loop (kw_connectors s k)
    \<and> ch_writeCallBack (chans s' (ke_channel E)) = Some (ConnectorHandleWrite k)
    \<and> ch_errorCallBack (chans s' (ke_channel E)) = Some (ConnectorHandleError k)
    \<and> sk_trace s' = sk_trace s \<and> tw_queues s' = tw_queues s"
proof -
  let ?l = "ct_loop (kw_connectors s k)" and ?ch = "ke_channel E"
  let ?new = "setErrorCallBack (ConnectorHandleError k) (setWriteCallBack (ConnectorHandleWrite k) (channel_new ?l fd))"
  let ?k = "upd_connector k (\<lambda>ct. ct\<lparr>ct_state := kConnecting, ct_channel := Some ?ch\<rparr>) s"
  let ?t = "?k\<lparr>chans := (chans s)(?ch := ?new)\<rparr>"
  have new: "ch_loop ?new = ?l" "ch_fd ?new = fd" "ch_index ?new = -1" "ch_event ?new = 0"
    by (simp_all add: setErrorCallBack_def setWriteCallBack_def channel_new_def)
  have "connecting E k fd s = enableWriting ?ch ?t"
    using none unfolding connecting_def
    by (simp add: Let_def loop_simps setStatus_def, simp add: upd_chan_def upd_connector_def setStatus_def)
  moreover have "poller_ok (lp_poller (w_loops s ?l)) ((chans s)(?ch := ?new))"
    by (rule poller_ok_cong [of _ "(chans s)(?ch := channel_new ?l fd)"])
      (use w in \<open>auto simp: can_watch_def Let_def new channel_new_def setErrorCallBack_def setWriteCallBack_def\<close>)
  then have "registrable ?ch ?t"
    using w by (simp add: registrable_def can_watch_def Let_def new loop_channels_def upd_connector_sel isInLoopThread_def)
  from channel_update_new [OF this bits_keep_identity(2)] obtain pl i where
    "channel_update ?ch (upd_chan ?ch writingBits ?t)
      = Inr (set_poller ?l pl ((chans s)(?ch := setIndex i (writingBits ?new))) ?t)"
    "registered ?ch (set_poller ?l pl ((chans s)(?ch := setIndex i (writingBits ?new))) ?t)"
    by (auto simp: new)
  moreover have "kw_connectors ?t = kw_connectors ?k" "sk_trace ?t = sk_trace s" "tw_queues ?t = tw_queues s"
    by (simp_all add: upd_connector_def)
  moreover have "tw_queues (set_poller ?l pl cs ?t) = tw_queues ?t" for pl cs by (simp add: set_poller_def upd_loop_def)
  ultimately show ?thesis
    by (simp add: enableWriting_def loop_simps writingBits_def setErrorCallBack_def setWriteCallBack_def channel_new_def
        setIndex_def)
qed

text \<open>C30. What an attempt does, by the error of \<open>connect\<close>. If the socket cannot be made the program ends. In
  progress: the connector is connecting, and its new channel waits to become writable, with the
  connector's handlers. A transient error: the descriptor goes to \<open>retry\<close>. Any other error: the
  descriptor is closed, nothing is filed, and the connector never tries again by itself.\<close>

theorem attempt_outcomes:
  assumes here: "isInLoopThread (ct_loop (kw_connectors s k)) s" and st: "ct_state (kw_connectors s k) = kDisconnect"
    and wanted: "ct_connect (kw_connectors s k)" and none: "ct_channel (kw_connectors s k) = None"
    and sock: "a = ke_kernel E (sk_trace s) SysSocket" and conn: "b = ke_kernel E (sk_trace s @ [(SysSocket, a)])
        (SysConnect (an_ret a) (ct_serverAddr (kw_connectors s k)))"
    and err: "e = (if an_ret b = 0 then 0 else an_errno b)"
    and t: "t = s\<lparr>sk_trace := sk_trace s @ [(SysSocket, a), (SysConnect (an_ret a) (ct_serverAddr (kw_connectors s k)), b)]\<rparr>"
    and watch: "0 \<le> an_ret a \<Longrightarrow> in_progress e \<Longrightarrow> can_watch E k (an_ret a) s"
  shows "if an_ret a < 0 then startInloop E k s = Inl ExitFailure
    else if in_progress e then \<exists>s'. startInloop E k s = Inr s' \<and> registered (ke_channel E) s'
        \<and> kw_connectors s' k = (kw_connectors s k)\<lparr>ct_state := kConnecting, ct_channel := Some (ke_channel E)\<rparr>
        \<and> ch_fd (chans s' (ke_channel E)) = an_ret a \<and> ch_event (chans s' (ke_channel E)) = kWriteEvent
        \<and> ch_writeCallBack (chans s' (ke_channel E)) = Some (ConnectorHandleWrite k)
        \<and> ch_errorCallBack (chans s' (ke_channel E)) = Some (ConnectorHandleError k)
        \<and> sk_trace s' = sk_trace t
    else if worth_retrying e then startInloop E k s = retry E k (an_ret a) t
    else startInloop E k s = Inr (sys_close (ke_kernel E) (an_ret a) t)"
proof -
  let ?call = "SysConnect (an_ret a) (ct_serverAddr (kw_connectors s k))"
  have s1: "syscall (ke_kernel E) SysSocket s = (a, s\<lparr>sk_trace := sk_trace s @ [(SysSocket, a)]\<rparr>)"
    by (simp add: syscall_def Let_def sock)
  have s2: "syscall (ke_kernel E) ?call (s\<lparr>sk_trace := sk_trace s @ [(SysSocket, a)]\<rparr>) = (b, t)"
    by (simp add: syscall_def Let_def conn t)
  have k1: "kw_connectors (s\<lparr>sk_trace := tr\<rparr>) = kw_connectors s" for tr by simp
  have c: "connect E k s = fatal_unless (\<not> an_ret a < 0)
     (if in_progress e then connecting E k (an_ret a) t
      else if worth_retrying e then retry E k (an_ret a) t
      else Inr (sys_close (ke_kernel E) (an_ret a) t))"
  proof (cases "an_ret a < 0")
    case True
    then show ?thesis unfolding connect_def createNoBlockSock_def s1 prod.case by simp
  next
    case False
    show ?thesis
      unfolding connect_def createNoBlockSock_def s1 prod.case in_progress_def worth_retrying_def
      using False by (simp only: not_False_eq_True fatal_unless_True bnd_Inr prod.case k1 s2 Let_def err [symmetric] if_cancel)
  qed
  have start: "startInloop E k s = fatal_unless (\<not> an_ret a < 0)
     (if in_progress e then connecting E k (an_ret a) t
      else if worth_retrying e then retry E k (an_ret a) t
      else Inr (sys_close (ke_kernel E) (an_ret a) t))"
    unfolding startInloop_def assertInLoopThread_in [OF here] bnd_Inr c using st wanted by simp
  show ?thesis
  proof (cases "an_ret a < 0")
    case True
    then show ?thesis by (simp add: start)
  next
    case False
    show ?thesis
    proof (cases "in_progress e")
      case True
      have "can_watch E k (an_ret a) s" using watch False True by simp
      then have "can_watch E k (an_ret a) t" by (simp add: t can_watch_def Let_def isInLoopThread_def loop_channels_def)
      moreover have "kw_connectors t = kw_connectors s" by (simp add: t)
      ultimately show ?thesis using connecting_eq [of E k "an_ret a" t] False True none by (auto simp: start)
    next
      case no: False
      then show ?thesis using False by (simp add: start)
    qed
  qed
qed

section \<open>The outcome of an attempt\<close>

text \<open>A connecting connector watches a registered channel of its loop.\<close>

definition watching :: "nat \<Rightarrow> nat \<Rightarrow> 'z connector_world_scheme \<Rightarrow> bool" where
  "watching k ch s \<longleftrightarrow> ct_state (kw_connectors s k) = kConnecting \<and> ct_channel (kw_connectors s k) = Some ch
     \<and> registered ch s \<and> ch_loop (chans s ch) = ct_loop (kw_connectors s k)"

lemma removeAndResetChannel_eq:
  assumes w: "watching k ch s"
  defines "l \<equiv> ct_loop (kw_connectors s k)"
  shows "\<exists>s'. removeAndResetChannel k s = Inr (ch_fd (chans s ch), s') \<and> kw_connectors s' = kw_connectors s
    \<and> loop_channels l s' = (loop_channels l s)(ch_fd (chans s ch) := None)
    \<and> pending_of l s' = pending_of l s @ [ConnectorResetChannel k]
    \<and> sk_trace s' = sk_trace s \<and> isInLoopThread l s' \<and> tw_timers s' = tw_timers s \<and> tw_queues s' = tw_queues s
    \<and> tw_ticks s' = tw_ticks s \<and> tw_created s' = tw_created s"
proof -
  have reg: "registered ch s" and lp: "ch_loop (chans s ch) = l" and here: "isInLoopThread l s"
    using w by (auto simp: watching_def l_def registered_def)
  from channel_update_registered [OF reg bits_keep_identity(4)] obtain pl where
    pl: "disableAll ch s = Inr (upd_loop l (\<lambda>lp. lp\<lparr>lp_poller := pl\<rparr>) (upd_chan ch noBits s))"
      "registered ch (upd_loop l (\<lambda>lp. lp\<lparr>lp_poller := pl\<rparr>) (upd_chan ch noBits s))"
      "pl_channels pl = loop_channels l s" by (auto simp: disableAll_def lp loop_channels_def)
  let ?s1 = "upd_loop l (\<lambda>lp. lp\<lparr>lp_poller := pl\<rparr>) (upd_chan ch noBits s)"
  have c1: "chans ?s1 ch = noBits (chans s ch)" "lp_poller (w_loops ?s1 l) = pl" "ch_fd (noBits (chans s ch)) = ch_fd (chans s ch)"
    "ch_loop (noBits (chans s ch)) = l" "isNoneEvent (noBits (chans s ch))"
    by (simp_all add: loop_simps noBits_def isNoneEvent_def lp)
  from remove_registered [OF pl(2)] c1 obtain pl2 cs where
    r: "loop_removeChannel l ch ?s1 = Inr (set_poller l pl2 cs ?s1)" "pl_channels pl2 = (loop_channels l s)(ch_fd (chans s ch) := None)"
    by (auto simp: pl(3))
  let ?s' = "queueInloop l (ConnectorResetChannel k) (set_poller l pl2 cs ?s1)"
  have "kw_connectors ?s1 k = kw_connectors s k" by (simp add: loop_simps)
  then have "removeAndResetChannel k s = Inr (ch_fd (chans s ch), ?s')"
    using w r(1) by (simp add: removeAndResetChannel_def watching_def pl(1) [unfolded l_def] c1 [unfolded l_def] Let_def l_def)
  moreover have "tw_timers ?s' = tw_timers s" "tw_queues ?s' = tw_queues s" "tw_ticks ?s' = tw_ticks s" "tw_created ?s' = tw_created s"
    by (simp_all add: loop_defs upd_loop_def set_poller_def upd_chan_def)
  moreover have "lp_poller (w_loops ?s' l) = pl2" "pending_of l ?s' = pending_of l s @ [ConnectorResetChannel k]"
    by (simp_all add: loop_defs loop_simps view_defs isInLoopThread_def)
  moreover have "isInLoopThread l ?s'" using here by (simp add: isInLoopThread_def loop_defs loop_simps)
  ultimately show ?thesis using r(2) by (simp add: loop_simps loop_channels_def)
qed

lemma getSocketError_eq:
  "getSocketError K fd s = (if an_ret (K (sk_trace s) (SysSockError fd)) \<noteq> 0 then an_errno (K (sk_trace s) (SysSockError fd))
      else an_val (K (sk_trace s) (SysSockError fd)), snd (syscall K (SysSockError fd) s))"
  by (simp add: getSocketError_def syscall_def Let_def)

text \<open>When the poller reports an error and writability at once, the error handler takes the channel out
  of the poller, closes the descriptor, files one retry and leaves the connector disconnected; the
  write handler that runs after it does nothing. So the attempt is retried once and its descriptor is
  closed once.\<close>

theorem error_then_write:
  assumes "watching k ch s" and "connector_ok E k s" and "ct_connect (kw_connectors s k)"
    and "ct_retryDelayMs (kw_connectors s k) = backoff n"
  shows "\<exists>s'. bnd (connector_handleError E k s) (connector_handleWrite E k) = Inr s'
    \<and> ct_state (kw_connectors s' k) = kDisconnect \<and> ct_retryDelayMs (kw_connectors s' k) = backoff (Suc n)
    \<and> loop_channels (ct_loop (kw_connectors s k)) s' (ch_fd (chans s ch)) = None
    \<and> set (tq_timers (tw_queues s' (ct_loop (kw_connectors s k))))
        = insert (ke_clock E (tw_ticks s) + 1000 * backoff n, ke_timer E) (set (tq_timers (tw_queues s (ct_loop (kw_connectors s k)))))
    \<and> map fst (sk_trace s') = map fst (sk_trace s) @ [SysSockError (ch_fd (chans s ch)), SysClose (ch_fd (chans s ch))]"
proof -
  let ?l = "ct_loop (kw_connectors s k)" and ?fd = "ch_fd (chans s ch)" and ?K = "ke_kernel E"
  from removeAndResetChannel_eq [OF assms(1)] obtain s1 where
    s1: "removeAndResetChannel k s = Inr (?fd, s1)" "kw_connectors s1 = kw_connectors s"
      "loop_channels ?l s1 = (loop_channels ?l s)(?fd := None)" "sk_trace s1 = sk_trace s" "isInLoopThread ?l s1"
      "tw_timers s1 = tw_timers s" "tw_queues s1 = tw_queues s" "tw_ticks s1 = tw_ticks s" "tw_created s1 = tw_created s" by blast
  let ?s2 = "snd (syscall ?K (SysSockError ?fd) s1)"
  have "tq_ok ?l s1" using assms(2) by (simp add: connector_ok_def Let_def tq_ok_def s1)
  then have ok2: "connector_ok E k ?s2" using assms(2) s1 by (simp add: connector_ok_def Let_def loop_simps)
  have start: "connector_handleError E k s = retry E k ?fd ?s2"
    by (simp add: connector_handleError_def s1(1) getSocketError_eq)
  have k2: "kw_connectors ?s2 k = kw_connectors s k" by (simp add: loop_simps s1)
  from retry_eq(1) [OF ok2, of ?fd] obtain s' where s': "connector_handleError E k s = Inr s'"
    "kw_connectors s' k = (kw_connectors s k)\<lparr>ct_state := kDisconnect, ct_timerId := (ke_timer E, tw_created s + 1),
        ct_retryDelayMs := backoff (Suc n)\<rparr>"
    "w_loops s' = w_loops s1" "sk_trace s' = sk_trace ?s2 @ [(SysClose ?fd, ?K (sk_trace ?s2) (SysClose ?fd))]"
    "set (tq_timers (tw_queues s' ?l)) = insert (ke_clock E (tw_ticks s) + 1000 * backoff n, ke_timer E) (set (tq_timers (tw_queues s ?l)))"
    using assms(3,4)
    by (simp add: start k2 backoff_microseconds backoff_Suc loop_simps filed_queue sys_close_def setStatus_def s1)
  have "connector_handleWrite E k s' = Inr s'" by (simp add: connector_handleWrite_def s'(2))
  moreover have "loop_channels ?l s' ?fd = None" using s1(3) s'(3) by (simp add: loop_channels_def)
  moreover have "map fst (sk_trace s') = map fst (sk_trace s) @ [SysSockError ?fd, SysClose ?fd]"
    by (simp add: s'(4) loop_simps s1(4))
  ultimately show ?thesis using s' by (intro exI [of _ s']) simp
qed

text \<open>\<open>start\<close> on a connector that is connecting or connected, and \<open>restart\<close> before the channel of the
  last attempt is gone, abort the program.\<close>

lemma start_while_connecting_aborts:
  assumes "isInLoopThread (ct_loop (kw_connectors s k)) s" and "ct_state (kw_connectors s k) \<noteq> kDisconnect"
    and "ke_run E (ConnectorStartInloop k) = startInloop E k"
  shows "connector_start E k s = Inl AssertFailed"
  using assms by (simp add: connector_start_def Let_def runInLoop_def loop_simps startInloop_def assertInLoopThread_in)

section \<open>Witnesses\<close>

definition sample_connectors :: "connector_status \<Rightarrow> connector_world" where
  "sample_connectors st = sock_world.extend
     (timer_world.extend
       ((sample_timers 7)
         \<lparr>chans := \<lambda>c. if c = 1 then (channel_new 0 9)\<lparr>ch_event := 4, ch_index := 0\<rparr> else channel_new 0 0,
          w_loops := \<lambda>l. (w_loops (sample_timers 7) l)\<lparr>lp_poller := \<lparr>pl_pollfds = [\<lparr>pfd_fd = 9, pfd_events = 4, pfd_revents = 0\<rparr>],
            pl_channels = [9 \<mapsto> 1]\<rparr>\<rparr>\<rparr>)
       (sock_world.fields []))
     (connector_world.fields (\<lambda>_. \<lparr>ct_loop = 0, ct_serverAddr = address_zero, ct_connect = True, ct_state = st,
        ct_channel = (if st = kConnecting then Some 1 else None), ct_connectCallback = None,
        ct_retryDelayMs = 500, ct_timerId = (0, 0)\<rparr>))"

lemma sample_connectors_sel [simp]:
  "kw_connectors (sample_connectors st) k = \<lparr>ct_loop = 0, ct_serverAddr = address_zero, ct_connect = True, ct_state = st,
     ct_channel = (if st = kConnecting then Some 1 else None), ct_connectCallback = None,
     ct_retryDelayMs = 500, ct_timerId = (0, 0)\<rparr>"
  "sk_trace (sample_connectors st) = []" "tw_timers (sample_connectors st) = tw_timers (sample_timers 7)"
  "tw_queues (sample_connectors st) = tw_queues (sample_timers 7)" "tw_created (sample_connectors st) = 7"
  "tw_ticks (sample_connectors st) = 0" "w_tid (sample_connectors st) = 7" "lp_threadId (w_loops (sample_connectors st) l) = 7"
  "lp_poller (w_loops (sample_connectors st) l)
    = \<lparr>pl_pollfds = [\<lparr>pfd_fd = 9, pfd_events = 4, pfd_revents = 0\<rparr>], pl_channels = [9 \<mapsto> 1]\<rparr>"
  "chans (sample_connectors st) = (\<lambda>c. if c = 1 then (channel_new 0 9)\<lparr>ch_event := 4, ch_index := 0\<rparr> else channel_new 0 0)"
  by (simp_all add: sample_connectors_def timer_world.defs sock_world.defs connector_world.defs sample_timers_def)

definition sample_connector_env :: "int \<Rightarrow> int \<Rightarrow> (connector_world) connector_env" where
  "sample_connector_env ret errno = \<lparr>ke_kernel = (\<lambda>_ call. \<lparr>an_ret = (case call of SysConnect _ _ \<Rightarrow> ret | _ \<Rightarrow> 12),
       an_errno = errno, an_val = 0, an_addr = address_zero, an_data = []\<rparr>),
     ke_clock = (\<lambda>_. 100), ke_run = (\<lambda>cl. case cl of AddTimerInloop l p \<Rightarrow> addTimerInloop (\<lambda>_. 100) l p | _ \<Rightarrow> Inr),
     ke_connected = (\<lambda>_ _. Inr), ke_channel = 5, ke_timer = 3\<rparr>"

lemma sample_connector_ok: "connector_ok (sample_connector_env r e) k (sample_connectors st)"
  using sample_timers_ok [of 7 0]
  by (simp add: connector_ok_def Let_def isInLoopThread_def sample_connector_env_def tq_ok_def,
      simp add: sample_timers_def uintptr_max_def)

lemma sample_timer_entries: "set (tq_timers (tw_queues (sample_timers 7) 0)) = {(10, 1), (20, 2)}"
  by (simp add: sample_timers_def)

lemma retry_backs_off_witness:
  "\<exists>s'. retry (sample_connector_env 0 0) 0 9 (sample_connectors kConnecting) = Inr s'
    \<and> ct_retryDelayMs (kw_connectors s' 0) = 1000
    \<and> set (tq_timers (tw_queues s' 0)) = {(500100, 3), (10, 1), (20, 2)}"
proof -
  have d: "ct_retryDelayMs (kw_connectors (sample_connectors kConnecting) 0) = backoff 0" by (simp add: backoff_def)
  have c: "ct_connect (kw_connectors (sample_connectors kConnecting) 0)" by simp
  have b: "backoff (Suc 0) = 1000" "backoff 0 = 500" by (simp_all add: backoff_def)
  have clock: "ke_clock (sample_connector_env 0 0) t = 100" "ke_timer (sample_connector_env 0 0) = 3" for t
    by (simp_all add: sample_connector_env_def)
  from retry_backs_off [OF sample_connector_ok c d, of 0 0 9] show ?thesis
    by (auto simp: b clock sample_timer_entries)
qed

lemma attempt_outcomes_witness:
  "(\<exists>s'. startInloop (sample_connector_env (-1) EINPROGRESS) 0 (sample_connectors kDisconnect) = Inr s'
      \<and> ct_state (kw_connectors s' 0) = kConnecting \<and> ch_fd (chans s' 5) = 12 \<and> ch_event (chans s' 5) = kWriteEvent)
   \<and> (\<exists>t. startInloop (sample_connector_env (-1) ECONNREFUSED) 0 (sample_connectors kDisconnect)
        = retry (sample_connector_env (-1) ECONNREFUSED) 0 12 t)
   \<and> (\<exists>s'. startInloop (sample_connector_env (-1) EACCES) 0 (sample_connectors kDisconnect) = Inr s'
      \<and> ct_state (kw_connectors s' 0) = kDisconnect)"
proof -
  let ?s = "sample_connectors kDisconnect"
  have h: "isInLoopThread (ct_loop (kw_connectors ?s 0)) ?s" "ct_state (kw_connectors ?s 0) = kDisconnect"
    "ct_connect (kw_connectors ?s 0)" "ct_channel (kw_connectors ?s 0) = None"
    by (simp_all add: isInLoopThread_def)
  have w: "can_watch (sample_connector_env r e) 0 12 ?s" for r e
    by (simp add: can_watch_def Let_def isInLoopThread_def loop_channels_def sample_connector_env_def poller_ok_def
        decoded_def channel_new_def)
  have k: "an_ret (ke_kernel (sample_connector_env r e) tr SysSocket) = 12"
    "an_ret (ke_kernel (sample_connector_env r e) tr (SysConnect fd ad)) = r"
    "an_errno (ke_kernel (sample_connector_env r e) tr (SysConnect fd ad)) = e"
    "ke_channel (sample_connector_env r e) = 5" for r e tr fd ad
    by (simp_all add: sample_connector_env_def)
  note attempt = attempt_outcomes [OF h refl refl refl refl]
  have "if in_progress e then \<exists>s'. startInloop (sample_connector_env (-1) e) 0 ?s = Inr s'
        \<and> ct_state (kw_connectors s' 0) = kConnecting \<and> ch_fd (chans s' 5) = 12 \<and> ch_event (chans s' 5) = kWriteEvent
    else if worth_retrying e then \<exists>t. startInloop (sample_connector_env (-1) e) 0 ?s = retry (sample_connector_env (-1) e) 0 12 t
    else \<exists>s'. startInloop (sample_connector_env (-1) e) 0 ?s = Inr s' \<and> ct_state (kw_connectors s' 0) = kDisconnect" for e
    using attempt [of "sample_connector_env (-1) e"] w [of "-1" e]
    by (auto simp: k sys_close_def kw_connectors_sel split: if_splits)
  note c = this [of EINPROGRESS] this [of ECONNREFUSED] this [of EACCES]
  have "in_progress EINPROGRESS" "\<not> in_progress ECONNREFUSED" "worth_retrying ECONNREFUSED" "\<not> in_progress EACCES"
    "\<not> worth_retrying EACCES" by (simp_all add: in_progress_def worth_retrying_def errno_values)
  then show ?thesis using c by simp
qed

lemma error_then_write_witness:
  "\<exists>s'. bnd (connector_handleError (sample_connector_env 0 0) 0 (sample_connectors kConnecting))
        (connector_handleWrite (sample_connector_env 0 0) 0) = Inr s'
    \<and> ct_state (kw_connectors s' 0) = kDisconnect \<and> set (tq_timers (tw_queues s' 0)) = {(500100, 3), (10, 1), (20, 2)}
    \<and> map fst (sk_trace s') = [SysSockError 9, SysClose 9]"
proof -
  let ?s = "sample_connectors kConnecting"
  have w: "watching 0 1 ?s"
    by (simp add: watching_def registered_def isInLoopThread_def poller_ok_def decoded_def channel_new_def)
  have d: "ct_retryDelayMs (kw_connectors ?s 0) = backoff 0" by (simp add: backoff_def)
  have c: "ct_connect (kw_connectors ?s 0)" by simp
  have b: "backoff 0 = 500" by (simp add: backoff_def)
  have clock: "ke_clock (sample_connector_env 0 0) t = 100" "ke_timer (sample_connector_env 0 0) = 3" for t
    by (simp_all add: sample_connector_env_def)
  from error_then_write [OF w sample_connector_ok c d, of 0 0] show ?thesis
    by (auto simp: b clock sample_timer_entries channel_new_def)
qed

end
