(* ===== verification/Buffer.thy ===== *)
theory Buffer
  imports Prelude
begin

text \<open>
  The byte buffer of src/buffer.h and src/buffer.cpp, which every connection uses for its input
  and its output: a vector with a read index and a write index, the bytes between them being the
  contents, the bytes before the read index room for prepending, the bytes after the write index
  room for appending. Pointers into the vector (\<open>peek()\<close>, \<open>beginWrite()\<close>, the result of
  \<open>findCRLF()\<close>) are offsets from \<open>begin()\<close>. The indices are \<open>ssize_t\<close> and the sizes
  \<open>size_t\<close>, with the conversions of the sources; copies outside the vector are
  \<open>BadPointer\<close>, a vector beyond its maximal size is \<open>LengthError\<close>.

  The invariant \<open>buf_ok\<close> and the abstraction \<open>contents\<close> give the contract: the buffer is a
  queue of bytes. The locale \<open>byte_queue\<close> states it for the clients of the buffer.
\<close>

section \<open>The model\<close>

record buffer =
  store :: "char list"
  readIndex :: int
  writeIndex :: int

definition kCheapPrepared :: nat where
  "kCheapPrepared = 8"

definition kInitialSize :: nat where
  "kInitialSize = 1024"

definition kCRLF :: string where
  "kCRLF = [CHR 0x0D, CHR 0x0A]"

text \<open>Reading and writing through pointers, and \<open>std::vector\<close>'s constructor and \<open>resize\<close>.\<close>

definition read_range :: "char list \<Rightarrow> int \<Rightarrow> int \<Rightarrow> string res" where
  "read_range v i j =
     valid_or (0 \<le> i \<and> i \<le> j \<and> j \<le> int (length v)) (Inr (seg v (nat i) (nat j)))"

definition write_at :: "char list \<Rightarrow> int \<Rightarrow> string \<Rightarrow> char list res" where
  "write_at v i xs =
     valid_or (0 \<le> i \<and> i + int (length xs) \<le> int (length v)) (Inr (blit v (nat i) xs))"

definition vec_new :: "nat \<Rightarrow> char list res" where
  "vec_new n = (if n \<le> size_max then Inr (replicate n (CHR 0x00)) else Inl LengthError)"

definition vec_resize :: "char list \<Rightarrow> nat \<Rightarrow> char list res" where
  "vec_resize v n =
     (if n \<le> size_max then Inr (take n v @ replicate (n - length v) (CHR 0x00))
      else Inl LengthError)"

definition readableBytes :: "buffer \<Rightarrow> nat" where
  "readableBytes b = to_size (writeIndex b - readIndex b)"

definition writableBytes :: "buffer \<Rightarrow> nat" where
  "writableBytes b = to_size (int (length (store b)) - writeIndex b)"

definition prependableBytes :: "buffer \<Rightarrow> nat" where
  "prependableBytes b = to_size (readIndex b)"

definition buffer_init :: buffer where
  "buffer_init =
     \<lparr>store = replicate (kCheapPrepared + kInitialSize) (CHR 0x00),
      readIndex = int kCheapPrepared, writeIndex = int kCheapPrepared\<rparr>"

definition buffer_new :: "buffer res" where
  "buffer_new =
     must (readableBytes buffer_init = 0)
       (must (writableBytes buffer_init = kInitialSize)
         (must (prependableBytes buffer_init = kCheapPrepared) (Inr buffer_init)))"

definition buffer_swap :: "buffer \<Rightarrow> buffer \<Rightarrow> buffer \<times> buffer" where
  "buffer_swap b rhs =
     (b\<lparr>store := store rhs, readIndex := readIndex rhs, writeIndex := writeIndex rhs\<rparr>,
      rhs\<lparr>store := store b, readIndex := readIndex b, writeIndex := writeIndex b\<rparr>)"

definition peek :: "buffer \<Rightarrow> int" where
  "peek b = readIndex b"

definition beginWrite :: "buffer \<Rightarrow> int" where
  "beginWrite b = writeIndex b"

definition retrieve :: "buffer \<Rightarrow> nat \<Rightarrow> buffer res" where
  "retrieve b len =
     must (len \<le> readableBytes b) (Inr (b\<lparr>readIndex := to_ssize (readIndex b + int len)\<rparr>))"

definition retrieveUntil :: "buffer \<Rightarrow> int \<Rightarrow> buffer res" where
  "retrieveUntil b e =
     must (peek b \<le> e) (must (e \<le> beginWrite b) (retrieve b (to_size (e - peek b))))"

definition retrieveAll :: "buffer \<Rightarrow> buffer" where
  "retrieveAll b = b\<lparr>readIndex := int kCheapPrepared, writeIndex := int kCheapPrepared\<rparr>"

definition retrieveAsString :: "buffer \<Rightarrow> (string \<times> buffer) res" where
  "retrieveAsString b =
     bnd (read_range (store b) (peek b) (peek b + int (readableBytes b)))
       (\<lambda>str. Inr (str, retrieveAll b))"

definition makeSpace :: "buffer \<Rightarrow> nat \<Rightarrow> buffer res" where
  "makeSpace b len =
     (if to_size (int (writableBytes b) + int (prependableBytes b))
           < to_size (int len + int kCheapPrepared)
      then bnd (vec_resize (store b) (to_size (writeIndex b + int len)))
             (\<lambda>v. Inr (b\<lparr>store := v\<rparr>))
      else
        must (kCheapPrepared < to_size (readIndex b))
          (let readable = readableBytes b in
           bnd (read_range (store b) (readIndex b) (writeIndex b)) (\<lambda>xs.
           bnd (write_at (store b) (int kCheapPrepared) xs) (\<lambda>v.
           let b' = b\<lparr>store := v, readIndex := int kCheapPrepared,
                      writeIndex := to_ssize (int kCheapPrepared + int readable)\<rparr> in
           must (readable = readableBytes b') (Inr b')))))"

definition ensureWritableBytes :: "buffer \<Rightarrow> nat \<Rightarrow> buffer res" where
  "ensureWritableBytes b len =
     bnd (if writableBytes b < len then makeSpace b len else Inr b)
       (\<lambda>b. must (len \<le> writableBytes b) (Inr b))"

definition hasWriten :: "buffer \<Rightarrow> nat \<Rightarrow> buffer" where
  "hasWriten b len = b\<lparr>writeIndex := to_ssize (writeIndex b + int len)\<rparr>"

definition buf_append :: "buffer \<Rightarrow> string \<Rightarrow> buffer res" where
  "buf_append b str =
     bnd (ensureWritableBytes b (length str)) (\<lambda>b.
     bnd (write_at (store b) (beginWrite b) str) (\<lambda>v.
     Inr (hasWriten (b\<lparr>store := v\<rparr>) (length str))))"

definition prepend :: "buffer \<Rightarrow> string \<Rightarrow> buffer res" where
  "prepend b str =
     must (length str \<le> prependableBytes b)
       (let b = b\<lparr>readIndex := to_ssize (readIndex b - int (length str))\<rparr> in
        bnd (write_at (store b) (readIndex b) str) (\<lambda>v. Inr (b\<lparr>store := v\<rparr>)))"

definition shrink :: "buffer \<Rightarrow> nat \<Rightarrow> buffer res" where
  "shrink b reserve =
     bnd (vec_new (to_size (int kCheapPrepared + int (readableBytes b) + int reserve))) (\<lambda>buf.
     bnd (read_range (store b) (peek b) (peek b + int (readableBytes b))) (\<lambda>xs.
     bnd (write_at buf (int kCheapPrepared) xs) (\<lambda>buf.
     Inr (b\<lparr>store := buf\<rparr>))))"

text \<open>\<open>std::search\<close> for the two bytes of \<open>kCRLF\<close>: the first offset, or the length.\<close>

fun search_crlf :: "string \<Rightarrow> nat" where
  "search_crlf (c # d # s) =
     (if [c, d] = kCRLF then 0 else Suc (search_crlf (d # s)))"
| "search_crlf s = length s"

definition findCRLF :: "buffer \<Rightarrow> int option res" where
  "findCRLF b =
     bnd (read_range (store b) (peek b) (beginWrite b)) (\<lambda>s.
     let crlf = peek b + int (search_crlf s) in
     Inr (if crlf = beginWrite b then None else Some crlf))"

text \<open>
  \<open>readFd\<close> scatters one \<open>readv\<close> over the writable space and a 64 KiB block on the stack. The
  kernel's answer is an argument: an error number, or the bytes it delivered. The result is the
  buffer, the return value and \<open>*saveError\<close> when it is written.
\<close>

definition extraBuf_size :: nat where
  "extraBuf_size = 65536"

definition readFd :: "buffer \<Rightarrow> int + string \<Rightarrow> (buffer \<times> int \<times> int option) res" where
  "readFd b answer =
     (let writable = writableBytes b in
      case answer of
        Inl errno \<Rightarrow> Inr (b, -1, Some errno)
      | Inr bytes \<Rightarrow>
          let n = length bytes in
          bnd (write_at (store b) (writeIndex b) (take writable bytes)) (\<lambda>v.
          if n \<le> writable
          then Inr (b\<lparr>store := v, writeIndex := to_ssize (writeIndex b + int n)\<rparr>, int n, None)
          else
            valid_or (n - writable \<le> extraBuf_size)
              (bnd (buf_append (b\<lparr>store := v, writeIndex := to_ssize (int (length v))\<rparr>)
                     (drop writable bytes))
                (\<lambda>b. Inr (b, int n, None)))))"

section \<open>Invariant and abstraction\<close>

definition buf_ok :: "buffer \<Rightarrow> bool" where
  "buf_ok b \<longleftrightarrow> 0 \<le> readIndex b \<and> readIndex b \<le> writeIndex b
     \<and> writeIndex b \<le> int (length (store b)) \<and> kCheapPrepared \<le> length (store b)
     \<and> length (store b) \<le> size_max"

definition contents :: "buffer \<Rightarrow> string" where
  "contents b = seg (store b) (nat (readIndex b)) (nat (writeIndex b))"

definition room :: "buffer \<Rightarrow> nat" where
  "room b = size_max - max kCheapPrepared (nat (writeIndex b))"

named_theorems buf_simps "sizes of a buffer that satisfies its invariant"

lemma buf_okD:
  assumes "buf_ok b"
  shows "0 \<le> readIndex b" "readIndex b \<le> writeIndex b" "writeIndex b \<le> int (length (store b))"
    and "length (store b) \<le> size_max" "0 \<le> writeIndex b" "kCheapPrepared \<le> length (store b)"
  using assms by (auto simp: buf_ok_def)

lemma readableBytes_ok [buf_simps]:
  "buf_ok b \<Longrightarrow> readableBytes b = nat (writeIndex b - readIndex b)"
  unfolding readableBytes_def by (rule to_size_id) (auto simp: buf_ok_def)

lemma writableBytes_ok [buf_simps]:
  "buf_ok b \<Longrightarrow> writableBytes b = length (store b) - nat (writeIndex b)"
proof -
  assume ok: "buf_ok b"
  then have "writableBytes b = nat (int (length (store b)) - writeIndex b)"
    unfolding writableBytes_def by (intro to_size_id) (auto simp: buf_ok_def)
  with ok show ?thesis by (simp add: buf_ok_def nat_diff_distrib)
qed

lemma prependableBytes_ok [buf_simps]:
  "buf_ok b \<Longrightarrow> prependableBytes b = nat (readIndex b)"
  unfolding prependableBytes_def by (rule to_size_id) (auto simp: buf_ok_def)

lemma contents_written:
  assumes "buf_ok b" and "nat (writeIndex b) + length xs \<le> length (store b)"
  shows "contents (b\<lparr>store := blit (store b) (nat (writeIndex b)) xs,
           writeIndex := writeIndex b + int (length xs)\<rparr>) = contents b @ xs"
proof -
  let ?w = "nat (writeIndex b)"
  let ?v = "blit (store b) ?w xs"
  note bi = buf_okD [OF assms(1)]
  have "nat (readIndex b) \<le> ?w" using bi by simp
  then have "seg ?v (nat (readIndex b)) (?w + length xs)
      = seg ?v (nat (readIndex b)) ?w @ seg ?v ?w (?w + length xs)" by (simp add: seg_append)
  then show ?thesis
    using assms(2) bi
    by (simp add: contents_def nat_add_distrib seg_blit_before seg_blit_same)
qed

lemma length_contents: "buf_ok b \<Longrightarrow> length (contents b) = readableBytes b"
  by (auto simp: contents_def readableBytes_ok buf_ok_def nat_diff_distrib)

lemma contents_int: "buf_ok b \<Longrightarrow> int (length (contents b)) = writeIndex b - readIndex b"
  by (simp add: length_contents readableBytes_ok buf_okD(2))

lemma buf_ok_init: "buf_ok buffer_init"
  by (simp add: buf_ok_def buffer_init_def kCheapPrepared_def kInitialSize_def)

lemma contents_init: "contents buffer_init = []"
  by (simp add: contents_def buffer_init_def)

lemma room_init: "room buffer_init = 9223372036854775799"
  by (simp add: room_def buffer_init_def kCheapPrepared_def)

lemma buffer_new_eq: "buffer_new = Inr buffer_init"
  using buf_ok_init
  by (simp add: buffer_new_def buf_simps)
     (simp add: buffer_init_def kCheapPrepared_def kInitialSize_def)

section \<open>Every operation keeps the invariant and acts on the contents as on a queue\<close>

lemma read_range_ok:
  "0 \<le> i \<Longrightarrow> i \<le> j \<Longrightarrow> j \<le> int (length v) \<Longrightarrow> read_range v i j = Inr (seg v (nat i) (nat j))"
  by (simp add: read_range_def)

lemma write_at_ok:
  "0 \<le> i \<Longrightarrow> i + int (length xs) \<le> int (length v) \<Longrightarrow> write_at v i xs = Inr (blit v (nat i) xs)"
  by (simp add: write_at_def)

lemma read_contents: "buf_ok b \<Longrightarrow> read_range (store b) (readIndex b) (writeIndex b) = Inr (contents b)"
  by (simp add: buf_ok_def read_range_ok contents_def)

lemma read_peek: "buf_ok b \<Longrightarrow>
  read_range (store b) (peek b) (peek b + int (readableBytes b)) = Inr (contents b)"
  using read_contents [of b] by (simp add: peek_def readableBytes_ok buf_ok_def)

subsection \<open>Consuming\<close>

lemma retrieve_ok:
  assumes ok: "buf_ok b" and n: "n \<le> length (contents b)"
  shows "\<exists>b'. retrieve b n = Inr b' \<and> buf_ok b' \<and> contents b' = drop n (contents b)
           \<and> writeIndex b' = writeIndex b \<and> store b' = store b
           \<and> readIndex b' = readIndex b + int n"
proof -
  let ?b = "b\<lparr>readIndex := readIndex b + int n\<rparr>"
  have n': "int n \<le> writeIndex b - readIndex b"
    using n contents_int [OF ok] by linarith
  have "to_ssize (readIndex b + int n) = readIndex b + int n"
    using ok n' by (intro to_ssize_id) (auto simp: buf_ok_def)
  then have "retrieve b n = Inr ?b"
    using n ok by (simp add: retrieve_def length_contents)
  moreover have "buf_ok ?b" using ok n' by (simp add: buf_ok_def)
  moreover have "contents ?b = drop n (contents b)"
    using ok by (simp add: contents_def drop_seg nat_add_distrib buf_ok_def)
  ultimately show ?thesis by auto
qed

lemma retrieve_too_much: "buf_ok b \<Longrightarrow> length (contents b) < n \<Longrightarrow> retrieve b n = Inl AssertFailed"
  by (simp add: retrieve_def length_contents)

lemma retrieveUntil_ok:
  assumes ok: "buf_ok b" and n: "n \<le> length (contents b)"
  shows "\<exists>b'. retrieveUntil b (peek b + int n) = Inr b' \<and> buf_ok b'
           \<and> contents b' = drop n (contents b) \<and> writeIndex b' = writeIndex b"
proof -
  have n': "int n \<le> writeIndex b - readIndex b"
    using n contents_int [OF ok] by linarith
  then have "to_size (int n) = n"
    using ok by (subst to_size_id) (auto simp: buf_ok_def)
  then have "retrieveUntil b (peek b + int n) = retrieve b n"
    using n' by (simp add: retrieveUntil_def peek_def beginWrite_def)
  with retrieve_ok [OF ok n] show ?thesis by auto
qed

lemma retrieveAll_ok:
  assumes "buf_ok b"
  shows "buf_ok (retrieveAll b)" "contents (retrieveAll b) = []" "room b \<le> room (retrieveAll b)"
  using assms by (simp_all add: retrieveAll_def buf_ok_def contents_def room_def)

lemma retrieveAsString_ok:
  "buf_ok b \<Longrightarrow> retrieveAsString b = Inr (contents b, retrieveAll b)"
  by (simp add: retrieveAsString_def read_peek)

subsection \<open>Appending\<close>

text \<open>The two branches of \<open>makeSpace\<close>: growing the vector, and moving the contents down to
  offset 8. In the second the source asserts \<open>kCheapPrepared < readIndex_\<close>, which follows
  from the guard when there is not enough space at the end.\<close>

lemma makeSpace_guard:
  assumes ok: "buf_ok b" and fits: "len \<le> size_max"
  shows "to_size (int (writableBytes b) + int (prependableBytes b))
           < to_size (int len + int kCheapPrepared)
         \<longleftrightarrow> writableBytes b + prependableBytes b < len + kCheapPrepared"
proof -
  have "to_size (int (writableBytes b) + int (prependableBytes b))
      = writableBytes b + prependableBytes b"
    using buf_okD [OF ok] by (subst to_size_id) (simp_all add: buf_simps [OF ok] nat_le_iff)
  moreover have "to_size (int len + int kCheapPrepared) = len + kCheapPrepared"
    using fits by (subst to_size_id) (auto simp: kCheapPrepared_def)
  ultimately show ?thesis by simp
qed

lemma makeSpace_grow:
  assumes ok: "buf_ok b" and fits: "nat (writeIndex b) + len \<le> size_max"
    and lack: "writableBytes b < len"
    and small: "writableBytes b + prependableBytes b < len + kCheapPrepared"
  shows "\<exists>b'. makeSpace b len = Inr b' \<and> buf_ok b' \<and> contents b' = contents b
           \<and> writableBytes b' = len \<and> writeIndex b' = writeIndex b
           \<and> length (store b') = nat (writeIndex b) + len"
proof -
  let ?n = "nat (writeIndex b) + len"
  let ?b = "b\<lparr>store := store b @ replicate (?n - length (store b)) (CHR 0x00)\<rparr>"
  have n: "to_size (writeIndex b + int len) = ?n"
    using fits ok by (subst to_size_id) (auto simp: buf_ok_def nat_add_distrib)
  have le: "length (store b) \<le> ?n"
    using lack ok by (simp add: writableBytes_ok)
  have "vec_resize (store b) ?n = Inr (store ?b)"
    using fits le by (simp add: vec_resize_def)
  then have run: "makeSpace b len = Inr ?b"
    using small fits by (simp add: makeSpace_def makeSpace_guard [OF ok] n)
  have len_b: "length (store ?b) = ?n" using le by simp
  have ok': "buf_ok ?b" using ok fits le by (simp add: buf_ok_def)
  have "nat (writeIndex b) \<le> length (store b)" using ok by (simp add: buf_ok_def nat_le_iff)
  then have "contents ?b = contents b" by (simp add: contents_def seg_append_left)
  moreover have "writableBytes ?b = len"
    using len_b by (simp add: writableBytes_ok [OF ok'])
  ultimately show ?thesis using run ok' len_b by auto
qed

lemma makeSpace_move:
  assumes ok: "buf_ok b" and fits: "len \<le> size_max"
    and lack: "writableBytes b < len"
    and enough: "len + kCheapPrepared \<le> writableBytes b + prependableBytes b"
  shows "\<exists>b'. makeSpace b len = Inr b' \<and> buf_ok b' \<and> contents b' = contents b
           \<and> len \<le> writableBytes b' \<and> writeIndex b' \<le> writeIndex b
           \<and> length (store b') = length (store b)"
proof -
  let ?v = "blit (store b) kCheapPrepared (contents b)"
  let ?w = "int kCheapPrepared + int (length (contents b))"
  let ?b = "b\<lparr>store := ?v, readIndex := int kCheapPrepared, writeIndex := ?w\<rparr>"
  have r: "kCheapPrepared < nat (readIndex b)"
    using lack enough ok by (simp add: buf_simps)
  note lenc = contents_int [OF ok]
  have size: "kCheapPrepared + length (contents b) \<le> length (store b)"
    using r lenc ok by (auto simp: buf_ok_def)
  have w: "to_ssize ?w = ?w"
    using size ok by (intro to_ssize_id) (auto simp: buf_ok_def)
  have guard: "kCheapPrepared < to_size (readIndex b)"
    using r ok by (simp add: prependableBytes_ok [unfolded prependableBytes_def])
  have blit: "write_at (store b) (int kCheapPrepared) (contents b) = Inr ?v"
    using size by (simp add: write_at_ok)
  have ok': "buf_ok ?b" using ok size by (simp add: buf_ok_def)
  have cont: "contents ?b = contents b"
    using seg_blit_same [OF size] by (simp add: contents_def [of ?b] nat_add_distrib)
  have readable: "readableBytes b = readableBytes ?b"
    using length_contents [OF ok] length_contents [OF ok'] cont by simp
  have run: "makeSpace b len = Inr ?b"
    using enough guard readable w length_contents [OF ok, symmetric]
    by (simp add: makeSpace_def makeSpace_guard [OF ok fits] read_contents [OF ok] blit Let_def)
  have lencn: "length (contents b) + nat (readIndex b) = nat (writeIndex b)"
    using lenc buf_okD [OF ok] by linarith
  have "writableBytes ?b = length (store b) - (kCheapPrepared + length (contents b))"
    using size by (simp add: writableBytes_ok [OF ok'] nat_add_distrib)
  moreover have "len + kCheapPrepared \<le> length (store b) - nat (writeIndex b) + nat (readIndex b)"
    using enough by (simp add: buf_simps [OF ok])
  moreover have "nat (writeIndex b) \<le> length (store b)" using buf_okD [OF ok] by linarith
  ultimately have "len \<le> writableBytes ?b" using lencn r by linarith
  moreover have "writeIndex ?b \<le> writeIndex b" using lenc r by simp
  ultimately show ?thesis using run ok' cont size by auto
qed

lemma ensureWritableBytes_ok:
  assumes ok: "buf_ok b" and fits: "nat (writeIndex b) + len \<le> size_max"
  shows "\<exists>b'. ensureWritableBytes b len = Inr b' \<and> buf_ok b' \<and> contents b' = contents b
           \<and> len \<le> writableBytes b' \<and> writeIndex b' \<le> writeIndex b
           \<and> (len + kCheapPrepared \<le> writableBytes b + prependableBytes b \<or> len \<le> writableBytes b
                \<longrightarrow> length (store b') = length (store b))"
proof (cases "writableBytes b < len")
  case False
  then show ?thesis using ok by (simp add: ensureWritableBytes_def)
next
  case lack: True
  show ?thesis
  proof (cases "writableBytes b + prependableBytes b < len + kCheapPrepared")
    case True
    with makeSpace_grow [OF ok fits lack] lack show ?thesis
      by (fastforce simp: ensureWritableBytes_def)
  next
    case False
    have "len \<le> size_max" using fits by simp
    from makeSpace_move [OF ok this lack] False lack show ?thesis
      by (fastforce simp: ensureWritableBytes_def)
  qed
qed

lemma buf_append_ok:
  assumes ok: "buf_ok b" and fits: "nat (writeIndex b) + length xs \<le> size_max"
  shows "\<exists>b'. buf_append b xs = Inr b' \<and> buf_ok b' \<and> contents b' = contents b @ xs
           \<and> writeIndex b' \<le> writeIndex b + int (length xs)
           \<and> (length xs + kCheapPrepared \<le> writableBytes b + prependableBytes b
                \<or> length xs \<le> writableBytes b \<longrightarrow> length (store b') = length (store b))"
proof -
  obtain c where c: "ensureWritableBytes b (length xs) = Inr c" "buf_ok c"
      "contents c = contents b" "length xs \<le> writableBytes c" "writeIndex c \<le> writeIndex b"
    and keep: "length xs + kCheapPrepared \<le> writableBytes b + prependableBytes b
                \<or> length xs \<le> writableBytes b \<longrightarrow> length (store c) = length (store b)"
    using ensureWritableBytes_ok [OF ok fits] by blast
  note ci = buf_okD [OF c(2)]
  let ?w = "nat (writeIndex c)"
  let ?v = "blit (store c) ?w xs"
  let ?b = "c\<lparr>store := ?v, writeIndex := writeIndex c + int (length xs)\<rparr>"
  have space: "?w + length xs \<le> length (store c)"
    using c(4) ci by (simp add: writableBytes_ok [OF c(2)])
  have "write_at (store c) (beginWrite c) xs = Inr ?v"
    using space ci by (simp add: beginWrite_def write_at_ok)
  moreover have "to_ssize (writeIndex c + int (length xs)) = writeIndex c + int (length xs)"
    using space ci by (intro to_ssize_id) linarith+
  ultimately have run: "buf_append b xs = Inr ?b"
    by (simp add: buf_append_def c(1) hasWriten_def)
  have ok': "buf_ok ?b" using space ci by (simp add: buf_ok_def)
  have "contents ?b = contents b @ xs" by (simp only: contents_written [OF c(2) space] c(3))
  with run ok' c(5) keep space show ?thesis by auto
qed

lemma buf_append_room:
  assumes "buf_ok b" and "length xs \<le> room b"
  shows "\<exists>b'. buf_append b xs = Inr b' \<and> buf_ok b' \<and> contents b' = contents b @ xs
           \<and> room b \<le> room b' + length xs"
proof -
  have w: "nat (writeIndex b) \<le> size_max" using buf_okD [OF assms(1)] by linarith
  then have "nat (writeIndex b) + length xs \<le> size_max" using assms(2) by (simp add: room_def)
  from buf_append_ok [OF assms(1) this] obtain b' where
    "buf_append b xs = Inr b'" "buf_ok b'" "contents b' = contents b @ xs"
    "writeIndex b' \<le> writeIndex b + int (length xs)" by blast
  moreover from this(4) have "room b \<le> room b' + length xs"
    using w by (simp add: room_def)
  ultimately show ?thesis by blast
qed

text \<open>A growth past the largest vector is refused by the vector, not wrapped around.\<close>

lemma buf_append_length_error:
  assumes ok: "buf_ok b" and long: "size_max < nat (writeIndex b) + length xs"
    and len: "length xs \<le> size_max"
    and small: "writableBytes b + prependableBytes b < length xs + kCheapPrepared"
  shows "buf_append b xs = Inl LengthError"
proof -
  note bi = buf_okD [OF ok]
  have lack: "writableBytes b < length xs"
    using long bi by (simp add: writableBytes_ok [OF ok])
  have "to_size (int (writableBytes b) + int (prependableBytes b))
      = writableBytes b + prependableBytes b"
    using bi by (subst to_size_id) (simp_all add: buf_simps [OF ok] nat_le_iff)
  moreover have "to_size (int (length xs) + int kCheapPrepared) = length xs + kCheapPrepared"
    using len by (subst to_size_id) (auto simp: kCheapPrepared_def)
  moreover have "to_size (writeIndex b + int (length xs)) = nat (writeIndex b) + length xs"
    using len bi by (subst to_size_id) (auto simp: nat_add_distrib)
  ultimately show ?thesis
    using lack small long
    by (simp add: buf_append_def ensureWritableBytes_def makeSpace_def vec_resize_def)
qed

subsection \<open>Prepending and shrinking\<close>

lemma prepend_ok:
  assumes ok: "buf_ok b" and len: "int (length xs) \<le> readIndex b"
  shows "\<exists>b'. prepend b xs = Inr b' \<and> buf_ok b' \<and> contents b' = xs @ contents b"
proof -
  note bi = buf_okD [OF ok]
  let ?r = "readIndex b - int (length xs)"
  let ?v = "blit (store b) (nat ?r) xs"
  let ?b = "b\<lparr>readIndex := ?r, store := ?v\<rparr>"
  have r: "nat ?r + length xs = nat (readIndex b)" using len by simp
  have fits: "nat ?r + length xs \<le> length (store b)" using r bi by linarith
  have "to_ssize ?r = ?r" using len bi by (intro to_ssize_id) linarith+
  moreover have "length xs \<le> prependableBytes b"
    using len by (simp add: prependableBytes_ok [OF ok])
  moreover have "write_at (store b) ?r xs = Inr ?v"
    using len bi by (simp add: write_at_ok)
  ultimately have run: "prepend b xs = Inr ?b" by (simp add: prepend_def Let_def)
  have ok': "buf_ok ?b" using len bi fits by (simp add: buf_ok_def)
  have "contents ?b = seg ?v (nat ?r) (nat (readIndex b)) @ seg ?v (nat (readIndex b)) (nat (writeIndex b))"
    using bi len by (simp add: contents_def [of ?b] seg_append nat_mono)
  also have "seg ?v (nat ?r) (nat (readIndex b)) = xs"
    using seg_blit_same [OF fits] by (simp add: r)
  also have "seg ?v (nat (readIndex b)) (nat (writeIndex b)) = contents b"
    using fits r by (simp add: contents_def seg_blit_after)
  finally show ?thesis using run ok' by blast
qed

lemma shrink_at_start:
  assumes ok: "buf_ok b" and r: "readIndex b = int kCheapPrepared"
    and small: "kCheapPrepared + readableBytes b + reserve \<le> size_max"
  shows "\<exists>b'. shrink b reserve = Inr b' \<and> buf_ok b' \<and> contents b' = contents b
           \<and> writableBytes b' = reserve"
proof -
  note bi = buf_okD [OF ok]
  let ?n = "kCheapPrepared + readableBytes b + reserve"
  let ?v = "blit (replicate ?n (CHR 0x00)) kCheapPrepared (contents b)"
  let ?b = "b\<lparr>store := ?v\<rparr>"
  have n: "to_size (int kCheapPrepared + int (readableBytes b) + int reserve) = ?n"
    using small by (subst to_size_id) (auto simp: nat_add_distrib)
  have fits: "kCheapPrepared + length (contents b) \<le> length (replicate ?n (CHR 0x00))"
    by (simp add: length_contents [OF ok])
  have run: "shrink b reserve = Inr ?b"
    using small fits by (simp add: shrink_def n vec_new_def read_peek [OF ok] write_at_ok)
  have w: "writeIndex b = int (kCheapPrepared + length (contents b))"
    using contents_int [OF ok] r by simp
  have len: "length ?v = ?n" using fits by simp
  have ok': "buf_ok ?b" using w r len small by (simp add: buf_ok_def length_contents [OF ok])
  have "contents ?b = contents b"
    using seg_blit_same [OF fits] by (simp add: contents_def [of ?b] r w nat_add_distrib)
  moreover have "writableBytes ?b = reserve"
    using len by (simp add: writableBytes_ok [OF ok'] w length_contents [OF ok])
  ultimately show ?thesis using run ok' by blast
qed

subsection \<open>Searching for a line end\<close>

text \<open>The first occurrence of a carriage return followed by a line feed.\<close>

fun split_line :: "string \<Rightarrow> (string \<times> string) option" where
  "split_line (c # d # s) =
     (if [c, d] = kCRLF then Some ([], s)
      else map_option (\<lambda>(l, rest). (c # l, rest)) (split_line (d # s)))"
| "split_line s = None"

lemma split_line_Some: "split_line s = Some (l, rest) \<Longrightarrow> s = l @ kCRLF @ rest"
  by (induction s arbitrary: l rule: split_line.induct) (auto split: if_splits simp: kCRLF_def)

lemma split_line_no_cr: "CHR 0x0D \<notin> set l \<Longrightarrow> split_line (l @ kCRLF @ rest) = Some (l, rest)"
proof (induction l)
  case Nil
  then show ?case by (simp add: kCRLF_def)
next
  case (Cons c l)
  then have "split_line (l @ kCRLF @ rest) = Some (l, rest)" "c \<noteq> CHR 0x0D" by auto
  then show ?case by (cases l) (auto simp: kCRLF_def)
qed

lemma search_crlf_split:
  "search_crlf s = (case split_line s of Some (l, _) \<Rightarrow> length l | None \<Rightarrow> length s)"
  by (induction s rule: split_line.induct) (auto split: option.splits)

lemma search_crlf_less: "search_crlf s < length s \<longleftrightarrow> split_line s \<noteq> None"
  using split_line_Some [of s] by (fastforce simp: search_crlf_split kCRLF_def split: option.splits)

lemma findCRLF_ok:
  assumes ok: "buf_ok b"
  shows "findCRLF b = Inr (case split_line (contents b) of
           None \<Rightarrow> None | Some (l, _) \<Rightarrow> Some (peek b + int (length l)))"
proof (cases "split_line (contents b)")
  case None
  then have "search_crlf (contents b) = length (contents b)" by (simp add: search_crlf_split)
  with None contents_int [OF ok] show ?thesis
    by (simp add: findCRLF_def peek_def beginWrite_def read_contents [OF ok] Let_def)
next
  case (Some lr)
  obtain l rest where lr: "lr = (l, rest)" by force
  with Some have s: "search_crlf (contents b) = length l" "length l < length (contents b)"
    using search_crlf_less [of "contents b"] by (auto simp: search_crlf_split)
  with Some lr contents_int [OF ok] show ?thesis
    by (simp add: findCRLF_def peek_def beginWrite_def read_contents [OF ok] Let_def)
qed

subsection \<open>Reading from a descriptor\<close>

lemma readFd_error: "readFd b (Inl errno) = Inr (b, -1, Some errno)"
  by (simp add: readFd_def)

lemma readFd_ok:
  assumes ok: "buf_ok b" and fits: "length (store b) + length xs \<le> size_max"
    and n: "length xs \<le> writableBytes b + extraBuf_size"
  shows "\<exists>b'. readFd b (Inr xs) = Inr (b', int (length xs), None) \<and> buf_ok b'
           \<and> contents b' = contents b @ xs"
proof -
  note bi = buf_okD [OF ok]
  let ?k = "writableBytes b"
  let ?ys = "take ?k xs"
  let ?w = "nat (writeIndex b)"
  let ?v = "blit (store b) ?w ?ys"
  let ?b = "b\<lparr>store := ?v, writeIndex := writeIndex b + int (length ?ys)\<rparr>"
  have space: "?w + length ?ys \<le> length (store b)"
    using bi by (simp add: writableBytes_ok [OF ok])
  have blit: "write_at (store b) (writeIndex b) ?ys = Inr ?v"
    using space bi by (simp add: write_at_ok)
  have ok': "buf_ok ?b" using space bi by (simp add: buf_ok_def)
  have cont: "contents ?b = contents b @ ?ys" by (rule contents_written [OF ok space])
  show ?thesis
  proof (cases "length xs \<le> ?k")
    case True
    then have "to_ssize (writeIndex b + int (length xs)) = writeIndex b + int (length xs)"
      using space bi by (intro to_ssize_id) auto
    with True blit have "readFd b (Inr xs) = Inr (?b, int (length xs), None)"
      by (simp add: readFd_def Let_def)
    with ok' cont True show ?thesis by simp
  next
    case False
    then have full: "writeIndex b + int (length ?ys) = int (length (store b))"
      using bi by (simp add: writableBytes_ok [OF ok] min_def)
    have len: "length ?v = length (store b)" using space by simp
    have "to_ssize (int (length (store b))) = int (length (store b))"
      using bi by (intro to_ssize_id) auto
    then have b: "b\<lparr>store := ?v, writeIndex := to_ssize (int (length ?v))\<rparr> = ?b"
      by (simp only: full len)
    have "nat (writeIndex ?b) = length (store b)"
      by (simp add: full del: length_take)
    then have "nat (writeIndex ?b) + length (drop ?k xs) \<le> size_max"
      using fits by (simp del: length_take)
    from buf_append_ok [OF ok' this] obtain c where c: "buf_append ?b (drop ?k xs) = Inr c"
      "buf_ok c" "contents c = contents ?b @ drop ?k xs" by blast
    have "length xs - ?k \<le> extraBuf_size" using n by linarith
    then have "readFd b (Inr xs) = Inr (c, int (length xs), None)"
      using False c(1) by (simp only: readFd_def Let_def blit b sum.case bnd_Inr if_False) simp
    moreover have "contents c = contents b @ xs" using c(3) cont by simp
    ultimately show ?thesis using c(2) by blast
  qed
qed

section \<open>The interface the clients rely on\<close>

text \<open>A bounded queue of bytes: appending at the back, consuming at the front.\<close>

datatype qop = Put string | Consume nat | Clear

fun queue_step :: "qop \<Rightarrow> string \<Rightarrow> string res" where
  "queue_step (Put xs) q = Inr (q @ xs)"
| "queue_step (Consume n) q = must (n \<le> length q) (Inr (drop n q))"
| "queue_step Clear q = Inr []"

fun total_put :: "qop list \<Rightarrow> nat" where
  "total_put [] = 0"
| "total_put (Put xs # ops) = length xs + total_put ops"
| "total_put (_ # ops) = total_put ops"

fun qop_step :: "('b \<Rightarrow> string \<Rightarrow> 'b res) \<Rightarrow> ('b \<Rightarrow> nat \<Rightarrow> 'b res) \<Rightarrow> ('b \<Rightarrow> 'b)
    \<Rightarrow> qop \<Rightarrow> 'b \<Rightarrow> 'b res" where
  "qop_step put consume clear (Put xs) b = put b xs"
| "qop_step put consume clear (Consume n) b = consume b n"
| "qop_step put consume clear Clear b = Inr (clear b)"

locale byte_queue =
  fixes inv :: "'b \<Rightarrow> bool"
    and bytes :: "'b \<Rightarrow> string"
    and free :: "'b \<Rightarrow> nat"
    and put :: "'b \<Rightarrow> string \<Rightarrow> 'b res"
    and consume :: "'b \<Rightarrow> nat \<Rightarrow> 'b res"
    and clear :: "'b \<Rightarrow> 'b"
  assumes put_ok: "inv b \<Longrightarrow> length xs \<le> free b \<Longrightarrow>
      \<exists>b'. put b xs = Inr b' \<and> inv b' \<and> bytes b' = bytes b @ xs \<and> free b \<le> free b' + length xs"
    and consume_ok: "inv b \<Longrightarrow> n \<le> length (bytes b) \<Longrightarrow>
      \<exists>b'. consume b n = Inr b' \<and> inv b' \<and> bytes b' = drop n (bytes b) \<and> free b \<le> free b'"
    and consume_error: "inv b \<Longrightarrow> length (bytes b) < n \<Longrightarrow> consume b n = Inl AssertFailed"
    and clear_ok: "inv b \<Longrightarrow> inv (clear b) \<and> bytes (clear b) = [] \<and> free b \<le> free (clear b)"
begin

lemma put_all:
  assumes "inv b" and "length (concat xss) \<le> free b"
  shows "\<exists>b'. fold_res (\<lambda>xs b. put b xs) xss b = Inr b' \<and> inv b'
           \<and> bytes b' = bytes b @ concat xss \<and> free b \<le> free b' + length (concat xss)"
  using assms
proof (induction xss arbitrary: b)
  case Nil
  then show ?case by simp
next
  case (Cons xs xss)
  from Cons.prems have "length xs \<le> free b" by simp
  with put_ok [OF Cons.prems(1)] obtain c where c: "put b xs = Inr c" "inv c"
    "bytes c = bytes b @ xs" "free b \<le> free c + length xs" by blast
  with Cons.prems have "length (concat xss) \<le> free c" by simp
  from Cons.IH [OF c(2) this] c show ?case by fastforce
qed

text \<open>One operation: it succeeds or fails with the queue, and what is left of the free space
  covers the puts still to come.\<close>

lemma step_refines:
  assumes inv: "inv b" and free: "total_put (op # ops) \<le> free b"
  shows "case qop_step put consume clear op b of
           Inl e \<Rightarrow> queue_step op (bytes b) = Inl e
         | Inr b' \<Rightarrow> queue_step op (bytes b) = Inr (bytes b') \<and> inv b' \<and> total_put ops \<le> free b'"
proof (cases op)
  case (Put xs)
  with free have "length xs \<le> free b" by simp
  with put_ok [OF inv this] free Put show ?thesis by fastforce
next
  case (Consume n)
  show ?thesis
  proof (cases "n \<le> length (bytes b)")
    case True
    with consume_ok [OF inv this] free Consume show ?thesis by fastforce
  next
    case False
    with consume_error [OF inv, of n] Consume show ?thesis by simp
  qed
next
  case Clear
  with clear_ok [OF inv] free show ?thesis by simp
qed

theorem run_refines:
  assumes "inv b" and "total_put ops \<le> free b"
  shows "case fold_res (qop_step put consume clear) ops b of
           Inl e \<Rightarrow> fold_res queue_step ops (bytes b) = Inl e
         | Inr b' \<Rightarrow> fold_res queue_step ops (bytes b) = Inr (bytes b') \<and> inv b'"
  using assms
proof (induction ops arbitrary: b)
  case Nil
  then show ?case by simp
next
  case (Cons op ops)
  note one = step_refines [OF Cons.prems]
  show ?case
  proof (cases "qop_step put consume clear op b")
    case (Inl e)
    with one show ?thesis by simp
  next
    case (Inr c)
    with one have c: "queue_step op (bytes b) = Inr (bytes c)" "inv c" "total_put ops \<le> free c"
      by simp_all
    from Cons.IH [OF c(2,3)] Inr c(1) show ?thesis by (simp split: sum.splits)
  qed
qed

end

definition buf_op :: "qop \<Rightarrow> buffer \<Rightarrow> buffer res" where
  "buf_op = qop_step buf_append retrieve retrieveAll"

interpretation bq: byte_queue buf_ok contents room buf_append retrieve retrieveAll
proof unfold_locales
  fix b :: buffer and n :: nat
  assume "buf_ok b" and "n \<le> length (contents b)"
  then show "\<exists>b'. retrieve b n = Inr b' \<and> buf_ok b' \<and> contents b' = drop n (contents b)
      \<and> room b \<le> room b'"
    using retrieve_ok [of b n] by (auto simp: room_def)
qed (auto intro: buf_append_room retrieve_too_much retrieveAll_ok)

section \<open>Properties\<close>

text \<open>C9. Any sequence of appends, retrieves and retrieve-alls, from any well-formed buffer and
  within the size of the largest vector, behaves as the same operations on a plain queue of
  bytes: the run fails exactly where the queue has too few bytes to retrieve (and with the
  assertion of \<open>retrieve\<close>), and otherwise the contents are those of the queue and the invariant
  holds. No growth, move of the bytes or index arithmetic is visible.\<close>

theorem buffer_refines_queue:
  assumes "buf_ok b" and "total_put ops \<le> room b"
  shows "case fold_res buf_op ops b of
           Inl e \<Rightarrow> fold_res queue_step ops (contents b) = Inl e
         | Inr b' \<Rightarrow> fold_res queue_step ops (contents b) = Inr (contents b') \<and> buf_ok b'"
  unfolding buf_op_def by (rule bq.run_refines [OF assms])

theorem buffer_refines_queue_witness:
  "case fold_res buf_op [Put ''abcdef'', Consume 4, Put ''gh'', Consume 9] buffer_init of
     Inl e \<Rightarrow> fold_res queue_step [Put ''abcdef'', Consume 4, Put ''gh'', Consume 9] [] = Inl e
   | Inr b' \<Rightarrow> False"
  using buffer_refines_queue [OF buf_ok_init,
      of "[Put ''abcdef'', Consume 4, Put ''gh'', Consume 9]"]
  by (simp add: contents_init room_init split: sum.splits)

text \<open>\<open>append\<close> never fails an assertion and never writes outside the vector on a well-formed
  buffer whose write index plus the new bytes stays within the largest vector; the new bytes end
  up behind the old contents, and the vector keeps its size whenever the bytes fit behind the
  write index or, moving the contents down, leaving the 8 cheap bytes.\<close>

theorem append_contents_and_growth:
  assumes "buf_ok b" and "nat (writeIndex b) + length xs \<le> size_max"
  shows "\<exists>b'. buf_append b xs = Inr b' \<and> buf_ok b' \<and> contents b' = contents b @ xs
           \<and> (length xs + kCheapPrepared \<le> writableBytes b + prependableBytes b
                \<or> length xs \<le> writableBytes b \<longrightarrow> length (store b') = length (store b))"
  using buf_append_ok [OF assms] by blast

definition sample_buffer :: buffer where
  "sample_buffer = \<lparr>store = ''xxxxxxxxxxxxxxxxxxabcd'', readIndex = 18, writeIndex = 22\<rparr>"

lemma sample_buffer_ok: "buf_ok sample_buffer"
  by (simp add: sample_buffer_def buf_ok_def kCheapPrepared_def)

theorem append_contents_and_growth_witness:
  "\<exists>b'. buf_append sample_buffer ''efgh'' = Inr b' \<and> contents b' = ''abcdefgh''
     \<and> length (store b') = 22"
proof -
  have "nat (writeIndex sample_buffer) + length ''efgh'' \<le> size_max"
    by (simp add: sample_buffer_def)
  from append_contents_and_growth [OF sample_buffer_ok this] show ?thesis
    by (auto simp: buf_simps [OF sample_buffer_ok] kCheapPrepared_def)
      (auto simp: sample_buffer_def contents_def seg_def)
qed

text \<open>\<open>readFd\<close> appends exactly the bytes the kernel delivered, in order, whether they fit in
  the buffer or spill into the block on the stack, and returns their number; an error of
  \<open>readv\<close> leaves the buffer alone and reports \<open>errno\<close>.\<close>

theorem readFd_appends:
  assumes "buf_ok b" and "length (store b) + length xs \<le> size_max"
    and "length xs \<le> writableBytes b + extraBuf_size"
  shows "(\<exists>b'. readFd b (Inr xs) = Inr (b', int (length xs), None) \<and> buf_ok b'
            \<and> contents b' = contents b @ xs)
       \<and> readFd b (Inl errno) = Inr (b, -1, Some errno)"
  using readFd_ok [OF assms] readFd_error by blast

theorem readFd_appends_witness:
  "\<exists>b'. readFd sample_buffer (Inr ''efgh'') = Inr (b', 4, None) \<and> contents b' = ''abcdefgh''"
proof -
  have "length (store sample_buffer) + length ''efgh'' \<le> size_max"
    "length ''efgh'' \<le> writableBytes sample_buffer + extraBuf_size"
    by (simp_all add: sample_buffer_def extraBuf_size_def)
  from readFd_appends [OF sample_buffer_ok this] show ?thesis
    by (auto simp: sample_buffer_def contents_def seg_def)
qed

text \<open>\<open>findCRLF\<close> finds the first carriage return and line feed of the contents: with the
  contents split there, its result is the offset of the pair, consuming up to two bytes behind it
  leaves the rest of the contents, and without a pair the result is the null pointer.\<close>

theorem findCRLF_first:
  assumes "buf_ok b"
  shows "case split_line (contents b) of
           None \<Rightarrow> findCRLF b = Inr None
         | Some (l, rest) \<Rightarrow> findCRLF b = Inr (Some (peek b + int (length l)))
             \<and> contents b = l @ kCRLF @ rest
             \<and> (\<exists>b'. retrieveUntil b (peek b + int (length l) + 2) = Inr b' \<and> contents b' = rest)"
proof (cases "split_line (contents b)")
  case None
  then show ?thesis by (simp add: findCRLF_ok [OF assms])
next
  case (Some lr)
  obtain l rest where lr: "lr = (l, rest)" by force
  from Some lr have c: "contents b = l @ kCRLF @ rest" by (auto dest: split_line_Some)
  then have "length l + 2 \<le> length (contents b)" by (simp add: kCRLF_def)
  from retrieveUntil_ok [OF assms this] c have
    "\<exists>b'. retrieveUntil b (peek b + int (length l) + 2) = Inr b' \<and> contents b' = rest"
    by (auto simp: kCRLF_def ac_simps)
  with Some lr c show ?thesis by (simp add: findCRLF_ok [OF assms])
qed

theorem findCRLF_first_witness:
  "\<exists>b. contents b = [CHR ''a'', CHR 0x0D, CHR 0x0A, CHR ''b''] \<and> findCRLF b = Inr (Some 5)"
proof -
  let ?b = "\<lparr>store = [CHR ''x'', CHR ''x'', CHR ''x'', CHR ''x'', CHR ''a'', CHR 0x0D, CHR 0x0A,
      CHR ''b'', CHR ''x''], readIndex = 4, writeIndex = 8\<rparr>"
  have ok: "buf_ok ?b" by (simp add: buf_ok_def kCheapPrepared_def)
  have c: "contents ?b = [CHR ''a'', CHR 0x0D, CHR 0x0A, CHR ''b'']"
    by (simp add: contents_def seg_def)
  from findCRLF_first [OF ok] have "findCRLF ?b = Inr (Some 5)"
    by (simp add: c kCRLF_def peek_def)
  with c show ?thesis by blast
qed

text \<open>The growth of a buffer for any number of bytes an object can have.\<close>

lemma makeSpace_keeps:
  assumes ok: "buf_ok b" and len: "n \<le> size_max" and lack: "writableBytes b < n" and r: "makeSpace b n = Inr b'"
  shows "buf_ok b'"
proof (cases "writableBytes b + prependableBytes b < n + kCheapPrepared")
  case False
  with makeSpace_move [OF ok len lack] r show ?thesis by auto
next
  case True
  show ?thesis
  proof (cases "nat (writeIndex b) + n \<le> size_max")
    case fits: True
    from makeSpace_grow [OF ok fits lack True] r show ?thesis by auto
  next
    case False
    have "to_size (writeIndex b + int n) = nat (writeIndex b) + n"
      using len buf_okD [OF ok] by (subst to_size_id) (auto simp: nat_add_distrib)
    with False True r show ?thesis by (simp add: makeSpace_def makeSpace_guard [OF ok len] vec_resize_def)
  qed
qed

lemma ensureWritableBytes_keeps:
  assumes "buf_ok b" and "n \<le> size_max" and "ensureWritableBytes b n = Inr b'"
  shows "buf_ok b' \<and> n \<le> writableBytes b'"
  using assms makeSpace_keeps [OF assms(1,2)]
  by (cases "writableBytes b < n") (auto simp: ensureWritableBytes_def res_simps)

lemma buf_append_keeps:
  assumes ok: "buf_ok b" and len: "length xs \<le> size_max" and r: "buf_append b xs = Inr b'"
  shows "buf_ok b'"
proof -
  from r obtain c where c: "ensureWritableBytes b (length xs) = Inr c" by (auto simp: buf_append_def res_simps)
  note k = ensureWritableBytes_keeps [OF ok len c]
  then have "ensureWritableBytes c (length xs) = Inr c" by (simp add: ensureWritableBytes_def)
  then have "buf_append c xs = buf_append b xs" by (simp add: buf_append_def c)
  moreover have "nat (writeIndex c) + length xs \<le> size_max"
  proof -
    have "nat (writeIndex c) \<le> length (store c)" using buf_okD [of c] k by linarith
    moreover have "length xs \<le> length (store c) - nat (writeIndex c)" using k writableBytes_ok [of c] by simp
    ultimately show ?thesis using k buf_okD(4) [of c] by linarith
  qed
  ultimately show ?thesis using buf_append_ok [of c xs] k r by auto
qed

lemma hasWriten_keeps:
  assumes ok: "buf_ok b" and n: "n \<le> size_max"
  shows "buf_ok (hasWriten b n) \<longleftrightarrow> n \<le> writableBytes b"
proof (cases "writeIndex b + int n < 9223372036854775808")
  case True
  then have "to_ssize (writeIndex b + int n) = writeIndex b + int n"
    using buf_okD [OF ok] by (intro to_ssize_id) linarith+
  then show ?thesis using buf_okD [OF ok] by (auto simp: hasWriten_def buf_ok_def writableBytes_ok [OF ok])
next
  case False
  let ?x = "writeIndex b + int n + 9223372036854775808"
  have "0 \<le> ?x - 18446744073709551616" "?x - 18446744073709551616 < 9223372036854775808"
    using False n buf_okD [OF ok] by linarith+
  then have "(?x - 18446744073709551616) mod 18446744073709551616 < 9223372036854775808" by simp
  then have "to_ssize (writeIndex b + int n) < 0" by (simp only: to_ssize_def minus_mod_self2)
  moreover have "writableBytes b < n" using False buf_okD [OF ok] by (simp add: writableBytes_ok [OF ok])
  ultimately show ?thesis by (simp add: hasWriten_def buf_ok_def)
qed

lemma readFd_keeps:
  assumes ok: "buf_ok b" and r: "readFd b answer = Inr (b', n, e)"
  shows "buf_ok b'"
proof (cases answer)
  case (Inl errno)
  with ok r show ?thesis by (simp add: readFd_error)
next
  case (Inr xs)
  note bi = buf_okD [OF ok]
  let ?k = "writableBytes b"
  let ?v = "blit (store b) (nat (writeIndex b)) (take ?k xs)"
  have space: "nat (writeIndex b) + length (take ?k xs) \<le> length (store b)"
    using bi by (simp add: writableBytes_ok [OF ok])
  then have v: "write_at (store b) (writeIndex b) (take ?k xs) = Inr ?v" "length ?v = length (store b)"
    using bi by (simp_all add: write_at_ok)
  show ?thesis
  proof (cases "length xs \<le> ?k")
    case True
    then have "to_ssize (writeIndex b + int (length xs)) = writeIndex b + int (length xs)"
      using space bi by (intro to_ssize_id) auto
    then show ?thesis using True r v space bi ok by (auto simp: readFd_def Inr Let_def buf_ok_def)
  next
    case False
    let ?b = "b\<lparr>store := ?v, writeIndex := to_ssize (int (length ?v))\<rparr>"
    have "to_ssize (int (length ?v)) = int (length (store b))" unfolding v(2) using bi by (intro to_ssize_id) auto
    then have "buf_ok ?b" using ok v(2) by (simp add: buf_ok_def)
    moreover have "buf_append ?b (drop ?k xs) = Inr b'" "length (drop ?k xs) \<le> size_max"
      using False r v(1) by (auto simp: readFd_def Inr Let_def res_simps valid_or_def extraBuf_size_def split: if_splits)
    ultimately show ?thesis using buf_append_keeps by blast
  qed
qed

lemma retrieve_keeps: "buf_ok b \<Longrightarrow> retrieve b n = Inr b' \<Longrightarrow> buf_ok b'"
  using retrieve_ok [of b n] retrieve_too_much [of b n] by (cases "n \<le> length (contents b)") auto

lemma retrieveUntil_keeps:
  assumes ok: "buf_ok b" and r: "retrieveUntil b e = Inr b'"
  shows "buf_ok b'"
  using r by (auto simp: retrieveUntil_def res_simps intro: retrieve_keeps [OF ok])

lemma prepend_keeps:
  assumes ok: "buf_ok b" and r: "prepend b xs = Inr b'"
  shows "buf_ok b'"
proof -
  have "length xs \<le> prependableBytes b" using r by (auto simp: prepend_def res_simps)
  then have "int (length xs) \<le> readIndex b" using buf_okD(1) [OF ok] by (simp add: prependableBytes_ok [OF ok])
  from prepend_ok [OF ok this] r show ?thesis by auto
qed

lemma shrink_keeps_iff:
  assumes ok: "buf_ok b" and small: "kCheapPrepared + readableBytes b + n \<le> size_max"
  shows "\<exists>b'. shrink b n = Inr b' \<and> (buf_ok b' \<longleftrightarrow> readIndex b \<le> int (kCheapPrepared + n))"
proof -
  note bi = buf_okD [OF ok]
  let ?n = "kCheapPrepared + readableBytes b + n"
  have n: "to_size (int kCheapPrepared + int (readableBytes b) + int n) = ?n"
    using small by (subst to_size_id) (auto simp: nat_add_distrib)
  let ?b = "b\<lparr>store := blit (replicate ?n (CHR 0x00)) kCheapPrepared (contents b)\<rparr>"
  have "kCheapPrepared + length (contents b) \<le> length (replicate ?n (CHR 0x00))"
    by (simp add: length_contents [OF ok])
  then have "shrink b n = Inr ?b" "length (store ?b) = ?n"
    using small by (simp_all add: shrink_def n vec_new_def read_peek [OF ok] write_at_ok)
  moreover have "int (readableBytes b) = writeIndex b - readIndex b" using bi by (simp add: readableBytes_ok [OF ok])
  ultimately show ?thesis
    using bi small by (intro exI [of _ ?b]) (auto simp: buf_ok_def)
qed

text \<open>C21. A new buffer is well formed, that is its read index is not behind its write index and both are
  inside the vector, and every operation that changes a buffer keeps it so whenever it returns:
  \<open>retrieve\<close>, \<open>retrieveUntil\<close>, \<open>retrieveAll\<close>, \<open>retrieveAsString\<close>, \<open>prepend\<close> and \<open>readFd\<close> with any
  argument, \<open>swap\<close> with another such buffer, and \<open>makeSpace\<close> (where it is called, with too little space),
  \<open>ensureWritableBytes\<close> and \<open>append\<close> with any size an object can have, even if the vector cannot grow to
  it. There are two exceptions. \<open>hasWriten\<close> keeps the buffer well formed exactly if no more bytes are
  claimed than were writable. And \<open>shrink\<close> copies the contents to a new vector and keeps the old indices,
  so that the buffer it leaves is well formed exactly if the read index was at most 8 plus the space
  that was asked for.\<close>

theorem buffer_well_formed:
  assumes "buf_ok b"
  shows "(\<forall>b'. buffer_new = Inr b' \<longrightarrow> buf_ok b')
    \<and> (\<forall>n b'. retrieve b n = Inr b' \<longrightarrow> buf_ok b') \<and> (\<forall>e b'. retrieveUntil b e = Inr b' \<longrightarrow> buf_ok b')
    \<and> buf_ok (retrieveAll b) \<and> (\<forall>str b'. retrieveAsString b = Inr (str, b') \<longrightarrow> buf_ok b')
    \<and> (\<forall>n b'. n \<le> size_max \<longrightarrow> writableBytes b < n \<longrightarrow> makeSpace b n = Inr b' \<longrightarrow> buf_ok b')
    \<and> (\<forall>n b'. n \<le> size_max \<longrightarrow> ensureWritableBytes b n = Inr b' \<longrightarrow> buf_ok b' \<and> n \<le> writableBytes b')
    \<and> (\<forall>xs b'. length xs \<le> size_max \<longrightarrow> buf_append b xs = Inr b' \<longrightarrow> buf_ok b')
    \<and> (\<forall>xs b'. prepend b xs = Inr b' \<longrightarrow> buf_ok b')
    \<and> (\<forall>answer b' n e. readFd b answer = Inr (b', n, e) \<longrightarrow> buf_ok b')
    \<and> (\<forall>rhs. buf_ok rhs \<longrightarrow> buf_ok (fst (buffer_swap b rhs)) \<and> buf_ok (snd (buffer_swap b rhs)))
    \<and> (\<forall>n \<le> size_max. buf_ok (hasWriten b n) \<longleftrightarrow> n \<le> writableBytes b)
    \<and> (\<forall>n. kCheapPrepared + readableBytes b + n \<le> size_max \<longrightarrow>
         (\<exists>b'. shrink b n = Inr b' \<and> (buf_ok b' \<longleftrightarrow> readIndex b \<le> int (kCheapPrepared + n))))"
proof -
  have "buf_ok (fst (buffer_swap b rhs)) \<and> buf_ok (snd (buffer_swap b rhs))" if "buf_ok rhs" for rhs
    using assms that by (simp add: buffer_swap_def buf_ok_def)
  moreover have "buf_ok b'" if "buffer_new = Inr b'" for b' using that buf_ok_init by (simp add: buffer_new_eq)
  moreover have "buf_ok b'" if "retrieveAsString b = Inr (str, b')" for str b'
    using that retrieveAll_ok(1) [OF assms] by (simp add: retrieveAsString_ok [OF assms])
  ultimately show ?thesis
    using retrieve_keeps [OF assms] retrieveUntil_keeps [OF assms] retrieveAll_ok(1) [OF assms] makeSpace_keeps [OF assms]
      ensureWritableBytes_keeps [OF assms] buf_append_keeps [OF assms] prepend_keeps [OF assms] readFd_keeps [OF assms]
      hasWriten_keeps [OF assms] shrink_keeps_iff [OF assms]
    by (intro conjI allI impI) blast+
qed

theorem buffer_well_formed_witness:
  "buf_ok (retrieveAll sample_buffer) \<and> \<not> buf_ok (hasWriten sample_buffer 1000)
    \<and> (\<exists>b'. shrink sample_buffer 4 = Inr b' \<and> \<not> buf_ok b')"
proof -
  have "readableBytes sample_buffer = 4" unfolding readableBytes_ok [OF sample_buffer_ok] by (simp add: sample_buffer_def)
  then have "kCheapPrepared + readableBytes sample_buffer + 4 \<le> size_max" by (simp add: kCheapPrepared_def)
  moreover have "\<forall>n. kCheapPrepared + readableBytes sample_buffer + n \<le> size_max \<longrightarrow>
      (\<exists>b'. shrink sample_buffer n = Inr b' \<and> (buf_ok b' \<longleftrightarrow> readIndex sample_buffer \<le> int (kCheapPrepared + n)))"
    using buffer_well_formed [OF sample_buffer_ok] by (elim conjE)
  ultimately obtain b' where
    "shrink sample_buffer 4 = Inr b'" "buf_ok b' \<longleftrightarrow> readIndex sample_buffer \<le> int (kCheapPrepared + 4)" by blast
  moreover have "\<not> readIndex sample_buffer \<le> int (kCheapPrepared + 4)" by (simp add: sample_buffer_def kCheapPrepared_def)
  moreover have "\<not> 1000 \<le> writableBytes sample_buffer"
    unfolding writableBytes_ok [OF sample_buffer_ok] by (simp add: sample_buffer_def)
  then have "\<not> buf_ok (hasWriten sample_buffer 1000)" using buffer_well_formed [OF sample_buffer_ok] by simp
  moreover have "buf_ok (retrieveAll sample_buffer)" using buffer_well_formed [OF sample_buffer_ok] by (elim conjE)
  ultimately show ?thesis by blast
qed

end
