(* ===== verification/Logging.thy ===== *)
theory Logging
  imports Sockets Buffer
begin

text \<open>
  The logger of src/logging.h and src/logging.cpp: how \<open>record\<close> builds a line in its 1024 bytes, and how
  the log file is rotated. The formatted message, the time of day, \<open>localtime_r\<close>, the \<open>timezone\<close> of
  the C library and the number of the thread are arguments. The calls of the logging macros in the
  other components are left out of their models.
\<close>

section \<open>The model\<close>

record logger =
  lg_level :: nat
  lg_fd :: int
  lg_rotateInterval :: int
  lg_lastRotate :: int
  lg_fileName :: string

record log_world = sock_world +
  lw_logger :: logger

text \<open>The levels, and their names.\<close>

definition LOG_FATAL :: nat where "LOG_FATAL = 5"

definition LOG_ALL :: nat where "LOG_ALL = 6"

definition levelStr :: "string list" where
  "levelStr = [''TRACE'', ''DEBUG'', ''INFO'', ''WRAN'', ''ERROR'', ''FATAL'', ''ALL'']"

definition upd_logger :: "(logger \<Rightarrow> logger) \<Rightarrow> 'z log_world_scheme \<Rightarrow> 'z log_world_scheme" where
  "upd_logger f s = s\<lparr>lw_logger := f (lw_logger s)\<rparr>"

definition logger_new :: "int \<Rightarrow> logger" where
  "logger_new now = \<lparr>lg_level = 0, lg_fd = -1, lg_rotateInterval = 86400, lg_lastRotate = now, lg_fileName = []\<rparr>"

definition logger_destroy :: "kernel \<Rightarrow> 'z log_world_scheme \<Rightarrow> 'z log_world_scheme" where
  "logger_destroy K s = (if lg_fd (lw_logger s) \<noteq> -1 then sys_close K (lg_fd (lw_logger s)) s else s)"

definition setLogLevel :: "nat \<Rightarrow> logger \<Rightarrow> logger" where
  "setLogLevel level lg = lg\<lparr>lg_level := min level LOG_ALL\<rparr>"

definition setRotateInterval :: "int \<Rightarrow> logger \<Rightarrow> logger" where
  "setRotateInterval rotateInterval lg = lg\<lparr>lg_rotateInterval := rotateInterval\<rparr>"

definition getLogLevel :: "logger \<Rightarrow> nat" where
  "getLogLevel lg = lg_level lg"

definition setFileName :: "kernel \<Rightarrow> string \<Rightarrow> 'z log_world_scheme \<Rightarrow> 'z log_world_scheme" where
  "setFileName K fileName s =
     (let s = (if length fileName \<noteq> 0 then upd_logger (\<lambda>lg. lg\<lparr>lg_fileName := fileName\<rparr>) s else s) in
      case syscall K (SysOpen (lg_fileName (lw_logger s))) s of (a, s) \<Rightarrow>
      let fd = an_ret a in
      if lg_fd (lw_logger s) = -1 then upd_logger (\<lambda>lg. lg\<lparr>lg_fd := fd\<rparr>) s
      else sys_close K fd (snd (syscall K (SysDup2 fd (lg_fd (lw_logger s))) s)))"

definition rotated_name :: "string \<Rightarrow> tm \<Rightarrow> string" where
  "rotated_name name t = snprintf 1024 (name @ ''.'' @ dec_int (tm_year t + 1900) @ dec_pad 2 (tm_mon t + 1)
     @ dec_pad 2 (tm_mday t) @ dec_pad 2 (tm_hour t) @ dec_pad 2 (tm_min t))"

definition div_long :: "int \<Rightarrow> int \<Rightarrow> int res" where
  "div_long a b = (if b = 0 then Inl DivideByZero else Inr (c_div a b))"

definition RotateFile ::
  "kernel \<Rightarrow> (int \<Rightarrow> tm) \<Rightarrow> int \<Rightarrow> int \<Rightarrow> 'z log_world_scheme \<Rightarrow> 'z log_world_scheme res" where
  "RotateFile K localtime timezone nowTime s =
     (let lg = lw_logger s in
      if length (lg_fileName lg) = 0 then Inr s
      else
        bnd (div_long (nowTime - timezone) (lg_rotateInterval lg)) (\<lambda>here.
        bnd (div_long (lg_lastRotate lg - timezone) (lg_rotateInterval lg)) (\<lambda>last.
        if here = last then Inr s
        else if here = last then Inr s
        else
          (let s = upd_logger (\<lambda>lg. lg\<lparr>lg_lastRotate := nowTime\<rparr>) s;
               newName = rotated_name (lg_fileName lg) (localtime nowTime) in
           case syscall K (SysRename (lg_fileName lg) newName) s of (err, s) \<Rightarrow>
           if an_ret err \<noteq> 0 then Inr s
           else
             (case syscall K (SysOpen (lg_fileName lg)) s of (a, s) \<Rightarrow>
              if an_ret a < 0 then Inr s
              else Inr (sys_close K (an_ret a) (snd (syscall K (SysDup2 (an_ret a) (lg_fd lg)) s))))))))"

subsection \<open>A line of the log\<close>

fun hex :: "nat \<Rightarrow> string" where
  "hex n = (if n < 16 then [''0123456789abcdef'' ! n] else hex (n div 16) @ [''0123456789abcdef'' ! (n mod 16)])"

declare hex.simps [simp del]

definition log_header :: "tm \<Rightarrow> int \<Rightarrow> nat \<Rightarrow> string \<Rightarrow> string \<Rightarrow> int \<Rightarrow> string" where
  "log_header t usec tid level file line =
     dec_pad 4 (tm_year t + 1900) @ ''/'' @ dec_pad 2 (tm_mon t + 1) @ ''/'' @ dec_pad 2 (tm_mday t) @ ''-''
   @ dec_pad 2 (tm_hour t) @ '':'' @ dec_pad 2 (tm_min t) @ '':'' @ dec_pad 2 (tm_sec t) @ '':'' @ dec_pad 6 usec @ '' ''
   @ hex tid @ '' '' @ level @ '' '' @ file @ '':'' @ dec_int line @ ''  ''"

text \<open>\<open>snprintf\<close> into the buffer at an offset: nothing if the size is 0, otherwise the text cut to the size
  and a zero byte.\<close>

definition print_at :: "string \<Rightarrow> nat \<Rightarrow> nat \<Rightarrow> string \<Rightarrow> string res" where
  "print_at buf pb n text =
     (if n = 0 then Inr buf else write_at buf (int pb) (take (n - 1) text @ [CHR 0x00]))"

text \<open>The loop \<open>while(*--pb == '\n')\<close>.\<close>

fun back_over_newlines :: "string \<Rightarrow> nat \<Rightarrow> nat res" where
  "back_over_newlines buf 0 = Inl BadPointer"
| "back_over_newlines buf (Suc i) =
     valid_or (i < length buf) (if buf ! i = CHR 0x0A then back_over_newlines buf i else Inr i)"

definition log_line :: "string \<Rightarrow> string \<Rightarrow> string \<Rightarrow> string res" where
  "log_line buf header message =
     bnd (print_at buf 0 1024 header) (\<lambda>buf.
     let pb = length header in
     bnd (print_at buf pb (to_size (1024 - int pb)) message) (\<lambda>buf.
     let pb = pb + length message;
         pb = min pb (1024 - 2) in
     bnd (back_over_newlines buf pb) (\<lambda>pb.
     let pb = Suc pb in
     bnd (write_at buf (int pb) [CHR 0x0A]) (\<lambda>buf.
     let pb = Suc pb in
     bnd (write_at buf (int pb) [CHR 0x00]) (\<lambda>buf.
     read_range buf 0 (int pb))))))"

definition log_record ::
  "kernel \<Rightarrow> (int \<Rightarrow> tm) \<Rightarrow> int \<Rightarrow> int \<Rightarrow> int \<Rightarrow> nat \<Rightarrow> string \<Rightarrow> nat \<Rightarrow> string \<Rightarrow> int \<Rightarrow> string
    \<Rightarrow> 'z log_world_scheme \<Rightarrow> 'z log_world_scheme res" where
  "log_record K localtime timezone now usec tid buf level file line message s =
     bnd (RotateFile K localtime timezone now s) (\<lambda>s.
     valid_or (level < length levelStr)
     (bnd (log_line buf (log_header (localtime now) usec tid (levelStr ! level) file line) message) (\<lambda>text.
      let fd = (if lg_fd (lw_logger s) = -1 then 1 else lg_fd (lw_logger s)) in
      Inr (snd (syscall K (SysWrite fd text) s)))))"

text \<open>The macros: \<open>hlog\<close> compares the levels, \<open>log_fatal\<close> ends the program.\<close>

definition hlog :: "nat \<Rightarrow> ('z log_world_scheme \<Rightarrow> 'z log_world_scheme res) \<Rightarrow> 'z log_world_scheme \<Rightarrow> 'z log_world_scheme res" where
  "hlog level rec s = (if level \<ge> getLogLevel (lw_logger s) then rec s else Inr s)"

definition log_fatal :: "('z log_world_scheme \<Rightarrow> 'z log_world_scheme res) \<Rightarrow> 'z log_world_scheme \<Rightarrow> 'z log_world_scheme res" where
  "log_fatal rec s = bnd (hlog LOG_FATAL rec s) (\<lambda>_. Inl ExitFailure)"

section \<open>A line fits and ends once\<close>

definition strip_newlines :: "string \<Rightarrow> string" where
  "strip_newlines xs = rev (dropWhile (\<lambda>c. c = CHR 0x0A) (rev xs))"

lemma strip_newlines_snoc: "strip_newlines (xs @ [c]) = (if c = CHR 0x0A then strip_newlines xs else xs @ [c])"
  by (simp add: strip_newlines_def)

lemma strip_newlines_split: "\<exists>ys. xs = strip_newlines xs @ ys"
  unfolding strip_newlines_def by (metis rev_append rev_rev_ident takeWhile_dropWhile_id)

lemma strip_newlines_prefix: "take (length (strip_newlines xs)) xs = strip_newlines xs" "length (strip_newlines xs) \<le> length xs"
proof -
  from strip_newlines_split [of xs] obtain ys where e: "xs = strip_newlines xs @ ys" by blast
  show "take (length (strip_newlines xs)) xs = strip_newlines xs" using e by (metis append_eq_conv_conj)
  show "length (strip_newlines xs) \<le> length xs" using e by (metis length_append le_add1)
qed

lemma strip_newlines_nonempty: "xs \<noteq> [] \<Longrightarrow> hd xs \<noteq> CHR 0x0A \<Longrightarrow> strip_newlines xs \<noteq> []"
proof
  assume ne: "xs \<noteq> []" and h: "hd xs \<noteq> CHR 0x0A" and "strip_newlines xs = []"
  then have "\<forall>x \<in> set (rev xs). x = CHR 0x0A" unfolding strip_newlines_def dropWhile_eq_Nil_conv [symmetric] by simp
  then show False using hd_in_set [OF ne] h unfolding set_rev by blast
qed

lemma strip_newlines_last: "strip_newlines xs \<noteq> [] \<Longrightarrow> last (strip_newlines xs) \<noteq> CHR 0x0A"
  using hd_dropWhile [of "\<lambda>c. c = CHR 0x0A" "rev xs"] by (simp add: strip_newlines_def last_rev)

lemma back_over_newlines_eq:
  "n \<le> length b \<Longrightarrow> strip_newlines (take n b) \<noteq> [] \<Longrightarrow>
    back_over_newlines b n = Inr (length (strip_newlines (take n b)) - 1)"
proof (induction n)
  case 0
  then show ?case by (simp add: strip_newlines_def)
next
  case (Suc n)
  then have "take (Suc n) b = take n b @ [b ! n]" by (simp add: take_Suc_conv_app_nth)
  then show ?case using Suc by (auto simp: strip_newlines_snoc)
qed

lemma write_at_take:
  "i + length xs \<le> length b \<Longrightarrow> \<exists>b'. write_at b (int i) xs = Inr b' \<and> length b' = length b \<and> take (i + length xs) b' = take i b @ xs"
  by (simp add: write_at_ok blit_def)

lemma take_shorter: "m \<le> k \<Longrightarrow> take m xs = take m (take k xs)"
  by (simp add: min_def)

lemma take_within: "m \<le> length xs \<Longrightarrow> take m (xs @ ys) = take m xs"
  by simp

lemma print_at_take:
  assumes n: "i + n = length b" and m: "m \<le> i + min (n - 1) (length xs)"
  shows "\<exists>b'. print_at b i n xs = Inr b' \<and> length b' = length b \<and> take m b' = take m (take i b @ xs)"
proof (cases "n = 0")
  case True
  then show ?thesis using n m by (simp add: print_at_def)
next
  case False
  let ?t = "take (n - 1) xs"
  have "i + length (?t @ [CHR 0x00]) \<le> length b" using False n by auto
  from write_at_take [OF this] obtain b' where b': "write_at b (int i) (?t @ [CHR 0x00]) = Inr b'" "length b' = length b"
    "take (i + length (?t @ [CHR 0x00])) b' = take i b @ ?t @ [CHR 0x00]" by blast
  have i: "length (take i b) = i" using n by simp
  have mt: "m - i \<le> length ?t" "m - i \<le> n - 1" using m by auto
  have "take m b' = take m (take (i + length (?t @ [CHR 0x00])) b')" using m by (intro take_shorter) auto
  also have "\<dots> = take m (take i b) @ take (m - i) ?t"
    unfolding b'(3) take_append i by (simp only: take_within [OF mt(1), of "[CHR 0x00]", unfolded take_append])
  also have "\<dots> = take m (take i b @ xs)" unfolding take_append i using mt(2) by (simp add: min_absorb1)
  finally show ?thesis using b'(1,2) False by (simp add: print_at_def)
qed

text \<open>What the two prints leave at the start of the buffer, and what is returned after them.\<close>

lemma line_printed:
  assumes "length buf = 1024" and fits: "length header \<le> 1024"
  shows "\<exists>b1 b2. print_at buf 0 1024 header = Inr b1
    \<and> print_at b1 (length header) (to_size (1024 - int (length header))) message = Inr b2 \<and> length b2 = 1024
    \<and> take (min (length header + length message) 1022) b2 = take 1022 (header @ message)"
proof -
  let ?n = "length header" and ?P = "min (length header + length message) 1022"
  let ?m = "min 1023 ?n"
  from print_at_take [of 0 1024 buf ?m header] assms(1) obtain b1 where
    b1: "print_at buf 0 1024 header = Inr b1" "length b1 = 1024" "take ?m b1 = take ?m header" by auto
  have size: "to_size (1024 - int ?n) = 1024 - ?n" using fits by (subst to_size_id) auto
  have P: "?P \<le> ?n + min (1024 - ?n - 1) (length message)" using fits by auto
  from print_at_take [of ?n "1024 - ?n" b1, OF _ P] fits b1(2) obtain b2 where
    b2: "print_at b1 ?n (1024 - ?n) message = Inr b2" "length b2 = 1024" "take ?P b2 = take ?P (take ?n b1 @ message)" by auto
  have "take ?P b2 = take ?P (header @ message)"
  proof (cases "?n \<le> 1023")
    case True
    then have "take ?n b1 = header" using b1(3) by (simp add: min_absorb2)
    then show ?thesis using b2(3) by simp
  next
    case False
    then have n: "?n = 1024" using fits by simp
    have "take 1023 b1 = take 1023 header" using b1(3) by (simp add: n)
    then have "take 1022 (take 1023 b1) = take 1022 (take 1023 header)" by (rule arg_cong)
    then have "take 1022 b1 = take 1022 header" by simp
    then show ?thesis using b2(3) b1(2) by (simp add: n)
  qed
  then have "take ?P b2 = take 1022 (header @ message)" by (simp add: min_def)
  then show ?thesis using b1(1) b2(1,2) size by simp
qed

lemma line_closed:
  assumes b: "length b = 1024" "0 < length xs" "length xs \<le> 1022" and pre: "take (length xs) b = xs"
  shows "bnd (write_at b (int (length xs)) [CHR 0x0A]) (\<lambda>b. bnd (write_at b (int (Suc (length xs))) [CHR 0x00])
    (\<lambda>b. read_range b 0 (int (Suc (length xs))))) = Inr (xs @ [CHR 0x0A])"
proof -
  have "length xs + length [CHR 0x0A] \<le> length b" using b by simp
  from write_at_take [OF this] pre b(1) obtain b3 where
    b3: "write_at b (int (length xs)) [CHR 0x0A] = Inr b3" "length b3 = 1024" "take (Suc (length xs)) b3 = xs @ [CHR 0x0A]"
    by auto
  have "Suc (length xs) + length [CHR 0x00] \<le> length b3" using b(3) b3(2) by simp
  from write_at_take [OF this] b3(2) obtain b4 where
    b4: "write_at b3 (int (Suc (length xs))) [CHR 0x00] = Inr b4" "length b4 = 1024"
      "take (Suc (length xs) + 1) b4 = take (Suc (length xs)) b3 @ [CHR 0x00]" by auto
  have "take (Suc (length xs)) b4 = take (Suc (length xs)) (take (Suc (length xs) + 1) b4)" by (simp add: min_def)
  also have "\<dots> = xs @ [CHR 0x0A]" using b4(3) b3(3) by simp
  finally have "read_range b4 0 (int (Suc (length xs))) = Inr (xs @ [CHR 0x0A])"
    using b(3) b4(2) by (simp add: read_range_ok seg_def del: of_nat_Suc)
  then show ?thesis using b3(1) b4(1) by (simp del: of_nat_Suc)
qed

lemma line_overflows:
  assumes "length buf = 1024" and "1024 < length header" and "length header < 18446744073709551616"
  shows "log_line buf header message = Inl BadPointer"
proof -
  from print_at_take [of 0 1024 buf 0 header] assms(1) obtain b1 where
    b1: "print_at buf 0 1024 header = Inr b1" "length b1 = 1024" by auto
  have "to_size (1024 - int (length header)) = nat (1024 - int (length header) + 18446744073709551616)"
    using assms(2,3) by (intro to_size_negative) auto
  then have "to_size (1024 - int (length header)) \<noteq> 0" using assms(3) by simp
  moreover have "write_at b1 (int (length header)) xs = Inl BadPointer" for xs
    using assms(2) b1(2) by (simp add: write_at_def)
  ultimately have "print_at b1 (length header) (to_size (1024 - int (length header))) message = Inl BadPointer"
    by (simp add: print_at_def)
  then show ?thesis unfolding log_line_def b1(1) bnd_Inr Let_def by simp
qed

text \<open>C38. A line of the log: the header and the message, cut to 1022 bytes, without the newlines at the
  end and with exactly one newline after it. No byte is written outside the buffer, whatever the
  message, as long as the header alone fits; a header of more than 1024 bytes, as a long file name
  makes it, sends the message beyond the buffer.\<close>

theorem log_line_bounded:
  assumes "length buf = 1024" and "header \<noteq> []" and "hd header \<noteq> CHR 0x0A" and "length header < 18446744073709551616"
  shows "if length header \<le> 1024
    then log_line buf header message = Inr (strip_newlines (take 1022 (header @ message)) @ [CHR 0x0A])
    else log_line buf header message = Inl BadPointer"
proof (cases "length header \<le> 1024")
  case True
  let ?P = "min (length header + length message) 1022" and ?body = "take 1022 (header @ message)"
  let ?text = "strip_newlines ?body"
  from line_printed [OF assms(1) True, of message] obtain b1 b2 where
    b: "print_at buf 0 1024 header = Inr b1" "print_at b1 (length header) (to_size (1024 - int (length header))) message = Inr b2"
      "length b2 = 1024" "take ?P b2 = ?body" by blast
  have "?body \<noteq> []" "hd ?body \<noteq> CHR 0x0A" using assms(2,3) by (cases header; simp)+
  then have ne: "?text \<noteq> []" by (rule strip_newlines_nonempty)
  have "length ?body = ?P" by (simp add: min.commute)
  then have len: "length ?text \<le> ?P" using strip_newlines_prefix(2) [of ?body] by simp
  have "take (length ?text) b2 = take (length ?text) (take ?P b2)" using len by (rule take_shorter)
  also have "\<dots> = ?text" unfolding b(4) by (rule strip_newlines_prefix)
  finally have "take (length ?text) b2 = ?text" .
  then have last: "bnd (write_at b2 (int (length ?text)) [CHR 0x0A]) (\<lambda>b. bnd (write_at b (int (Suc (length ?text))) [CHR 0x00])
      (\<lambda>b. read_range b 0 (int (Suc (length ?text))))) = Inr (?text @ [CHR 0x0A])"
    using b(3) ne len by (intro line_closed) auto
  have "back_over_newlines b2 ?P = Inr (length ?text - 1)"
    using back_over_newlines_eq [of ?P b2, unfolded b(4)] ne b(3) by simp
  moreover have "Suc (length ?text - 1) = length ?text" using ne by simp
  ultimately have "log_line buf header message = Inr (?text @ [CHR 0x0A])"
    unfolding log_line_def Let_def b(1,2) bnd_Inr using last by (simp del: of_nat_Suc)
  then show ?thesis using True by simp
next
  case False
  then show ?thesis using line_overflows [OF assms(1) _ assms(4)] by simp
qed

text \<open>The header of a line begins with the year and holds no newline at its start.\<close>

lemma hd_dec: "hd (dec n @ xs) \<noteq> CHR 0x0A"
proof -
  have "hd (dec n) \<in> set ''0123456789''" using set_dec [of n] hd_in_set [OF dec_nonempty [of n]] by blast
  then show ?thesis using dec_nonempty [of n] by auto
qed

lemma hd_dec_pad: "hd (dec_pad w i @ xs) \<noteq> CHR 0x0A"
proof (cases "i < 0")
  case True
  then show ?thesis by (simp add: dec_pad_def Let_def)
next
  case False
  then show ?thesis
    by (cases "w - length (dec (nat \<bar>i\<bar>))") (simp_all add: dec_pad_def Let_def hd_dec)
qed

lemma log_header_start: "log_header t usec tid level file line \<noteq> []" "hd (log_header t usec tid level file line) \<noteq> CHR 0x0A"
  unfolding log_header_def by (simp, rule hd_dec_pad)

lemma log_line_bounded_witness:
  "\<exists>text. log_line (replicate 1024 (CHR ''x'')) ''2017 INFO '' (CHR ''a'' # replicate 3000 (CHR 0x0A))
      = Inr text \<and> text = ''2017 INFO a'' @ [CHR 0x0A]"
proof -
  have s: "strip_newlines (xs @ CHR ''a'' # replicate k (CHR 0x0A)) = xs @ ''a''" for xs k
    by (simp add: strip_newlines_def dropWhile_append dropWhile_replicate)
  have t: "take 1022 (''2017 INFO '' @ CHR ''a'' # replicate 3000 (CHR 0x0A)) = ''2017 INFO '' @ CHR ''a'' # replicate 1011 (CHR 0x0A)"
    by simp
  have b: "length (replicate 1024 (CHR ''x'')) = 1024" "''2017 INFO '' \<noteq> []" "hd ''2017 INFO '' \<noteq> CHR 0x0A"
    "length ''2017 INFO '' < 18446744073709551616" "length ''2017 INFO '' \<le> 1024" by simp_all
  from log_line_bounded [OF b(1-4), of "CHR ''a'' # replicate 3000 (CHR 0x0A)"] show ?thesis
    unfolding t s using b(5) by simp
qed

section \<open>Rotation\<close>

lemma upd_logger_sel [loop_simps]:
  "lw_logger (upd_logger f s) = f (lw_logger s)" "sk_trace (upd_logger f s) = sk_trace s"
  "lw_logger (snd (syscall K call s)) = lw_logger s"
  by (simp_all add: upd_logger_def syscall_def Let_def)

text \<open>The local interval a time is in.\<close>

definition interval_of :: "logger \<Rightarrow> int \<Rightarrow> int \<Rightarrow> int" where
  "interval_of lg timezone t = c_div (t - timezone) (lg_rotateInterval lg)"

lemma RotateFile_eq:
  assumes "lg_fileName (lw_logger s) \<noteq> []" and "lg_rotateInterval (lw_logger s) \<noteq> 0"
  defines "lg \<equiv> lw_logger s"
  shows "RotateFile K localtime tz now s =
    (if interval_of lg tz now = interval_of lg tz (lg_lastRotate lg) then Inr s
     else Inr (let s = upd_logger (\<lambda>lg. lg\<lparr>lg_lastRotate := now\<rparr>) s in
           case syscall K (SysRename (lg_fileName lg) (rotated_name (lg_fileName lg) (localtime now))) s of (err, s) \<Rightarrow>
           if an_ret err \<noteq> 0 then s
           else
             (case syscall K (SysOpen (lg_fileName lg)) s of (a, s) \<Rightarrow>
              if an_ret a < 0 then s
              else sys_close K (an_ret a) (snd (syscall K (SysDup2 (an_ret a) (lg_fd lg)) s)))))"
  using assms(1,2) by (simp add: RotateFile_def Let_def div_long_def interval_of_def lg_def split: prod.splits)

text \<open>The log file is rotated when the local interval of the present time is not that of the last
  rotation, and only then: the file is renamed, a new one opened over the old descriptor, and however
  that goes no record within the same interval rotates again. A rotation interval of 0 divides by
  zero as soon as the log has a file.\<close>

theorem rotates_once_per_interval:
  assumes "lg_fileName (lw_logger s) \<noteq> []" and "lg = lw_logger s"
    and "name = rotated_name (lg_fileName lg) (localtime now)"
    and "r = K (sk_trace s) (SysRename (lg_fileName lg) name)"
    and "a = K (sk_trace s @ [(SysRename (lg_fileName lg) name, r)]) (SysOpen (lg_fileName lg))"
  shows "if lg_rotateInterval lg = 0 then RotateFile K localtime tz now s = Inl DivideByZero
    else if interval_of lg tz now = interval_of lg tz (lg_lastRotate lg) then RotateFile K localtime tz now s = Inr s
    else \<exists>s'. RotateFile K localtime tz now s = Inr s' \<and> lw_logger s' = lg\<lparr>lg_lastRotate := now\<rparr>
      \<and> map fst (sk_trace s') = map fst (sk_trace s) @ [SysRename (lg_fileName lg) name]
          @ (if an_ret r \<noteq> 0 then [] else [SysOpen (lg_fileName lg)]
          @ (if an_ret a < 0 then [] else [SysDup2 (an_ret a) (lg_fd lg), SysClose (an_ret a)]))
      \<and> (\<forall>now'. interval_of lg tz now' = interval_of lg tz now \<longrightarrow> RotateFile K localtime tz now' s' = Inr s')"
proof (cases "lg_rotateInterval lg = 0")
  case True
  then show ?thesis using assms(1,2) by (simp add: RotateFile_def Let_def div_long_def)
next
  case iv: False
  show ?thesis
  proof (cases "interval_of lg tz now = interval_of lg tz (lg_lastRotate lg)")
    case True
    then show ?thesis using iv assms(1,2) by (simp add: RotateFile_eq)
  next
    case False
    let ?s1 = "upd_logger (\<lambda>lg. lg\<lparr>lg_lastRotate := now\<rparr>) s" and ?file = "lg_fileName lg"
    obtain s2 where s2: "syscall K (SysRename ?file name) ?s1 = (r, s2)"
      using assms(4) by (simp add: syscall_def Let_def upd_logger_sel)
    then have v2: "sk_trace s2 = sk_trace s @ [(SysRename ?file name, r)]" "lw_logger s2 = lg\<lparr>lg_lastRotate := now\<rparr>"
      using assms(2) by (auto simp: syscall_def Let_def upd_logger_sel)
    obtain s3 where s3: "syscall K (SysOpen ?file) s2 = (a, s3)" using assms(5) by (simp add: syscall_def Let_def v2)
    then have v3: "map fst (sk_trace s3) = map fst (sk_trace s2) @ [SysOpen ?file]" "lw_logger s3 = lw_logger s2"
      by (auto simp: syscall_def Let_def)
    obtain s4 where s4: "s4 = sys_close K (an_ret a) (snd (syscall K (SysDup2 (an_ret a) (lg_fd lg)) s3))" by blast
    then have v4: "map fst (sk_trace s4) = map fst (sk_trace s3) @ [SysDup2 (an_ret a) (lg_fd lg), SysClose (an_ret a)]"
      "lw_logger s4 = lw_logger s2" by (simp_all add: sys_close_def loop_simps v3(2))
    obtain s' where s': "s' = (if an_ret r \<noteq> 0 then s2 else if an_ret a < 0 then s3 else s4)" by blast
    have "RotateFile K localtime tz now s = Inr s'"
      unfolding RotateFile_eq [OF assms(1) iv [unfolded assms(2)], folded assms(2)] assms(3) [symmetric]
      using False by (simp add: Let_def s2 s3 s4 s')
    moreover have lg: "lw_logger s' = lg\<lparr>lg_lastRotate := now\<rparr>" by (simp add: s' v2 v3 v4)
    moreover have "map fst (sk_trace s') = map fst (sk_trace s) @ [SysRename ?file name]
          @ (if an_ret r \<noteq> 0 then [] else [SysOpen ?file]
          @ (if an_ret a < 0 then [] else [SysDup2 (an_ret a) (lg_fd lg), SysClose (an_ret a)]))"
      by (simp add: s' v2 v3 v4)
    moreover have "RotateFile K localtime tz now' s' = Inr s'" if "interval_of lg tz now' = interval_of lg tz now" for now'
    proof -
      have n: "lg_fileName (lw_logger s') \<noteq> []" "lg_rotateInterval (lw_logger s') \<noteq> 0"
        using assms(1,2) iv by (simp_all add: lg)
      show ?thesis unfolding RotateFile_eq [OF n] using that by (simp add: lg interval_of_def)
    qed
    ultimately show ?thesis unfolding if_not_P [OF iv] if_not_P [OF False] by blast
  qed
qed

definition sample_log :: log_world where
  "sample_log = sock_world.extend (timer_world.extend (sample_timers 7) (sock_world.fields []))
     (log_world.fields \<lparr>lg_level = 0, lg_fd = 3, lg_rotateInterval = 86400, lg_lastRotate = 0, lg_fileName = ''log''\<rparr>)"

definition log_kernel :: kernel where
  "log_kernel tr call = \<lparr>an_ret = (case call of SysOpen _ \<Rightarrow> 5 | _ \<Rightarrow> 0), an_errno = 0, an_val = 0,
     an_addr = address_zero, an_data = []\<rparr>"

lemma sample_log_sel [simp]:
  "lw_logger sample_log = \<lparr>lg_level = 0, lg_fd = 3, lg_rotateInterval = 86400, lg_lastRotate = 0, lg_fileName = ''log''\<rparr>"
  "sk_trace sample_log = []"
  by (simp_all add: sample_log_def timer_world.defs sock_world.defs log_world.defs)

definition a_local_time :: "int \<Rightarrow> tm" where
  "a_local_time t = \<lparr>tm_year = 117, tm_mon = 6, tm_mday = 18, tm_hour = 1, tm_min = 2, tm_sec = 3\<rparr>"

lemma rotates_once_per_interval_witness:
  "\<exists>s' name. RotateFile log_kernel a_local_time 0 90000 sample_log = Inr s'
    \<and> map fst (sk_trace s') = [SysRename ''log'' name, SysOpen ''log'', SysDup2 5 3, SysClose 5]
    \<and> RotateFile log_kernel a_local_time 0 172799 s' = Inr s'"
proof -
  let ?name = "rotated_name (lg_fileName (lw_logger sample_log)) (a_local_time 90000)"
  have f: "lg_fileName (lw_logger sample_log) \<noteq> []" by simp
  have i: "interval_of (lw_logger sample_log) 0 90000 = 1" "interval_of (lw_logger sample_log) 0 172799 = 1"
    "interval_of (lw_logger sample_log) 0 0 = 0" by (simp_all add: interval_of_def c_div_def)
  have k: "an_ret (log_kernel tr (SysRename x y)) = 0" "an_ret (log_kernel tr (SysOpen x)) = 5" for tr x y
    by (simp_all add: log_kernel_def)
  from rotates_once_per_interval [where K = log_kernel and localtime = a_local_time and now = 90000 and tz = 0, OF f refl refl refl refl]
  obtain s' where
    "RotateFile log_kernel a_local_time 0 90000 sample_log = Inr s'"
    "map fst (sk_trace s') = [SysRename ''log'' ?name, SysOpen ''log'', SysDup2 5 3, SysClose 5]"
    "\<forall>now'. interval_of (lw_logger sample_log) 0 now' = interval_of (lw_logger sample_log) 0 90000
       \<longrightarrow> RotateFile log_kernel a_local_time 0 now' s' = Inr s'"
    by (auto simp: i(1,3) [unfolded sample_log_sel] k)
  then show ?thesis using i by (intro exI [of _ s'] exI [of _ ?name]) simp
qed

end
