(* ===== verification/TcpConnection.thy ===== *)
theory TcpConnection
  imports Sockets Buffer
begin

text \<open>
  A TCP connection: src/tcpConnection.h and src/tcpConnection.cpp. Connections live in a heap by
  address. The callbacks a connection holds are names; the functions they stand for, and the
  interpreter of closures, are the environment \<open>E\<close> every operation that may call them takes.
\<close>

section \<open>The model\<close>

datatype conn_state = kConnecting | kConnected | kDisconnecting | kDisconnected

record connection =
  cn_loop :: nat
  cn_name :: string
  cn_state :: conn_state
  cn_fd :: int
  cn_channel :: nat
  cn_localAddr :: net_address
  cn_peerAddr :: net_address
  cn_inputBuffer :: buffer
  cn_outputBuffer :: buffer
  cn_connectionCallBack :: "nat option"
  cn_messageCallBack :: "nat option"
  cn_closeCallBack :: "nat option"

record conn_world = sock_world +
  cw_conns :: "nat \<Rightarrow> connection"

text \<open>What runs closures and user callbacks: a connection callback gets the connection, a message
  callback also the time of the poll.\<close>

record 's env =
  run_closure :: "closure \<Rightarrow> 's \<Rightarrow> 's res"
  on_connection :: "nat \<Rightarrow> nat \<Rightarrow> 's \<Rightarrow> 's res"
  on_message :: "nat \<Rightarrow> nat \<Rightarrow> int \<Rightarrow> 's \<Rightarrow> 's res"
  on_close :: "nat \<Rightarrow> nat \<Rightarrow> 's \<Rightarrow> 's res"

definition upd_conn :: "nat \<Rightarrow> (connection \<Rightarrow> connection) \<Rightarrow> 'z conn_world_scheme \<Rightarrow> 'z conn_world_scheme" where
  "upd_conn c f s = s\<lparr>cw_conns := (cw_conns s)(c := f (cw_conns s c))\<rparr>"

definition conn_new ::
  "nat \<Rightarrow> string \<Rightarrow> int \<Rightarrow> net_address \<Rightarrow> net_address \<Rightarrow> nat \<Rightarrow> nat \<Rightarrow> 'z conn_world_scheme
    \<Rightarrow> 'z conn_world_scheme res" where
  "conn_new loop name sockfd localaddr peerAddr ch c s =
     bnd buffer_new (\<lambda>inputBuffer. bnd buffer_new (\<lambda>outputBuffer.
     let s = upd_chan ch (\<lambda>_. channel_new loop sockfd) s;
         s = upd_conn c (\<lambda>_. \<lparr>cn_loop = loop, cn_name = name, cn_state = kConnecting, cn_fd = sockfd,
               cn_channel = ch, cn_localAddr = localaddr, cn_peerAddr = peerAddr,
               cn_inputBuffer = inputBuffer, cn_outputBuffer = outputBuffer,
               cn_connectionCallBack = None, cn_messageCallBack = None, cn_closeCallBack = None\<rparr>) s;
         s = upd_chan ch (setReadCallBack (ConnHandleRead c)) s;
         s = upd_chan ch (setWriteCallBack (ConnHandleWrite c)) s;
         s = upd_chan ch (Channel.setCloseCallBack (ConnHandleClose c)) s;
         s = upd_chan ch (setErrorCallBack (ConnHandleError c)) s
     in Inr s))"

definition isConneted :: "connection \<Rightarrow> bool" where
  "isConneted cn \<longleftrightarrow> cn_state cn = kConnected"

definition setState :: "conn_state \<Rightarrow> connection \<Rightarrow> connection" where
  "setState state cn = cn\<lparr>cn_state := state\<rparr>"

definition setConnectedCallBack :: "nat option \<Rightarrow> connection \<Rightarrow> connection" where
  "setConnectedCallBack cb cn = cn\<lparr>cn_connectionCallBack := cb\<rparr>"

definition setMessageCallBack :: "nat option \<Rightarrow> connection \<Rightarrow> connection" where
  "setMessageCallBack cb cn = cn\<lparr>cn_messageCallBack := cb\<rparr>"

definition conn_setCloseCallBack :: "nat option \<Rightarrow> connection \<Rightarrow> connection" where
  "conn_setCloseCallBack cb cn = cn\<lparr>cn_closeCallBack := cb\<rparr>"

text \<open>\<open>if (callback) callback(...)\<close>, and a call without the test, which throws when it is empty.\<close>

definition call_set :: "nat option \<Rightarrow> (nat \<Rightarrow> 's \<Rightarrow> 's res) \<Rightarrow> 's \<Rightarrow> 's res" where
  "call_set cb f s = (case cb of None \<Rightarrow> Inr s | Some n \<Rightarrow> f n s)"

definition call_any :: "nat option \<Rightarrow> (nat \<Rightarrow> 's \<Rightarrow> 's res) \<Rightarrow> 's \<Rightarrow> 's res" where
  "call_any cb f s = (case cb of None \<Rightarrow> Inl BadFunctionCall | Some n \<Rightarrow> f n s)"

definition conn_in_loop :: "nat \<Rightarrow> 'z conn_world_scheme \<Rightarrow> unit res" where
  "conn_in_loop c s = assertInLoopThread (cn_loop (cw_conns s c)) s"

definition connectEestablished ::
  "('z conn_world_scheme) env \<Rightarrow> nat \<Rightarrow> 'z conn_world_scheme \<Rightarrow> 'z conn_world_scheme res" where
  "connectEestablished E c s =
     bnd (conn_in_loop c s) (\<lambda>_.
     must (cn_state (cw_conns s c) = TcpConnection.kConnecting)
     (let s = upd_conn c (setState kConnected) s in
      bnd (enableReading (cn_channel (cw_conns s c)) s) (\<lambda>s.
      call_set (cn_connectionCallBack (cw_conns s c)) (\<lambda>n. on_connection E n c) s)))"

definition connectDestory ::
  "('z conn_world_scheme) env \<Rightarrow> nat \<Rightarrow> 'z conn_world_scheme \<Rightarrow> 'z conn_world_scheme res" where
  "connectDestory E c s =
     bnd (conn_in_loop c s) (\<lambda>_.
     must (cn_state (cw_conns s c) = kConnected \<or> cn_state (cw_conns s c) = kDisconnecting)
     (let s = upd_conn c (setState kDisconnected) s in
      bnd (disableAll (cn_channel (cw_conns s c)) s) (\<lambda>s.
      bnd (call_set (cn_connectionCallBack (cw_conns s c)) (\<lambda>n. on_connection E n c) s) (\<lambda>s.
      loop_removeChannel (cn_loop (cw_conns s c)) (cn_channel (cw_conns s c)) s))))"

definition handleClose ::
  "('z conn_world_scheme) env \<Rightarrow> nat \<Rightarrow> 'z conn_world_scheme \<Rightarrow> 'z conn_world_scheme res" where
  "handleClose E c s =
     bnd (conn_in_loop c s) (\<lambda>_.
     must (cn_state (cw_conns s c) = kConnected \<or> cn_state (cw_conns s c) = kDisconnecting)
     (bnd (disableAll (cn_channel (cw_conns s c)) s) (\<lambda>s.
      call_any (cn_closeCallBack (cw_conns s c)) (\<lambda>n. on_close E n c) s)))"

definition handleError :: "kernel \<Rightarrow> nat \<Rightarrow> 'z conn_world_scheme \<Rightarrow> 'z conn_world_scheme" where
  "handleError K c s = snd (syscall K (SysSockError (ch_fd (chans s (cn_channel (cw_conns s c))))) s)"

text \<open>\<open>readFd\<close> makes one \<open>readv\<close> over the writable bytes and the block on the stack.\<close>

definition conn_handleRead ::
  "kernel \<Rightarrow> ('z conn_world_scheme) env \<Rightarrow> nat \<Rightarrow> int \<Rightarrow> 'z conn_world_scheme \<Rightarrow> 'z conn_world_scheme res" where
  "conn_handleRead K E c receiveTime s =
     (let cn = cw_conns s c; b = cn_inputBuffer cn in
      case syscall K (SysReadv (ch_fd (chans s (cn_channel cn))) (writableBytes b + extraBuf_size)) s of (a, s) \<Rightarrow>
      bnd (readFd b (if an_ret a < 0 then Inl (an_errno a) else Inr (an_data a))) (\<lambda>(b, ret, _).
      let s = upd_conn c (\<lambda>cn. cn\<lparr>cn_inputBuffer := b\<rparr>) s in
      if ret > 0 then
        call_any (cn_messageCallBack (cw_conns s c)) (\<lambda>n. on_message E n c receiveTime) s
      else if ret = 0 then handleClose E c s
      else Inr (handleError K c s)))"

definition shutdownInloop :: "kernel \<Rightarrow> nat \<Rightarrow> 'z conn_world_scheme \<Rightarrow> 'z conn_world_scheme res" where
  "shutdownInloop K c s =
     bnd (conn_in_loop c s) (\<lambda>_.
     if \<not> isWriting (chans s (cn_channel (cw_conns s c)))
     then Inr (socket_shutdownWrite K (cn_fd (cw_conns s c)) s) else Inr s)"

definition conn_handleWrite :: "kernel \<Rightarrow> nat \<Rightarrow> 'z conn_world_scheme \<Rightarrow> 'z conn_world_scheme res" where
  "conn_handleWrite K c s =
     bnd (conn_in_loop c s) (\<lambda>_.
     let cn = cw_conns s c; b = cn_outputBuffer cn in
     if isWriting (chans s (cn_channel cn)) then
       bnd (read_range (store b) (peek b) (peek b + int (readableBytes b))) (\<lambda>bytes.
       case syscall K (SysWrite (ch_fd (chans s (cn_channel cn))) bytes) s of (a, s) \<Rightarrow>
       if an_ret a > 0 then
         bnd (retrieve b (nat (an_ret a))) (\<lambda>b.
         let s = upd_conn c (\<lambda>cn. cn\<lparr>cn_outputBuffer := b\<rparr>) s in
         if readableBytes b = 0 then
           bnd (disableWriting (cn_channel cn) s) (\<lambda>s.
           if cn_state (cw_conns s c) = kDisconnecting then shutdownInloop K c s else Inr s)
         else Inr s)
       else Inr s)
     else Inr s)"

definition sendInloop :: "kernel \<Rightarrow> nat \<Rightarrow> string \<Rightarrow> 'z conn_world_scheme \<Rightarrow> 'z conn_world_scheme res" where
  "sendInloop K c message s =
     bnd (conn_in_loop c s) (\<lambda>_.
     let cn = cw_conns s c; ch = cn_channel cn in
     case (if \<not> isWriting (chans s ch) \<and> readableBytes (cn_outputBuffer cn) = 0 then
             case syscall K (SysWrite (ch_fd (chans s ch)) message) s of (a, s) \<Rightarrow>
             (if an_ret a \<ge> 0 then an_ret a else 0, s)
           else (0, s)) of (nWrote, s) \<Rightarrow>
     must (nWrote \<ge> 0)
     (if to_size nWrote < length message then
        bnd (buf_append (cn_outputBuffer cn) (drop (nat nWrote) message)) (\<lambda>b.
        let s = upd_conn c (\<lambda>cn. cn\<lparr>cn_outputBuffer := b\<rparr>) s in
        if \<not> isWriting (chans s ch) then enableWriting ch s else Inr s)
      else Inr s))"

definition conn_send ::
  "kernel \<Rightarrow> ('z conn_world_scheme) env \<Rightarrow> nat \<Rightarrow> string \<Rightarrow> 'z conn_world_scheme \<Rightarrow> 'z conn_world_scheme res" where
  "conn_send K E c message s =
     (let cn = cw_conns s c in
      if cn_state cn = kConnected then
        if isInLoopThread (cn_loop cn) s then sendInloop K c message s
        else runInLoop (run_closure E) (cn_loop cn) (SendInloop c message) s
      else Inr s)"

text \<open>\<open>send(Buffer*)\<close> returns the emptied buffer, too.\<close>

definition conn_send_buffer ::
  "kernel \<Rightarrow> ('z conn_world_scheme) env \<Rightarrow> nat \<Rightarrow> buffer \<Rightarrow> 'z conn_world_scheme
    \<Rightarrow> (buffer \<times> 'z conn_world_scheme) res" where
  "conn_send_buffer K E c message s =
     bnd (read_range (store message) (peek message) (peek message + int (readableBytes message))) (\<lambda>msg.
     let message = retrieveAll message in
     bnd (conn_send K E c msg s) (\<lambda>s. Inr (message, s)))"

definition conn_shutdown ::
  "('z conn_world_scheme) env \<Rightarrow> nat \<Rightarrow> 'z conn_world_scheme \<Rightarrow> 'z conn_world_scheme res" where
  "conn_shutdown E c s =
     (if cn_state (cw_conns s c) = kConnected then
        let s = upd_conn c (setState kDisconnecting) s in
        runInLoop (run_closure E) (cn_loop (cw_conns s c)) (ShutdownInloop c) s
      else Inr s)"

definition conn_setTcpNoDelay :: "kernel \<Rightarrow> nat \<Rightarrow> bool \<Rightarrow> 'z conn_world_scheme \<Rightarrow> 'z conn_world_scheme" where
  "conn_setTcpNoDelay K c flag s = socket_setTcpNoDelay K (cn_fd (cw_conns s c)) flag s"

text \<open>The destructor: the channel goes before the socket, which closes the descriptor.\<close>

definition conn_destroy :: "kernel \<Rightarrow> nat \<Rightarrow> 'z conn_world_scheme \<Rightarrow> 'z conn_world_scheme res" where
  "conn_destroy K c s =
     bnd (channel_destroy (chans s (cn_channel (cw_conns s c)))) (\<lambda>_. Inr (socket_destroy K (cn_fd (cw_conns s c)) s))"

section \<open>A connected connection\<close>

lemma upd_conn_sel [loop_simps]:
  "cw_conns (upd_conn c f s) = (cw_conns s)(c := f (cw_conns s c))"
  "chans (upd_conn c f s) = chans s" "w_loops (upd_conn c f s) = w_loops s" "w_tid (upd_conn c f s) = w_tid s"
  "sk_trace (upd_conn c f s) = sk_trace s"
  by (simp_all add: upd_conn_def)

lemma cw_conns_sel [loop_simps]:
  "cw_conns (upd_loop l f s) = cw_conns s" "cw_conns (upd_chan ch g s) = cw_conns s"
  "cw_conns (snd (syscall K call s)) = cw_conns s"
  by (simp_all add: upd_loop_def upd_chan_def syscall_def Let_def)

lemma cw_conns_set_poller [loop_simps]:
  "cw_conns (set_poller l pl cs s) = cw_conns s" "sk_trace (set_poller l pl cs s) = sk_trace s"
  by (simp_all add: set_poller_def upd_loop_def)

text \<open>Its channel is registered, on the descriptor of its socket; its buffers are well formed; and its
  channel waits to write exactly while bytes are buffered.\<close>

definition conn_ok :: "nat \<Rightarrow> 'z conn_world_scheme \<Rightarrow> bool" where
  "conn_ok c s \<longleftrightarrow> (let cn = cw_conns s c; ch = chans s (cn_channel cn) in
     registered (cn_channel cn) s \<and> ch_fd ch = cn_fd cn \<and> ch_loop ch = cn_loop cn
   \<and> buf_ok (cn_inputBuffer cn) \<and> buf_ok (cn_outputBuffer cn)
   \<and> (isWriting ch \<longleftrightarrow> contents (cn_outputBuffer cn) \<noteq> []))"

lemma conn_okD:
  assumes "conn_ok c s"
  shows "registered (cn_channel (cw_conns s c)) s" and "ch_fd (chans s (cn_channel (cw_conns s c))) = cn_fd (cw_conns s c)"
    and "ch_loop (chans s (cn_channel (cw_conns s c))) = cn_loop (cw_conns s c)"
    and "buf_ok (cn_inputBuffer (cw_conns s c))" and "buf_ok (cn_outputBuffer (cw_conns s c))"
    and "isWriting (chans s (cn_channel (cw_conns s c))) \<longleftrightarrow> contents (cn_outputBuffer (cw_conns s c)) \<noteq> []"
  using assms by (simp_all add: conn_ok_def Let_def)

lemma conn_ok_here: "conn_ok c s \<Longrightarrow> conn_in_loop c s = Inr ()"
  using conn_okD(1,3) [of c s] by (simp add: conn_in_loop_def registered_def assertInLoopThread_in)

text \<open>What a connection has accepted from its user and not yet given to the kernel, and the shutdowns
  of its write side.\<close>

definition unsent :: "nat \<Rightarrow> 'z conn_world_scheme \<Rightarrow> string" where
  "unsent c s = contents (cn_outputBuffer (cw_conns s c))"

definition sent :: "nat \<Rightarrow> 'z conn_world_scheme \<Rightarrow> string" where
  "sent c s = written (cn_fd (cw_conns s c)) (sk_trace s)"

definition down :: "nat \<Rightarrow> 'z conn_world_scheme \<Rightarrow> nat" where
  "down c s = shutdowns (cn_fd (cw_conns s c)) (sk_trace s)"

lemma isWriting_bits [simp]:
  "isWriting (writingBits ch)" "\<not> isWriting (noWritingBits ch)" "\<not> isWriting (noBits ch)"
proof -
  have "(x OR 4) AND 4 = 4" for x :: "32 word" by (rule bit_word_eqI) (auto simp: bit_simps)
  moreover have "(x AND NOT 4) AND 4 = 0" for x :: "32 word" by (rule bit_word_eqI) (auto simp: bit_simps)
  ultimately have a: "(x OR 4) AND 4 = 4" "(x AND NOT 4) AND 4 = 0" for x :: "32 word" by blast+
  then show "isWriting (writingBits ch)" "\<not> isWriting (noWritingBits ch)" "\<not> isWriting (noBits ch)"
    by (simp_all add: isWriting_def writingBits_def noWritingBits_def noBits_def poll_bits)
qed

text \<open>Changing the event bits of the channel of a connection, with the output buffer to match.\<close>

lemma conn_update:
  assumes reg: "registered (cn_channel (cw_conns s c)) s" and g: "keeps_identity g"
    and fd: "ch_fd (chans s (cn_channel (cw_conns s c))) = cn_fd (cw_conns s c)"
    and lp: "ch_loop (chans s (cn_channel (cw_conns s c))) = cn_loop (cw_conns s c)"
    and bufs: "buf_ok (cn_inputBuffer (cw_conns s c))" "buf_ok (cn_outputBuffer (cw_conns s c))"
    and wr: "isWriting (g (chans s (cn_channel (cw_conns s c)))) \<longleftrightarrow> contents (cn_outputBuffer (cw_conns s c)) \<noteq> []"
  shows "\<exists>s'. channel_update (cn_channel (cw_conns s c)) (upd_chan (cn_channel (cw_conns s c)) g s) = Inr s'
    \<and> conn_ok c s' \<and> cw_conns s' = cw_conns s \<and> sk_trace s' = sk_trace s"
proof -
  let ?ch = "cn_channel (cw_conns s c)"
  from channel_update_registered [OF reg g] obtain pl where
    pl: "channel_update ?ch (upd_chan ?ch g s)
      = Inr (upd_loop (ch_loop (chans s ?ch)) (\<lambda>lp. lp\<lparr>lp_poller := pl\<rparr>) (upd_chan ?ch g s))"
    "registered ?ch (upd_loop (ch_loop (chans s ?ch)) (\<lambda>lp. lp\<lparr>lp_poller := pl\<rparr>) (upd_chan ?ch g s))" by blast
  let ?s = "upd_loop (ch_loop (chans s ?ch)) (\<lambda>lp. lp\<lparr>lp_poller := pl\<rparr>) (upd_chan ?ch g s)"
  have "conn_ok c ?s"
    unfolding conn_ok_def Let_def using pl(2) fd lp bufs wr g
    by (simp add: loop_simps sk_trace_sel cw_conns_sel keeps_identity_def)
  with pl(1) show ?thesis by (intro exI [of _ ?s]) (simp add: loop_simps)
qed

lemma conn_ok_syscall:
  assumes "conn_ok c s"
  shows "conn_ok c (snd (syscall K call s))"
proof -
  have "registered (cn_channel (cw_conns s c)) (snd (syscall K call s))"
    by (rule registered_cong [OF conn_okD(1) [OF assms]]) (simp_all add: loop_simps)
  then show ?thesis using assms by (simp add: conn_ok_def Let_def loop_simps)
qed

section \<open>Example connections\<close>

text \<open>A connection of loop 0 on descriptor 9, as its constructor leaves it and as it is once its channel is
  registered, with a kernel that takes at most three bytes at a time and delivers three.\<close>

definition sample_connection :: "conn_state \<Rightarrow> connection" where
  "sample_connection st = \<lparr>cn_loop = 0, cn_name = ''c'', cn_state = st, cn_fd = 9, cn_channel = 1,
     cn_localAddr = address_zero, cn_peerAddr = address_zero, cn_inputBuffer = buffer_init,
     cn_outputBuffer = buffer_init, cn_connectionCallBack = Some 1, cn_messageCallBack = Some 2,
     cn_closeCallBack = Some 3\<rparr>"

definition sample_conns :: "bool \<Rightarrow> conn_state \<Rightarrow> conn_world" where
  "sample_conns open st = \<lparr>chans = (\<lambda>_. if open then (channel_new 0 9)\<lparr>ch_event := 3, ch_index := 0\<rparr> else channel_new 0 9),
     w_tid = 7,
     w_loops = (\<lambda>_. \<lparr>lp_threadId = 7, lp_looping = True, lp_quit = False, lp_callingPendingFunctors = False,
       lp_poller = (if open then \<lparr>pl_pollfds = [\<lparr>pfd_fd = 9, pfd_events = 3, pfd_revents = 0\<rparr>], pl_channels = [9 \<mapsto> 1]\<rparr>
         else poller_new), lp_activeChannels = [], lp_pollReturnTime = 0, lp_wakeupFd = 5,
       lp_wakeupChannel = 0, lp_eventfd = [], lp_pendingFunctor = []\<rparr>),
     w_loopInThread = (\<lambda>_. Some 0), tw_timers = Map.empty, tw_created = 0,
     tw_queues = (\<lambda>_. \<lparr>tq_timerfd = 4, tq_channel = 2, tq_timers = [],
       tq_callingExpiredTimers = False, tq_activeTimers = [], tq_cancelingTimers = [], tq_settime = []\<rparr>),
     tw_ticks = 0, sk_trace = [], cw_conns = (\<lambda>_. sample_connection st)\<rparr>"

definition three_bytes :: kernel where
  "three_bytes tr call = (case call of
       SysWrite fd bytes \<Rightarrow> \<lparr>an_ret = min 3 (int (length bytes)), an_errno = 0, an_val = 0, an_addr = address_zero, an_data = []\<rparr>
     | SysReadv fd n \<Rightarrow> \<lparr>an_ret = min 3 (int n), an_errno = 0, an_val = 0, an_addr = address_zero, an_data = take n ''abc''\<rparr>
     | _ \<Rightarrow> \<lparr>an_ret = 0, an_errno = 0, an_val = 0, an_addr = address_zero, an_data = []\<rparr>)"

definition sample_env :: "(conn_world) env" where
  "sample_env = \<lparr>run_closure = (\<lambda>cl. case cl of ShutdownInloop c \<Rightarrow> shutdownInloop three_bytes c | _ \<Rightarrow> Inr),
     on_connection = (\<lambda>_ _. Inr), on_message = (\<lambda>_ _ _. Inr), on_close = (\<lambda>_ _. Inr)\<rparr>"

lemma sample_conns_sel [simp]:
  "cw_conns (sample_conns b st) c = sample_connection st" "sk_trace (sample_conns b st) = []"
  "chans (sample_conns b st) ch = (if b then (channel_new 0 9)\<lparr>ch_event := 3, ch_index := 0\<rparr> else channel_new 0 9)"
  by (simp_all add: sample_conns_def)

lemma sample_connection_sel [simp]:
  "cn_loop (sample_connection st) = 0" "cn_state (sample_connection st) = st" "cn_fd (sample_connection st) = 9"
  "cn_channel (sample_connection st) = 1" "cn_inputBuffer (sample_connection st) = buffer_init"
  "cn_outputBuffer (sample_connection st) = buffer_init" "cn_connectionCallBack (sample_connection st) = Some 1"
  "cn_messageCallBack (sample_connection st) = Some 2" "cn_closeCallBack (sample_connection st) = Some 3"
  by (simp_all add: sample_connection_def)

lemma sample_conn_ok: "conn_ok 1 (sample_conns True st)"
  by (simp add: conn_ok_def Let_def registered_def isInLoopThread_def sample_conns_def sample_connection_def poller_ok_def
      decoded_def isWriting_def poll_bits buf_ok_init contents_init channel_new_def)

lemma sample_conn_fresh: "registrable 1 (sample_conns False st)" "conn_in_loop 1 (sample_conns b st) = Inr ()"
  "cn_state (cw_conns (sample_conns b st) c) = st"
  by (simp_all add: registrable_def isInLoopThread_def sample_conns_def sample_connection_def poller_ok_def
      poller_new_def channel_new_def conn_in_loop_def assertInLoopThread_def)

end
