(* ===== verification/Acceptor.thy ===== *)
theory Acceptor
  imports TcpConnection
begin

text \<open>
  The acceptor of src/acceptor.h and src/acceptor.cpp: the listening socket of a server with its
  channel. Acceptors live in a heap by address; the callback an acceptor holds is a name, and what it
  stands for is the argument \<open>on_new\<close> of the handler that calls it.
\<close>

section \<open>The model\<close>

record acceptor =
  ac_loop :: nat
  ac_fd :: int
  ac_channel :: nat
  ac_newConnCallBack :: "nat option"
  ac_listenning :: bool

record acceptor_world = conn_world +
  aw_acceptors :: "nat \<Rightarrow> acceptor"

definition upd_acceptor :: "nat \<Rightarrow> (acceptor \<Rightarrow> acceptor) \<Rightarrow> 'z acceptor_world_scheme \<Rightarrow> 'z acceptor_world_scheme" where
  "upd_acceptor a f s = s\<lparr>aw_acceptors := (aw_acceptors s)(a := f (aw_acceptors s a))\<rparr>"

definition acceptor_new ::
  "kernel \<Rightarrow> nat \<Rightarrow> net_address \<Rightarrow> nat \<Rightarrow> nat \<Rightarrow> 'z acceptor_world_scheme \<Rightarrow> 'z acceptor_world_scheme res" where
  "acceptor_new K loop listenAddr ch a s =
     bnd (createNoBlockSock K s) (\<lambda>(fd, s).
     let s = upd_chan ch (\<lambda>_. channel_new loop fd) s;
         s = upd_acceptor a (\<lambda>_. \<lparr>ac_loop = loop, ac_fd = fd, ac_channel = ch, ac_newConnCallBack = None,
               ac_listenning = False\<rparr>) s;
         s = socket_setReuseAddr K fd True s in
     bnd (socket_bindAddress K fd listenAddr s) (\<lambda>s.
     Inr (upd_chan ch (setReadCallBack (AcceptorHandleRead a)) s)))"

definition setNewConnectCallBack :: "nat option \<Rightarrow> acceptor \<Rightarrow> acceptor" where
  "setNewConnectCallBack cb ac = ac\<lparr>ac_newConnCallBack := cb\<rparr>"

definition acceptor_listenning :: "acceptor \<Rightarrow> bool" where
  "acceptor_listenning ac = ac_listenning ac"

definition acceptor_listen :: "kernel \<Rightarrow> nat \<Rightarrow> 'z acceptor_world_scheme \<Rightarrow> 'z acceptor_world_scheme res" where
  "acceptor_listen K a s =
     bnd (assertInLoopThread (ac_loop (aw_acceptors s a)) s) (\<lambda>_.
     let s = upd_acceptor a (\<lambda>ac. ac\<lparr>ac_listenning := True\<rparr>) s in
     bnd (socket_listen K (ac_fd (aw_acceptors s a)) s) (\<lambda>s.
     enableReading (ac_channel (aw_acceptors s a)) s))"

definition acceptor_handleRead ::
  "kernel \<Rightarrow> (nat \<Rightarrow> int \<Rightarrow> net_address \<Rightarrow> 'z acceptor_world_scheme \<Rightarrow> 'z acceptor_world_scheme res)
    \<Rightarrow> nat \<Rightarrow> 'z acceptor_world_scheme \<Rightarrow> 'z acceptor_world_scheme res" where
  "acceptor_handleRead K on_new a s =
     bnd (assertInLoopThread (ac_loop (aw_acceptors s a)) s) (\<lambda>_.
     let peerAddr = address_of_port 0 in
     bnd (socket_accept K (ac_fd (aw_acceptors s a)) peerAddr s) (\<lambda>(connfd, peerAddr, s).
     if connfd \<ge> 0 then
       (case ac_newConnCallBack (aw_acceptors s a) of
          Some n \<Rightarrow> on_new n connfd peerAddr s
        | None \<Rightarrow> Inr s)
     else Inr (sys_close K connfd s)))"

section \<open>What the operations do\<close>

lemma upd_acceptor_sel [loop_simps]:
  "aw_acceptors (upd_acceptor a f s) = (aw_acceptors s)(a := f (aw_acceptors s a))"
  "chans (upd_acceptor a f s) = chans s" "w_loops (upd_acceptor a f s) = w_loops s" "w_tid (upd_acceptor a f s) = w_tid s"
  "sk_trace (upd_acceptor a f s) = sk_trace s" "cw_conns (upd_acceptor a f s) = cw_conns s"
  by (simp_all add: upd_acceptor_def)

lemma aw_acceptors_sel [loop_simps]:
  "aw_acceptors (upd_loop l f s) = aw_acceptors s" "aw_acceptors (upd_chan ch g s) = aw_acceptors s"
  "aw_acceptors (snd (syscall K call s)) = aw_acceptors s" "aw_acceptors (upd_conn c h s) = aw_acceptors s"
  "aw_acceptors (set_poller l pl cs s) = aw_acceptors s"
  by (simp_all add: upd_loop_def upd_chan_def syscall_def Let_def upd_conn_def set_poller_def)

text \<open>The errors of \<open>accept\<close> the code takes for transient.\<close>

definition transient :: "int \<Rightarrow> bool" where
  "transient e \<longleftrightarrow> e \<in> {EAGAIN, EINTR, EPROTO, EPERM, EMFILE}"

text \<open>One read event of the listening socket, by the answer of its \<open>accept\<close>: the clients of the acceptor rest on it.\<close>

lemma acceptor_handleRead_eq:
  fixes K :: kernel
  assumes "isInLoopThread (ac_loop (aw_acceptors s a)) s"
  defines "call \<equiv> SysAccept (ac_fd (aw_acceptors s a))"
  defines "ans \<equiv> K (sk_trace s) call"
  shows "acceptor_handleRead K on_new a s =
    (let s' = snd (syscall K call s) in
     if 0 \<le> an_ret ans then
       (case ac_newConnCallBack (aw_acceptors s a) of None \<Rightarrow> Inr s' | Some n \<Rightarrow> on_new n (an_ret ans) (an_addr ans) s')
     else if transient (an_errno ans) then Inr (sys_close K (an_ret ans) s')
     else Inl ExitFailure)"
proof -
  have sys: "syscall K (SysAccept (ac_fd (aw_acceptors s a))) s = (ans, snd (syscall K call s))"
    by (simp add: syscall_def Let_def ans_def call_def)
  show ?thesis
    unfolding acceptor_handleRead_def socket_accept_def sys transient_def
    using assms(1) by (auto simp: assertInLoopThread_in Let_def setSockAddr_def loop_simps split: option.splits)
qed

text \<open>\<open>listen\<close> makes the socket listen before its channel is registered for reading, so that no read
  event comes from a socket that does not listen; if the system call fails the program ends.\<close>

theorem listen_registers:
  assumes "registrable (ac_channel (aw_acceptors s a)) s"
    and "ch_fd (chans s (ac_channel (aw_acceptors s a))) = ac_fd (aw_acceptors s a)"
    and "ch_loop (chans s (ac_channel (aw_acceptors s a))) = ac_loop (aw_acceptors s a)"
    and "ans = K (sk_trace s) (SysListen (ac_fd (aw_acceptors s a)))"
  shows "if an_ret ans < 0 then acceptor_listen K a s = Inl ExitFailure
    else \<exists>s'. acceptor_listen K a s = Inr s' \<and> acceptor_listenning (aw_acceptors s' a)
      \<and> sk_trace s' = sk_trace s @ [(SysListen (ac_fd (aw_acceptors s a)), ans)]
      \<and> registered (ac_channel (aw_acceptors s a)) s'
      \<and> ch_event (chans s' (ac_channel (aw_acceptors s a))) = ch_event (chans s (ac_channel (aw_acceptors s a))) OR kReadEvent"
proof -
  let ?ac = "aw_acceptors s a"
  let ?s1 = "upd_acceptor a (\<lambda>ac. ac\<lparr>ac_listenning := True\<rparr>) s"
  obtain s2 where s2: "s2 = snd (syscall K (SysListen (ac_fd ?ac)) ?s1)" by blast
  have here: "isInLoopThread (ac_loop ?ac) s" using assms(1,3) by (simp add: registrable_def)
  have sys: "syscall K (SysListen (ac_fd ?ac)) ?s1 = (ans, s2)"
    unfolding s2 using assms(4) by (simp add: syscall_def Let_def upd_acceptor_def)
  have v: "chans s2 = chans s" "w_loops s2 = w_loops s" "w_tid s2 = w_tid s"
    "aw_acceptors s2 a = ?ac\<lparr>ac_listenning := True\<rparr>" "sk_trace s2 = sk_trace s @ [(SysListen (ac_fd ?ac), ans)]"
    unfolding s2 by (simp_all add: loop_simps assms(4))
  have ac1: "aw_acceptors ?s1 a = ?ac\<lparr>ac_listenning := True\<rparr>" by (simp add: loop_simps)
  have start: "acceptor_listen K a s = fatal_unless (\<not> an_ret ans < 0) (enableReading (ac_channel ?ac) s2)"
    unfolding acceptor_listen_def assertInLoopThread_in [OF here] bnd_Inr Let_def socket_listen_def ac1
    by (simp add: sys fatal_unless_def v)
  show ?thesis
  proof (cases "an_ret ans < 0")
    case True
    then show ?thesis by (simp add: start)
  next
    case False
    have "registrable (ac_channel ?ac) s2" by (rule registrable_cong [OF assms(1)]) (simp_all add: v)
    from channel_update_new [OF this bits_keep_identity(1)] obtain pl i where
      u: "channel_update (ac_channel ?ac) (upd_chan (ac_channel ?ac) readingBits s2)
          = Inr (set_poller (ac_loop ?ac) pl ((chans s)(ac_channel ?ac := setIndex i (readingBits (chans s (ac_channel ?ac))))) s2)"
        "registered (ac_channel ?ac)
            (set_poller (ac_loop ?ac) pl ((chans s)(ac_channel ?ac := setIndex i (readingBits (chans s (ac_channel ?ac))))) s2)"
      by (auto simp: v assms(3))
    have "acceptor_listen K a s
      = Inr (set_poller (ac_loop ?ac) pl ((chans s)(ac_channel ?ac := setIndex i (readingBits (chans s (ac_channel ?ac))))) s2)"
      using False u(1) by (simp add: start enableReading_def)
    with False u(2) show ?thesis
      by (simp add: loop_simps acceptor_listenning_def v readingBits_def)
  qed
qed

section \<open>Witnesses\<close>

definition sample_acceptors :: acceptor_world where
  "sample_acceptors = conn_world.extend (sample_conns False kConnecting)
     (acceptor_world.fields (\<lambda>_. \<lparr>ac_loop = 0, ac_fd = 9, ac_channel = 1, ac_newConnCallBack = Some 4,
        ac_listenning = False\<rparr>))"

definition answering :: "int \<Rightarrow> int \<Rightarrow> kernel" where
  "answering ret errno tr call = \<lparr>an_ret = ret, an_errno = errno, an_val = 0, an_addr = address_zero, an_data = []\<rparr>"

lemma sample_acceptors_sel [simp]:
  "aw_acceptors sample_acceptors a
    = \<lparr>ac_loop = 0, ac_fd = 9, ac_channel = 1, ac_newConnCallBack = Some 4, ac_listenning = False\<rparr>"
  "chans sample_acceptors ch = channel_new 0 9" "w_tid sample_acceptors = 7" "lp_threadId (w_loops sample_acceptors l) = 7"
  "lp_poller (w_loops sample_acceptors l) = poller_new" "sk_trace sample_acceptors = []"
  by (simp_all add: sample_acceptors_def conn_world.defs acceptor_world.defs sample_conns_def)

lemma listen_registers_witness:
  "acceptor_listen (answering (-1) 0) 0 sample_acceptors = Inl ExitFailure
   \<and> (\<exists>s'. acceptor_listen (answering 0 0) 0 sample_acceptors = Inr s' \<and> acceptor_listenning (aw_acceptors s' 0)
        \<and> registered 1 s')"
proof -
  have r: "registrable (ac_channel (aw_acceptors sample_acceptors 0)) sample_acceptors"
    by (simp add: registrable_def isInLoopThread_def channel_new_def poller_ok_def, simp add: poller_new_def)
  have fd: "ch_fd (chans sample_acceptors (ac_channel (aw_acceptors sample_acceptors 0))) = ac_fd (aw_acceptors sample_acceptors 0)"
    and lp: "ch_loop (chans sample_acceptors (ac_channel (aw_acceptors sample_acceptors 0))) = ac_loop (aw_acceptors sample_acceptors 0)"
    by (simp_all add: channel_new_def)
  show ?thesis
    using listen_registers [OF r fd lp refl, of "answering (-1) 0"] listen_registers [OF r fd lp refl, of "answering 0 0"]
    by (auto simp: answering_def)
qed

end
