(* ===== verification/EventLoopThreadPool.thy ===== *)
theory EventLoopThreadPool
  imports EventLoop
begin

text \<open>
  The pool of loop threads of src/eventLoopThreadPool.h and src/eventLoopThreadPool.cpp, with
  \<open>startLoop\<close> of src/eventLoopThread.cpp: a server gives its connections to the loops of the pool in
  turn. How \<open>startLoop\<close> waits for the new thread is in LoopStart.
\<close>

section \<open>The model\<close>

record thread_pool =
  tp_baseloop :: nat
  tp_started :: bool
  tp_numThreads :: int
  tp_next :: int
  tp_loops :: "nat list"

definition pool_new :: "nat \<Rightarrow> thread_pool" where
  "pool_new loop = \<lparr>tp_baseloop = loop, tp_started = False, tp_numThreads = 0, tp_next = 0, tp_loops = []\<rparr>"

definition pool_setThreadNum :: "int \<Rightarrow> thread_pool \<Rightarrow> thread_pool" where
  "pool_setThreadNum numThreads tp = tp\<lparr>tp_numThreads := numThreads\<rparr>"

text \<open>The thread runs the constructor of its loop, whose address \<open>startLoop\<close> returns; the argument
  \<open>construct\<close> is that constructor, \<open>tid\<close> the new thread.\<close>

definition startLoop ::
  "(('cb, 'z) world_scheme \<Rightarrow> (nat \<times> ('cb, 'z) world_scheme) res) \<Rightarrow> nat \<Rightarrow> ('cb, 'z) world_scheme
    \<Rightarrow> (nat \<times> ('cb, 'z) world_scheme) res" where
  "startLoop construct tid s =
     bnd (construct (s\<lparr>w_tid := tid\<rparr>)) (\<lambda>(loop, s'). Inr (loop, s'\<lparr>w_tid := w_tid s\<rparr>))"

text \<open>The loop of \<open>start\<close>, over what the new threads are and construct.\<close>

fun pool_start_loop ::
  "((('cb, 'z) world_scheme \<Rightarrow> (nat \<times> ('cb, 'z) world_scheme) res) \<times> nat) list \<Rightarrow> thread_pool
    \<Rightarrow> ('cb, 'z) world_scheme \<Rightarrow> (thread_pool \<times> ('cb, 'z) world_scheme) res" where
  "pool_start_loop [] tp s = Inr (tp, s)"
| "pool_start_loop ((construct, tid) # threads) tp s =
     bnd (startLoop construct tid s) (\<lambda>(loop, s).
     pool_start_loop threads (tp\<lparr>tp_loops := tp_loops tp @ [loop]\<rparr>) s)"

definition pool_start ::
  "(nat \<Rightarrow> (('cb, 'z) world_scheme \<Rightarrow> (nat \<times> ('cb, 'z) world_scheme) res) \<times> nat) \<Rightarrow> thread_pool
    \<Rightarrow> ('cb, 'z) world_scheme \<Rightarrow> (thread_pool \<times> ('cb, 'z) world_scheme) res" where
  "pool_start threads tp s =
     must (\<not> tp_started tp)
     (bnd (assertInLoopThread (tp_baseloop tp) s) (\<lambda>_.
      let tp = tp\<lparr>tp_started := True\<rparr> in
      pool_start_loop (map threads [0..<nat (tp_numThreads tp)]) tp s))"

definition getNextLoop :: "thread_pool \<Rightarrow> ('cb, 'z) world_scheme \<Rightarrow> (nat \<times> thread_pool) res" where
  "getNextLoop tp s =
     bnd (assertInLoopThread (tp_baseloop tp) s) (\<lambda>_.
     if tp_loops tp \<noteq> [] then
       valid_or (0 \<le> tp_next tp \<and> nat (tp_next tp) < length (tp_loops tp))
       (let loop = tp_loops tp ! nat (tp_next tp);
            next = tp_next tp + 1;
            next = (if length (tp_loops tp) \<le> to_size next then 0 else next)
        in Inr (loop, tp\<lparr>tp_next := next\<rparr>))
     else Inr (tp_baseloop tp, tp))"

section \<open>Turns\<close>

text \<open>The index stays within the loops, of which there are fewer than an \<open>int\<close> can count.\<close>

definition pool_ok :: "thread_pool \<Rightarrow> bool" where
  "pool_ok tp \<longleftrightarrow> length (tp_loops tp) < 2147483648
     \<and> 0 \<le> tp_next tp \<and> (tp_loops tp \<noteq> [] \<longrightarrow> nat (tp_next tp) < length (tp_loops tp))"

text \<open>The loop a pool would give next, and the loops of the next \<open>k\<close> calls.\<close>

definition turn :: "thread_pool \<Rightarrow> nat \<Rightarrow> nat" where
  "turn tp k = (if tp_loops tp = [] then tp_baseloop tp
     else tp_loops tp ! ((nat (tp_next tp) + k) mod length (tp_loops tp)))"

fun next_loops :: "nat \<Rightarrow> thread_pool \<Rightarrow> ('cb, 'z) world_scheme \<Rightarrow> (nat list \<times> thread_pool) res" where
  "next_loops 0 tp s = Inr ([], tp)"
| "next_loops (Suc k) tp s =
     bnd (getNextLoop tp s) (\<lambda>(l, tp). bnd (next_loops k tp s) (\<lambda>(ls, tp). Inr (l # ls, tp)))"

lemma getNextLoop_turn:
  assumes ok: "pool_ok tp" and here: "isInLoopThread (tp_baseloop tp) s"
  shows "\<exists>tp'. getNextLoop tp s = Inr (turn tp 0, tp') \<and> pool_ok tp' \<and> tp_loops tp' = tp_loops tp
    \<and> tp_baseloop tp' = tp_baseloop tp \<and> (\<forall>k. turn tp' k = turn tp (Suc k))"
proof (cases "tp_loops tp = []")
  case True
  then show ?thesis using ok here by (simp add: getNextLoop_def assertInLoopThread_in turn_def)
next
  case False
  let ?n = "length (tp_loops tp)" and ?i = "nat (tp_next tp)"
  have b: "0 \<le> tp_next tp" "?i < ?n" "?n < 2147483648" using ok False by (simp_all add: pool_ok_def)
  then have size: "to_size (tp_next tp + 1) = Suc ?i" by (subst to_size_id) auto
  let ?next = "if ?n \<le> Suc ?i then 0 else tp_next tp + 1"
  have "getNextLoop tp s = Inr (turn tp 0, tp\<lparr>tp_next := ?next\<rparr>)"
    using False here b by (simp add: getNextLoop_def assertInLoopThread_in Let_def size turn_def)
  moreover have "pool_ok (tp\<lparr>tp_next := ?next\<rparr>)" using b by (auto simp: pool_ok_def)
  moreover have "turn (tp\<lparr>tp_next := ?next\<rparr>) k = turn tp (Suc k)" for k
  proof (cases "?n \<le> Suc ?i")
    case True
    then have e: "?i + Suc k = k + ?n" using b(2) by simp
    have "(?i + Suc k) mod ?n = k mod ?n" unfolding e by simp
    then show ?thesis using True False by (simp add: turn_def del: add_Suc_right)
  next
    case False
    then show ?thesis using b(1) by (simp add: turn_def nat_add_distrib)
  qed
  ultimately show ?thesis by auto
qed

text \<open>The loops take their turns. Any number of calls of \<open>getNextLoop\<close> in the thread of the base loop
  return the loops of the pool one after the other, from where the pool stood and starting over after
  the last; a pool without threads returns the base loop every time. No call reads beyond the vector.\<close>

theorem loops_take_turns:
  assumes "pool_ok tp" and "isInLoopThread (tp_baseloop tp) s"
  shows "\<exists>tp'. next_loops k tp s = Inr (map (turn tp) [0..<k], tp') \<and> pool_ok tp' \<and> tp_loops tp' = tp_loops tp"
  using assms
proof (induction k arbitrary: tp)
  case 0
  then show ?case by simp
next
  case (Suc k)
  from getNextLoop_turn [OF Suc.prems] obtain tp1 where
    tp1: "getNextLoop tp s = Inr (turn tp 0, tp1)" "pool_ok tp1" "tp_loops tp1 = tp_loops tp"
      "tp_baseloop tp1 = tp_baseloop tp" "\<And>k. turn tp1 k = turn tp (Suc k)" by blast
  have "isInLoopThread (tp_baseloop tp1) s" using Suc.prems(2) tp1(4) by simp
  from Suc.IH [OF tp1(2) this] obtain tp' where
    "next_loops k tp1 s = Inr (map (turn tp1) [0..<k], tp')" "pool_ok tp'" "tp_loops tp' = tp_loops tp1" by blast
  moreover have "map (turn tp) [0..<Suc k] = turn tp 0 # map (turn tp1) [0..<k]"
    by (simp add: upt_conv_Cons tp1(5) map_Suc_upt [symmetric] del: upt_Suc)
  ultimately show ?case using tp1(1,3) by simp
qed

text \<open>Starting: one loop for each thread asked for, in order.\<close>

lemma pool_start_loop_length:
  "pool_start_loop threads tp s = Inr (tp', s') \<Longrightarrow> length (tp_loops tp') = length (tp_loops tp) + length threads
    \<and> tp_next tp' = tp_next tp \<and> tp_baseloop tp' = tp_baseloop tp \<and> tp_started tp' = tp_started tp"
  by (induction threads tp s rule: pool_start_loop.induct) (auto simp: res_simps split: prod.splits)

lemma pool_start_ok:
  assumes r: "pool_start threads (pool_setThreadNum n (pool_new l)) s = Inr (tp, s')" and n: "n < 2147483648"
  shows "pool_ok tp" and "length (tp_loops tp) = nat n" and "tp_baseloop tp = l" and "tp_started tp"
proof -
  have "pool_start_loop (map threads [0..<nat n]) ((pool_setThreadNum n (pool_new l))\<lparr>tp_started := True\<rparr>) s = Inr (tp, s')"
    using r by (simp add: pool_start_def pool_new_def pool_setThreadNum_def res_simps Let_def)
  from pool_start_loop_length [OF this] have e: "length (tp_loops tp) = nat n" "tp_next tp = 0" "tp_baseloop tp = l" "tp_started tp"
    by (simp_all add: pool_new_def pool_setThreadNum_def)
  then show "length (tp_loops tp) = nat n" "tp_baseloop tp = l" "tp_started tp" by simp_all
  have "length (tp_loops tp) < 2147483648" using e(1) n by simp
  then show "pool_ok tp" using e(2) by (simp add: pool_ok_def)
qed

lemma loops_take_turns_witness:
  "\<exists>tp'. next_loops 4 \<lparr>tp_baseloop = 0, tp_started = True, tp_numThreads = 3, tp_next = 1, tp_loops = [5, 6, 7]\<rparr> sample_world
     = Inr ([6, 7, 5, 6], tp')"
proof -
  let ?tp = "\<lparr>tp_baseloop = 0, tp_started = True, tp_numThreads = 3, tp_next = 1, tp_loops = [5, 6, 7::nat]\<rparr>"
  have ok: "pool_ok ?tp" by (simp add: pool_ok_def)
  have here: "isInLoopThread (tp_baseloop ?tp) sample_world" by (simp add: isInLoopThread_def sample_world_def)
  have ls: "map (turn ?tp) [0..<4] = [6, 7, 5, 6]" by (simp add: turn_def upt_rec)
  from loops_take_turns [OF ok here, of 4] show ?thesis unfolding ls by blast
qed

end
