(* ===== verification/TcpServer.thy ===== *)
theory TcpServer
  imports Acceptor EventLoopThreadPool
begin

text \<open>
  The server of src/tcpServer.h and src/tcpServer.cpp: it names the connections its acceptor hands it,
  gives them to the loops of its pool, and keeps them in a map until they close. Servers live in a
  heap by address; the addresses of new objects are arguments.
\<close>

section \<open>The model\<close>

record tcp_server =
  ts_loop :: nat
  ts_name :: string
  ts_acceptor :: nat
  ts_threadpoll :: thread_pool
  ts_connectCallBack :: "nat option"
  ts_messageCallBack :: "nat option"
  ts_started :: bool
  ts_nextConnId :: int
  ts_connects :: "string \<rightharpoonup> nat"

record server_world = acceptor_world +
  sw_servers :: "nat \<Rightarrow> tcp_server"

definition upd_server :: "nat \<Rightarrow> (tcp_server \<Rightarrow> tcp_server) \<Rightarrow> 'z server_world_scheme \<Rightarrow> 'z server_world_scheme" where
  "upd_server sv f s = s\<lparr>sw_servers := (sw_servers s)(sv := f (sw_servers s sv))\<rparr>"

definition server_new ::
  "kernel \<Rightarrow> nat \<Rightarrow> net_address \<Rightarrow> nat \<Rightarrow> nat \<Rightarrow> nat \<Rightarrow> 'z server_world_scheme \<Rightarrow> 'z server_world_scheme res" where
  "server_new K loop addr ch a sv s =
     bnd (acceptor_new K loop addr ch a s) (\<lambda>s.
     let s = upd_server sv (\<lambda>_. \<lparr>ts_loop = loop, ts_name = toHostPort addr, ts_acceptor = a,
               ts_threadpoll = pool_new loop, ts_connectCallBack = None, ts_messageCallBack = None,
               ts_started = False, ts_nextConnId = 1, ts_connects = Map.empty\<rparr>) s
     in Inr (upd_acceptor a (setNewConnectCallBack (Some sv)) s))"

definition server_start ::
  "(closure \<Rightarrow> 'z server_world_scheme \<Rightarrow> 'z server_world_scheme res)
    \<Rightarrow> (nat \<Rightarrow> ('z server_world_scheme \<Rightarrow> (nat \<times> 'z server_world_scheme) res) \<times> nat)
    \<Rightarrow> nat \<Rightarrow> 'z server_world_scheme \<Rightarrow> 'z server_world_scheme res" where
  "server_start run threads sv s =
     bnd (if \<not> ts_started (sw_servers s sv) then
            let s = upd_server sv (\<lambda>ts. ts\<lparr>ts_started := True\<rparr>) s in
            bnd (pool_start threads (ts_threadpoll (sw_servers s sv)) s) (\<lambda>(tp, s).
            Inr (upd_server sv (\<lambda>ts. ts\<lparr>ts_threadpoll := tp\<rparr>) s))
          else Inr s) (\<lambda>s.
     let ts = sw_servers s sv in
     if \<not> acceptor_listenning (aw_acceptors s (ts_acceptor ts))
     then runInLoop run (ts_loop ts) (AcceptorListen (ts_acceptor ts)) s
     else Inr s)"

definition server_setConnectionCallBack :: "nat option \<Rightarrow> tcp_server \<Rightarrow> tcp_server" where
  "server_setConnectionCallBack cb ts = ts\<lparr>ts_connectCallBack := cb\<rparr>"

definition server_setMessageCallBack :: "nat option \<Rightarrow> tcp_server \<Rightarrow> tcp_server" where
  "server_setMessageCallBack cb ts = ts\<lparr>ts_messageCallBack := cb\<rparr>"

definition no_overflow :: "bool \<Rightarrow> 'a res \<Rightarrow> 'a res" where
  "no_overflow P r = (if P then r else Inl IntOverflow)"

definition server_newConnection ::
  "kernel \<Rightarrow> (closure \<Rightarrow> 'z server_world_scheme \<Rightarrow> 'z server_world_scheme res) \<Rightarrow> nat \<Rightarrow> nat
    \<Rightarrow> nat \<Rightarrow> int \<Rightarrow> net_address \<Rightarrow> 'z server_world_scheme \<Rightarrow> 'z server_world_scheme res" where
  "server_newConnection K run ch c sv sockfd addr s =
     bnd (assertInLoopThread (ts_loop (sw_servers s sv)) s) (\<lambda>_.
     let nextConnId = ts_nextConnId (sw_servers s sv); buf = snprintf 32 (CHR ''#'' # dec_int nextConnId) in
     no_overflow (nextConnId < 2147483647)
     (let s = upd_server sv (\<lambda>ts. ts\<lparr>ts_nextConnId := nextConnId + 1\<rparr>) s;
          connName = ts_name (sw_servers s sv) @ buf in
      case getLocalAddr K sockfd s of (localAddr, s) \<Rightarrow>
      bnd (getNextLoop (ts_threadpoll (sw_servers s sv)) s) (\<lambda>(ioLoop, tp).
      let s = upd_server sv (\<lambda>ts. ts\<lparr>ts_threadpoll := tp\<rparr>) s in
      bnd (conn_new ioLoop connName sockfd localAddr addr ch c s) (\<lambda>s.
      let s = upd_server sv (\<lambda>ts. ts\<lparr>ts_connects := (ts_connects ts)(connName \<mapsto> c)\<rparr>) s;
          s = upd_conn c (setConnectedCallBack (ts_connectCallBack (sw_servers s sv))) s;
          s = upd_conn c (setMessageCallBack (ts_messageCallBack (sw_servers s sv))) s;
          s = upd_conn c (conn_setCloseCallBack (Some sv)) s
      in runInLoop run ioLoop (ConnectEstablished c) s))))"

definition server_removeConnection ::
  "(closure \<Rightarrow> 'z server_world_scheme \<Rightarrow> 'z server_world_scheme res)
    \<Rightarrow> nat \<Rightarrow> nat \<Rightarrow> 'z server_world_scheme \<Rightarrow> 'z server_world_scheme res" where
  "server_removeConnection run sv c s = runInLoop run (ts_loop (sw_servers s sv)) (RemoveConnectionInLoop sv c) s"

definition server_setThreadNum :: "int \<Rightarrow> nat \<Rightarrow> 'z server_world_scheme \<Rightarrow> 'z server_world_scheme res" where
  "server_setThreadNum numThreads sv s =
     must (0 \<le> numThreads)
       (Inr (upd_server sv (\<lambda>ts. ts\<lparr>ts_threadpoll := pool_setThreadNum numThreads (ts_threadpoll ts)\<rparr>) s))"

text \<open>\<open>erase\<close> of the map returns how many entries it removed.\<close>

definition map_erase :: "'k \<Rightarrow> ('k \<rightharpoonup> 'v) \<Rightarrow> nat \<times> ('k \<rightharpoonup> 'v)" where
  "map_erase k m = (if m k = None then 0 else 1, m(k := None))"

definition server_removeConnectionInLoop :: "nat \<Rightarrow> nat \<Rightarrow> 'z server_world_scheme \<Rightarrow> 'z server_world_scheme res" where
  "server_removeConnectionInLoop sv c s =
     bnd (assertInLoopThread (ts_loop (sw_servers s sv)) s) (\<lambda>_.
     case map_erase (cn_name (cw_conns s c)) (ts_connects (sw_servers s sv)) of (n, connects) \<Rightarrow>
     let s = upd_server sv (\<lambda>ts. ts\<lparr>ts_connects := connects\<rparr>) s in
     if n = 0 then Inr s
     else Inr (queueInloop (cn_loop (cw_conns s c)) (ConnectDestory c) s))"

section \<open>Reading the state after an operation\<close>

lemma upd_server_sel [loop_simps]:
  "sw_servers (upd_server sv f s) = (sw_servers s)(sv := f (sw_servers s sv))"
  "chans (upd_server sv f s) = chans s" "w_loops (upd_server sv f s) = w_loops s" "w_tid (upd_server sv f s) = w_tid s"
  "sk_trace (upd_server sv f s) = sk_trace s" "cw_conns (upd_server sv f s) = cw_conns s"
  "aw_acceptors (upd_server sv f s) = aw_acceptors s" "isInLoopThread l (upd_server sv f s) = isInLoopThread l s"
  by (simp_all add: upd_server_def isInLoopThread_def)

lemma sw_servers_sel [loop_simps]:
  "sw_servers (upd_loop l g s) = sw_servers s" "sw_servers (upd_chan ch h s) = sw_servers s"
  "sw_servers (snd (syscall K call s)) = sw_servers s" "sw_servers (upd_conn c k s) = sw_servers s"
  "sw_servers (queueInloop l cb s) = sw_servers s"
  by (simp_all add: upd_loop_def upd_chan_def syscall_def Let_def upd_conn_def loop_defs)

lemma queueInloop_sel [loop_simps]:
  "cw_conns (queueInloop l cb s) = cw_conns s" "w_tid (queueInloop l cb s) = w_tid s"
  "isInLoopThread k (queueInloop l cb s) = isInLoopThread k s"
  "pending_of k (queueInloop l cb s) = pending_of k s @ (if k = l then [cb] else [])"
  by (simp_all add: loop_defs loop_simps isInLoopThread_def view_defs)

lemma isInLoopThread_conn [loop_simps]:
  "isInLoopThread l (upd_conn c k s) = isInLoopThread l s" "isInLoopThread l (upd_chan ch h s) = isInLoopThread l s"
  "isInLoopThread l (snd (syscall K call s)) = isInLoopThread l s"
  "pending_of l (upd_conn c k s) = pending_of l s" "pending_of l (upd_server sv f s) = pending_of l s"
  by (simp_all add: isInLoopThread_def loop_simps view_defs)

section \<open>The names of connections\<close>

definition conn_suffix :: "int \<Rightarrow> string" where
  "conn_suffix k = CHR ''#'' # dec_int k"

lemma conn_suffix_fits: "0 \<le> k \<Longrightarrow> k < 2147483647 \<Longrightarrow> snprintf 32 (CHR ''#'' # dec_int k) = conn_suffix k"
proof -
  assume k: "0 \<le> k" "k < 2147483647"
  then have "nat k < 10 ^ 10" by simp
  then have "length (dec (nat k)) \<le> 10" by (rule length_dec) simp
  then show ?thesis using k by (simp add: snprintf_fits dec_int_def conn_suffix_def)
qed

lemma conn_suffix_inj: "0 \<le> k \<Longrightarrow> 0 \<le> l \<Longrightarrow> conn_suffix k = conn_suffix l \<longleftrightarrow> k = l"
  by (simp add: conn_suffix_def dec_int_def dec_inj eq_nat_nat_iff)

text \<open>A server keeps the connections it has named with numbers already used, under their names, and they
  report their closing to it.\<close>

definition numbered :: "tcp_server \<Rightarrow> string \<Rightarrow> bool" where
  "numbered ts name \<longleftrightarrow> (\<exists>k. 1 \<le> k \<and> k < ts_nextConnId ts \<and> name = ts_name ts @ conn_suffix k)"

definition server_ok :: "nat \<Rightarrow> 'z server_world_scheme \<Rightarrow> bool" where
  "server_ok sv s \<longleftrightarrow> (let ts = sw_servers s sv in
     pool_ok (ts_threadpoll ts) \<and> tp_baseloop (ts_threadpoll ts) = ts_loop ts \<and> 1 \<le> ts_nextConnId ts
   \<and> (\<forall>name c. ts_connects ts name = Some c \<longrightarrow> numbered ts name \<and> cn_name (cw_conns s c) = name
        \<and> cn_closeCallBack (cw_conns s c) = Some sv))"

definition next_name :: "tcp_server \<Rightarrow> string" where
  "next_name ts = ts_name ts @ conn_suffix (ts_nextConnId ts)"

lemma next_name_fresh:
  assumes "numbered ts name" and "1 \<le> ts_nextConnId ts"
  shows "name \<noteq> next_name ts"
  using assms by (auto simp: numbered_def next_name_def conn_suffix_inj)

section \<open>A new connection\<close>

text \<open>The connection a server makes, its channel, and the server afterwards, with its pool \<open>tp\<close>.\<close>

definition made_connection ::
  "kernel \<Rightarrow> nat \<Rightarrow> nat \<Rightarrow> int \<Rightarrow> net_address \<Rightarrow> 'z server_world_scheme \<Rightarrow> connection" where
  "made_connection K ch sv sockfd addr s = (let ts = sw_servers s sv in
     \<lparr>cn_loop = turn (ts_threadpoll ts) 0, cn_name = next_name ts, cn_state = kConnecting, cn_fd = sockfd,
      cn_channel = ch, cn_localAddr = fst (getLocalAddr K sockfd s), cn_peerAddr = addr,
      cn_inputBuffer = buffer_init, cn_outputBuffer = buffer_init, cn_connectionCallBack = ts_connectCallBack ts,
      cn_messageCallBack = ts_messageCallBack ts, cn_closeCallBack = Some sv\<rparr>)"

definition made_channel :: "nat \<Rightarrow> int \<Rightarrow> nat \<Rightarrow> closure channel" where
  "made_channel l fd c = (channel_new l fd)
     \<lparr>ch_readCallBack := Some (ConnHandleRead c), ch_writeCallBack := Some (ConnHandleWrite c),
      ch_closeCallBack := Some (ConnHandleClose c), ch_errorCallBack := Some (ConnHandleError c)\<rparr>"

definition server_after :: "thread_pool \<Rightarrow> nat \<Rightarrow> tcp_server \<Rightarrow> tcp_server" where
  "server_after tp c ts = ts\<lparr>ts_nextConnId := ts_nextConnId ts + 1, ts_threadpoll := tp,
     ts_connects := (ts_connects ts)(next_name ts \<mapsto> c)\<rparr>"

lemma conn_new_eq:
  fixes s :: "'z server_world_scheme"
  shows "\<exists>s'. conn_new loop name fd local peer ch c s = Inr s'
    \<and> cw_conns s' = (cw_conns s)(c := \<lparr>cn_loop = loop, cn_name = name, cn_state = kConnecting, cn_fd = fd,
         cn_channel = ch, cn_localAddr = local, cn_peerAddr = peer, cn_inputBuffer = buffer_init,
         cn_outputBuffer = buffer_init, cn_connectionCallBack = None, cn_messageCallBack = None, cn_closeCallBack = None\<rparr>)
    \<and> chans s' = (chans s)(ch := made_channel loop fd c) \<and> sw_servers s' = sw_servers s
    \<and> w_loops s' = w_loops s \<and> w_tid s' = w_tid s \<and> sk_trace s' = sk_trace s \<and> aw_acceptors s' = aw_acceptors s
    \<and> server_world.more s' = server_world.more s"
  by (simp add: conn_new_def upd_chan_def upd_conn_def buffer_new_eq Let_def loop_simps made_channel_def setReadCallBack_def setWriteCallBack_def
      Channel.setCloseCallBack_def setErrorCallBack_def)

lemma newConnection_eq:
  assumes here: "isInLoopThread (ts_loop (sw_servers s sv)) s" and ok: "server_ok sv s"
    and small: "ts_nextConnId (sw_servers s sv) < 2147483647"
  defines "ts \<equiv> sw_servers s sv"
  shows "\<exists>tp s1. server_newConnection K run ch c sv sockfd addr s = runInLoop run (turn (ts_threadpoll ts) 0) (ConnectEstablished c) s1
    \<and> cw_conns s1 = (cw_conns s)(c := made_connection K ch sv sockfd addr s)
    \<and> sw_servers s1 = (sw_servers s)(sv := server_after tp c ts)
    \<and> pool_ok tp \<and> tp_loops tp = tp_loops (ts_threadpoll ts) \<and> tp_baseloop tp = ts_loop ts
    \<and> (\<forall>k. turn tp k = turn (ts_threadpoll ts) (Suc k))
    \<and> w_loops s1 = w_loops s \<and> w_tid s1 = w_tid s
    \<and> chans s1 = (chans s)(ch := made_channel (turn (ts_threadpoll ts) 0) sockfd c)
    \<and> (\<exists>a. sk_trace s1 = sk_trace s @ [(SysGetsockname sockfd, a)]) \<and> aw_acceptors s1 = aw_acceptors s
    \<and> server_world.more s1 = server_world.more s"
proof -
  let ?s0 = "upd_server sv (\<lambda>t. t\<lparr>ts_nextConnId := ts_nextConnId ts + 1\<rparr>) s"
  obtain local s2 where l: "getLocalAddr K sockfd ?s0 = (local, s2)" by fastforce
  have v: "sw_servers s2 = (sw_servers s)(sv := ts\<lparr>ts_nextConnId := ts_nextConnId ts + 1\<rparr>)" "chans s2 = chans s"
    "w_loops s2 = w_loops s" "w_tid s2 = w_tid s" "cw_conns s2 = cw_conns s" "local = fst (getLocalAddr K sockfd s)"
    using l by (auto simp: getLocalAddr_def syscall_def Let_def ts_def upd_server_def)
  have v': "\<exists>a. sk_trace s2 = sk_trace s @ [(SysGetsockname sockfd, a)]" "aw_acceptors s2 = aw_acceptors s"
    "server_world.more s2 = server_world.more s"
    using l by (auto simp: getLocalAddr_def syscall_def Let_def upd_server_def)
  have base: "tp_baseloop (ts_threadpoll ts) = ts_loop ts" and pool: "pool_ok (ts_threadpoll ts)" and pos: "1 \<le> ts_nextConnId ts"
    using ok by (simp_all add: server_ok_def Let_def ts_def)
  have "isInLoopThread (tp_baseloop (ts_threadpoll ts)) s2"
    using here base by (simp add: isInLoopThread_def v ts_def)
  from getNextLoop_turn [OF pool this] obtain tp where
    tp: "getNextLoop (ts_threadpoll ts) s2 = Inr (turn (ts_threadpoll ts) 0, tp)" "pool_ok tp"
      "tp_loops tp = tp_loops (ts_threadpoll ts)" "tp_baseloop tp = ts_loop ts"
      "\<forall>k. turn tp k = turn (ts_threadpoll ts) (Suc k)" by (auto simp: base)
  have suffix: "snprintf 32 (CHR ''#'' # dec_int (ts_nextConnId ts)) = conn_suffix (ts_nextConnId ts)"
    using pos small by (intro conn_suffix_fits) (auto simp: ts_def)
  let ?l = "turn (ts_threadpoll ts) 0" and ?s3 = "upd_server sv (\<lambda>t. t\<lparr>ts_threadpoll := tp\<rparr>) s2"
  obtain s4 where s4: "conn_new ?l (next_name ts) sockfd local addr ch c ?s3 = Inr s4"
      "cw_conns s4 = (cw_conns s)(c := \<lparr>cn_loop = ?l, cn_name = next_name ts, cn_state = kConnecting, cn_fd = sockfd,
         cn_channel = ch, cn_localAddr = local, cn_peerAddr = addr, cn_inputBuffer = buffer_init,
         cn_outputBuffer = buffer_init, cn_connectionCallBack = None, cn_messageCallBack = None, cn_closeCallBack = None\<rparr>)"
      "chans s4 = (chans s)(ch := made_channel ?l sockfd c)"
      "sw_servers s4 = (sw_servers s)(sv := ts\<lparr>ts_nextConnId := ts_nextConnId ts + 1, ts_threadpoll := tp\<rparr>)"
      "w_loops s4 = w_loops s" "w_tid s4 = w_tid s" "sk_trace s4 = sk_trace s2" "aw_acceptors s4 = aw_acceptors s"
      "server_world.more s4 = server_world.more s"
    using conn_new_eq [of ?l "next_name ts" sockfd local addr ch c ?s3] by (auto simp: v v' upd_server_sel upd_server_def)
  let ?s5 = "upd_conn c (conn_setCloseCallBack (Some sv)) (upd_conn c (setMessageCallBack (ts_messageCallBack ts))
    (upd_conn c (setConnectedCallBack (ts_connectCallBack ts))
      (upd_server sv (\<lambda>t. t\<lparr>ts_connects := (ts_connects t)(next_name ts \<mapsto> c)\<rparr>) s4)))"
  have name: "ts_name (sw_servers ?s0 sv) @ conn_suffix (ts_nextConnId ts) = next_name ts"
    by (simp add: next_name_def ts_def upd_server_sel)
  have "ts_nextConnId ts < 2147483647" using small by (simp add: ts_def)
  then have "server_newConnection K run ch c sv sockfd addr s = runInLoop run ?l (ConnectEstablished c) ?s5"
    unfolding server_newConnection_def Let_def ts_def [symmetric] suffix l prod.case name
    using here by (simp add: no_overflow_def v(1-5) tp(1) s4(1,4) sw_servers_sel upd_server_sel assertInLoopThread_in
        ts_def [symmetric])
  moreover have "cw_conns ?s5 = (cw_conns s)(c := made_connection K ch sv sockfd addr s)"
    by (simp add: loop_simps s4(2) made_connection_def Let_def ts_def v conn_setCloseCallBack_def setMessageCallBack_def
        setConnectedCallBack_def)
  moreover have "sw_servers ?s5 = (sw_servers s)(sv := server_after tp c ts)"
    by (simp add: loop_simps s4(4) server_after_def)
  moreover have "w_loops ?s5 = w_loops s" "w_tid ?s5 = w_tid s" "chans ?s5 = (chans s)(ch := made_channel ?l sockfd c)"
    by (simp_all add: loop_simps s4)
  moreover have "\<exists>a. sk_trace ?s5 = sk_trace s @ [(SysGetsockname sockfd, a)]" "aw_acceptors ?s5 = aw_acceptors s"
    "server_world.more ?s5 = server_world.more s"
    using v'(1) s4(7-9) by (simp_all add: upd_conn_def upd_server_def)
  ultimately show ?thesis using tp(2-5) by blast
qed

lemma made_connection_sel [simp]:
  "cn_name (made_connection K ch sv fd addr s) = next_name (sw_servers s sv)"
  "cn_closeCallBack (made_connection K ch sv fd addr s) = Some sv"
  "cn_loop (made_connection K ch sv fd addr s) = turn (ts_threadpoll (sw_servers s sv)) 0"
  "cn_channel (made_connection K ch sv fd addr s) = ch" "cn_peerAddr (made_connection K ch sv fd addr s) = addr"
  "cn_state (made_connection K ch sv fd addr s) = kConnecting" "cn_fd (made_connection K ch sv fd addr s) = fd"
  "cn_inputBuffer (made_connection K ch sv fd addr s) = buffer_init"
  "cn_outputBuffer (made_connection K ch sv fd addr s) = buffer_init"
  by (simp_all add: made_connection_def Let_def)

lemma server_after_sel [simp]:
  "ts_loop (server_after tp c ts) = ts_loop ts" "ts_threadpoll (server_after tp c ts) = tp" "ts_name (server_after tp c ts) = ts_name ts"
  "ts_nextConnId (server_after tp c ts) = ts_nextConnId ts + 1"
  "ts_connects (server_after tp c ts) = (ts_connects ts)(next_name ts \<mapsto> c)"
  by (simp_all add: server_after_def)

lemma numbered_after: "numbered ts name \<Longrightarrow> numbered (server_after tp c ts) name"
  by (force simp: numbered_def)

lemma numbered_next: "1 \<le> ts_nextConnId ts \<Longrightarrow> numbered (server_after tp c ts) (next_name ts)"
  by (auto simp: numbered_def next_name_def intro!: exI [of _ "ts_nextConnId ts"])

lemma server_ok_after:
  assumes ok: "server_ok sv s" and free: "c \<notin> ran (ts_connects (sw_servers s sv))"
    and conns: "cw_conns s1 = (cw_conns s)(c := made_connection K ch sv sockfd addr s)"
    and srv: "sw_servers s1 sv = server_after tp c (sw_servers s sv)"
    and tp: "pool_ok tp" "tp_baseloop tp = ts_loop (sw_servers s sv)"
  shows "server_ok sv s1"
proof -
  have pos: "1 \<le> ts_nextConnId (sw_servers s sv)"
    and old: "\<And>name d. ts_connects (sw_servers s sv) name = Some d \<Longrightarrow> numbered (sw_servers s sv) name
        \<and> cn_name (cw_conns s d) = name \<and> cn_closeCallBack (cw_conns s d) = Some sv"
    using ok by (simp_all add: server_ok_def Let_def)
  have "numbered (sw_servers s1 sv) name \<and> cn_name (cw_conns s1 d) = name \<and> cn_closeCallBack (cw_conns s1 d) = Some sv"
    if d: "ts_connects (sw_servers s1 sv) name = Some d" for name d
  proof (cases "name = next_name (sw_servers s sv)")
    case True
    with d show ?thesis using numbered_next [OF pos] by (simp add: srv conns)
  next
    case False
    with d have m: "ts_connects (sw_servers s sv) name = Some d" by (simp add: srv)
    with free have "d \<noteq> c" by (auto intro: ranI)
    with old [OF m] show ?thesis by (auto simp: srv conns intro: numbered_after)
  qed
  then show ?thesis using pos tp by (simp add: server_ok_def Let_def srv)
qed

text \<open>A new connection is named after the server and the next number, a name no connection of the
  server has, so that no connection is ever dropped from the map by another; it is bound to the loop
  whose turn it is, with the server's callbacks and the server as the one to tell when it closes, on a
  channel that reports to it; and \<open>connectEestablished\<close> is run or queued on that loop.\<close>

theorem newConnection_files:
  assumes "isInLoopThread (ts_loop (sw_servers s sv)) s" and "server_ok sv s"
    and "ts_nextConnId (sw_servers s sv) < 2147483647" and "c \<notin> ran (ts_connects (sw_servers s sv))"
  shows "\<exists>s1. server_newConnection K run ch c sv sockfd addr s
      = runInLoop run (turn (ts_threadpoll (sw_servers s sv)) 0) (ConnectEstablished c) s1
    \<and> ts_connects (sw_servers s sv) (next_name (sw_servers s sv)) = None
    \<and> ts_connects (sw_servers s1 sv) = (ts_connects (sw_servers s sv))(next_name (sw_servers s sv) \<mapsto> c)
    \<and> ts_nextConnId (sw_servers s1 sv) = ts_nextConnId (sw_servers s sv) + 1
    \<and> cw_conns s1 = (cw_conns s)(c := made_connection K ch sv sockfd addr s)
    \<and> chans s1 = (chans s)(ch := made_channel (turn (ts_threadpoll (sw_servers s sv)) 0) sockfd c)
    \<and> server_ok sv s1"
proof -
  from newConnection_eq [OF assms(1-3), of K run ch c sockfd addr] obtain tp s1 where
    s1: "server_newConnection K run ch c sv sockfd addr s
        = runInLoop run (turn (ts_threadpoll (sw_servers s sv)) 0) (ConnectEstablished c) s1"
      "cw_conns s1 = (cw_conns s)(c := made_connection K ch sv sockfd addr s)"
      "sw_servers s1 = (sw_servers s)(sv := server_after tp c (sw_servers s sv))"
      "pool_ok tp" "tp_baseloop tp = ts_loop (sw_servers s sv)"
      "chans s1 = (chans s)(ch := made_channel (turn (ts_threadpoll (sw_servers s sv)) 0) sockfd c)" by blast
  have "server_ok sv s1" by (rule server_ok_after [OF assms(2,4) s1(2) _ s1(4,5)]) (simp add: s1(3))
  moreover have "ts_connects (sw_servers s sv) (next_name (sw_servers s sv)) = None"
  proof (rule ccontr)
    assume "ts_connects (sw_servers s sv) (next_name (sw_servers s sv)) \<noteq> None"
    then have "numbered (sw_servers s sv) (next_name (sw_servers s sv))" "1 \<le> ts_nextConnId (sw_servers s sv)"
      using assms(2) by (auto simp: server_ok_def Let_def)
    from next_name_fresh [OF this] show False by simp
  qed
  ultimately show ?thesis using s1 by (intro exI [of _ s1]) simp
qed

section \<open>Every connection is destroyed once\<close>

text \<open>What the loop of a server does about connections: its acceptor hands it a new one, at the addresses
  given, and the loop of a connection reports that it closed, perhaps more than once.\<close>

datatype server_op = SAccept int net_address nat nat | SClose nat

fun server_exec ::
  "kernel \<Rightarrow> (closure \<Rightarrow> 'z server_world_scheme \<Rightarrow> 'z server_world_scheme res) \<Rightarrow> nat \<Rightarrow> server_op
    \<Rightarrow> 'z server_world_scheme \<Rightarrow> 'z server_world_scheme res" where
  "server_exec K run sv (SAccept fd addr ch c) s = server_newConnection K run ch c sv fd addr s"
| "server_exec K run sv (SClose c) s = server_removeConnection run sv c s"

text \<open>New connections have new addresses, and only connections made before close.\<close>

fun legal_ops :: "nat set \<Rightarrow> server_op list \<Rightarrow> bool" where
  "legal_ops used [] = True"
| "legal_ops used (SAccept fd addr ch c # ops) = (c \<notin> used \<and> legal_ops (insert c used) ops)"
| "legal_ops used (SClose c # ops) = (c \<in> used \<and> legal_ops used ops)"

fun made :: "server_op list \<Rightarrow> nat set" where
  "made [] = {}"
| "made (SAccept fd addr ch c # ops) = insert c (made ops)"
| "made (SClose c # ops) = made ops"

definition destroys :: "nat \<Rightarrow> nat \<Rightarrow> 'z server_world_scheme \<Rightarrow> nat" where
  "destroys l c s = count_list (pending_of l s) (ConnectDestory c)"

text \<open>The loops of the pool run in threads of their own.\<close>

definition pooled :: "nat \<Rightarrow> 'z server_world_scheme \<Rightarrow> bool" where
  "pooled sv s \<longleftrightarrow> isInLoopThread (ts_loop (sw_servers s sv)) s \<and> tp_loops (ts_threadpoll (sw_servers s sv)) \<noteq> []
     \<and> (\<forall>l \<in> set (tp_loops (ts_threadpoll (sw_servers s sv))). \<not> isInLoopThread l s)"

text \<open>With \<open>used\<close> the connections made so far and \<open>closed\<close> those reported closed: a closed one has its
  destruction pending once in its loop and is not in the map, an open one is in the map.\<close>

definition life_ok :: "nat \<Rightarrow> nat set \<Rightarrow> nat set \<Rightarrow> 'z server_world_scheme \<Rightarrow> bool" where
  "life_ok sv used closed s \<longleftrightarrow> server_ok sv s \<and> pooled sv s \<and> ran (ts_connects (sw_servers s sv)) \<subseteq> used
     \<and> (\<forall>l c. c \<notin> used \<longrightarrow> destroys l c s = 0)
     \<and> inj_on (\<lambda>c. cn_name (cw_conns s c)) used \<and> (\<forall>c \<in> used. numbered (sw_servers s sv) (cn_name (cw_conns s c)))
     \<and> (\<forall>c \<in> used. destroys (cn_loop (cw_conns s c)) c s = (if c \<in> closed then 1 else 0)
          \<and> (ts_connects (sw_servers s sv) (cn_name (cw_conns s c)) = (if c \<in> closed then None else Some c)))"

lemma life_okD:
  assumes "life_ok sv used closed s"
  shows "server_ok sv s" and "pooled sv s" and "ran (ts_connects (sw_servers s sv)) \<subseteq> used"
    and "\<And>l c. c \<notin> used \<Longrightarrow> destroys l c s = 0" and "inj_on (\<lambda>c. cn_name (cw_conns s c)) used"
    and "\<And>c. c \<in> used \<Longrightarrow> numbered (sw_servers s sv) (cn_name (cw_conns s c))"
    and "\<And>c. c \<in> used \<Longrightarrow> destroys (cn_loop (cw_conns s c)) c s = (if c \<in> closed then 1 else 0)"
    and "\<And>c. c \<in> used \<Longrightarrow> ts_connects (sw_servers s sv) (cn_name (cw_conns s c)) = (if c \<in> closed then None else Some c)"
  using assms by (simp_all add: life_ok_def)

lemma turn_mem: "tp_loops tp \<noteq> [] \<Longrightarrow> turn tp k \<in> set (tp_loops tp)"
  by (simp add: turn_def)

lemma accept_step:
  assumes ok: "life_ok sv used closed s" and new: "c \<notin> used" and small: "ts_nextConnId (sw_servers s sv) < 2147483647"
    and cl: "closed \<subseteq> used"
  shows "\<exists>s'. server_newConnection K run ch c sv fd addr s = Inr s' \<and> life_ok sv (insert c used) closed s'
    \<and> ts_nextConnId (sw_servers s' sv) = ts_nextConnId (sw_servers s sv) + 1"
proof -
  note D = life_okD [OF ok]
  let ?ts = "sw_servers s sv"
  have here: "isInLoopThread (ts_loop ?ts) s" and loops: "tp_loops (ts_threadpoll ?ts) \<noteq> []"
    and away: "\<And>l. l \<in> set (tp_loops (ts_threadpoll ?ts)) \<Longrightarrow> \<not> isInLoopThread l s"
    using D(2) by (simp_all add: pooled_def)
  let ?l = "turn (ts_threadpoll ?ts) 0"
  from newConnection_eq [OF here D(1) small, of K run ch c fd addr] obtain tp s1 where
    s1: "server_newConnection K run ch c sv fd addr s = runInLoop run ?l (ConnectEstablished c) s1"
      "cw_conns s1 = (cw_conns s)(c := made_connection K ch sv fd addr s)"
      "sw_servers s1 = (sw_servers s)(sv := server_after tp c ?ts)"
      "pool_ok tp" "tp_loops tp = tp_loops (ts_threadpoll ?ts)" "tp_baseloop tp = ts_loop ?ts"
      "w_loops s1 = w_loops s" "w_tid s1 = w_tid s" by blast
  have same: "isInLoopThread l s1 = isInLoopThread l s" "pending_of l s1 = pending_of l s" for l
    by (simp_all add: isInLoopThread_def s1(7,8) view_defs)
  let ?s' = "queueInloop ?l (ConnectEstablished c) s1"
  have "server_newConnection K run ch c sv fd addr s = Inr ?s'"
    using away [OF turn_mem [OF loops]] by (simp add: s1(1) runInLoop_def same)
  moreover have "life_ok sv (insert c used) closed ?s'"
  proof -
    have srv: "sw_servers ?s' sv = server_after tp c ?ts" by (simp add: s1(3) sw_servers_sel)
    have conns: "cw_conns ?s' = (cw_conns s)(c := made_connection K ch sv fd addr s)" by (simp add: s1(2) queueInloop_sel)
    have ds: "destroys l d ?s' = destroys l d s" for l d by (simp add: destroys_def same queueInloop_sel)
    have free: "c \<notin> ran (ts_connects ?ts)" using D(3) new by blast
    have "server_ok sv ?s'" by (rule server_ok_after [OF D(1) free conns srv s1(4,6)])
    moreover have "pooled sv ?s'" using here loops away by (simp add: pooled_def srv s1(5) queueInloop_sel same)
    moreover have "ran (ts_connects (sw_servers ?s' sv)) \<subseteq> insert c used"
      using D(3) by (auto simp: srv ran_def split: if_splits)
    moreover have pos: "1 \<le> ts_nextConnId ?ts" using D(1) by (simp add: server_ok_def Let_def)
    have names: "cn_name (cw_conns s d) \<noteq> next_name ?ts" if "d \<in> used" for d
      using next_name_fresh [OF D(6) [OF that] pos] .
    have "inj_on (\<lambda>d. cn_name (cw_conns ?s' d)) (insert c used)"
      using D(5) names names [symmetric] new by (auto simp: inj_on_def conns)
    moreover have "numbered (sw_servers ?s' sv) (cn_name (cw_conns ?s' d))" if "d \<in> insert c used" for d
      using that new D(6) numbered_next [OF pos] by (auto simp: conns srv intro: numbered_after)
    moreover have "destroys (cn_loop (cw_conns ?s' d)) d ?s' = (if d \<in> closed then 1 else 0)
        \<and> ts_connects (sw_servers ?s' sv) (cn_name (cw_conns ?s' d)) = (if d \<in> closed then None else Some d)"
      if "d \<in> insert c used" for d
      using that new cl D(4,7,8) names by (auto simp: conns srv ds)
    ultimately show ?thesis using D(4) by (simp add: life_ok_def ds)
  qed
  ultimately show ?thesis by (simp add: sw_servers_sel s1(3))
qed

lemma close_step:
  assumes ok: "life_ok sv used closed s" and c: "c \<in> used"
    and run: "\<And>s. run (RemoveConnectionInLoop sv c) s = server_removeConnectionInLoop sv c s"
  shows "\<exists>s'. server_removeConnection run sv c s = Inr s' \<and> life_ok sv used (insert c closed) s'
    \<and> ts_nextConnId (sw_servers s' sv) = ts_nextConnId (sw_servers s sv) \<and> cw_conns s' = cw_conns s"
proof -
  note D = life_okD [OF ok]
  let ?ts = "sw_servers s sv" and ?cn = "cw_conns s c"
  have here: "isInLoopThread (ts_loop ?ts) s" using D(2) by (simp add: pooled_def)
  let ?s1 = "upd_server sv (\<lambda>ts. ts\<lparr>ts_connects := (ts_connects ?ts)(cn_name ?cn := None)\<rparr>) s"
  have start: "server_removeConnection run sv c s = (if ts_connects ?ts (cn_name ?cn) = None then Inr ?s1
      else Inr (queueInloop (cn_loop ?cn) (ConnectDestory c) ?s1))"
    using here by (simp add: server_removeConnection_def runInLoop_def run server_removeConnectionInLoop_def
        assertInLoopThread_in map_erase_def Let_def upd_server_sel)
  show ?thesis
  proof (cases "c \<in> closed")
    case True
    then have gone: "ts_connects ?ts (cn_name ?cn) = None" using D(8) [OF c] by simp
    have "?s1 = s" using gone by (simp add: upd_server_def fun_upd_idem)
    with gone True ok show ?thesis by (simp add: start insert_absorb)
  next
    case False
    then have there: "ts_connects ?ts (cn_name ?cn) = Some c" using D(8) [OF c] by simp
    let ?s' = "queueInloop (cn_loop ?cn) (ConnectDestory c) ?s1"
    have srv: "sw_servers ?s' sv = ?ts\<lparr>ts_connects := (ts_connects ?ts)(cn_name ?cn := None)\<rparr>"
      by (simp add: sw_servers_sel upd_server_sel)
    have conns: "cw_conns ?s' = cw_conns s" by (simp add: queueInloop_sel upd_server_sel)
    have ds: "destroys l d ?s' = destroys l d s + (if l = cn_loop ?cn \<and> d = c then 1 else 0)" for l d
      by (simp add: destroys_def queueInloop_sel isInLoopThread_conn)
    have num: "numbered (sw_servers ?s' sv) = numbered ?ts" by (simp add: numbered_def srv fun_eq_iff)
    have "server_ok sv ?s'" using D(1) by (simp add: server_ok_def Let_def srv conns num numbered_def)
    moreover have "pooled sv ?s'" using D(2) by (simp add: pooled_def srv queueInloop_sel upd_server_sel)
    moreover have "ran (ts_connects (sw_servers ?s' sv)) \<subseteq> used" using D(3) by (auto simp: srv ran_def split: if_splits)
    moreover have "destroys (cn_loop (cw_conns ?s' d)) d ?s' = (if d \<in> insert c closed then 1 else 0)
        \<and> ts_connects (sw_servers ?s' sv) (cn_name (cw_conns ?s' d)) = (if d \<in> insert c closed then None else Some d)"
      if d: "d \<in> used" for d
    proof (cases "d = c")
      case True
      then show ?thesis using D(7) [OF c] False by (simp add: conns srv ds)
    next
      case other: False
      then have "cn_name (cw_conns s d) \<noteq> cn_name ?cn" using D(5) c d by (auto simp: inj_on_def)
      then show ?thesis using D(7,8) [OF d] other by (simp add: conns srv ds)
    qed
    ultimately have "life_ok sv used (insert c closed) ?s'"
      using D(4,5,6) c by (auto simp: life_ok_def conns num ds)
    then show ?thesis using there by (simp add: start srv conns)
  qed
qed

lemma server_ops_ok:
  assumes "life_ok sv used closed s" and "closed \<subseteq> used" and "legal_ops used ops"
    and "ts_nextConnId (sw_servers s sv) + int (length ops) \<le> 2147483647"
    and run: "\<And>c s. run (RemoveConnectionInLoop sv c) s = server_removeConnectionInLoop sv c s"
  shows "\<exists>s'. fold_res (server_exec K run sv) ops s = Inr s'
    \<and> life_ok sv (used \<union> made ops) (closed \<union> {c. SClose c \<in> set ops}) s'"
  using assms(1-4)
proof (induction used ops arbitrary: closed s rule: legal_ops.induct)
  case (1 used)
  then show ?case by simp
next
  case (2 used fd addr ch c ops)
  have "c \<notin> used" "ts_nextConnId (sw_servers s sv) < 2147483647" using "2.prems"(3,4) by auto
  from accept_step [OF "2.prems"(1) this "2.prems"(2), of K run ch fd addr] obtain t where
    t: "server_newConnection K run ch c sv fd addr s = Inr t" "life_ok sv (insert c used) closed t"
      "ts_nextConnId (sw_servers t sv) = ts_nextConnId (sw_servers s sv) + 1" by blast
  have "\<exists>s'. fold_res (server_exec K run sv) ops t = Inr s'
      \<and> life_ok sv (insert c used \<union> made ops) (closed \<union> {c. SClose c \<in> set ops}) s'"
    by (rule "2.IH" [OF t(2)]) (use "2.prems" t(3) in auto)
  then show ?case by (simp add: t(1))
next
  case (3 used c ops)
  have "c \<in> used" using "3.prems"(3) by simp
  from close_step [where run = run, OF "3.prems"(1) this] run obtain t where
    t: "server_removeConnection run sv c s = Inr t" "life_ok sv used (insert c closed) t"
      "ts_nextConnId (sw_servers t sv) = ts_nextConnId (sw_servers s sv)" by blast
  have "\<exists>s'. fold_res (server_exec K run sv) ops t = Inr s'
      \<and> life_ok sv (used \<union> made ops) (insert c closed \<union> {c. SClose c \<in> set ops}) s'"
    by (rule "3.IH" [OF t(2)]) (use "3.prems" t(3) \<open>c \<in> used\<close> in auto)
  moreover have "insert c closed \<union> {d. SClose d \<in> set ops} = closed \<union> {d. SClose d \<in> set (SClose c # ops)}" by auto
  ultimately show ?case by (simp add: t(1))
qed

text \<open>C6. A server with loop threads destroys every connection that closes exactly once. Whatever
  connections its acceptor hands it and in whatever order they report that they closed, one of them any
  number of times, nothing fails; a connection that closed is out of the map and has one
  \<open>connectDestory\<close> pending in its loop, an open one is in the map under its own name and has none.\<close>

theorem closed_connections_destroyed_once:
  assumes "server_ok sv s" and "ts_connects (sw_servers s sv) = Map.empty" and "\<forall>l c. destroys l c s = 0"
    and "pooled sv s" and "\<forall>c s. run (RemoveConnectionInLoop sv c) s = server_removeConnectionInLoop sv c s"
    and "legal_ops {} ops" and "ts_nextConnId (sw_servers s sv) + int (length ops) \<le> 2147483647"
  shows "\<exists>s'. fold_res (server_exec K run sv) ops s = Inr s'
    \<and> inj_on (\<lambda>c. cn_name (cw_conns s' c)) (made ops)
    \<and> (\<forall>c \<in> made ops.
         destroys (cn_loop (cw_conns s' c)) c s' = (if SClose c \<in> set ops then 1 else 0)
       \<and> ts_connects (sw_servers s' sv) (cn_name (cw_conns s' c)) = (if SClose c \<in> set ops then None else Some c))"
proof -
  have "life_ok sv {} {} s" using assms(1-4) by (simp add: life_ok_def)
  from server_ops_ok [OF this subset_refl assms(6,7), of run K] assms(5)
  obtain s' where s': "fold_res (server_exec K run sv) ops s = Inr s'"
    "life_ok sv ({} \<union> made ops) ({} \<union> {c. SClose c \<in> set ops}) s'" by blast
  note s' = s' [unfolded Un_empty_left]
  show ?thesis
    by (intro exI [of _ s'] conjI ballI) (simp_all add: s'(1) life_okD(5) [OF s'(2)] life_okD(7,8) [OF s'(2)])
qed

section \<open>Witnesses\<close>

text \<open>A server on loop 0 in thread 7, with two loops in threads of their own.\<close>

definition sample_servers :: server_world where
  "sample_servers = acceptor_world.extend
     (sample_acceptors\<lparr>w_loops := \<lambda>l. (w_loops sample_acceptors l)\<lparr>lp_threadId := if l = 0 then 7 else l\<rparr>\<rparr>)
     (server_world.fields (\<lambda>_. \<lparr>ts_loop = 0, ts_name = ''s'', ts_acceptor = 0,
        ts_threadpoll = \<lparr>tp_baseloop = 0, tp_started = True, tp_numThreads = 2, tp_next = 1, tp_loops = [5, 6]\<rparr>,
        ts_connectCallBack = None, ts_messageCallBack = None, ts_started = True, ts_nextConnId = 1,
        ts_connects = Map.empty\<rparr>))"

lemma sample_servers_sel [simp]:
  "sw_servers sample_servers sv = \<lparr>ts_loop = 0, ts_name = ''s'', ts_acceptor = 0,
     ts_threadpoll = \<lparr>tp_baseloop = 0, tp_started = True, tp_numThreads = 2, tp_next = 1, tp_loops = [5, 6]\<rparr>,
     ts_connectCallBack = None, ts_messageCallBack = None, ts_started = True, ts_nextConnId = 1, ts_connects = Map.empty\<rparr>"
  "w_tid sample_servers = 7" "lp_threadId (w_loops sample_servers l) = (if l = 0 then 7 else l)"
  "lp_pendingFunctor (w_loops sample_servers l) = []"
  by (simp_all add: sample_servers_def acceptor_world.defs server_world.defs,
      simp add: sample_acceptors_def conn_world.defs sample_conns_def)

lemma sample_server_ok: "server_ok sv sample_servers" "pooled sv sample_servers" "destroys l c sample_servers = 0"
  "isInLoopThread 0 sample_servers"
  by (simp_all add: server_ok_def pooled_def pool_ok_def Let_def isInLoopThread_def destroys_def view_defs)

lemma newConnection_files_witness:
  "\<exists>s1. server_newConnection three_bytes (\<lambda>_. Inr) 21 11 0 12 address_zero sample_servers
      = runInLoop (\<lambda>_. Inr) 6 (ConnectEstablished 11) s1
    \<and> ts_connects (sw_servers s1 0) = [''s#1'' \<mapsto> 11] \<and> cn_loop (cw_conns s1 11) = 6"
proof -
  have here: "isInLoopThread (ts_loop (sw_servers sample_servers 0)) sample_servers" by (simp add: sample_server_ok)
  have k: "ts_nextConnId (sw_servers sample_servers 0) < 2147483647"
    and free: "11 \<notin> ran (ts_connects (sw_servers sample_servers 0))" by simp_all
  have name: "next_name (sw_servers sample_servers 0) = ''s#1''"
    by (simp add: next_name_def conn_suffix_def dec_int_def dec.simps)
  have l: "turn (ts_threadpoll (sw_servers sample_servers 0)) 0 = 6" by (simp add: turn_def)
  from newConnection_files [OF here sample_server_ok(1) k free, of three_bytes "\<lambda>_. Inr" 21 12 address_zero] obtain s1 where
    "server_newConnection three_bytes (\<lambda>_. Inr) 21 11 0 12 address_zero sample_servers
      = runInLoop (\<lambda>_. Inr) 6 (ConnectEstablished 11) s1"
    "ts_connects (sw_servers s1 0) = (ts_connects (sw_servers sample_servers 0))(''s#1'' \<mapsto> 11)"
    "cw_conns s1 = (cw_conns sample_servers)(11 := made_connection three_bytes 21 0 12 address_zero sample_servers)"
    unfolding name l by blast
  then show ?thesis by (intro exI [of _ s1]) (simp add: turn_def)
qed

lemma closed_connections_destroyed_once_witness:
  "\<exists>s'. fold_res (server_exec three_bytes (\<lambda>cl. case cl of RemoveConnectionInLoop sv c \<Rightarrow> server_removeConnectionInLoop sv c | _ \<Rightarrow> Inr) 0)
        [SAccept 12 address_zero 21 11, SAccept 13 address_zero 22 12, SClose 11, SClose 11] sample_servers = Inr s'
    \<and> destroys (cn_loop (cw_conns s' 11)) 11 s' = 1 \<and> destroys (cn_loop (cw_conns s' 12)) 12 s' = 0
    \<and> ts_connects (sw_servers s' 0) (cn_name (cw_conns s' 12)) = Some 12"
proof -
  let ?ops = "[SAccept 12 address_zero 21 11, SAccept 13 address_zero 22 12, SClose 11, SClose 11]"
  let ?run = "\<lambda>cl. case cl of RemoveConnectionInLoop sv c \<Rightarrow> server_removeConnectionInLoop sv c | _ \<Rightarrow> Inr"
  have e: "ts_connects (sw_servers sample_servers 0) = Map.empty" by simp
  have d: "\<forall>l c. destroys l c sample_servers = 0" by (simp add: sample_server_ok)
  have r: "\<forall>c (s :: server_world). ?run (RemoveConnectionInLoop 0 c) s = server_removeConnectionInLoop 0 c s" by simp
  have l: "legal_ops {} ?ops" by simp
  have b: "ts_nextConnId (sw_servers sample_servers 0) + int (length ?ops) \<le> 2147483647" by simp
  from closed_connections_destroyed_once [OF sample_server_ok(1) e d sample_server_ok(2) r l b, of three_bytes]
  obtain s' where s': "fold_res (server_exec three_bytes ?run 0) ?ops sample_servers = Inr s'"
    "\<forall>c \<in> made ?ops.
         destroys (cn_loop (cw_conns s' c)) c s' = (if SClose c \<in> set ?ops then 1 else 0)
       \<and> ts_connects (sw_servers s' 0) (cn_name (cw_conns s' c)) = (if SClose c \<in> set ?ops then None else Some c)"
    by blast
  have "11 \<in> made ?ops" "12 \<in> made ?ops" by simp_all
  note c = s'(2) [rule_format, OF this(1)] s'(2) [rule_format, OF this(2)]
  show ?thesis by (intro exI [of _ s'] conjI s'(1)) (use c in simp_all)
qed

end
