(* ===== verification/ConnectionOutput.thy ===== *)
theory ConnectionOutput
  imports TcpConnection
begin

text \<open>
  The output of a connection: \<open>send\<close>, \<open>shutdown\<close> and \<open>handleWrite\<close> of src/tcpConnection.cpp. The bytes
  the user sends reach the kernel in order, whatever part of each write the kernel takes, and the
  write side is shut down once, after the last of them.
\<close>

section \<open>Output\<close>

definition set_output :: "buffer \<Rightarrow> connection \<Rightarrow> connection" where
  "set_output b cn = cn\<lparr>cn_outputBuffer := b\<rparr>"

lemma set_output_sel [simp]:
  "cn_outputBuffer (set_output b cn) = b" "cn_inputBuffer (set_output b cn) = cn_inputBuffer cn"
  "cn_channel (set_output b cn) = cn_channel cn" "cn_fd (set_output b cn) = cn_fd cn"
  "cn_loop (set_output b cn) = cn_loop cn" "cn_state (set_output b cn) = cn_state cn"
  by (simp_all add: set_output_def)

lemma readable_empty: "buf_ok b \<Longrightarrow> readableBytes b = 0 \<longleftrightarrow> contents b = []"
  by (metis length_contents length_0_conv)

lemma sent_write:
  assumes "conn_ok c s"
  shows "sent c (snd (syscall K (SysWrite (ch_fd (chans s (cn_channel (cw_conns s c)))) bytes) s))
    = sent c s @ take (nat (an_ret (K (sk_trace s) (SysWrite (cn_fd (cw_conns s c)) bytes)))) bytes"
  using conn_okD(2) [OF assms] by (simp add: sent_def loop_simps written_snoc)

lemma down_write:
  "down c (snd (syscall K (SysWrite fd bytes) s)) = down c s"
  by (simp add: down_def loop_simps shutdowns_snoc)

text \<open>What the operations do to the output of a connection: they change at most its output buffer
  and the kernel's trace, and the events of its channel to match.\<close>

definition output_only :: "nat \<Rightarrow> 'z conn_world_scheme \<Rightarrow> 'z conn_world_scheme \<Rightarrow> bool" where
  "output_only c s s' \<longleftrightarrow> (\<exists>b. cw_conns s' = (cw_conns s)(c := set_output b (cw_conns s c)))"

lemma output_onlyD:
  assumes "output_only c s s'"
  shows "cn_state (cw_conns s' c) = cn_state (cw_conns s c)" and "cn_fd (cw_conns s' c) = cn_fd (cw_conns s c)"
    and "cn_channel (cw_conns s' c) = cn_channel (cw_conns s c)" and "cn_loop (cw_conns s' c) = cn_loop (cw_conns s c)"
  using assms by (auto simp: output_only_def)

lemma output_only_same: "cw_conns s' = cw_conns s \<Longrightarrow> output_only c s s'"
  by (auto simp: output_only_def set_output_def intro!: exI [of _ "cn_outputBuffer (cw_conns s c)"])

lemma conn_ok_output:
  assumes ok: "conn_ok c s" and b: "buf_ok b"
    and wr: "isWriting (chans s (cn_channel (cw_conns s c))) \<longleftrightarrow> contents b \<noteq> []"
  shows "conn_ok c (upd_conn c (\<lambda>cn. cn\<lparr>cn_outputBuffer := b\<rparr>) s)"
proof -
  have "registered (cn_channel (cw_conns s c)) (upd_conn c (\<lambda>cn. cn\<lparr>cn_outputBuffer := b\<rparr>) s)"
    by (rule registered_cong [OF conn_okD(1) [OF ok]]) (simp_all add: loop_simps)
  then show ?thesis using ok b wr by (simp add: conn_ok_def Let_def loop_simps)
qed

lemma output_write_event:
  assumes ok: "conn_ok c s" and b: "buf_ok b" and g: "keeps_identity g"
    and wr: "isWriting (g (chans s (cn_channel (cw_conns s c)))) \<longleftrightarrow> contents b \<noteq> []"
  defines "t \<equiv> upd_conn c (\<lambda>cn. cn\<lparr>cn_outputBuffer := b\<rparr>) s"
  shows "\<exists>s'. channel_update (cn_channel (cw_conns s c)) (upd_chan (cn_channel (cw_conns s c)) g t) = Inr s'
    \<and> conn_ok c s' \<and> cw_conns s' = cw_conns t \<and> sk_trace s' = sk_trace s"
proof -
  note D = conn_okD [OF ok]
  have reg: "registered (cn_channel (cw_conns s c)) t"
    unfolding t_def by (rule registered_cong [OF D(1)]) (simp_all add: loop_simps)
  have e: "cn_channel (cw_conns t c) = cn_channel (cw_conns s c)" by (simp add: t_def loop_simps)
  from conn_update [of t c g, unfolded e, OF reg g] D(2-4) b wr
  show ?thesis by (simp add: t_def loop_simps)
qed

text \<open>A write system call on the connection's descriptor.\<close>

lemma conn_write:
  assumes ok: "conn_ok c s"
  obtains s1 where "syscall K (SysWrite (ch_fd (chans s (cn_channel (cw_conns s c)))) bytes) s
      = (K (sk_trace s) (SysWrite (cn_fd (cw_conns s c)) bytes), s1)"
    and "conn_ok c s1" and "cw_conns s1 = cw_conns s" and "chans s1 = chans s" and "down c s1 = down c s"
    and "sent c s1 = sent c s @ take (nat (an_ret (K (sk_trace s) (SysWrite (cn_fd (cw_conns s c)) bytes)))) bytes"
proof -
  let ?w = "SysWrite (ch_fd (chans s (cn_channel (cw_conns s c)))) bytes"
  show thesis
  proof (rule that [of "snd (syscall K ?w s)"])
    show "syscall K ?w s = (K (sk_trace s) (SysWrite (cn_fd (cw_conns s c)) bytes), snd (syscall K ?w s))"
      using conn_okD(2) [OF ok] by (simp add: syscall_def Let_def)
  qed (rule conn_ok_syscall [OF ok] sent_write [OF ok] down_write | simp add: loop_simps)+
qed

lemma send_queued:
  assumes ok: "conn_ok c s" and fits: "length msg \<le> room (cn_outputBuffer (cw_conns s c))" and busy: "unsent c s \<noteq> []"
  shows "\<exists>s'. sendInloop K c msg s = Inr s' \<and> conn_ok c s' \<and> output_only c s s'
    \<and> sent c s' @ unsent c s' = sent c s @ unsent c s @ msg \<and> down c s' = down c s
    \<and> room (cn_outputBuffer (cw_conns s c)) \<le> room (cn_outputBuffer (cw_conns s' c)) + length msg"
proof -
  let ?b = "cn_outputBuffer (cw_conns s c)"
  note D = conn_okD [OF ok]
  have wr: "isWriting (chans s (cn_channel (cw_conns s c)))" using D(6) busy by (simp add: unsent_def)
  show ?thesis
  proof (cases "msg = []")
    case True
    then have "sendInloop K c msg s = Inr s"
      using wr by (simp add: sendInloop_def conn_ok_here [OF ok] Let_def to_size_def)
    then show ?thesis using ok True by (simp add: output_only_same)
  next
    case ne: False
    from buf_append_room [OF D(5) fits] obtain b where
      b: "buf_append ?b msg = Inr b" "buf_ok b" "contents b = contents ?b @ msg" "room ?b \<le> room b + length msg"
      by blast
    let ?s = "upd_conn c (\<lambda>cn. cn\<lparr>cn_outputBuffer := b\<rparr>) s"
    have "sendInloop K c msg s = Inr ?s"
      using ne b(1) wr by (simp add: sendInloop_def conn_ok_here [OF ok] Let_def to_size_def loop_simps)
    moreover have "conn_ok c ?s" by (rule conn_ok_output [OF ok b(2)]) (use wr b(3) ne in simp)
    moreover have "output_only c s ?s" by (auto simp: output_only_def loop_simps set_output_def)
    ultimately show ?thesis using b(3,4) by (simp add: sent_def unsent_def down_def loop_simps)
  qed
qed

lemma send_direct:
  assumes ok: "conn_ok c s" and doc: "write_documented K"
    and fits: "length msg \<le> room (cn_outputBuffer (cw_conns s c))" and idle: "unsent c s = []"
  shows "\<exists>s'. sendInloop K c msg s = Inr s' \<and> conn_ok c s' \<and> output_only c s s'
    \<and> sent c s' @ unsent c s' = sent c s @ unsent c s @ msg \<and> down c s' = down c s
    \<and> room (cn_outputBuffer (cw_conns s c)) \<le> room (cn_outputBuffer (cw_conns s' c)) + length msg"
proof -
  let ?ch = "cn_channel (cw_conns s c)" and ?b = "cn_outputBuffer (cw_conns s c)"
  let ?a = "K (sk_trace s) (SysWrite (cn_fd (cw_conns s c)) msg)"
  let ?n = "if an_ret ?a \<ge> 0 then an_ret ?a else 0"
  note D = conn_okD [OF ok]
  have empty: "contents ?b = []" using idle by (simp add: unsent_def)
  have nat_n: "nat ?n = nat (an_ret ?a)" by simp
  have n: "0 \<le> ?n" "nat ?n \<le> length msg" using doc by (auto simp: write_documented_def nat_le_iff)
  obtain s1 where s1: "syscall K (SysWrite (ch_fd (chans s ?ch)) msg) s = (?a, s1)" "conn_ok c s1" "cw_conns s1 = cw_conns s"
    "chans s1 = chans s" "down c s1 = down c s" "sent c s1 = sent c s @ take (nat ?n) msg"
    unfolding nat_n by (rule conn_write [OF ok])
  have size: "to_size ?n = nat ?n" using n fits by (intro to_size_id) (auto simp: room_def)
  have guard: "(\<not> isWriting (chans s ?ch) \<and> readableBytes ?b = 0) = (contents ?b = [])"
    using D(5,6) by (auto simp: readable_empty)
  have start: "sendInloop K c msg s = must (?n \<ge> 0)
     (if to_size ?n < length msg then
        bnd (buf_append ?b (drop (nat ?n) msg)) (\<lambda>b.
        let s = upd_conn c (\<lambda>cn. cn\<lparr>cn_outputBuffer := b\<rparr>) s1 in
        if \<not> isWriting (chans s ?ch) then enableWriting ?ch s else Inr s)
      else Inr s1)"
    unfolding sendInloop_def conn_ok_here [OF ok] bnd_Inr Let_def guard s1(1) using empty by simp
  show ?thesis
  proof (cases "nat ?n < length msg")
    case False
    then have "take (nat ?n) msg = msg" by simp
    moreover have "sendInloop K c msg s = Inr s1" unfolding start size using False n by simp
    ultimately show ?thesis using s1 empty by (simp add: unsent_def output_only_same)
  next
    case True
    have "length (drop (nat ?n) msg) \<le> room ?b" using fits by simp
    from buf_append_room [OF D(5) this] obtain b where
      b: "buf_append ?b (drop (nat ?n) msg) = Inr b" "buf_ok b" "contents b = drop (nat ?n) msg"
        "room ?b \<le> room b + length (drop (nat ?n) msg)" using empty by auto
    let ?s2 = "upd_conn c (\<lambda>cn. cn\<lparr>cn_outputBuffer := b\<rparr>) s1"
    have "\<not> isWriting (chans s ?ch)" using D(6) empty by simp
    then have r: "sendInloop K c msg s = enableWriting ?ch ?s2"
      unfolding start size using True n(1) b(1) by (simp add: s1(4) Let_def upd_conn_sel)
    have "contents b \<noteq> []" using b(3) True by simp
    then obtain s3 where s3: "enableWriting ?ch ?s2 = Inr s3" "conn_ok c s3" "cw_conns s3 = cw_conns ?s2" "sk_trace s3 = sk_trace s1"
      using output_write_event [OF s1(2) b(2), of writingBits] by (auto simp: enableWriting_def s1(3))
    have "cw_conns s3 = (cw_conns s)(c := set_output b (cw_conns s c))"
      by (simp add: s3(3) loop_simps set_output_def s1(3))
    moreover from this have "sent c s3 = sent c s1" "unsent c s3 = contents b" "down c s3 = down c s1"
      by (simp_all add: sent_def unsent_def down_def s3(4) s1(3))
    moreover have "room ?b \<le> room b + length msg" using b(4) by simp
    ultimately show ?thesis using r s3(1,2) s1(5,6) b(3) idle
      by (auto simp: output_only_def intro!: exI [of _ s3])
  qed
qed

lemma send_effect:
  assumes "conn_ok c s" and "write_documented K" and "length msg \<le> room (cn_outputBuffer (cw_conns s c))"
  shows "\<exists>s'. sendInloop K c msg s = Inr s' \<and> conn_ok c s' \<and> output_only c s s'
    \<and> sent c s' @ unsent c s' = sent c s @ unsent c s @ msg \<and> down c s' = down c s
    \<and> room (cn_outputBuffer (cw_conns s c)) \<le> room (cn_outputBuffer (cw_conns s' c)) + length msg"
  using send_queued [OF assms(1,3)] send_direct [OF assms] by (cases "unsent c s = []") blast+

lemma shutdown_idle:
  assumes ok: "conn_ok c s" and e: "unsent c s = []"
  shows "\<exists>s'. shutdownInloop K c s = Inr s' \<and> conn_ok c s' \<and> cw_conns s' = cw_conns s
    \<and> sent c s' = sent c s \<and> down c s' = Suc (down c s)"
proof -
  let ?s = "socket_shutdownWrite K (cn_fd (cw_conns s c)) s"
  have "\<not> isWriting (chans s (cn_channel (cw_conns s c)))" using conn_okD(6) [OF ok] e by (simp add: unsent_def)
  then have "shutdownInloop K c s = Inr ?s" by (simp add: shutdownInloop_def conn_ok_here [OF ok])
  moreover have "conn_ok c ?s" unfolding socket_shutdownWrite_def by (rule conn_ok_syscall [OF ok])
  moreover have "cw_conns ?s = cw_conns s" "sent c ?s = sent c s" "down c ?s = Suc (down c s)"
    by (simp_all add: socket_shutdownWrite_def sent_def down_def loop_simps written_snoc shutdowns_snoc)
  ultimately show ?thesis by blast
qed

lemma shutdown_busy:
  assumes ok: "conn_ok c s" and e: "unsent c s \<noteq> []"
  shows "shutdownInloop K c s = Inr s"
  using conn_okD(6) [OF ok] e by (simp add: unsent_def shutdownInloop_def conn_ok_here [OF ok])

lemma write_start:
  assumes ok: "conn_ok c s" and doc: "write_documented K" and busy: "unsent c s \<noteq> []"
    and pos: "an_ret (K (sk_trace s) (SysWrite (cn_fd (cw_conns s c)) (unsent c s))) > 0"
  shows "\<exists>s1 b. conn_ok c s1 \<and> cw_conns s1 = cw_conns s \<and> chans s1 = chans s \<and> down c s1 = down c s
    \<and> buf_ok b \<and> sent c s1 @ contents b = sent c s @ unsent c s \<and> room b = room (cn_outputBuffer (cw_conns s c))
    \<and> conn_handleWrite K c s = (let s2 = upd_conn c (\<lambda>cn. cn\<lparr>cn_outputBuffer := b\<rparr>) s1 in
        if contents b = [] then
          bnd (disableWriting (cn_channel (cw_conns s c)) s2) (\<lambda>s.
          if cn_state (cw_conns s c) = kDisconnecting then shutdownInloop K c s else Inr s)
        else Inr s2)"
proof -
  let ?b = "cn_outputBuffer (cw_conns s c)"
  let ?a = "K (sk_trace s) (SysWrite (cn_fd (cw_conns s c)) (contents ?b))"
  note D = conn_okD [OF ok]
  have wr: "isWriting (chans s (cn_channel (cw_conns s c)))" using D(6) busy by (simp add: unsent_def)
  have pos': "an_ret ?a > 0" using pos by (simp add: unsent_def)
  have "an_ret ?a \<le> int (length (contents ?b))" using doc by (simp add: write_documented_def)
  then have n: "nat (an_ret ?a) \<le> length (contents ?b)" by simp
  from retrieve_ok [OF D(5) n] obtain b where
    b: "retrieve ?b (nat (an_ret ?a)) = Inr b" "buf_ok b" "contents b = drop (nat (an_ret ?a)) (contents ?b)"
      "writeIndex b = writeIndex ?b" by blast
  obtain s1 where s1: "syscall K (SysWrite (ch_fd (chans s (cn_channel (cw_conns s c)))) (contents ?b)) s = (?a, s1)"
    "conn_ok c s1" "cw_conns s1 = cw_conns s" "chans s1 = chans s" "down c s1 = down c s"
    "sent c s1 = sent c s @ take (nat (an_ret ?a)) (contents ?b)"
    by (rule conn_write [OF ok])
  have "conn_handleWrite K c s = (let s2 = upd_conn c (\<lambda>cn. cn\<lparr>cn_outputBuffer := b\<rparr>) s1 in
      if contents b = [] then
        bnd (disableWriting (cn_channel (cw_conns s c)) s2) (\<lambda>s.
        if cn_state (cw_conns s c) = kDisconnecting then shutdownInloop K c s else Inr s)
      else Inr s2)"
    unfolding conn_handleWrite_def conn_ok_here [OF ok] bnd_Inr Let_def read_peek [OF D(5)] s1(1)
    using wr pos' b(1) by (simp add: readable_empty [OF b(2)])
  moreover have "sent c s1 @ contents b = sent c s @ unsent c s" by (simp add: s1(6) b(3) unsent_def)
  moreover have "room b = room ?b" using b(4) by (simp add: room_def)
  ultimately show ?thesis using s1(2-5) b(2) by blast
qed

lemma write_nothing:
  assumes ok: "conn_ok c s" and none: "unsent c s = [] \<or> \<not> an_ret (K (sk_trace s) (SysWrite (cn_fd (cw_conns s c)) (unsent c s))) > 0"
  shows "\<exists>s'. conn_handleWrite K c s = Inr s' \<and> conn_ok c s' \<and> cw_conns s' = cw_conns s
    \<and> sent c s' = sent c s \<and> down c s' = down c s"
proof (cases "unsent c s = []")
  case True
  then have "conn_handleWrite K c s = Inr s"
    using conn_okD(6) [OF ok] by (simp add: conn_handleWrite_def conn_ok_here [OF ok] Let_def unsent_def)
  then show ?thesis using ok by blast
next
  case False
  note D = conn_okD [OF ok]
  have wr: "isWriting (chans s (cn_channel (cw_conns s c)))" using D(6) False by (simp add: unsent_def)
  let ?bytes = "contents (cn_outputBuffer (cw_conns s c))"
  let ?a = "K (sk_trace s) (SysWrite (cn_fd (cw_conns s c)) ?bytes)"
  have neg: "\<not> an_ret ?a > 0" using none False by (simp add: unsent_def)
  obtain s1 where s1: "syscall K (SysWrite (ch_fd (chans s (cn_channel (cw_conns s c)))) ?bytes) s = (?a, s1)"
    "conn_ok c s1" "cw_conns s1 = cw_conns s" "chans s1 = chans s" "down c s1 = down c s"
    "sent c s1 = sent c s @ take (nat (an_ret ?a)) ?bytes"
    by (rule conn_write [OF ok])
  have "conn_handleWrite K c s = Inr s1"
    unfolding conn_handleWrite_def conn_ok_here [OF ok] bnd_Inr Let_def read_peek [OF D(5)] s1(1) using wr neg by simp
  then show ?thesis using s1(2-6) neg by simp
qed

lemma write_effect:
  assumes ok: "conn_ok c s" and doc: "write_documented K"
  shows "\<exists>s'. conn_handleWrite K c s = Inr s' \<and> conn_ok c s' \<and> output_only c s s'
    \<and> sent c s' @ unsent c s' = sent c s @ unsent c s
    \<and> down c s' = down c s + (if unsent c s \<noteq> [] \<and> unsent c s' = [] \<and> cn_state (cw_conns s c) = kDisconnecting
        then 1 else 0)
    \<and> room (cn_outputBuffer (cw_conns s' c)) = room (cn_outputBuffer (cw_conns s c))"
proof (cases "unsent c s = [] \<or> \<not> an_ret (K (sk_trace s) (SysWrite (cn_fd (cw_conns s c)) (unsent c s))) > 0")
  case True
  from write_nothing [of c s K, OF ok True] obtain s' where
    "conn_handleWrite K c s = Inr s'" "conn_ok c s'" "cw_conns s' = cw_conns s" "sent c s' = sent c s" "down c s' = down c s"
    by blast
  then show ?thesis by (intro exI [of _ s']) (auto simp: unsent_def output_only_same)
next
  case False
  let ?cn = "cw_conns s c"
  from write_start [OF ok doc] False obtain s1 b where
    s1: "conn_ok c s1" "cw_conns s1 = cw_conns s" "chans s1 = chans s" "down c s1 = down c s" "buf_ok b"
      "sent c s1 @ contents b = sent c s @ unsent c s" "room b = room (cn_outputBuffer ?cn)"
      "conn_handleWrite K c s = (let s2 = upd_conn c (\<lambda>cn. cn\<lparr>cn_outputBuffer := b\<rparr>) s1 in
        if contents b = [] then
          bnd (disableWriting (cn_channel ?cn) s2) (\<lambda>s.
          if cn_state (cw_conns s c) = kDisconnecting then shutdownInloop K c s else Inr s)
        else Inr s2)" by blast
  let ?s2 = "upd_conn c (\<lambda>cn. cn\<lparr>cn_outputBuffer := b\<rparr>) s1"
  have c2: "cw_conns ?s2 = (cw_conns s)(c := set_output b ?cn)" by (simp add: loop_simps set_output_def s1(2))
  have wr: "isWriting (chans s (cn_channel ?cn))" using conn_okD(6) [OF ok] False by (simp add: unsent_def)
  show ?thesis
  proof (cases "contents b = []")
    case some: False
    then have "conn_handleWrite K c s = Inr ?s2" unfolding s1(8) by (simp add: Let_def)
    moreover have "conn_ok c ?s2" by (rule conn_ok_output [OF s1(1,5)]) (use wr some in \<open>simp add: s1(2,3)\<close>)
    moreover have "output_only c s ?s2" using c2 by (auto simp: output_only_def)
    moreover have "sent c ?s2 = sent c s1" "unsent c ?s2 = contents b" "down c ?s2 = down c s1"
      by (simp_all add: sent_def unsent_def down_def c2 s1(2) upd_conn_sel)
    ultimately show ?thesis using s1(4,6,7) some c2 by (intro exI [of _ ?s2]) simp
  next
    case True
    then obtain s3 where s3: "disableWriting (cn_channel ?cn) ?s2 = Inr s3" "conn_ok c s3" "cw_conns s3 = cw_conns ?s2"
      "sk_trace s3 = sk_trace s1"
      using output_write_event [OF s1(1,5), of noWritingBits] by (auto simp: disableWriting_def s1(2))
    have c3: "cw_conns s3 = (cw_conns s)(c := set_output b ?cn)" using s3(3) c2 by simp
    have v3: "sent c s3 = sent c s1" "unsent c s3 = []" "down c s3 = down c s1"
      using True by (simp_all add: sent_def unsent_def down_def c3 s1(2) s3(4))
    have r: "conn_handleWrite K c s = (if cn_state ?cn = kDisconnecting then shutdownInloop K c s3 else Inr s3)"
      unfolding s1(8) using True s3(1) c3 by (simp add: Let_def)
    show ?thesis
    proof (cases "cn_state ?cn = kDisconnecting")
      case no: False
      then show ?thesis using r s3(2) c3 v3 s1(4,6,7) True
        by (intro exI [of _ s3]) (auto simp: output_only_def)
    next
      case dis: True
      from shutdown_idle [OF s3(2) v3(2), of K] obtain s4 where
        s4: "shutdownInloop K c s3 = Inr s4" "conn_ok c s4" "cw_conns s4 = cw_conns s3" "sent c s4 = sent c s3"
          "down c s4 = Suc (down c s3)" by blast
      have "unsent c s4 = []" using s4(3) v3(2) by (simp add: unsent_def)
      then show ?thesis using r dis s4 c3 v3 s1(4,6,7) True False
        by (intro exI [of _ s4]) (auto simp: output_only_def)
    qed
  qed
qed

section \<open>The order of the output\<close>

text \<open>What happens to the output of a connection on its loop: the user sends or shuts down, the poller
  reports the descriptor writable.\<close>

datatype conn_op = OpSend string | OpWritable | OpShutdown

fun conn_exec :: "kernel \<Rightarrow> ('z conn_world_scheme) env \<Rightarrow> nat \<Rightarrow> conn_op \<Rightarrow> 'z conn_world_scheme \<Rightarrow> 'z conn_world_scheme res" where
  "conn_exec K E c (OpSend m) s = conn_send K E c m s"
| "conn_exec K E c OpWritable s = conn_handleWrite K c s"
| "conn_exec K E c OpShutdown s = conn_shutdown E c s"

text \<open>The messages sent before the first shutdown, and all the bytes sent.\<close>

fun accepted :: "conn_op list \<Rightarrow> string" where
  "accepted [] = []"
| "accepted (OpSend m # ops) = m @ accepted ops"
| "accepted (OpWritable # ops) = accepted ops"
| "accepted (OpShutdown # ops) = []"

fun op_size :: "conn_op \<Rightarrow> nat" where
  "op_size (OpSend m) = length m"
| "op_size _ = 0"

text \<open>An open connection that has made no shutdown is connected; one that is shutting down has shut the
  write side down, once, exactly if its output is drained.\<close>

definition out_ok :: "nat \<Rightarrow> nat \<Rightarrow> 'z conn_world_scheme \<Rightarrow> bool" where
  "out_ok c d s \<longleftrightarrow> conn_ok c s \<and> cn_state (cw_conns s c) \<in> {kConnected, kDisconnecting}
     \<and> down c s = d + (if cn_state (cw_conns s c) = kDisconnecting \<and> unsent c s = [] then 1 else 0)"

lemma conn_ok_in_loop: "conn_ok c s \<Longrightarrow> isInLoopThread (cn_loop (cw_conns s c)) s"
  using conn_okD(1,3) [of c s] by (simp add: registered_def)

lemma shutdown_effect:
  assumes ok: "conn_ok c s" and run: "run_closure E (ShutdownInloop c) = shutdownInloop K c"
    and st: "cn_state (cw_conns s c) = kConnected"
  shows "\<exists>s'. conn_shutdown E c s = Inr s' \<and> conn_ok c s' \<and> cn_state (cw_conns s' c) = kDisconnecting
    \<and> sent c s' = sent c s \<and> cn_outputBuffer (cw_conns s' c) = cn_outputBuffer (cw_conns s c)
    \<and> down c s' = down c s + (if unsent c s = [] then 1 else 0)"
proof -
  let ?s = "upd_conn c (setState kDisconnecting) s"
  have reg: "registered (cn_channel (cw_conns s c)) ?s"
    by (rule registered_cong [OF conn_okD(1) [OF ok]]) (simp_all add: loop_simps)
  have ok': "conn_ok c ?s"
    using conn_okD(2-6) [OF ok] reg by (simp add: conn_ok_def Let_def loop_simps setState_def)
  have v: "sent c ?s = sent c s" "unsent c ?s = unsent c s" "down c ?s = down c s"
    "cn_outputBuffer (cw_conns ?s c) = cn_outputBuffer (cw_conns s c)" "cn_state (cw_conns ?s c) = kDisconnecting"
    by (simp_all add: sent_def unsent_def down_def loop_simps setState_def)
  have r: "conn_shutdown E c s = shutdownInloop K c ?s"
    using st conn_ok_in_loop [OF ok'] by (simp add: conn_shutdown_def Let_def runInLoop_def run)
  show ?thesis
  proof (cases "unsent c s = []")
    case True
    then show ?thesis using shutdown_idle [OF ok', of K] r v by auto
  next
    case False
    then show ?thesis using shutdown_busy [OF ok', of K] r v ok' by simp
  qed
qed

lemma conn_exec_effect:
  assumes ok: "out_ok c d s" and doc: "write_documented K"
    and run: "run_closure E (ShutdownInloop c) = shutdownInloop K c"
    and fits: "op_size op \<le> room (cn_outputBuffer (cw_conns s c))"
  shows "\<exists>s'. conn_exec K E c op s = Inr s' \<and> out_ok c d s'
    \<and> sent c s' @ unsent c s' = sent c s @ unsent c s
        @ (if cn_state (cw_conns s c) = kConnected then accepted [op] else [])
    \<and> (cn_state (cw_conns s' c) = kConnected \<longleftrightarrow> cn_state (cw_conns s c) = kConnected \<and> op \<noteq> OpShutdown)
    \<and> room (cn_outputBuffer (cw_conns s c)) \<le> room (cn_outputBuffer (cw_conns s' c)) + op_size op"
proof -
  have c: "conn_ok c s" and st: "cn_state (cw_conns s c) \<in> {kConnected, kDisconnecting}"
    and dn: "down c s = d + (if cn_state (cw_conns s c) = kDisconnecting \<and> unsent c s = [] then 1 else 0)"
    using ok by (simp_all add: out_ok_def)
  show ?thesis
  proof (cases op)
    case (OpSend m)
    show ?thesis
    proof (cases "cn_state (cw_conns s c) = kConnected")
      case True
      have "length m \<le> room (cn_outputBuffer (cw_conns s c))" using fits OpSend by simp
      from send_effect [OF c doc this] obtain s' where s': "sendInloop K c m s = Inr s'" "conn_ok c s'"
        "output_only c s s'" "sent c s' @ unsent c s' = sent c s @ unsent c s @ m" "down c s' = down c s"
        "room (cn_outputBuffer (cw_conns s c)) \<le> room (cn_outputBuffer (cw_conns s' c)) + length m" by blast
      have "conn_exec K E c op s = Inr s'"
        using s'(1) True conn_ok_in_loop [OF c] OpSend by (simp add: conn_send_def Let_def)
      with s' True OpSend output_onlyD(1) [OF s'(3)] dn show ?thesis by (simp add: out_ok_def)
    next
      case False
      then show ?thesis using OpSend ok st by (simp add: conn_send_def Let_def)
    qed
  next
    case OpWritable
    from write_effect [OF c doc] obtain s' where s': "conn_handleWrite K c s = Inr s'" "conn_ok c s'"
      "output_only c s s'" "sent c s' @ unsent c s' = sent c s @ unsent c s"
      "down c s' = down c s + (if unsent c s \<noteq> [] \<and> unsent c s' = [] \<and> cn_state (cw_conns s c) = kDisconnecting
        then 1 else 0)"
      "room (cn_outputBuffer (cw_conns s' c)) = room (cn_outputBuffer (cw_conns s c))" by blast
    have "unsent c s = [] \<Longrightarrow> unsent c s' = []"
    proof -
      assume e: "unsent c s = []"
      then have "conn_handleWrite K c s = Inr s"
        using conn_okD(6) [OF c] by (simp add: conn_handleWrite_def conn_ok_here [OF c] Let_def unsent_def)
      with s'(1) e show ?thesis by simp
    qed
    then show ?thesis using s' OpWritable output_onlyD(1) [OF s'(3)] st dn by (auto simp: out_ok_def)
  next
    case OpShutdown
    show ?thesis
    proof (cases "cn_state (cw_conns s c) = kConnected")
      case True
      then show ?thesis using shutdown_effect [OF c run True] OpShutdown dn
        by (auto simp: out_ok_def unsent_def)
    next
      case False
      then show ?thesis using OpShutdown ok st by (simp add: conn_shutdown_def)
    qed
  qed
qed

lemma conn_execs_effect:
  assumes "out_ok c d s" and doc: "write_documented K"
    and run: "run_closure E (ShutdownInloop c) = shutdownInloop K c"
    and "sum_list (map op_size ops) \<le> room (cn_outputBuffer (cw_conns s c))"
  shows "\<exists>s'. fold_res (conn_exec K E c) ops s = Inr s' \<and> out_ok c d s'
    \<and> sent c s' @ unsent c s' = sent c s @ unsent c s
        @ (if cn_state (cw_conns s c) = kConnected then accepted ops else [])
    \<and> (cn_state (cw_conns s' c) = kConnected \<longleftrightarrow> cn_state (cw_conns s c) = kConnected \<and> OpShutdown \<notin> set ops)"
  using assms(1,4)
proof (induction ops arbitrary: s)
  case Nil
  then show ?case by simp
next
  case (Cons op ops)
  have "op_size op \<le> room (cn_outputBuffer (cw_conns s c))" using Cons.prems(2) by simp
  from conn_exec_effect [OF Cons.prems(1) doc run this] obtain t where
    t: "conn_exec K E c op s = Inr t" "out_ok c d t"
      "sent c t @ unsent c t = sent c s @ unsent c s @ (if cn_state (cw_conns s c) = kConnected then accepted [op] else [])"
      "cn_state (cw_conns t c) = kConnected \<longleftrightarrow> cn_state (cw_conns s c) = kConnected \<and> op \<noteq> OpShutdown"
      "room (cn_outputBuffer (cw_conns s c)) \<le> room (cn_outputBuffer (cw_conns t c)) + op_size op" by blast
  have "sum_list (map op_size ops) \<le> room (cn_outputBuffer (cw_conns t c))" using Cons.prems(2) t(5) by simp
  from Cons.IH [OF t(2) this] obtain s' where
    s': "fold_res (conn_exec K E c) ops t = Inr s'" "out_ok c d s'"
      "sent c s' @ unsent c s' = sent c t @ unsent c t @ (if cn_state (cw_conns t c) = kConnected then accepted ops else [])"
      "cn_state (cw_conns s' c) = kConnected \<longleftrightarrow> cn_state (cw_conns t c) = kConnected \<and> OpShutdown \<notin> set ops" by blast
  have "sent c s' @ unsent c s' = (sent c s @ unsent c s)
      @ (if cn_state (cw_conns s c) = kConnected then accepted [op] else [])
      @ (if cn_state (cw_conns t c) = kConnected then accepted ops else [])"
    unfolding s'(3) append_assoc [symmetric] t(3) by simp
  also have "\<dots> = sent c s @ unsent c s @ (if cn_state (cw_conns s c) = kConnected then accepted (op # ops) else [])"
    using t(4) by (cases op) auto
  finally show ?case using t(1,4) s'(1,2,4) by auto
qed

text \<open>C1. The bytes of a connected connection reach the kernel in the order they were sent. Through any
  sequence of sends, write events and shutdowns on its loop, whatever part of each write the kernel
  takes, nothing faults, and what the kernel has taken followed by what is still buffered is the
  concatenation of the messages sent before the first shutdown; the write side is shut down exactly
  once, and only when a shutdown was asked for and every byte has been taken.\<close>

theorem connection_output_order:
  assumes "conn_ok c s" and "cn_state (cw_conns s c) = kConnected" and "unsent c s = []"
    and "write_documented K" and "run_closure E (ShutdownInloop c) = shutdownInloop K c"
    and "sum_list (map op_size ops) \<le> room (cn_outputBuffer (cw_conns s c))"
  shows "\<exists>s'. fold_res (conn_exec K E c) ops s = Inr s' \<and> conn_ok c s'
    \<and> sent c s' @ unsent c s' = sent c s @ accepted ops
    \<and> down c s' = down c s + (if OpShutdown \<in> set ops \<and> unsent c s' = [] then 1 else 0)"
proof -
  have "out_ok c (down c s) s" using assms(1,2) by (simp add: out_ok_def)
  from conn_execs_effect [OF this assms(4,5,6)] obtain s' where
    "fold_res (conn_exec K E c) ops s = Inr s'" "out_ok c (down c s) s'"
    "sent c s' @ unsent c s' = sent c s @ accepted ops"
    "cn_state (cw_conns s' c) = kConnected \<longleftrightarrow> OpShutdown \<notin> set ops" using assms(2,3) by auto
  then show ?thesis by (intro exI [of _ s']) (auto simp: out_ok_def)
qed

text \<open>The kernel takes ''hel'' when the message is sent, the rest when the socket is writable again; the
  shutdown waits for it.\<close>

lemma connection_output_order_witness:
  "\<exists>s'. fold_res (conn_exec three_bytes sample_env 1) [OpSend ''hello'', OpShutdown, OpSend ''x'', OpWritable]
      (sample_conns True kConnected) = Inr s'
    \<and> sent 1 s' @ unsent 1 s' = ''hello'' \<and> down 1 s' = (if unsent 1 s' = [] then 1 else 0)"
proof -
  let ?s = "sample_conns True kConnected" and ?ops = "[OpSend ''hello'', OpShutdown, OpSend ''x'', OpWritable]"
  have st: "cn_state (cw_conns ?s 1) = kConnected" "unsent 1 ?s = []" "sent 1 ?s = []" "down 1 ?s = 0"
    by (simp_all add: sample_conns_def sample_connection_def unsent_def sent_def down_def contents_init written_def shutdowns_def)
  have doc: "write_documented three_bytes" by (simp add: write_documented_def three_bytes_def)
  have run: "run_closure sample_env (ShutdownInloop 1) = shutdownInloop three_bytes 1" by (simp add: sample_env_def)
  have "sum_list (map op_size ?ops) \<le> room (cn_outputBuffer (cw_conns ?s 1))"
    by (simp add: sample_conns_def sample_connection_def room_init)
  from connection_output_order [OF sample_conn_ok st(1,2) doc run this] obtain s' where
    "fold_res (conn_exec three_bytes sample_env 1) ?ops ?s = Inr s'" "sent 1 s' @ unsent 1 s' = sent 1 ?s @ accepted ?ops"
    "down 1 s' = down 1 ?s + (if OpShutdown \<in> set ?ops \<and> unsent 1 s' = [] then 1 else 0)" by blast
  then show ?thesis by (intro exI [of _ s']) (simp add: st(3,4) del: fold_res.simps One_nat_def)
qed

end
