(* ===== verification/ConnectionLife.thy ===== *)
theory ConnectionLife
  imports TcpConnection
begin

text \<open>
  The input and the life of a connection of src/tcpConnection.cpp: what a read event does, and how a
  connection is established, closed and destroyed, with its channel entering and leaving the poller.
\<close>

section \<open>Input\<close>

text \<open>What readv(2) documents: the bytes delivered are as many as it returns, and fit the blocks.\<close>

definition readv_documented :: "kernel \<Rightarrow> bool" where
  "readv_documented K \<longleftrightarrow> (\<forall>tr fd n. 0 \<le> an_ret (K tr (SysReadv fd n))
     \<longrightarrow> an_ret (K tr (SysReadv fd n)) = int (length (an_data (K tr (SysReadv fd n))))
       \<and> length (an_data (K tr (SysReadv fd n))) \<le> n)"

definition set_input :: "buffer \<Rightarrow> connection \<Rightarrow> connection" where
  "set_input b cn = cn\<lparr>cn_inputBuffer := b\<rparr>"

lemma set_input_sel [simp]:
  "cn_inputBuffer (set_input b cn) = b" "cn_outputBuffer (set_input b cn) = cn_outputBuffer cn"
  "cn_channel (set_input b cn) = cn_channel cn" "cn_fd (set_input b cn) = cn_fd cn"
  "cn_loop (set_input b cn) = cn_loop cn" "cn_state (set_input b cn) = cn_state cn" "cn_name (set_input b cn) = cn_name cn"
  "cn_messageCallBack (set_input b cn) = cn_messageCallBack cn" "cn_closeCallBack (set_input b cn) = cn_closeCallBack cn"
  by (simp_all add: set_input_def)

lemma conn_ok_input:
  assumes ok: "conn_ok c s" and b: "buf_ok b"
  shows "conn_ok c (upd_conn c (set_input b) s)"
proof -
  have "registered (cn_channel (cw_conns s c)) (upd_conn c (set_input b) s)"
    by (rule registered_cong [OF conn_okD(1) [OF ok]]) (simp_all add: loop_simps)
  then show ?thesis using ok b by (simp add: conn_ok_def Let_def loop_simps)
qed

text \<open>The channel of the connection is registered, whatever its buffers and events are.\<close>

definition conn_registered :: "nat \<Rightarrow> 'z conn_world_scheme \<Rightarrow> bool" where
  "conn_registered c s \<longleftrightarrow> (let cn = cw_conns s c; ch = chans s (cn_channel cn) in
     registered (cn_channel cn) s \<and> ch_fd ch = cn_fd cn \<and> ch_loop ch = cn_loop cn)"

lemma conn_ok_registered: "conn_ok c s \<Longrightarrow> conn_registered c s"
  by (simp add: conn_ok_def conn_registered_def Let_def)

lemma handleRead_start:
  assumes ok: "conn_registered c s" and input: "buf_ok (cn_inputBuffer (cw_conns s c))" and doc: "readv_documented K"
    and fits: "length (store (cn_inputBuffer (cw_conns s c)))
      + length (an_data (K (sk_trace s) (SysReadv (cn_fd (cw_conns s c))
          (writableBytes (cn_inputBuffer (cw_conns s c)) + extraBuf_size)))) \<le> size_max"
  defines "call \<equiv> SysReadv (cn_fd (cw_conns s c)) (writableBytes (cn_inputBuffer (cw_conns s c)) + extraBuf_size)"
  defines "a \<equiv> K (sk_trace s) call"
  shows "\<exists>b. buf_ok b
    \<and> contents b = contents (cn_inputBuffer (cw_conns s c)) @ (if 0 < an_ret a then an_data a else [])
    \<and> conn_handleRead K E c t s =
       (let s' = upd_conn c (set_input b) (snd (syscall K call s)) in
        if 0 < an_ret a then call_any (cn_messageCallBack (cw_conns s c)) (\<lambda>n. on_message E n c t) s'
        else if an_ret a = 0 then handleClose E c s' else Inr (handleError K c s'))"
proof -
  let ?b = "cn_inputBuffer (cw_conns s c)"
  have fd: "ch_fd (chans s (cn_channel (cw_conns s c))) = cn_fd (cw_conns s c)"
    using ok by (simp add: conn_registered_def Let_def)
  have sys: "syscall K (SysReadv (ch_fd (chans s (cn_channel (cw_conns s c)))) (writableBytes ?b + extraBuf_size)) s
      = (a, snd (syscall K call s))"
    using fd by (simp add: syscall_def Let_def a_def call_def)
  have start: "conn_handleRead K E c t s =
      bnd (readFd ?b (if an_ret a < 0 then Inl (an_errno a) else Inr (an_data a))) (\<lambda>(b, ret, _).
      let s = upd_conn c (set_input b) (snd (syscall K call s)) in
      if ret > 0 then call_any (cn_messageCallBack (cw_conns s c)) (\<lambda>n. on_message E n c t) s
      else if ret = 0 then handleClose E c s else Inr (handleError K c s))"
    unfolding conn_handleRead_def Let_def sys set_input_def by simp
  show ?thesis
  proof (cases "an_ret a < 0")
    case True
    then show ?thesis using input
      by (intro exI [of _ ?b]) (simp add: start readFd_error Let_def)
  next
    case False
    then have len: "an_ret a = int (length (an_data a))" "length (an_data a) \<le> writableBytes ?b + extraBuf_size"
      using doc by (auto simp: readv_documented_def a_def call_def)
    have "length (store ?b) + length (an_data a) \<le> size_max" using fits by (simp add: a_def call_def)
    from readFd_ok [OF input this len(2)] obtain b where
      b: "readFd ?b (Inr (an_data a)) = Inr (b, int (length (an_data a)), None)" "buf_ok b"
        "contents b = contents ?b @ an_data a" by blast
    show ?thesis
      using False len b by (intro exI [of _ b]) (simp add: start Let_def loop_simps)
  qed
qed

text \<open>C23. A read event makes one call of \<open>readv\<close> and does one of three things. Bytes: they are appended to
  the input buffer and the message callback runs on them (a connection without one throws). End of
  file: the connection is closed. An error: the pending error of the socket is fetched for the log,
  and the connection stays as it was.\<close>

theorem handleRead_cases:
  assumes "conn_ok c s" and "readv_documented K"
    and "length (store (cn_inputBuffer (cw_conns s c)))
      + length (an_data (K (sk_trace s) (SysReadv (cn_fd (cw_conns s c))
          (writableBytes (cn_inputBuffer (cw_conns s c)) + extraBuf_size)))) \<le> size_max"
    and "a = K (sk_trace s) (SysReadv (cn_fd (cw_conns s c))
          (writableBytes (cn_inputBuffer (cw_conns s c)) + extraBuf_size))"
  shows "\<exists>s' b. conn_ok c s' \<and> cw_conns s' = (cw_conns s)(c := set_input b (cw_conns s c))
    \<and> contents b = contents (cn_inputBuffer (cw_conns s c)) @ (if 0 < an_ret a then an_data a else [])
    \<and> unsent c s' = unsent c s \<and> sent c s' = sent c s \<and> down c s' = down c s
    \<and> conn_handleRead K E c t s =
       (if 0 < an_ret a then
          (case cn_messageCallBack (cw_conns s c) of None \<Rightarrow> Inl BadFunctionCall | Some n \<Rightarrow> on_message E n c t s')
        else if an_ret a = 0 then handleClose E c s'
        else Inr (snd (syscall K (SysSockError (cn_fd (cw_conns s c))) s')))"
proof -
  let ?call = "SysReadv (cn_fd (cw_conns s c)) (writableBytes (cn_inputBuffer (cw_conns s c)) + extraBuf_size)"
  let ?s1 = "snd (syscall K ?call s)"
  from handleRead_start [OF conn_ok_registered [OF assms(1)] conn_okD(4) [OF assms(1)] assms(2,3), of E t, folded assms(4)] obtain b where
    b: "buf_ok b" "contents b = contents (cn_inputBuffer (cw_conns s c)) @ (if 0 < an_ret a then an_data a else [])"
    "conn_handleRead K E c t s = (let s' = upd_conn c (set_input b) ?s1 in
        if 0 < an_ret a then call_any (cn_messageCallBack (cw_conns s c)) (\<lambda>n. on_message E n c t) s'
        else if an_ret a = 0 then handleClose E c s' else Inr (handleError K c s'))" by blast
  let ?s = "upd_conn c (set_input b) ?s1"
  have ok: "conn_ok c ?s" by (rule conn_ok_input [OF conn_ok_syscall [OF assms(1)] b(1)])
  have conns: "cw_conns ?s = (cw_conns s)(c := set_input b (cw_conns s c))" by (simp add: loop_simps)
  have "handleError K c ?s = snd (syscall K (SysSockError (cn_fd (cw_conns s c))) ?s)"
    using conn_okD(2) [OF ok] by (simp add: handleError_def conns)
  moreover have "unsent c ?s = unsent c s" "sent c ?s = sent c s" "down c ?s = down c s"
    by (simp_all add: unsent_def sent_def down_def loop_simps written_snoc shutdowns_snoc)
  ultimately show ?thesis using ok conns b(2,3)
    by (intro exI [of _ ?s] exI [of _ b]) (simp add: Let_def call_any_def)
qed

section \<open>The life of a connection\<close>

text \<open>A new connection: its channel is not registered yet and nothing is buffered.\<close>

definition conn_fresh :: "nat \<Rightarrow> 'z conn_world_scheme \<Rightarrow> bool" where
  "conn_fresh c s \<longleftrightarrow> (let cn = cw_conns s c; ch = chans s (cn_channel cn) in
     registrable (cn_channel cn) s \<and> ch_fd ch = cn_fd cn \<and> ch_loop ch = cn_loop cn \<and> ch_event ch = 0
   \<and> buf_ok (cn_inputBuffer cn) \<and> buf_ok (cn_outputBuffer cn) \<and> contents (cn_outputBuffer cn) = [])"

lemma established_effect:
  assumes fresh: "conn_fresh c s" and st: "cn_state (cw_conns s c) = kConnecting"
  shows "\<exists>s' pl i. connectEestablished E c s = call_set (cn_connectionCallBack (cw_conns s c)) (\<lambda>n. on_connection E n c) s'
    \<and> s' = set_poller (cn_loop (cw_conns s c)) pl
        ((chans s)(cn_channel (cw_conns s c) := setIndex i (readingBits (chans s (cn_channel (cw_conns s c))))))
        (upd_conn c (setState kConnected) s)
    \<and> conn_ok c s' \<and> cw_conns s' = (cw_conns s)(c := setState kConnected (cw_conns s c))
    \<and> ch_event (chans s' (cn_channel (cw_conns s c))) = kReadEvent
    \<and> loop_channels (cn_loop (cw_conns s c)) s'
        = (loop_channels (cn_loop (cw_conns s c)) s)(cn_fd (cw_conns s c) \<mapsto> cn_channel (cw_conns s c))
    \<and> sk_trace s' = sk_trace s"
proof -
  let ?cn = "cw_conns s c" and ?s = "upd_conn c (setState kConnected) s"
  let ?ch = "cn_channel ?cn"
  have f: "registrable ?ch s" "ch_fd (chans s ?ch) = cn_fd ?cn" "ch_loop (chans s ?ch) = cn_loop ?cn"
    "ch_event (chans s ?ch) = 0" "buf_ok (cn_inputBuffer ?cn)" "buf_ok (cn_outputBuffer ?cn)"
    "contents (cn_outputBuffer ?cn) = []" using fresh by (simp_all add: conn_fresh_def Let_def)
  have here: "conn_in_loop c s = Inr ()" using f(1,3) by (simp add: registrable_def conn_in_loop_def assertInLoopThread_in)
  have "registrable ?ch ?s" by (rule registrable_cong [OF f(1)]) (simp_all add: loop_simps)
  from channel_update_new [OF this bits_keep_identity(1)] obtain pl i where
    u: "channel_update ?ch (upd_chan ?ch readingBits ?s)
        = Inr (set_poller (cn_loop ?cn) pl ((chans s)(?ch := setIndex i (readingBits (chans s ?ch)))) ?s)"
      "registered ?ch (set_poller (cn_loop ?cn) pl ((chans s)(?ch := setIndex i (readingBits (chans s ?ch)))) ?s)"
      "pl_channels pl = (loop_channels (cn_loop ?cn) s)(cn_fd ?cn \<mapsto> ?ch)"
    by (auto simp: loop_simps f(2,3) loop_channels_def)
  let ?s' = "set_poller (cn_loop ?cn) pl ((chans s)(?ch := setIndex i (readingBits (chans s ?ch)))) ?s"
  have conns: "cw_conns ?s' = (cw_conns s)(c := setState kConnected ?cn)" by (simp add: loop_simps)
  have ev: "ch_event (chans ?s' ?ch) = kReadEvent" by (simp add: loop_simps readingBits_def f(4))
  then have "\<not> isWriting (chans ?s' ?ch)" by (simp add: isWriting_def poll_bits)
  then have "conn_ok c ?s'" using u(2) f conns
    by (simp add: conn_ok_def Let_def setState_def loop_simps readingBits_def)
  moreover have "connectEestablished E c s = call_set (cn_connectionCallBack ?cn) (\<lambda>n. on_connection E n c) ?s'"
    using here st u(1) by (simp add: connectEestablished_def Let_def loop_simps enableReading_def setState_def)
  moreover have "loop_channels (cn_loop ?cn) ?s' = (loop_channels (cn_loop ?cn) s)(cn_fd ?cn \<mapsto> ?ch)"
    using u(3) by (simp add: loop_channels_def loop_simps)
  moreover have "sk_trace ?s' = sk_trace s" by (simp add: loop_simps)
  ultimately show ?thesis using ev conns
    by (intro exI [of _ ?s'] exI [of _ pl] exI [of _ i] conjI refl)
qed

text \<open>\<open>connectEestablished\<close> on a new connection marks it connected, registers its channel for reading
  under its descriptor, and then calls the connection callback; on a connection in any other state
  it fails its assertion.\<close>

theorem established_once:
  assumes "conn_in_loop c s = Inr ()" and "conn_fresh c s \<or> cn_state (cw_conns s c) \<noteq> kConnecting"
  shows "if cn_state (cw_conns s c) = kConnecting
    then \<exists>s'. connectEestablished E c s
          = (case cn_connectionCallBack (cw_conns s c) of None \<Rightarrow> Inr s' | Some n \<Rightarrow> on_connection E n c s')
        \<and> conn_ok c s' \<and> cw_conns s' = (cw_conns s)(c := setState kConnected (cw_conns s c))
        \<and> ch_event (chans s' (cn_channel (cw_conns s c))) = kReadEvent
        \<and> loop_channels (cn_loop (cw_conns s c)) s'
            = (loop_channels (cn_loop (cw_conns s c)) s)(cn_fd (cw_conns s c) \<mapsto> cn_channel (cw_conns s c))
        \<and> sk_trace s' = sk_trace s
    else connectEestablished E c s = Inl AssertFailed"
proof (cases "cn_state (cw_conns s c) = kConnecting")
  case False
  then show ?thesis using assms(1) by (simp add: connectEestablished_def)
next
  case True
  then have "conn_fresh c s" using assms(2) by simp
  from established_effect [OF this True, of E] obtain s' where
    "connectEestablished E c s = call_set (cn_connectionCallBack (cw_conns s c)) (\<lambda>n. on_connection E n c) s'"
    "conn_ok c s' \<and> cw_conns s' = (cw_conns s)(c := setState kConnected (cw_conns s c))
        \<and> ch_event (chans s' (cn_channel (cw_conns s c))) = kReadEvent
        \<and> loop_channels (cn_loop (cw_conns s c)) s'
            = (loop_channels (cn_loop (cw_conns s c)) s)(cn_fd (cw_conns s c) \<mapsto> cn_channel (cw_conns s c))
        \<and> sk_trace s' = sk_trace s" by blast
  then show ?thesis unfolding if_P [OF True] call_set_def by blast
qed

text \<open>A connection callback that returns, and touches neither the channels, nor the pollers, nor the
  connection it is called for.\<close>

definition same_registry :: "nat \<Rightarrow> 'z conn_world_scheme \<Rightarrow> 'z conn_world_scheme \<Rightarrow> bool" where
  "same_registry c t t' \<longleftrightarrow> chans t' = chans t \<and> w_tid t' = w_tid t \<and> cw_conns t' c = cw_conns t c
     \<and> (\<forall>l. lp_poller (w_loops t' l) = lp_poller (w_loops t l) \<and> lp_threadId (w_loops t' l) = lp_threadId (w_loops t l))"

definition calm_callbacks :: "('z conn_world_scheme) env \<Rightarrow> nat \<Rightarrow> bool" where
  "calm_callbacks E c \<longleftrightarrow> (\<forall>n t. \<exists>t'. on_connection E n c t = Inr t' \<and> same_registry c t t')"

lemma conn_registered_here: "conn_registered c s \<Longrightarrow> conn_in_loop c s = Inr ()"
  by (auto simp: conn_registered_def Let_def registered_def conn_in_loop_def assertInLoopThread_def)

lemma same_registry_refl: "same_registry c t t"
  by (simp add: same_registry_def)

lemma same_registry_registered: "same_registry c t t' \<Longrightarrow> registered ch t \<Longrightarrow> registered ch t'"
  by (simp add: same_registry_def registered_def isInLoopThread_def)

lemma disable_registered:
  assumes reg: "conn_registered c s" and st: "f (cw_conns s c) = (cw_conns s c)\<lparr>cn_state := st\<rparr>"
  shows "\<exists>s' pl. disableAll (cn_channel (cw_conns s c)) (upd_conn c f s) = Inr s'
    \<and> s' = upd_loop (cn_loop (cw_conns s c)) (\<lambda>lp. lp\<lparr>lp_poller := pl\<rparr>)
              (upd_chan (cn_channel (cw_conns s c)) noBits (upd_conn c f s))
    \<and> conn_registered c s' \<and> isNoneEvent (chans s' (cn_channel (cw_conns s c)))
    \<and> cw_conns s' = (cw_conns s)(c := f (cw_conns s c)) \<and> w_tid s' = w_tid s \<and> sk_trace s' = sk_trace s
    \<and> loop_channels (cn_loop (cw_conns s c)) s' = loop_channels (cn_loop (cw_conns s c)) s"
proof -
  let ?cn = "cw_conns s c" and ?t = "upd_conn c f s"
  have r: "registered (cn_channel ?cn) s" "ch_fd (chans s (cn_channel ?cn)) = cn_fd ?cn"
    "ch_loop (chans s (cn_channel ?cn)) = cn_loop ?cn" using reg by (simp_all add: conn_registered_def Let_def)
  have "registered (cn_channel ?cn) ?t" by (rule registered_cong [OF r(1)]) (simp_all add: loop_simps)
  from channel_update_registered [OF this bits_keep_identity(4)] obtain pl where
    pl: "disableAll (cn_channel ?cn) ?t
        = Inr (upd_loop (cn_loop ?cn) (\<lambda>lp. lp\<lparr>lp_poller := pl\<rparr>) (upd_chan (cn_channel ?cn) noBits ?t))"
      "registered (cn_channel ?cn) (upd_loop (cn_loop ?cn) (\<lambda>lp. lp\<lparr>lp_poller := pl\<rparr>) (upd_chan (cn_channel ?cn) noBits ?t))"
      "pl_channels pl = loop_channels (cn_loop ?cn) s"
    by (auto simp: disableAll_def loop_simps r(3) loop_channels_def)
  let ?s' = "upd_loop (cn_loop ?cn) (\<lambda>lp. lp\<lparr>lp_poller := pl\<rparr>) (upd_chan (cn_channel ?cn) noBits ?t)"
  have "conn_registered c ?s'" using pl(2) r st by (simp add: conn_registered_def Let_def loop_simps noBits_def)
  with pl show ?thesis
    by (intro exI [of _ ?s'] exI [of _ pl]) (simp add: loop_simps isNoneEvent_def noBits_def loop_channels_def)
qed

lemma destroy_after_callback:
  assumes reg: "conn_registered c t" and none: "isNoneEvent (chans t (cn_channel (cw_conns t c)))"
    and same: "same_registry c t t'"
  shows "\<exists>s' pl cs. loop_removeChannel (cn_loop (cw_conns t' c)) (cn_channel (cw_conns t' c)) t' = Inr s'
    \<and> s' = set_poller (cn_loop (cw_conns t c)) pl cs t' \<and> same_but_index (chans t') cs \<and> poller_ok pl cs
    \<and> loop_channels (cn_loop (cw_conns t c)) s' = (loop_channels (cn_loop (cw_conns t c)) t)(cn_fd (cw_conns t c) := None)
    \<and> cw_conns s' c = cw_conns t c \<and> w_tid s' = w_tid t \<and> sk_trace s' = sk_trace t'
    \<and> isInLoopThread (cn_loop (cw_conns t c)) s'"
proof -
  let ?cn = "cw_conns t c"
  have e: "chans t' = chans t" "cw_conns t' c = ?cn" "w_tid t' = w_tid t"
    "\<And>l. lp_poller (w_loops t' l) = lp_poller (w_loops t l)" "\<And>l. lp_threadId (w_loops t' l) = lp_threadId (w_loops t l)"
    using same by (simp_all add: same_registry_def)
  have r: "registered (cn_channel ?cn) t'" "ch_fd (chans t (cn_channel ?cn)) = cn_fd ?cn"
    "ch_loop (chans t (cn_channel ?cn)) = cn_loop ?cn"
    using reg same_registry_registered [OF same] by (simp_all add: conn_registered_def Let_def)
  have "isInLoopThread (cn_loop ?cn) t'" using r(1,3) by (simp add: registered_def e)
  moreover from remove_registered [OF r(1)] none obtain pl cs where
    "loop_removeChannel (cn_loop ?cn) (cn_channel ?cn) t' = Inr (set_poller (cn_loop ?cn) pl cs t')"
    "pl_channels pl = (loop_channels (cn_loop ?cn) t)(cn_fd ?cn := None)" "same_but_index (chans t) cs" "poller_ok pl cs"
    by (auto simp: e r(2,3) loop_channels_def)
  ultimately show ?thesis
    by (intro exI [of _ "set_poller (cn_loop ?cn) pl cs t'"] exI [of _ pl] exI [of _ cs])
      (simp add: loop_simps loop_channels_def e)
qed

lemma connectDestory_effect:
  assumes reg: "conn_registered c s" and st: "cn_state (cw_conns s c) \<in> {kConnected, kDisconnecting}"
    and calm: "calm_callbacks E c"
  shows "\<exists>s1 s2 s' pl pl' cs. connectDestory E c s = Inr s'
    \<and> s1 = upd_loop (cn_loop (cw_conns s c)) (\<lambda>lp. lp\<lparr>lp_poller := pl\<rparr>)
              (upd_chan (cn_channel (cw_conns s c)) noBits (upd_conn c (setState kDisconnected) s))
    \<and> call_set (cn_connectionCallBack (cw_conns s c)) (\<lambda>n. on_connection E n c) s1 = Inr s2
    \<and> s' = set_poller (cn_loop (cw_conns s c)) pl' cs s2 \<and> same_but_index (chans s2) cs \<and> poller_ok pl' cs
    \<and> cw_conns s' c = setState kDisconnected (cw_conns s c)
    \<and> loop_channels (cn_loop (cw_conns s c)) s' = (loop_channels (cn_loop (cw_conns s c)) s)(cn_fd (cw_conns s c) := None)
    \<and> isInLoopThread (cn_loop (cw_conns s c)) s'"
proof -
  let ?cn = "cw_conns s c" and ?dn = "setState kDisconnected (cw_conns s c)"
  have here: "conn_in_loop c s = Inr ()" using reg by (rule conn_registered_here)
  from disable_registered [OF reg, of "setState kDisconnected" kDisconnected] obtain s1 pl where
    s1: "disableAll (cn_channel ?cn) (upd_conn c (setState kDisconnected) s) = Inr s1" "conn_registered c s1"
      "isNoneEvent (chans s1 (cn_channel ?cn))" "cw_conns s1 = (cw_conns s)(c := ?dn)"
      "loop_channels (cn_loop ?cn) s1 = loop_channels (cn_loop ?cn) s"
      "s1 = upd_loop (cn_loop ?cn) (\<lambda>lp. lp\<lparr>lp_poller := pl\<rparr>)
          (upd_chan (cn_channel ?cn) noBits (upd_conn c (setState kDisconnected) s))"
    by (auto simp: setState_def)
  have d: "cn_channel ?dn = cn_channel ?cn" "cn_loop ?dn = cn_loop ?cn" "cn_fd ?dn = cn_fd ?cn"
    "cn_connectionCallBack ?dn = cn_connectionCallBack ?cn" "cn_state ?dn = kDisconnected"
    by (simp_all add: setState_def)
  have "\<exists>s2. call_set (cn_connectionCallBack ?cn) (\<lambda>n. on_connection E n c) s1 = Inr s2 \<and> same_registry c s1 s2"
    using calm
    by (cases "cn_connectionCallBack ?cn") (simp add: call_set_def same_registry_refl, simp add: call_set_def calm_callbacks_def)
  then obtain s2 where s2: "call_set (cn_connectionCallBack ?cn) (\<lambda>n. on_connection E n c) s1 = Inr s2" "same_registry c s1 s2"
    by blast
  have c1: "cw_conns s1 c = ?dn" using s1(4) by simp
  have c2: "cw_conns s2 c = ?dn" using s2(2) c1 by (simp add: same_registry_def)
  from destroy_after_callback [OF s1(2) _ s2(2)] s1(3) obtain s' pl' cs where
    s': "loop_removeChannel (cn_loop ?cn) (cn_channel ?cn) s2 = Inr s'"
      "loop_channels (cn_loop ?cn) s' = (loop_channels (cn_loop ?cn) s1)(cn_fd ?cn := None)"
      "cw_conns s' c = ?dn" "isInLoopThread (cn_loop ?cn) s'" "s' = set_poller (cn_loop ?cn) pl' cs s2"
      "same_but_index (chans s2) cs" "poller_ok pl' cs"
    by (auto simp: c1 c2 d)
  have "connectDestory E c s = Inr s'"
    using here st s1(1) s2(1) s'(1) by (auto simp: connectDestory_def Let_def upd_conn_sel c1 c2 d)
  moreover have "loop_channels (cn_loop ?cn) s' = (loop_channels (cn_loop ?cn) s)(cn_fd ?cn := None)"
    unfolding s'(2) s1(5) ..
  ultimately show ?thesis
    using s1(6) s2(1) s'(3-7)
    by (intro exI [of _ s1] exI [of _ s2] exI [of _ s'] exI [of _ pl] exI [of _ pl'] exI [of _ cs] conjI)
qed

text \<open>\<open>connectDestory\<close> on a connected or disconnecting connection disables its channel, tells the
  connection callback, and takes the channel out of the poller; a second call fails its assertion, and
  so does a call on a connection that was never established.\<close>

theorem destroyed_once:
  assumes "conn_in_loop c s = Inr ()" and "conn_registered c s \<or> cn_state (cw_conns s c) \<in> {kConnecting, kDisconnected}"
    and "calm_callbacks E c"
  shows "if cn_state (cw_conns s c) \<in> {kConnected, kDisconnecting}
    then \<exists>s'. connectDestory E c s = Inr s' \<and> cw_conns s' c = setState kDisconnected (cw_conns s c)
        \<and> loop_channels (cn_loop (cw_conns s c)) s' = (loop_channels (cn_loop (cw_conns s c)) s)(cn_fd (cw_conns s c) := None)
        \<and> connectDestory E c s' = Inl AssertFailed
    else connectDestory E c s = Inl AssertFailed"
proof (cases "cn_state (cw_conns s c) \<in> {kConnected, kDisconnecting}")
  case False
  then show ?thesis using assms(1) by (simp add: connectDestory_def)
next
  case True
  then have "conn_registered c s" using assms(2) by auto
  from connectDestory_effect [OF this True assms(3)] obtain s' where
    s': "connectDestory E c s = Inr s'" "cw_conns s' c = setState kDisconnected (cw_conns s c)"
      "loop_channels (cn_loop (cw_conns s c)) s' = (loop_channels (cn_loop (cw_conns s c)) s)(cn_fd (cw_conns s c) := None)"
      "isInLoopThread (cn_loop (cw_conns s c)) s'" by blast
  have "connectDestory E c s' = Inl AssertFailed"
    using s'(2,4) by (simp add: connectDestory_def conn_in_loop_def assertInLoopThread_in setState_def)
  with s'(1-3) True show ?thesis by auto
qed

text \<open>Closing, as a read of end of file or a hang-up does: the channel stops watching and the close
  callback runs; the state does not change yet.\<close>

lemma handleClose_effect:
  assumes "conn_registered c s" and "cn_state (cw_conns s c) \<in> {kConnected, kDisconnecting}"
  shows "\<exists>s'. handleClose E c s = (case cn_closeCallBack (cw_conns s c) of None \<Rightarrow> Inl BadFunctionCall | Some n \<Rightarrow> on_close E n c s')
    \<and> (\<exists>pl. s' = upd_loop (cn_loop (cw_conns s c)) (\<lambda>lp. lp\<lparr>lp_poller := pl\<rparr>) (upd_chan (cn_channel (cw_conns s c)) noBits s))
    \<and> conn_registered c s' \<and> isNoneEvent (chans s' (cn_channel (cw_conns s c))) \<and> cw_conns s' = cw_conns s
    \<and> loop_channels (cn_loop (cw_conns s c)) s' = loop_channels (cn_loop (cw_conns s c)) s"
proof -
  have id: "upd_conn c (\<lambda>cn. cn) s = s" by (simp add: upd_conn_def)
  have here: "conn_in_loop c s = Inr ()" by (rule conn_registered_here [OF assms(1)])
  from disable_registered [OF assms(1), of "\<lambda>cn. cn" "cn_state (cw_conns s c)"] obtain s' pl where
    s': "disableAll (cn_channel (cw_conns s c)) s = Inr s'" "conn_registered c s'"
      "isNoneEvent (chans s' (cn_channel (cw_conns s c)))" "cw_conns s' = cw_conns s"
      "s' = upd_loop (cn_loop (cw_conns s c)) (\<lambda>lp. lp\<lparr>lp_poller := pl\<rparr>) (upd_chan (cn_channel (cw_conns s c)) noBits s)"
      "loop_channels (cn_loop (cw_conns s c)) s' = loop_channels (cn_loop (cw_conns s c)) s" by (auto simp: id)
  then have "handleClose E c s = call_any (cn_closeCallBack (cw_conns s c)) (\<lambda>n. on_close E n c) s'"
    using here assms(2) by (auto simp: handleClose_def)
  then show ?thesis using s' by (auto simp: call_any_def)
qed

section \<open>Witnesses\<close>

lemma handleRead_cases_witness:
  "\<exists>s' b. conn_ok 1 s' \<and> contents b = ''abc''
    \<and> conn_handleRead three_bytes sample_env 1 0 (sample_conns True kConnected) = Inr s'"
proof -
  let ?s = "sample_conns True kConnected"
  have "writableBytes buffer_init = 1024"
    unfolding writableBytes_ok [OF buf_ok_init] by (simp add: buffer_init_def kCheapPrepared_def kInitialSize_def)
  then have k: "an_ret (three_bytes tr (SysReadv fd (writableBytes buffer_init + extraBuf_size))) = 3"
    "an_data (three_bytes tr (SysReadv fd (writableBytes buffer_init + extraBuf_size))) = ''abc''" for tr fd
    by (simp_all add: three_bytes_def extraBuf_size_def)
  have doc: "readv_documented three_bytes" by (auto simp: readv_documented_def three_bytes_def)
  have len: "length (store buffer_init) = 1032" by (simp add: buffer_init_def kCheapPrepared_def kInitialSize_def)
  have "length (store (cn_inputBuffer (cw_conns ?s 1)))
      + length (an_data (three_bytes (sk_trace ?s) (SysReadv (cn_fd (cw_conns ?s 1))
          (writableBytes (cn_inputBuffer (cw_conns ?s 1)) + extraBuf_size)))) \<le> size_max"
    by (simp add: k len)
  from handleRead_cases [OF sample_conn_ok doc this refl, of sample_env 0] show ?thesis
    by (auto simp: k contents_init sample_env_def)
qed

lemma established_once_witness:
  "\<exists>s'. connectEestablished sample_env 1 (sample_conns False kConnecting) = Inr s'
    \<and> cn_state (cw_conns s' 1) = kConnected \<and> loop_channels 0 s' = [9 \<mapsto> 1]"
proof -
  let ?s = "sample_conns False kConnecting"
  have l: "loop_channels 0 ?s = Map.empty" by (simp add: sample_conns_def loop_channels_def poller_new_def)
  have "conn_fresh 1 ?s" using sample_conn_fresh(1) [of kConnecting]
    by (simp add: conn_fresh_def Let_def buf_ok_init contents_init channel_new_def)
  then have "conn_fresh 1 ?s \<or> cn_state (cw_conns ?s 1) \<noteq> kConnecting" by simp
  from established_once [OF sample_conn_fresh(2) this, of sample_env] show ?thesis
    by (auto simp: l sample_env_def setState_def)
qed

lemma destroyed_once_witness:
  "\<exists>s'. connectDestory sample_env 1 (sample_conns True kDisconnecting) = Inr s'
    \<and> cn_state (cw_conns s' 1) = kDisconnected \<and> loop_channels 0 s' = Map.empty
    \<and> connectDestory sample_env 1 s' = Inl AssertFailed"
proof -
  let ?s = "sample_conns True kDisconnecting"
  have l: "loop_channels 0 ?s = [9 \<mapsto> 1]" by (simp add: sample_conns_def loop_channels_def)
  have calm: "calm_callbacks sample_env 1" by (simp add: calm_callbacks_def sample_env_def same_registry_refl)
  have "conn_registered 1 ?s \<or> cn_state (cw_conns ?s 1) \<in> {kConnecting, kDisconnected}"
    using conn_ok_registered [OF sample_conn_ok] by blast
  from destroyed_once [OF sample_conn_fresh(2) this calm] show ?thesis
    by (auto simp: l setState_def)
qed

end
