(* ===== verification/HttpRequest.thy ===== *)
theory HttpRequest
  imports StdContainers
begin

text \<open>
  The parsed HTTP request of src/http/httpRequest.h and src/http/httpRequest.cpp: the enums, the
  members and every setter and getter. Pairs of \<open>const char*\<close> into the input are the strings
  they delimit.
\<close>

datatype http_method = kInvaild | kGet | kPost | kHead | kPut | kDelete

datatype http_version = kUnknow | kHttp10 | kHttp11

record http_request =
  rq_method :: http_method
  rq_version :: http_version
  rq_path :: string
  rq_query :: string
  rq_receiveTime :: int
  rq_headers :: "(string \<times> string) list"

definition request_init :: http_request where
  "request_init = \<lparr>rq_method = kInvaild, rq_version = kUnknow, rq_path = [], rq_query = [],
     rq_receiveTime = 0, rq_headers = []\<rparr>"

definition setVersion :: "http_version \<Rightarrow> http_request \<Rightarrow> http_request" where
  "setVersion v r = r\<lparr>rq_version := v\<rparr>"

definition parseMethod :: "string \<Rightarrow> http_method" where
  "parseMethod m =
     (if m = ''GET'' then kGet
      else if m = ''POST'' then kPost
      else if m = ''HEAD'' then kHead
      else if m = ''PUT'' then kPut
      else if m = ''DELETE'' then kDelete
      else kInvaild)"

definition setMethod :: "string \<Rightarrow> http_request \<Rightarrow> bool \<times> http_request" where
  "setMethod m r =
     (let r' = r\<lparr>rq_method := parseMethod m\<rparr> in (rq_method r' \<noteq> kInvaild, r'))"

fun methodToString :: "http_method \<Rightarrow> string" where
  "methodToString kGet = ''GET''"
| "methodToString kPost = ''POST''"
| "methodToString kHead = ''HEAD''"
| "methodToString kPut = ''PUT''"
| "methodToString kDelete = ''DELETE''"
| "methodToString kInvaild = ''unknow''"

definition setPath :: "string \<Rightarrow> http_request \<Rightarrow> http_request" where
  "setPath s r = r\<lparr>rq_path := s\<rparr>"

definition setQuery :: "string \<Rightarrow> http_request \<Rightarrow> http_request" where
  "setQuery s r = r\<lparr>rq_query := s\<rparr>"

definition setReceiveTime :: "int \<Rightarrow> http_request \<Rightarrow> http_request" where
  "setReceiveTime t r = r\<lparr>rq_receiveTime := t\<rparr>"

text \<open>\<open>isspace\<close> in the C locale.\<close>

definition isspace :: "char \<Rightarrow> bool" where
  "isspace c \<longleftrightarrow> c \<in> {CHR 0x20, CHR 0x09, CHR 0x0A, CHR 0x0B, CHR 0x0C, CHR 0x0D}"

definition strip_right :: "string \<Rightarrow> string" where
  "strip_right s = rev (dropWhile isspace (rev s))"

text \<open>\<open>addHeader start colon end\<close> on the line from \<open>start\<close> to \<open>end\<close> with the offset of
  the colon.\<close>

definition addHeader :: "string \<Rightarrow> nat \<Rightarrow> http_request \<Rightarrow> http_request" where
  "addHeader line colon r =
     (let field = seg line 0 colon;
          value = strip_right (dropWhile isspace (seg line (Suc colon) (length line)))
      in r\<lparr>rq_headers := map_put field value (rq_headers r)\<rparr>)"

definition getHeader :: "string \<Rightarrow> http_request \<Rightarrow> string" where
  "getHeader field r = (case map_find field (rq_headers r) of None \<Rightarrow> [] | Some v \<Rightarrow> v)"

definition request_swap :: "http_request \<Rightarrow> http_request \<Rightarrow> http_request \<times> http_request" where
  "request_swap r that =
     (r\<lparr>rq_method := rq_method that, rq_version := rq_version that, rq_path := rq_path that,
        rq_query := rq_query that, rq_receiveTime := rq_receiveTime that,
        rq_headers := rq_headers that\<rparr>,
      that\<lparr>rq_method := rq_method r, rq_version := rq_version r, rq_path := rq_path r,
        rq_query := rq_query r, rq_receiveTime := rq_receiveTime r, rq_headers := rq_headers r\<rparr>)"

named_theorems request_defs "the setters of a request"

lemmas [request_defs] = setVersion_def setPath_def setQuery_def setReceiveTime_def

lemma parseMethod_toString: "m \<noteq> kInvaild \<Longrightarrow> parseMethod (methodToString m) = m"
  by (cases m) (simp_all add: parseMethod_def)

lemma parseMethod_valid: "parseMethod s = m \<Longrightarrow> m \<noteq> kInvaild \<Longrightarrow> s = methodToString m"
  by (auto simp: parseMethod_def split: if_splits)

lemma methodToString_no_space: "CHR '' '' \<notin> set (methodToString m)" "CHR 0x0D \<notin> set (methodToString m)"
  by (cases m; simp)+

lemma request_swap_swap: "request_swap r that = (that, r)"
  by (simp add: request_swap_def)

text \<open>A value without white space at its ends is stored as it is.\<close>

definition trimmed :: "string \<Rightarrow> bool" where
  "trimmed v \<longleftrightarrow> v = [] \<or> \<not> isspace (hd v) \<and> \<not> isspace (last v)"

lemma dropWhile_trimmed: "trimmed v \<Longrightarrow> dropWhile isspace v = v"
  by (cases v) (auto simp: trimmed_def)

lemma strip_right_trimmed: "trimmed v \<Longrightarrow> strip_right v = v"
  by (cases v rule: rev_cases) (auto simp: trimmed_def strip_right_def)

lemma dropWhile_spaces: "\<forall>c\<in>set ws. isspace c \<Longrightarrow> dropWhile isspace (ws @ v) = dropWhile isspace v"
  by (induction ws) auto

lemma strip_right_spaces: "\<forall>c\<in>set ws. isspace c \<Longrightarrow> strip_right (v @ ws) = strip_right v"
  by (simp add: strip_right_def dropWhile_spaces)

lemma strip_field:
  assumes "trimmed v" and "\<forall>c\<in>set pre. isspace c" and "\<forall>c\<in>set post. isspace c"
  shows "strip_right (dropWhile isspace (pre @ v @ post)) = v"
proof (cases "v = []")
  case True
  have "dropWhile isspace (pre @ post) = []"
    using assms(2,3) unfolding dropWhile_eq_Nil_conv by auto
  with True show ?thesis by (simp only: strip_right_def append_Nil) simp
next
  case False
  then have "dropWhile isspace (v @ post) = v @ post"
    using assms(1) by (cases v) (auto simp: trimmed_def)
  with assms show ?thesis by (simp add: dropWhile_spaces strip_right_spaces strip_right_trimmed)
qed

lemma addHeader_field:
  assumes "trimmed v" and "\<forall>c\<in>set pre. isspace c" and "\<forall>c\<in>set post. isspace c"
  shows "addHeader (k @ CHR '':'' # pre @ v @ post) (length k) r
       = r\<lparr>rq_headers := map_put k v (rq_headers r)\<rparr>"
proof -
  have "seg (k @ CHR '':'' # pre @ v @ post) 0 (length k) = k" by (simp add: seg_def)
  moreover have "seg (k @ CHR '':'' # pre @ v @ post) (Suc (length k))
      (length (k @ CHR '':'' # pre @ v @ post)) = pre @ v @ post" by (simp add: seg_def)
  ultimately show ?thesis
    by (simp only: addHeader_def Let_def strip_field [OF assms])
qed

end
