(* ===== verification/HttpContext.thy ===== *)
theory HttpContext
  imports Buffer HttpRequest
begin

text \<open>
  The incremental HTTP parser of src/http/httpContext.h and src/http/httpContext.cpp, working on
  the bytes of a \<open>Buffer\<close>. One turn of the loop of \<open>parseRequest\<close> is \<open>parse_step\<close>; the loop
  itself is a partial function, because it does not end in two of the four parser states. The
  string parser \<open>parse_str\<close> is its specification: \<open>parseRequest\<close> on a well-formed buffer is
  \<open>parse_str\<close> on its contents.
\<close>

section \<open>The model\<close>

datatype parse_state = kExpectRequestLine | kExpectRequestHead | kExpectRequestBody | kGotAll

record http_context =
  hc_state :: parse_state
  hc_request :: http_request

definition context_init :: http_context where
  "context_init = \<lparr>hc_state = kExpectRequestLine, hc_request = request_init\<rparr>"

definition gotAll :: "http_context \<Rightarrow> bool" where
  "gotAll c \<longleftrightarrow> hc_state c = kGotAll"

definition context_reset :: "http_context \<Rightarrow> http_context" where
  "context_reset c =
     c\<lparr>hc_state := kExpectRequestLine,
       hc_request := fst (request_swap (hc_request c) request_init)\<rparr>"

text \<open>\<open>std::find\<close> on a range, as an offset from its start.\<close>

fun find_char :: "char \<Rightarrow> string \<Rightarrow> nat" where
  "find_char c [] = 0"
| "find_char c (d # s) = (if c = d then 0 else Suc (find_char c s))"

text \<open>The parts of \<open>processRequestLine\<close> that store the path and the query between two
  offsets, and that read the version from an offset on.\<close>

definition setTarget :: "string \<Rightarrow> nat \<Rightarrow> nat \<Rightarrow> http_request \<Rightarrow> http_request" where
  "setTarget line start space r =
     (if space \<noteq> length line then
        let question = start + find_char (CHR ''?'') (seg line start space) in
        if question \<noteq> space
        then setQuery (seg line question space) (setPath (seg line start question) r)
        else setPath (seg line start space) r
      else r)"

definition processVersion :: "string \<Rightarrow> nat \<Rightarrow> http_request \<Rightarrow> bool \<times> http_request" where
  "processVersion line start r =
     (let e = length line;
          success = (int e - int start = 8 \<and> seg line start (e - 1) = ''HTTP/1.'')
      in if success then
           if line ! (e - 1) = CHR ''1'' then (True, setVersion kHttp11 r)
           else if line ! (e - 1) = CHR ''0'' then (True, setVersion kHttp10 r)
           else (False, r)
         else (False, r))"

definition processRequestLine :: "string \<Rightarrow> http_request \<Rightarrow> bool \<times> http_request" where
  "processRequestLine line r =
     (let e = length line; space = find_char (CHR '' '') line in
      if space \<noteq> e then
        case setMethod (seg line 0 space) r of (valid, r) \<Rightarrow>
        if valid then
          let start = space + 1;
              space = start + find_char (CHR '' '') (seg line start e);
              r = setTarget line start space r;
              start = space + 1
          in processVersion line start r
        else (True, r)
      else (True, r))"

text \<open>One turn of the loop. The result holds \<open>hasMore\<close>, \<open>ok\<close>, the context and the buffer.\<close>

definition parse_step ::
  "int \<Rightarrow> bool \<Rightarrow> http_context \<Rightarrow> buffer \<Rightarrow> (bool \<times> bool \<times> http_context \<times> buffer) res" where
  "parse_step receiveTime ok c b =
     (case hc_state c of
        kExpectRequestLine \<Rightarrow>
          bnd (findCRLF b) (\<lambda>crlf.
          case crlf of
            None \<Rightarrow> Inr (False, ok, c, b)
          | Some crlf \<Rightarrow>
              bnd (read_range (store b) (peek b) crlf) (\<lambda>line.
              case processRequestLine line (hc_request c) of (ok, r) \<Rightarrow>
              if ok then
                bnd (retrieveUntil b (crlf + 2)) (\<lambda>b.
                Inr (True, ok,
                     c\<lparr>hc_request := setReceiveTime receiveTime r, hc_state := kExpectRequestHead\<rparr>, b))
              else Inr (False, ok, c\<lparr>hc_request := r\<rparr>, b)))
      | kExpectRequestHead \<Rightarrow>
          bnd (findCRLF b) (\<lambda>crlf.
          case crlf of
            None \<Rightarrow> Inr (False, ok, c, b)
          | Some crlf \<Rightarrow>
              bnd (read_range (store b) (peek b) crlf) (\<lambda>line.
              let colon = find_char (CHR '':'') line in
              if colon \<noteq> length line then
                bnd (retrieveUntil b (crlf + 2)) (\<lambda>b.
                Inr (True, ok, c\<lparr>hc_request := addHeader line colon (hc_request c)\<rparr>, b))
              else
                bnd (retrieveUntil b (crlf + 2)) (\<lambda>b.
                Inr (False, ok, c\<lparr>hc_state := kGotAll\<rparr>, b))))
      | kExpectRequestBody \<Rightarrow> Inr (True, ok, c, b)
      | kGotAll \<Rightarrow> Inr (True, ok, c, b))"

partial_function (option) parse_loop ::
  "int \<Rightarrow> bool \<Rightarrow> http_context \<Rightarrow> buffer \<Rightarrow> (bool \<times> http_context \<times> buffer) res option" where
  "parse_loop receiveTime ok c b =
     (case parse_step receiveTime ok c b of
        Inl e \<Rightarrow> Some (Inl e)
      | Inr (hasMore, ok', c', b') \<Rightarrow>
          if hasMore then parse_loop receiveTime ok' c' b' else Some (Inr (ok', c', b')))"

definition parseRequest ::
  "int \<Rightarrow> http_context \<Rightarrow> buffer \<Rightarrow> (bool \<times> http_context \<times> buffer) res option" where
  "parseRequest receiveTime c b = parse_loop receiveTime True c b"

section \<open>The specification on strings\<close>

lemma split_line_length: "split_line s = Some (l, rest) \<Longrightarrow> length rest < length s"
  by (drule split_line_Some) (simp add: kCRLF_def)

function parse_str :: "int \<Rightarrow> http_context \<Rightarrow> string \<Rightarrow> bool \<times> http_context \<times> string" where
  "parse_str t c s =
     (case hc_state c of
        kExpectRequestLine \<Rightarrow>
          (case split_line s of
             None \<Rightarrow> (True, c, s)
           | Some (line, rest) \<Rightarrow>
               (case processRequestLine line (hc_request c) of (ok, r) \<Rightarrow>
                if ok
                then parse_str t (c\<lparr>hc_request := setReceiveTime t r, hc_state := kExpectRequestHead\<rparr>)
                       rest
                else (False, c\<lparr>hc_request := r\<rparr>, s)))
      | kExpectRequestHead \<Rightarrow>
          (case split_line s of
             None \<Rightarrow> (True, c, s)
           | Some (line, rest) \<Rightarrow>
               if find_char (CHR '':'') line \<noteq> length line
               then parse_str t
                      (c\<lparr>hc_request := addHeader line (find_char (CHR '':'') line) (hc_request c)\<rparr>)
                      rest
               else (True, c\<lparr>hc_state := kGotAll\<rparr>, rest))
      | _ \<Rightarrow> (True, c, s))"
  by pat_completeness auto
termination
  by (relation "measure (\<lambda>(t, c, s). length s)") (auto dest: split_line_length)

declare parse_str.simps [simp del]

text \<open>The states in which \<open>onMessage\<close> calls the parser.\<close>

definition expecting :: "http_context \<Rightarrow> bool" where
  "expecting c \<longleftrightarrow> hc_state c \<in> {kExpectRequestLine, kExpectRequestHead}"

lemma parse_str_line:
  "hc_state c = kExpectRequestLine \<Longrightarrow> parse_str t c s =
     (case split_line s of
        None \<Rightarrow> (True, c, s)
      | Some (line, rest) \<Rightarrow>
          (case processRequestLine line (hc_request c) of (ok, r) \<Rightarrow>
           if ok
           then parse_str t (c\<lparr>hc_request := setReceiveTime t r, hc_state := kExpectRequestHead\<rparr>) rest
           else (False, c\<lparr>hc_request := r\<rparr>, s)))"
  by (subst parse_str.simps) simp

lemma parse_str_head:
  "hc_state c = kExpectRequestHead \<Longrightarrow> parse_str t c s =
     (case split_line s of
        None \<Rightarrow> (True, c, s)
      | Some (line, rest) \<Rightarrow>
          if find_char (CHR '':'') line \<noteq> length line
          then parse_str t
                 (c\<lparr>hc_request := addHeader line (find_char (CHR '':'') line) (hc_request c)\<rparr>) rest
          else (True, c\<lparr>hc_state := kGotAll\<rparr>, rest))"
  by (subst parse_str.simps) simp

lemmas parse_str_unfold = parse_str_line parse_str_head

section \<open>The parser implements its specification\<close>

lemma read_line:
  assumes "buf_ok b" and "split_line (contents b) = Some (l, rest)"
  shows "read_range (store b) (peek b) (peek b + int (length l)) = Inr l"
proof -
  from split_line_Some [OF assms(2)] have s: "contents b = l @ kCRLF @ rest" .
  then have n: "length l \<le> length (contents b)" by simp
  then have fits: "readIndex b + int (length l) \<le> writeIndex b"
    using contents_int [OF assms(1)] by linarith
  have "min (nat (writeIndex b)) (nat (readIndex b) + length l) = nat (readIndex b) + length l"
    using fits buf_okD(1) [OF assms(1)] by linarith
  then have "seg (store b) (nat (readIndex b)) (nat (readIndex b + int (length l)))
      = take (length l) (contents b)"
    using buf_okD [OF assms(1)] by (simp add: contents_def take_seg nat_add_distrib)
  with s fits buf_okD [OF assms(1)] show ?thesis by (simp add: peek_def read_range_ok)
qed

lemma consume_line:
  assumes "buf_ok b" and "split_line (contents b) = Some (l, rest)"
  shows "\<exists>b'. retrieveUntil b (peek b + int (length l) + 2) = Inr b' \<and> buf_ok b'
           \<and> contents b' = rest \<and> writeIndex b' = writeIndex b"
proof -
  from split_line_Some [OF assms(2)] have s: "contents b = l @ kCRLF @ rest" .
  then have "length l + 2 \<le> length (contents b)" by (simp add: kCRLF_def)
  from retrieveUntil_ok [OF assms(1) this] s show ?thesis by (auto simp: kCRLF_def ac_simps)
qed

lemma parse_loop_refines:
  assumes "buf_ok b" and "expecting c" and "s = contents b"
  shows "\<exists>b'. parse_loop t True c b =
             Some (Inr (fst (parse_str t c s), fst (snd (parse_str t c s)), b'))
           \<and> buf_ok b' \<and> contents b' = snd (snd (parse_str t c s)) \<and> writeIndex b' = writeIndex b"
  using assms
proof (induction t c s arbitrary: b rule: parse_str.induct)
  case (1 t c s)
  note crlf = findCRLF_ok [OF \<open>buf_ok b\<close>]
  show ?case
  proof (cases "split_line (contents b)")
    case None
    with 1 crlf show ?thesis
      by (subst parse_loop.simps)
        (auto simp: parse_step_def expecting_def parse_str_unfold)
  next
    case (Some lr)
    obtain l rest where lr: "lr = (l, rest)" by force
    note sp = Some [unfolded lr]
    note rd = read_line [OF \<open>buf_ok b\<close> sp]
    obtain c' where c': "retrieveUntil b (peek b + int (length l) + 2) = Inr c'" "buf_ok c'"
      "contents c' = rest" "writeIndex c' = writeIndex b"
      using consume_line [OF \<open>buf_ok b\<close> sp] by blast
    have split: "split_line s = Some (l, rest)" using sp \<open>s = contents b\<close> by simp
    from \<open>expecting c\<close> consider (line) "hc_state c = kExpectRequestLine"
      | (head) "hc_state c = kExpectRequestHead" by (auto simp: expecting_def)
    then show ?thesis
    proof cases
      case line
      obtain ok r where pl: "processRequestLine l (hc_request c) = (ok, r)" by force
      show ?thesis
      proof (cases ok)
        case True
        let ?c = "c\<lparr>hc_request := setReceiveTime t r, hc_state := kExpectRequestHead\<rparr>"
        have "expecting ?c" by (simp add: expecting_def)
        with "1.IH"(1) [OF line split refl pl [symmetric] True c'(2) _ c'(3) [symmetric]]
        obtain b' where "parse_loop t True ?c c' = Some (Inr (fst (parse_str t ?c rest),
            fst (snd (parse_str t ?c rest)), b'))" "buf_ok b'"
          "contents b' = snd (snd (parse_str t ?c rest))" "writeIndex b' = writeIndex c'" by blast
        then show ?thesis
          using sp split crlf rd c'(1,4) pl True line
          by (subst parse_loop.simps) (simp add: parse_step_def parse_str_line)
      next
        case False
        then show ?thesis
          using sp split crlf rd pl line \<open>buf_ok b\<close> \<open>s = contents b\<close>
          by (subst parse_loop.simps) (simp add: parse_step_def parse_str_line)
      qed
    next
      case head
      show ?thesis
      proof (cases "find_char (CHR '':'') l = length l")
        case False
        let ?c = "c\<lparr>hc_request := addHeader l (find_char (CHR '':'') l) (hc_request c)\<rparr>"
        have "expecting ?c" using head by (simp add: expecting_def)
        with "1.IH"(2) [OF head split refl False c'(2) _ c'(3) [symmetric]]
        obtain b' where "parse_loop t True ?c c' = Some (Inr (fst (parse_str t ?c rest),
            fst (snd (parse_str t ?c rest)), b'))" "buf_ok b'"
          "contents b' = snd (snd (parse_str t ?c rest))" "writeIndex b' = writeIndex c'" by blast
        then show ?thesis
          using sp split crlf rd c'(1,4) False head
          by (subst parse_loop.simps) (simp add: parse_step_def parse_str_head)
      next
        case True
        then show ?thesis
          using sp split crlf rd c' head
          by (subst parse_loop.simps) (simp add: parse_step_def parse_str_head)
      qed
    qed
  qed
qed

lemma parseRequest_ok:
  assumes "buf_ok b" and "expecting c" and "parse_str t c (contents b) = (ok, c', s')"
  shows "\<exists>b'. parseRequest t c b = Some (Inr (ok, c', b')) \<and> buf_ok b' \<and> contents b' = s'
           \<and> writeIndex b' = writeIndex b"
  using parse_loop_refines [OF assms(1,2) refl, of t] assms(3) by (simp add: parseRequest_def)

section \<open>The loop outside the two expecting states\<close>

lemma parse_loop_stuck: "parse_loop t ok c b = Some r \<Longrightarrow> expecting c"
proof -
  assume ret: "parse_loop t ok c b = Some r"
  show "expecting c"
  proof (rule parse_loop.raw_induct [where P = "\<lambda>t ok c b r. expecting c", OF _ ret])
    fix f t ok c b r
    assume IH: "\<And>t ok c b r. f t ok c b = Some r \<Longrightarrow> expecting c"
      and eq: "(case parse_step t ok c b of Inl e \<Rightarrow> Some (Inl e)
        | Inr (hasMore, ok', c', b') \<Rightarrow>
            if hasMore then f t ok' c' b' else Some (Inr (ok', c', b'))) = Some r"
    show "expecting c"
    proof (rule ccontr)
      assume no: "\<not> expecting c"
      then have "parse_step t ok c b = Inr (True, ok, c, b)"
        by (cases "hc_state c") (auto simp: parse_step_def expecting_def)
      with eq have "f t ok c b = Some r" by simp
      with IH no show False by blast
    qed
  qed
qed

section \<open>Feeding a request in pieces\<close>

lemma split_line_append: "split_line xs = Some (l, rest) \<Longrightarrow> split_line (xs @ ys) = Some (l, rest @ ys)"
  by (induction xs arbitrary: l rule: split_line.induct) (auto split: if_splits)

lemma setMethod_again: "setMethod m r = (v, r') \<Longrightarrow> setMethod m r' = (v, r')"
  by (auto simp: setMethod_def Let_def)

text \<open>A request line that was refused is refused again, with no further change.\<close>

lemma processVersion_False:
  assumes "processVersion l n r = (False, r')"
  shows "r' = r" and "processVersion l n r2 = (False, r2)"
  using assms by (auto simp: processVersion_def Let_def split: if_splits)

lemma setTarget_again: "setTarget l a b (setTarget l a b r) = setTarget l a b r"
  by (simp add: setTarget_def request_defs Let_def)

lemma setMethod_setTarget:
  "setMethod m r = (True, r') \<Longrightarrow> setMethod m (setTarget l a b r') = (True, setTarget l a b r')"
  by (auto simp: setMethod_def setTarget_def request_defs Let_def)

lemma processRequestLine_again:
  assumes "processRequestLine l r = (False, r')"
  shows "processRequestLine l r' = (False, r')"
proof -
  let ?n = "find_char (CHR '' '') l"
  let ?a = "?n + 1"
  let ?b = "?a + find_char (CHR '' '') (seg l ?a (length l))"
  obtain r1 where n: "?n \<noteq> length l" and m: "setMethod (seg l 0 ?n) r = (True, r1)"
    and v: "processVersion l (?b + 1) (setTarget l ?a ?b r1) = (False, r')"
    using assms by (auto simp: processRequestLine_def Let_def split: if_splits prod.splits)
  have r': "r' = setTarget l ?a ?b r1" using processVersion_False(1) [OF v] .
  have "setMethod (seg l 0 ?n) r' = (True, r')" using setMethod_setTarget [OF m] by (simp only: r')
  moreover have "setTarget l ?a ?b r' = r'" by (simp only: r' setTarget_again)
  ultimately show ?thesis
    using n processVersion_False(2) [OF v, of r'] by (simp add: processRequestLine_def Let_def)
qed

lemma parse_str_pieces:
  assumes "expecting c"
  shows "parse_str t c (xs @ ys) =
    (case parse_str t c xs of (ok, c', s) \<Rightarrow>
       if gotAll c' then (ok, c', s @ ys) else parse_str t c' (s @ ys))"
  using assms
proof (induction t c xs rule: parse_str.induct)
  case (1 t c s)
  from "1.prems" consider (line) "hc_state c = kExpectRequestLine"
    | (head) "hc_state c = kExpectRequestHead" by (auto simp: expecting_def)
  then show ?case
  proof cases
    case line
    show ?thesis
    proof (cases "split_line s")
      case None
      with line show ?thesis by (simp add: parse_str_line gotAll_def)
    next
      case (Some lr)
      obtain l rest where lr: "lr = (l, rest)" by force
      note sp = Some [unfolded lr]
      obtain ok r where pl: "processRequestLine l (hc_request c) = (ok, r)" by force
      show ?thesis
      proof (cases ok)
        case True
        from "1.IH"(1) [OF line sp refl pl [symmetric] True]
        show ?thesis using line sp pl True split_line_append [OF sp, of ys]
          by (simp add: parse_str_line expecting_def)
      next
        case False
        with pl have "processRequestLine l r = (False, r)"
          using processRequestLine_again by auto
        then show ?thesis using line sp pl False split_line_append [OF sp, of ys]
          by (simp add: parse_str_line gotAll_def)
      qed
    qed
  next
    case head
    show ?thesis
    proof (cases "split_line s")
      case None
      with head show ?thesis by (simp add: parse_str_head gotAll_def)
    next
      case (Some lr)
      obtain l rest where lr: "lr = (l, rest)" by force
      note sp = Some [unfolded lr]
      show ?thesis
      proof (cases "find_char (CHR '':'') l = length l")
        case False
        from "1.IH"(2) [OF head sp refl False]
        show ?thesis using head sp False split_line_append [OF sp, of ys]
          by (simp add: parse_str_head expecting_def)
      next
        case True
        then show ?thesis using head sp split_line_append [OF sp, of ys]
          by (simp add: parse_str_head gotAll_def)
      qed
    qed
  qed
qed

text \<open>What the parser leaves is again a state in which it may be called, or a whole request.\<close>

lemma parse_str_state:
  assumes "expecting c" and "parse_str t c s = (ok, c', s')"
  shows "expecting c' \<or> gotAll c'"
  using assms
proof (induction t c s rule: parse_str.induct)
  case (1 t c s)
  from "1.prems"(1) consider (line) "hc_state c = kExpectRequestLine"
    | (head) "hc_state c = kExpectRequestHead" by (auto simp: expecting_def)
  then show ?case
  proof cases
    case line
    with 1 show ?thesis
      by (auto simp: parse_str_line gotAll_def expecting_def
          split: option.splits prod.splits if_splits)
  next
    case head
    with 1 show ?thesis
      by (auto simp: parse_str_head gotAll_def expecting_def
          split: option.splits prod.splits if_splits)
  qed
qed

section \<open>Request lines and headers as text\<close>

lemma find_char_here: "c \<notin> set xs \<Longrightarrow> find_char c (xs @ c # ys) = length xs"
  by (induction xs) auto

lemma find_char_none: "c \<notin> set xs \<Longrightarrow> find_char c xs = length xs"
  by (induction xs) auto

lemma find_char_le: "find_char c xs \<le> length xs"
  by (induction xs) auto

lemma find_char_less: "find_char c xs = length xs \<longleftrightarrow> c \<notin> set xs"
  by (induction xs) auto

definition storeTarget :: "string \<Rightarrow> http_request \<Rightarrow> http_request" where
  "storeTarget target r =
     (let k = find_char (CHR ''?'') target in
      if k \<noteq> length target then setQuery (drop k target) (setPath (take k target) r)
      else setPath target r)"

definition storeVersion :: "string \<Rightarrow> http_request \<Rightarrow> bool \<times> http_request" where
  "storeVersion v r =
     (if v = ''HTTP/1.1'' then (True, setVersion kHttp11 r)
      else if v = ''HTTP/1.0'' then (True, setVersion kHttp10 r)
      else (False, r))"

lemma setTarget_text:
  assumes "seg line a b = target" and "b \<noteq> length line" and "b = a + length target"
  shows "setTarget line a b r = storeTarget target r"
proof -
  let ?k = "find_char (CHR ''?'') target"
  have "a + ?k \<le> b" using find_char_le [of "CHR ''?''" target] assms(3) by simp
  then have "seg line a (a + ?k) = take ?k target"
    using assms(1) take_seg [of ?k line a b] by (simp add: min_def)
  moreover have "seg line (a + ?k) b = drop ?k target"
    using assms(1) drop_seg [of ?k line a b] by simp
  ultimately show ?thesis
    using assms by (simp add: setTarget_def storeTarget_def Let_def)
qed

lemma processVersion_text: "processVersion (xs @ v) (length xs) r = storeVersion v r"
proof (cases "length v = 8")
  case True
  then obtain v' c where v: "v = v' @ [c]" "length v' = 7"
    by (cases v rule: rev_cases) auto
  have e: "length (xs @ v) - 1 = length xs + 7" "int (length (xs @ v)) - int (length xs) = 8"
    using True by simp_all
  have sg: "seg (xs @ v) (length xs) (length xs + 7) = v'"
    using seg_mid [of xs v' "[c]"] v by simp
  have nth: "(xs @ v) ! (length xs + 7) = c" using v by (simp add: nth_append)
  have "processVersion (xs @ v) (length xs) r =
    (if v' = ''HTTP/1.'' then
       if c = CHR ''1'' then (True, setVersion kHttp11 r)
       else if c = CHR ''0'' then (True, setVersion kHttp10 r) else (False, r)
     else (False, r))"
    by (simp only: processVersion_def Let_def e sg nth simp_thms)
  moreover have "v = ''HTTP/1.1'' \<longleftrightarrow> v' = ''HTTP/1.'' \<and> c = CHR ''1''"
    "v = ''HTTP/1.0'' \<longleftrightarrow> v' = ''HTTP/1.'' \<and> c = CHR ''0''"
    using append1_eq_conv [of v' c "''HTTP/1.''"] by (simp_all add: v)
  ultimately show ?thesis by (auto simp: storeVersion_def)
next
  case False
  then have "v \<noteq> ''HTTP/1.1''" "v \<noteq> ''HTTP/1.0''" by auto
  with False show ?thesis by (simp add: processVersion_def storeVersion_def Let_def)
qed

text \<open>A line of three words. The second word may be empty and the third holds any further
  space.\<close>

lemma processRequestLine_three:
  assumes "CHR '' '' \<notin> set m" and "CHR '' '' \<notin> set target"
  shows "processRequestLine (m @ CHR '' '' # target @ CHR '' '' # v) r =
    (case setMethod m r of (valid, r) \<Rightarrow>
       if valid then storeVersion v (storeTarget target r) else (True, r))"
proof -
  let ?l = "m @ CHR '' '' # target @ CHR '' '' # v"
  let ?a = "Suc (length m)"
  let ?b = "?a + length target"
  have s1: "find_char (CHR '' '') ?l = length m" using find_char_here [OF assms(1)] .
  have m: "seg ?l 0 (length m) = m" by (simp add: seg_def)
  have "seg ?l ?a (length ?l) = target @ CHR '' '' # v" by (simp add: seg_def)
  then have s2: "find_char (CHR '' '') (seg ?l ?a (length ?l)) = length target"
    using find_char_here [OF assms(2)] by simp
  have t: "seg ?l ?a ?b = target"
    using seg_mid [of "m @ '' ''" target "CHR '' '' # v"] by simp
  have "setTarget ?l ?a ?b r1 = storeTarget target r1" for r1
    using setTarget_text [OF t] by simp
  moreover have "processVersion ?l (Suc ?b) r1 = storeVersion v r1" for r1
    using processVersion_text [of "m @ CHR '' '' # target @ '' ''" v] by simp
  ultimately show ?thesis
    using s2 by (simp add: processRequestLine_def Let_def s1 m split: prod.splits)
qed

lemma processRequestLine_no_space:
  "CHR '' '' \<notin> set line \<Longrightarrow> processRequestLine line r = (True, r)"
  by (simp add: processRequestLine_def find_char_none)

lemma processRequestLine_no_method:
  assumes "CHR '' '' \<notin> set m" and "parseMethod m = kInvaild"
  shows "processRequestLine (m @ CHR '' '' # s) r = (True, r\<lparr>rq_method := kInvaild\<rparr>)"
proof -
  have "seg (m @ CHR '' '' # s) 0 (length m) = m" by (simp add: seg_def)
  then show ?thesis
    using find_char_here [OF assms(1)] assms(2)
    by (simp add: processRequestLine_def setMethod_def Let_def)
qed

section \<open>Printing a request\<close>

definition request_line :: "http_method \<Rightarrow> string \<Rightarrow> string \<Rightarrow> http_version \<Rightarrow> string" where
  "request_line m path query v =
     methodToString m @ '' '' @ (path @ query) @ '' ''
       @ (if v = kHttp11 then ''HTTP/1.1'' else ''HTTP/1.0'')"

fun header_lines :: "(string \<times> string) list \<Rightarrow> string" where
  "header_lines [] = kCRLF"
| "header_lines ((k, v) # hs) = (k @ '': '' @ v) @ kCRLF @ header_lines hs"

definition render_request ::
  "http_method \<Rightarrow> string \<Rightarrow> string \<Rightarrow> http_version \<Rightarrow> (string \<times> string) list \<Rightarrow> string" where
  "render_request m path query v hs = request_line m path query v @ kCRLF @ header_lines hs"

definition target_ok :: "string \<Rightarrow> string \<Rightarrow> bool" where
  "target_ok path query \<longleftrightarrow> set (path @ query) \<inter> {CHR '' '', CHR 0x0D} = {}
     \<and> CHR ''?'' \<notin> set path \<and> (query = [] \<or> hd query = CHR ''?'')"

definition header_ok :: "string \<times> string \<Rightarrow> bool" where
  "header_ok h \<longleftrightarrow> set (fst h) \<inter> {CHR '':'', CHR 0x0D} = {} \<and> CHR 0x0D \<notin> set (snd h)
     \<and> trimmed (snd h)"

lemma storeTarget_ok:
  assumes "target_ok path query" and "rq_query r = []"
  shows "storeTarget (path @ query) r = r\<lparr>rq_path := path, rq_query := query\<rparr>"
proof (cases query)
  case Nil
  with assms have "find_char (CHR ''?'') (path @ query) = length (path @ query)"
    by (intro find_char_none) (auto simp: target_ok_def)
  with Nil assms(2) show ?thesis by (simp add: storeTarget_def request_defs)
next
  case (Cons c q)
  with assms(1) have "c = CHR ''?''" "CHR ''?'' \<notin> set path" by (auto simp: target_ok_def)
  with Cons find_char_here [of "CHR ''?''" path q] show ?thesis
    by (simp add: storeTarget_def request_defs Let_def)
qed

lemma request_line_parsed:
  assumes "m \<noteq> kInvaild" and "v \<noteq> kUnknow" and "target_ok path query"
  shows "processRequestLine (request_line m path query v) request_init
       = (True, request_init\<lparr>rq_method := m, rq_path := path, rq_query := query, rq_version := v\<rparr>)"
proof -
  have ns: "CHR '' '' \<notin> set (path @ query)" using assms(3) by (auto simp: target_ok_def)
  have "setMethod (methodToString m) request_init = (True, request_init\<lparr>rq_method := m\<rparr>)"
    using assms(1) by (simp add: setMethod_def parseMethod_toString)
  moreover have "rq_query (request_init\<lparr>rq_method := m\<rparr>) = []" by (simp add: request_init_def)
  ultimately show ?thesis
    using assms(2) processRequestLine_three [OF methodToString_no_space(1) ns]
      storeTarget_ok [OF assms(3)]
    by (cases v) (simp_all add: request_line_def storeVersion_def setVersion_def)
qed

lemma request_line_no_cr:
  assumes "target_ok path query"
  shows "CHR 0x0D \<notin> set (request_line m path query v)"
  using assms methodToString_no_space(2) [of m] by (auto simp: request_line_def target_ok_def)

lemma headers_parsed:
  assumes "hc_state c = kExpectRequestHead" and "\<forall>h\<in>set hs. header_ok h"
  shows "parse_str t c (header_lines hs @ rest) =
    (True, c\<lparr>hc_state := kGotAll, hc_request := (hc_request c)
       \<lparr>rq_headers := fold (\<lambda>(k, v). map_put k v) hs (rq_headers (hc_request c))\<rparr>\<rparr>, rest)"
  using assms
proof (induction hs arbitrary: c)
  case Nil
  then show ?case
    using split_line_no_cr [of "[]" rest] by (simp add: parse_str_head)
next
  case (Cons h hs)
  obtain k v where h: "h = (k, v)" by force
  let ?l = "k @ CHR '':'' # CHR '' '' # v"
  have ok: "CHR '':'' \<notin> set k" "CHR 0x0D \<notin> set ?l" "trimmed v"
    using Cons.prems(2) h by (auto simp: header_ok_def)
  have colon: "find_char (CHR '':'') ?l = length k" by (rule find_char_here [OF ok(1)])
  have add: "addHeader ?l (length k) r = r\<lparr>rq_headers := map_put k v (rq_headers r)\<rparr>" for r
    using addHeader_field [OF ok(3), of "'' ''" "[]" k] by (simp add: isspace_def)
  have sp: "split_line (header_lines (h # hs) @ rest) = Some (?l, header_lines hs @ rest)"
    using split_line_no_cr [OF ok(2), of "header_lines hs @ rest"] by (simp add: h)
  let ?c = "c\<lparr>hc_request := addHeader ?l (length k) (hc_request c)\<rparr>"
  have "parse_str t c (header_lines (h # hs) @ rest) = parse_str t ?c (header_lines hs @ rest)"
    using Cons.prems(1) by (simp add: parse_str_head sp colon del: header_lines.simps)
  also have "\<dots> = (True, c\<lparr>hc_state := kGotAll, hc_request := (hc_request c)
       \<lparr>rq_headers := fold (\<lambda>(k, v). map_put k v) (h # hs) (rq_headers (hc_request c))\<rparr>\<rparr>, rest)"
    using Cons.IH [of ?c] Cons.prems by (simp add: add h)
  finally show ?case .
qed

definition parsed_request ::
  "int \<Rightarrow> http_method \<Rightarrow> string \<Rightarrow> string \<Rightarrow> http_version \<Rightarrow> (string \<times> string) list \<Rightarrow> http_request" where
  "parsed_request t m path query v hs =
     \<lparr>rq_method = m, rq_version = v, rq_path = path, rq_query = query, rq_receiveTime = t,
      rq_headers = fold (\<lambda>(k, v). map_put k v) hs []\<rparr>"

lemma render_parsed:
  assumes "m \<noteq> kInvaild" and "v \<noteq> kUnknow" and "target_ok path query" and "\<forall>h\<in>set hs. header_ok h"
  shows "parse_str t context_init (render_request m path query v hs @ rest) =
    (True, \<lparr>hc_state = kGotAll, hc_request = parsed_request t m path query v hs\<rparr>, rest)"
proof -
  have sp: "split_line (render_request m path query v hs @ rest)
      = Some (request_line m path query v, header_lines hs @ rest)"
    using split_line_no_cr [OF request_line_no_cr [OF assms(3)]] by (simp add: render_request_def)
  show ?thesis
    using assms(4)
    by (simp add: parse_str_line sp request_line_parsed [OF assms(1-3)] headers_parsed
        context_init_def)
      (simp add: parsed_request_def request_init_def setReceiveTime_def)
qed

lemma getHeader_parsed:
  "getHeader k (parsed_request t m path query v hs) =
     (case map_of (rev hs) k of None \<Rightarrow> [] | Some x \<Rightarrow> x)"
  using sm.find_put_all [of "[]" k hs]
  by (simp add: getHeader_def parsed_request_def map_ok_def split: option.splits)

section \<open>Properties\<close>

text \<open>C10. Printing a request and parsing it gives the request back. A buffer that starts with
  the text of a request with one of the five methods, a target without spaces and line ends whose
  query, if any, starts at the first question mark, version 1.0 or 1.1, and headers without
  colons in their names, without line ends and without white space around their values, is
  parsed, with no fault, to exactly that request; a header given several times has its last
  value; and the bytes behind the request stay in the buffer.\<close>

theorem parse_print_roundtrip:
  assumes "m \<noteq> kInvaild" and "v \<noteq> kUnknow" and "target_ok path query" and "\<forall>h\<in>set hs. header_ok h"
    and "buf_ok b" and "contents b = render_request m path query v hs @ rest"
  shows "\<exists>c' b'. parseRequest t context_init b = Some (Inr (True, c', b')) \<and> gotAll c'
           \<and> rq_method (hc_request c') = m \<and> rq_path (hc_request c') = path
           \<and> rq_query (hc_request c') = query \<and> rq_version (hc_request c') = v
           \<and> rq_receiveTime (hc_request c') = t
           \<and> (\<forall>k. getHeader k (hc_request c') = (case map_of (rev hs) k of None \<Rightarrow> [] | Some x \<Rightarrow> x))
           \<and> buf_ok b' \<and> contents b' = rest"
proof -
  let ?c = "\<lparr>hc_state = kGotAll, hc_request = parsed_request t m path query v hs\<rparr>"
  have "expecting context_init" by (simp add: expecting_def context_init_def)
  moreover have "parse_str t context_init (contents b) = (True, ?c, rest)"
    using render_parsed [OF assms(1-4)] assms(6) by simp
  ultimately obtain b' where "parseRequest t context_init b = Some (Inr (True, ?c, b'))"
    "buf_ok b'" "contents b' = rest" using parseRequest_ok [OF assms(5)] by blast
  moreover have "\<forall>k. getHeader k (hc_request ?c) = (case map_of (rev hs) k of None \<Rightarrow> [] | Some x \<Rightarrow> x)"
    by (simp add: getHeader_parsed)
  ultimately show ?thesis
    by (intro exI [of _ ?c] exI [of _ b']) (simp add: gotAll_def parsed_request_def)
qed

definition buffer_of :: "string \<Rightarrow> buffer" where
  "buffer_of s = \<lparr>store = replicate kCheapPrepared (CHR 0x00) @ s,
     readIndex = int kCheapPrepared, writeIndex = int kCheapPrepared + int (length s)\<rparr>"

lemma buffer_of_ok:
  assumes "length s < 1000"
  shows "buf_ok (buffer_of s)" and "contents (buffer_of s) = s"
  using assms by (simp_all add: buffer_of_def buf_ok_def kCheapPrepared_def contents_def seg_def
      nat_add_distrib)

theorem parse_print_roundtrip_witness:
  "\<exists>c' b'. parseRequest 7 context_init
       (buffer_of (render_request kGet ''/index.html'' ''?a=b'' kHttp11 [(''Host'', ''x'')] @ ''more''))
     = Some (Inr (True, c', b')) \<and> rq_path (hc_request c') = ''/index.html''
     \<and> getHeader ''Host'' (hc_request c') = ''x'' \<and> contents b' = ''more''"
proof -
  let ?s = "render_request kGet ''/index.html'' ''?a=b'' kHttp11 [(''Host'', ''x'')] @ ''more''"
  have "length ?s < 1000" by (simp add: render_request_def request_line_def kCRLF_def)
  note b = buffer_of_ok [OF this]
  have t: "target_ok ''/index.html'' ''?a=b''" by (simp add: target_ok_def)
  have h: "\<forall>h\<in>set [(''Host'', ''x'')]. header_ok h"
    by (simp add: header_ok_def trimmed_def isspace_def)
  from parse_print_roundtrip [OF _ _ t h b, of 7] obtain c' b' where
    p: "parseRequest 7 context_init (buffer_of ?s) = Some (Inr (True, c', b'))"
      "rq_path (hc_request c') = ''/index.html''" "contents b' = ''more''"
    and g: "\<forall>k. getHeader k (hc_request c')
              = (case map_of (rev [(''Host'', ''x'')]) k of None \<Rightarrow> [] | Some x \<Rightarrow> x)"
    by auto
  from g have "getHeader ''Host'' (hc_request c') = ''x''" by simp
  with p show ?thesis by blast
qed

text \<open>C16. The parser does not depend on how the network cuts a request. Parsing a first piece and
  then, if the request is not complete, parsing again when the next piece has been appended gives
  the same answer, the same request and the same rest as parsing both pieces at once; if the
  first piece held a whole request, the second one is left in the buffer.\<close>

theorem parse_in_pieces:
  assumes "buf_ok b" and "length ys \<le> room b" and "expecting c"
    and "buf_ok w" and "contents w = contents b @ ys"
  shows "\<exists>ok c1 b1 b2 ok' c' w'.
           parseRequest t c b = Some (Inr (ok, c1, b1)) \<and> buf_append b1 ys = Inr b2
         \<and> parseRequest t c w = Some (Inr (ok', c', w'))
         \<and> (if gotAll c1 then ok' = ok \<and> c' = c1 \<and> contents w' = contents b2
            else \<exists>b3. parseRequest t c1 b2 = Some (Inr (ok', c', b3)) \<and> contents w' = contents b3)"
proof -
  obtain ok c1 s1 where p1: "parse_str t c (contents b) = (ok, c1, s1)" by (metis prod_cases3)
  obtain ok' c' s' where p2: "parse_str t c (contents w) = (ok', c', s')" by (metis prod_cases3)
  obtain b1 where b1: "parseRequest t c b = Some (Inr (ok, c1, b1))" "buf_ok b1"
    "contents b1 = s1" "writeIndex b1 = writeIndex b"
    using parseRequest_ok [OF assms(1,3) p1] by blast
  obtain w' where w': "parseRequest t c w = Some (Inr (ok', c', w'))" "contents w' = s'"
    using parseRequest_ok [OF assms(4,3) p2] by blast
  have "length ys \<le> room b1" using assms(2) b1(4) by (simp add: room_def)
  then obtain b2 where b2: "buf_append b1 ys = Inr b2" "buf_ok b2" "contents b2 = s1 @ ys"
    using bq.put_ok [OF b1(2)] b1(3) by blast
  note pieces = parse_str_pieces [OF assms(3), of t "contents b" ys]
  show ?thesis
  proof (cases "gotAll c1")
    case True
    with pieces p1 p2 assms(5) b2(3) w'(2) have "ok' = ok \<and> c' = c1 \<and> contents w' = contents b2"
      by simp
    with True b1(1) b2(1) w'(1) show ?thesis by auto
  next
    case False
    then have "expecting c1" using parse_str_state [OF assms(3) p1] by simp
    moreover have "parse_str t c1 (contents b2) = (ok', c', s')"
      using pieces p1 p2 assms(5) b2(3) False by simp
    ultimately obtain b3 where "parseRequest t c1 b2 = Some (Inr (ok', c', b3))" "contents b3 = s'"
      using parseRequest_ok [OF b2(2)] by blast
    with False b1(1) b2(1) w' show ?thesis by auto
  qed
qed

theorem parse_in_pieces_witness:
  "\<exists>ok c1 b1 b2 ok' c' w'.
     parseRequest 7 context_init (buffer_of ''GET /a HTTP'') = Some (Inr (ok, c1, b1))
   \<and> buf_append b1 (''/1.1'' @ kCRLF @ kCRLF) = Inr b2
   \<and> parseRequest 7 context_init (buffer_of (''GET /a HTTP/1.1'' @ kCRLF @ kCRLF))
       = Some (Inr (ok', c', w'))
   \<and> (if gotAll c1 then ok' = ok \<and> c' = c1 \<and> contents w' = contents b2
      else \<exists>b3. parseRequest 7 c1 b2 = Some (Inr (ok', c', b3)) \<and> contents w' = contents b3)"
proof -
  have b: "length ''GET /a HTTP'' < 1000"
    and w: "length (''GET /a HTTP/1.1'' @ kCRLF @ kCRLF) < 1000" by (simp_all add: kCRLF_def)
  have r: "length (''/1.1'' @ kCRLF @ kCRLF) \<le> room (buffer_of ''GET /a HTTP'')"
    by (simp add: kCRLF_def room_def buffer_of_def kCheapPrepared_def)
  have e: "expecting context_init" by (simp add: expecting_def context_init_def)
  have c: "contents (buffer_of (''GET /a HTTP/1.1'' @ kCRLF @ kCRLF))
      = contents (buffer_of ''GET /a HTTP'') @ ''/1.1'' @ kCRLF @ kCRLF"
    by (simp add: buffer_of_ok(2) kCRLF_def)
  show ?thesis by (rule parse_in_pieces [OF buffer_of_ok(1) [OF b] r e buffer_of_ok(1) [OF w] c])
qed

text \<open>C29. \<open>parseRequest\<close> returns exactly when it is called in one of the two states that expect
  input, always without a fault, and leaves the context in such a state or with a whole request.
  In the state after a whole request, and in the state that would expect a body, its loop never
  ends; no run of the parser enters the latter.\<close>

theorem parse_returns_iff:
  assumes "buf_ok b"
  shows "(expecting c \<longleftrightarrow> parseRequest t c b \<noteq> None)
       \<and> (\<forall>r. parseRequest t c b = Some r \<longrightarrow>
            (\<exists>ok c' b'. r = Inr (ok, c', b') \<and> buf_ok b' \<and> (expecting c' \<or> gotAll c')))"
proof (cases "expecting c")
  case True
  obtain ok c' s' where p: "parse_str t c (contents b) = (ok, c', s')" by (metis prod_cases3)
  from parseRequest_ok [OF assms True p] obtain b' where
    "parseRequest t c b = Some (Inr (ok, c', b'))" "buf_ok b'" by blast
  with True parse_str_state [OF True p] show ?thesis by simp
next
  case False
  then have "parseRequest t c b = None"
    using parse_loop_stuck [of t True c b] by (cases "parseRequest t c b") (auto simp: parseRequest_def)
  with False show ?thesis by simp
qed

theorem parse_returns_iff_witness:
  "parseRequest 7 context_init (buffer_of ''GET'') \<noteq> None
   \<and> parseRequest 7 \<lparr>hc_state = kGotAll, hc_request = request_init\<rparr> (buffer_of ''GET'') = None"
proof -
  have "length ''GET'' < 1000" by simp
  note b = buffer_of_ok(1) [OF this]
  show ?thesis
    using parse_returns_iff [OF b, of context_init 7]
      parse_returns_iff [OF b, of "\<lparr>hc_state = kGotAll, hc_request = request_init\<rparr>" 7]
    by (simp add: expecting_def context_init_def)
qed

text \<open>What \<open>processRequestLine\<close> accepts. With three words and a known method it succeeds
  exactly for the versions 1.0 and 1.1 and stores method, path, query and version; but a line
  whose first word is no known method, or that has no space at all, is accepted as well, with
  the version left as it was.\<close>

theorem request_line_cases:
  assumes "CHR '' '' \<notin> set m" and "CHR '' '' \<notin> set target"
  shows "processRequestLine m r = (True, r)
    \<and> (if parseMethod m = kInvaild
       then processRequestLine (m @ '' '' @ s) r = (True, r\<lparr>rq_method := kInvaild\<rparr>)
       else processRequestLine (m @ '' '' @ target @ '' '' @ v) r =
             (let r' = storeTarget target (r\<lparr>rq_method := parseMethod m\<rparr>) in
              if v = ''HTTP/1.1'' then (True, r'\<lparr>rq_version := kHttp11\<rparr>)
              else if v = ''HTTP/1.0'' then (True, r'\<lparr>rq_version := kHttp10\<rparr>)
              else (False, r')))"
  using processRequestLine_no_space [OF assms(1)] processRequestLine_no_method [OF assms(1)]
    processRequestLine_three [OF assms]
  by (simp add: setMethod_def storeVersion_def setVersion_def Let_def)

theorem request_line_cases_witness:
  "processRequestLine ''BREW /pot HTTP/9.9'' request_init
     = (True, request_init\<lparr>rq_method := kInvaild\<rparr>)
   \<and> fst (processRequestLine ''GET /pot HTTP/9.9'' request_init) = False
   \<and> processRequestLine ''nonsense'' request_init = (True, request_init)"
proof -
  have b: "CHR '' '' \<notin> set ''BREW''" and g: "CHR '' '' \<notin> set ''GET''"
    and t: "CHR '' '' \<notin> set ''/pot''" and n: "CHR '' '' \<notin> set ''nonsense''" by simp_all
  show ?thesis
    using request_line_cases [OF b t, of request_init "''/pot HTTP/9.9''"]
      request_line_cases [OF g t, of request_init _ "''HTTP/9.9''"]
      request_line_cases [OF n t, of request_init]
    by (simp add: parseMethod_def Let_def)
qed

end
