(* ===== verification/HttpResponse.thy ===== *)
theory HttpResponse
  imports Buffer StdContainers Decimal
begin

text \<open>
  The HTTP response of src/http/httpResponse.h and src/http/httpResponse.cpp and its
  serialisation into a \<open>Buffer\<close>, against a reader that cuts a message at its line ends into
  the lines of the head and the body.
\<close>

section \<open>The model\<close>

datatype http_status =
  kUnknowStatus | k200OK | k301MovePermently | k400BadRequest | k404NotFound

fun status_value :: "http_status \<Rightarrow> nat" where
  "status_value kUnknowStatus = 0"
| "status_value k200OK = 200"
| "status_value k301MovePermently = 301"
| "status_value k400BadRequest = 400"
| "status_value k404NotFound = 404"

record http_response =
  rs_headers :: "(string \<times> string) list"
  rs_statusCode :: http_status
  rs_statusMessage :: string
  rs_closeConnection :: bool
  rs_body :: string

definition response_new :: "bool \<Rightarrow> http_response" where
  "response_new close = \<lparr>rs_headers = [], rs_statusCode = kUnknowStatus, rs_statusMessage = [],
     rs_closeConnection = close, rs_body = []\<rparr>"

definition setStatusCode :: "http_status \<Rightarrow> http_response \<Rightarrow> http_response" where
  "setStatusCode code r = r\<lparr>rs_statusCode := code\<rparr>"

definition setStatusMessage :: "string \<Rightarrow> http_response \<Rightarrow> http_response" where
  "setStatusMessage message r = r\<lparr>rs_statusMessage := message\<rparr>"

definition setCloseConnection :: "bool \<Rightarrow> http_response \<Rightarrow> http_response" where
  "setCloseConnection on r = r\<lparr>rs_closeConnection := on\<rparr>"

definition closeConnection :: "http_response \<Rightarrow> bool" where
  "closeConnection r = rs_closeConnection r"

definition response_addHeader :: "string \<Rightarrow> string \<Rightarrow> http_response \<Rightarrow> http_response" where
  "response_addHeader key value r = r\<lparr>rs_headers := map_put key value (rs_headers r)\<rparr>"

definition setContentType :: "string \<Rightarrow> http_response \<Rightarrow> http_response" where
  "setContentType contentType r = response_addHeader ''Content-Type'' contentType r"

definition setBody :: "string \<Rightarrow> http_response \<Rightarrow> http_response" where
  "setBody body r = r\<lparr>rs_body := body\<rparr>"

text \<open>A run of \<open>append\<close> statements.\<close>

definition appends :: "string list \<Rightarrow> buffer \<Rightarrow> buffer res" where
  "appends ss = fold_res (\<lambda>s out. buf_append out s) ss"

definition appendTobuffer :: "http_response \<Rightarrow> buffer \<Rightarrow> buffer res" where
  "appendTobuffer r out =
     bnd (appends [snprintf 32 (''HTTP/1.1 '' @ dec (status_value (rs_statusCode r)) @ '' ''),
                   rs_statusMessage r, kCRLF] out) (\<lambda>out.
     bnd (if rs_closeConnection r
          then appends [''Connection: close'' @ kCRLF] out
          else appends [snprintf 32 (''Content-Length: '' @ dec (length (rs_body r)) @ kCRLF),
                        ''Connection: Keep-Alive'' @ kCRLF] out) (\<lambda>out.
     bnd (fold_res (\<lambda>(k, v) out. appends [k, '': '', v, kCRLF] out) (rs_headers r) out) (\<lambda>out.
     appends [kCRLF, rs_body r] out)))"

section \<open>The text of a response\<close>

definition status_line :: "http_response \<Rightarrow> string" where
  "status_line r = ''HTTP/1.1 '' @ dec (status_value (rs_statusCode r)) @ '' '' @ rs_statusMessage r"

definition framing_lines :: "http_response \<Rightarrow> string list" where
  "framing_lines r =
     (if rs_closeConnection r then [''Connection: close'']
      else [''Content-Length: '' @ dec (length (rs_body r)), ''Connection: Keep-Alive''])"

definition field_line :: "string \<times> string \<Rightarrow> string" where
  "field_line h = fst h @ '': '' @ snd h"

definition head_lines :: "http_response \<Rightarrow> string list" where
  "head_lines r = status_line r # framing_lines r @ map field_line (rs_headers r)"

definition response_text :: "http_response \<Rightarrow> string" where
  "response_text r = concat (map (\<lambda>l. l @ kCRLF) (head_lines r)) @ kCRLF @ rs_body r"

lemma status_snprintf: "snprintf 32 (''HTTP/1.1 '' @ dec (status_value s) @ '' '')
    = ''HTTP/1.1 '' @ dec (status_value s) @ '' ''"
proof -
  have "status_value s < 10 ^ 3" by (cases s) simp_all
  then have "length (dec (status_value s)) \<le> 3" by (rule length_dec) simp
  then show ?thesis by (intro snprintf_fits) simp
qed

lemma length_snprintf:
  "n < 10 ^ 13 \<Longrightarrow> snprintf 32 (''Content-Length: '' @ dec n @ kCRLF) = ''Content-Length: '' @ dec n @ kCRLF"
proof -
  assume "n < 10 ^ 13"
  then have "length (dec n) \<le> 13" by (rule length_dec) simp
  then show ?thesis by (intro snprintf_fits) (simp add: kCRLF_def)
qed

text \<open>The whole serialisation is one run of appends.\<close>

definition response_pieces :: "http_response \<Rightarrow> string list" where
  "response_pieces r =
     [''HTTP/1.1 '' @ dec (status_value (rs_statusCode r)) @ '' '', rs_statusMessage r, kCRLF]
     @ map (\<lambda>l. l @ kCRLF) (framing_lines r)
     @ concat (map (\<lambda>(k, v). [k, '': '', v, kCRLF]) (rs_headers r))
     @ [kCRLF, rs_body r]"

lemma appends_append: "appends (xs @ ys) = (\<lambda>out. bnd (appends xs out) (appends ys))"
  by (rule ext) (simp add: appends_def fold_res_append)

lemma appends_fields:
  "fold_res (\<lambda>(k, v) out. appends [k, '': '', v, kCRLF] out) hs =
     appends (concat (map (\<lambda>(k, v). [k, '': '', v, kCRLF]) hs))"
proof (induction hs)
  case Nil
  show ?case by (rule ext) (simp add: appends_def)
next
  case (Cons h hs)
  obtain k v where h: "h = (k, v)" by force
  show ?case
    by (rule ext)
      (simp only: h fold_res.simps prod.case list.map concat.simps appends_append Cons.IH)
qed

lemma appendTobuffer_pieces:
  assumes "length (rs_body r) < 10 ^ 13"
  shows "appendTobuffer r out = appends (response_pieces r) out"
proof -
  have framing: "(if rs_closeConnection r
          then appends [''Connection: close'' @ kCRLF] out
          else appends [snprintf 32 (''Content-Length: '' @ dec (length (rs_body r)) @ kCRLF),
                        ''Connection: Keep-Alive'' @ kCRLF] out)
      = appends (map (\<lambda>l. l @ kCRLF) (framing_lines r)) out" for out
    by (cases "rs_closeConnection r")
      (simp_all only: framing_lines_def if_True if_False list.map append_assoc
        length_snprintf [OF assms])
  show ?thesis
    by (simp only: appendTobuffer_def response_pieces_def appends_append framing appends_fields
        status_snprintf)
qed

lemma concat_fields:
  "concat (concat (map (\<lambda>(k, v). [k, '': '', v, kCRLF]) hs)) = concat (map (\<lambda>l. l @ kCRLF) (map field_line hs))"
  by (induction hs) (auto simp: field_line_def)

lemma concat_pieces: "concat (response_pieces r) = response_text r"
  by (simp add: response_pieces_def response_text_def head_lines_def status_line_def concat_fields
      del: map_map)

lemma appendTobuffer_ok:
  assumes "length (rs_body r) < 10 ^ 13" and "buf_ok out" and "length (response_text r) \<le> room out"
  shows "\<exists>out'. appendTobuffer r out = Inr out' \<and> buf_ok out'
           \<and> contents out' = contents out @ response_text r"
  using bq.put_all [OF assms(2), of "response_pieces r"] assms(3)
  by (simp add: appendTobuffer_pieces [OF assms(1)] appends_def concat_pieces) blast

section \<open>Reading a head back\<close>

function split_head :: "string \<Rightarrow> (string list \<times> string) option" where
  "split_head s =
     (case split_line s of
        None \<Rightarrow> None
      | Some (l, rest) \<Rightarrow>
          if l = [] then Some ([], rest)
          else (case split_head rest of None \<Rightarrow> None | Some (ls, body) \<Rightarrow> Some (l # ls, body)))"
  by pat_completeness auto
termination
  by (relation "measure length") (auto dest!: split_line_Some simp: kCRLF_def)

declare split_head.simps [simp del]

lemma split_head_lines:
  assumes "\<forall>l\<in>set ls. l \<noteq> [] \<and> CHR 0x0D \<notin> set l"
  shows "split_head (concat (map (\<lambda>l. l @ kCRLF) ls) @ kCRLF @ body) = Some (ls, body)"
  using assms
proof (induction ls)
  case Nil
  then show ?case using split_line_no_cr [of "[]" body] by (subst split_head.simps) simp
next
  case (Cons l ls)
  then show ?case
    using split_line_no_cr [of l "concat (map (\<lambda>l. l @ kCRLF) ls) @ kCRLF @ body"]
    by (subst split_head.simps) simp
qed

definition response_ok :: "http_response \<Rightarrow> bool" where
  "response_ok r \<longleftrightarrow> length (rs_body r) < 10 ^ 13 \<and> CHR 0x0D \<notin> set (rs_statusMessage r)
     \<and> (\<forall>(k, v)\<in>set (rs_headers r). CHR 0x0D \<notin> set k \<and> CHR 0x0D \<notin> set v)"

lemma head_lines_clean: "response_ok r \<Longrightarrow> \<forall>l\<in>set (head_lines r). l \<noteq> [] \<and> CHR 0x0D \<notin> set l"
  by (auto simp: head_lines_def status_line_def framing_lines_def field_line_def response_ok_def
      dec_no)

section \<open>Properties\<close>

text \<open>C18. A serialised response is framed correctly. For a response whose message and headers hold
  no carriage return, \<open>appendTobuffer\<close> succeeds and adds a text that a reader cuts back into the
  status line with the numeric code and the message, the framing lines, one line per header in
  the order of the map, and exactly the body; without \<open>closeConnection\<close> the framing is a
  \<open>Content-Length\<close> whose number is the length of the body, otherwise \<open>Connection: close\<close>.\<close>

theorem response_framing:
  assumes "response_ok r" and "buf_ok out" and "length (response_text r) \<le> room out"
  shows "\<exists>out' text. appendTobuffer r out = Inr out' \<and> buf_ok out'
           \<and> contents out' = contents out @ text
           \<and> split_head text = Some (status_line r # framing_lines r @ map field_line (rs_headers r),
                                     rs_body r)
           \<and> (if closeConnection r then framing_lines r = [''Connection: close'']
              else \<exists>n. hd (framing_lines r) = ''Content-Length: '' @ n \<and> undec n = length (rs_body r))"
proof -
  have "length (rs_body r) < 10 ^ 13" using assms(1) by (simp add: response_ok_def)
  from appendTobuffer_ok [OF this assms(2,3)] obtain out' where
    "appendTobuffer r out = Inr out'" "buf_ok out'" "contents out' = contents out @ response_text r"
    by blast
  moreover have "split_head (response_text r) = Some (head_lines r, rs_body r)"
    unfolding response_text_def by (rule split_head_lines [OF head_lines_clean [OF assms(1)]])
  ultimately show ?thesis
    by (auto simp: head_lines_def framing_lines_def closeConnection_def undec_dec)
qed

definition sample_response :: http_response where
  "sample_response = setBody ''hello'' (setContentType ''text/html''
     (setStatusMessage ''OK'' (setStatusCode k200OK (response_new False))))"

theorem response_framing_witness:
  "\<exists>out'. appendTobuffer sample_response buffer_init = Inr out'
     \<and> split_head (contents out') = Some
        ([''HTTP/1.1 200 OK'', ''Content-Length: 5'', ''Connection: Keep-Alive'',
          ''Content-Type: text/html''], ''hello'')"
proof -
  let ?r = "sample_response"
  note r = sample_response_def response_new_def setBody_def setContentType_def
    setStatusMessage_def setStatusCode_def response_addHeader_def
  have d: "dec 200 = ''200''" "dec 5 = ''5''" by (simp_all add: dec.simps)
  have five: "Suc (Suc (Suc (Suc (Suc 0)))) = 5" by simp
  have ok: "response_ok ?r" by (simp add: response_ok_def r)
  have fits: "length (response_text ?r) \<le> room buffer_init"
    by (simp add: response_text_def head_lines_def status_line_def framing_lines_def field_line_def
        r d kCRLF_def room_init five)
  from response_framing [OF ok buf_ok_init fits] show ?thesis
    by (auto simp: contents_init status_line_def framing_lines_def field_line_def r d five)
qed

end
