(* ===== verification/HttpServer.thy ===== *)
theory HttpServer
  imports TcpServer ConnectionOutput ConnectionLife HttpContext HttpResponse
begin

text \<open>
  The HTTP server of src/http/httpServer.h and src/http/httpServer.cpp: it gives a \<open>TcpServer\<close> its
  callbacks, parses what a connection receives in the context kept with the connection, and answers
  each whole request with the response the user's callback fills in. The contexts of connections are
  the \<open>AutoContext\<close> members of src/utility.h.
\<close>

section \<open>The model\<close>

text \<open>The callback of the user fills a response for a request.\<close>

type_synonym http_callback = "http_request \<Rightarrow> http_response \<Rightarrow> http_response"

record http_server =
  hs_server :: nat
  hs_httpCallback :: http_callback

record http_world = server_world +
  hw_contexts :: "nat \<Rightarrow> http_context option"
  hw_servers :: "nat \<Rightarrow> http_server"

definition upd_http :: "nat \<Rightarrow> (http_server \<Rightarrow> http_server) \<Rightarrow> 'z http_world_scheme \<Rightarrow> 'z http_world_scheme" where
  "upd_http h f s = s\<lparr>hw_servers := (hw_servers s)(h := f (hw_servers s h))\<rparr>"

definition upd_context :: "nat \<Rightarrow> http_context option \<Rightarrow> 'z http_world_scheme \<Rightarrow> 'z http_world_scheme" where
  "upd_context c ctx s = s\<lparr>hw_contexts := (hw_contexts s)(c := ctx)\<rparr>"

text \<open>\<open>AutoContext\<close>: empty at first, and made on the first use.\<close>

definition auto_context_new :: "http_context option" where
  "auto_context_new = None"

definition auto_context :: "http_context option \<Rightarrow> http_context" where
  "auto_context ctx = (case ctx of None \<Rightarrow> context_init | Some c \<Rightarrow> c)"

lemma auto_context_Some [simp]: "auto_context (Some ctx) = ctx"
  by (simp add: auto_context_def)

definition getContext :: "nat \<Rightarrow> 'z http_world_scheme \<Rightarrow> http_context \<times> 'z http_world_scheme" where
  "getContext c s = (let ctx = auto_context (hw_contexts s c) in (ctx, upd_context c (Some ctx) s))"

definition defaultHttpCallback :: http_callback where
  "defaultHttpCallback req resp =
     setCloseConnection True (setStatusMessage ''Not Found'' (setStatusCode k404NotFound resp))"

text \<open>The server's callbacks are the functions of the HTTP server, named by its address.\<close>

definition http_server_new ::
  "kernel \<Rightarrow> nat \<Rightarrow> net_address \<Rightarrow> nat \<Rightarrow> nat \<Rightarrow> nat \<Rightarrow> nat \<Rightarrow> 'z http_world_scheme \<Rightarrow> 'z http_world_scheme res" where
  "http_server_new K loop listenAddr ch a sv h s =
     bnd (server_new K loop listenAddr ch a sv s) (\<lambda>s.
     let s = upd_http h (\<lambda>_. \<lparr>hs_server = sv, hs_httpCallback = defaultHttpCallback\<rparr>) s;
         s = upd_server sv (server_setConnectionCallBack (Some h)) s;
         s = upd_server sv (server_setMessageCallBack (Some h)) s
     in Inr s)"

definition http_getLoop :: "nat \<Rightarrow> 'z http_world_scheme \<Rightarrow> nat" where
  "http_getLoop h s = ts_loop (sw_servers s (hs_server (hw_servers s h)))"

definition setHttpCallback :: "http_callback \<Rightarrow> http_server \<Rightarrow> http_server" where
  "setHttpCallback cb hs = hs\<lparr>hs_httpCallback := cb\<rparr>"

definition http_setThreadNum :: "int \<Rightarrow> nat \<Rightarrow> 'z http_world_scheme \<Rightarrow> 'z http_world_scheme res" where
  "http_setThreadNum numThreads h s = server_setThreadNum numThreads (hs_server (hw_servers s h)) s"

definition http_start ::
  "(closure \<Rightarrow> 'z http_world_scheme \<Rightarrow> 'z http_world_scheme res)
    \<Rightarrow> (nat \<Rightarrow> ('z http_world_scheme \<Rightarrow> (nat \<times> 'z http_world_scheme) res) \<times> nat)
    \<Rightarrow> nat \<Rightarrow> 'z http_world_scheme \<Rightarrow> 'z http_world_scheme res" where
  "http_start run threads h s = server_start run threads (hs_server (hw_servers s h)) s"

definition http_onConnection :: "nat \<Rightarrow> nat \<Rightarrow> 'z http_world_scheme \<Rightarrow> 'z http_world_scheme res" where
  "http_onConnection h c s = Inr s"

definition wants_close :: "http_request \<Rightarrow> bool" where
  "wants_close req =
     (let connection = getHeader ''Connection'' req in
      connection = ''close'' \<or> (rq_version req = kHttp10 \<and> connection \<noteq> ''Keep-Alive''))"

definition http_onRequest ::
  "kernel \<Rightarrow> ('z http_world_scheme) env \<Rightarrow> nat \<Rightarrow> nat \<Rightarrow> http_request \<Rightarrow> 'z http_world_scheme
    \<Rightarrow> 'z http_world_scheme res" where
  "http_onRequest K E h c req s =
     (let close = wants_close req;
          response = response_new close;
          response = hs_httpCallback (hw_servers s h) req response in
      bnd buffer_new (\<lambda>buf.
      bnd (appendTobuffer response buf) (\<lambda>buf.
      bnd (conn_send_buffer K E c buf s) (\<lambda>(buf, s).
      if closeConnection response then conn_shutdown E c s else Inr s))))"

definition bad_request :: string where
  "bad_request = ''HTTP/1.1 400 Bad Request'' @ kCRLF @ kCRLF"

text \<open>The parser may not return, and then neither does \<open>onMessage\<close>: \<open>None\<close>.\<close>

definition http_onMessage ::
  "kernel \<Rightarrow> ('z http_world_scheme) env \<Rightarrow> nat \<Rightarrow> nat \<Rightarrow> int \<Rightarrow> 'z http_world_scheme
    \<Rightarrow> 'z http_world_scheme res option" where
  "http_onMessage K E h c receiveTime s =
     (case getContext c s of (context, s) \<Rightarrow>
      map_option (\<lambda>parsed.
        bnd parsed (\<lambda>(ok, context, buf).
        let s = upd_context c (Some context) s;
            s = upd_conn c (\<lambda>cn. cn\<lparr>cn_inputBuffer := buf\<rparr>) s in
        bnd (if \<not> ok then bnd (conn_send K E c bad_request s) (conn_shutdown E c) else Inr s) (\<lambda>s.
        case getContext c s of (context, s) \<Rightarrow>
        if gotAll context then
          bnd (http_onRequest K E h c (hc_request context) s) (\<lambda>s.
          case getContext c s of (context, s) \<Rightarrow> Inr (upd_context c (Some (context_reset context)) s))
        else Inr s)))
      (parseRequest receiveTime context (cn_inputBuffer (cw_conns s c))))"

section \<open>Reading the state after an operation\<close>

lemma upd_context_sel [loop_simps]:
  "hw_contexts (upd_context c ctx s) = (hw_contexts s)(c := ctx)" "hw_servers (upd_context c ctx s) = hw_servers s"
  "chans (upd_context c ctx s) = chans s" "w_loops (upd_context c ctx s) = w_loops s"
  "w_tid (upd_context c ctx s) = w_tid s" "sk_trace (upd_context c ctx s) = sk_trace s"
  "cw_conns (upd_context c ctx s) = cw_conns s" "isInLoopThread l (upd_context c ctx s) = isInLoopThread l s"
  by (simp_all add: upd_context_def isInLoopThread_def)

lemma hw_sel [loop_simps]:
  "hw_contexts (upd_loop l g s) = hw_contexts s" "hw_contexts (upd_chan ch k s) = hw_contexts s"
  "hw_contexts (snd (syscall K call s)) = hw_contexts s" "hw_contexts (upd_conn c f s) = hw_contexts s"
  "hw_servers (upd_loop l g s) = hw_servers s" "hw_servers (upd_chan ch k s) = hw_servers s"
  "hw_servers (snd (syscall K call s)) = hw_servers s" "hw_servers (upd_conn c f s) = hw_servers s"
  by (simp_all add: upd_loop_def upd_chan_def syscall_def Let_def upd_conn_def)

text \<open>The output operations of a connection leave the contexts, the servers and the input alone.\<close>

definition http_same :: "'z http_world_scheme \<Rightarrow> 'z http_world_scheme \<Rightarrow> bool" where
  "http_same s s' \<longleftrightarrow> hw_contexts s' = hw_contexts s \<and> hw_servers s' = hw_servers s
     \<and> (\<forall>d. cn_inputBuffer (cw_conns s' d) = cn_inputBuffer (cw_conns s d))"

lemma http_same_simps [simp]:
  "http_same s s" "http_same s (upd_conn c (\<lambda>cn. cn\<lparr>cn_outputBuffer := b\<rparr>) t) = http_same s t"
  "http_same s (upd_conn c (setState st) t) = http_same s t"
  "http_same s (snd (syscall K call t)) = http_same s t" "http_same s (upd_chan ch k t) = http_same s t"
  by (auto simp: http_same_def loop_simps setState_def)

lemma channel_update_http: "channel_update ch s = Inr s' \<Longrightarrow> http_same t s \<Longrightarrow> http_same t s'"
  by (auto simp: http_same_def channel_update_def loop_updateChannel_def with_poller_def upd_loop_def res_simps
      split: if_splits)

lemma enableWriting_http: "enableWriting ch s = Inr s' \<Longrightarrow> http_same t s \<Longrightarrow> http_same t s'"
  unfolding enableWriting_def by (drule channel_update_http) simp_all

lemma sendInloop_http:
  assumes "sendInloop K c m s = Inr s'"
  shows "http_same s s'"
proof -
  let ?call = "SysWrite (ch_fd (chans s (cn_channel (cw_conns s c)))) m"
  obtain a s1 where sys: "syscall K ?call s = (a, s1)" by force
  then have "http_same s s1" using http_same_simps(4) [of s K ?call s] by simp
  then show ?thesis
    using assms unfolding sendInloop_def sys Let_def
    by (auto simp: res_simps split: if_splits elim!: enableWriting_http)
qed

lemma shutdownInloop_http: "shutdownInloop K c s = Inr s' \<Longrightarrow> http_same t s \<Longrightarrow> http_same t s'"
  by (auto simp: shutdownInloop_def socket_shutdownWrite_def res_simps split: if_splits)

lemma conn_exec_http:
  assumes "conn_ok c s" and "run_closure E (ShutdownInloop c) = shutdownInloop K c"
    and "conn_exec K E c op s = Inr s'" and "op \<noteq> OpWritable"
  shows "http_same s s'"
proof (cases op)
  case (OpSend m)
  with assms(3) conn_ok_in_loop [OF assms(1)] show ?thesis
    by (auto simp: conn_send_def Let_def split: if_splits dest: sendInloop_http)
next
  case OpShutdown
  have "isInLoopThread (cn_loop (cw_conns (upd_conn c (setState kDisconnecting) s) c)) (upd_conn c (setState kDisconnecting) s)"
    using conn_ok_in_loop [OF assms(1)] by (simp add: loop_simps setState_def)
  with OpShutdown assms(2,3) show ?thesis
    by (auto simp: conn_shutdown_def Let_def runInLoop_def split: if_splits elim!: shutdownInloop_http)
qed (use assms(4) in simp)

section \<open>Answering\<close>

text \<open>The reply to a message and whether the connection is shut down behind it.\<close>

definition say :: "string \<Rightarrow> bool \<Rightarrow> conn_op list" where
  "say m close = OpSend m # (if close then [OpShutdown] else [])"

lemma say_exec: "fold_res (conn_exec K E c) (say m close) s
  = bnd (conn_send K E c m s) (\<lambda>s. if close then conn_shutdown E c s else Inr s)"
proof -
  have "bnd r Inr = r" for r :: "'b res" by (cases r) simp_all
  then show ?thesis by (cases "conn_send K E c m s") (simp_all add: say_def)
qed

lemma say_effect:
  assumes ok: "out_ok c d s" and doc: "write_documented K"
    and run: "run_closure E (ShutdownInloop c) = shutdownInloop K c"
    and fits: "length m \<le> room (cn_outputBuffer (cw_conns s c))"
  shows "\<exists>s'. bnd (conn_send K E c m s) (\<lambda>s. if close then conn_shutdown E c s else Inr s) = Inr s'
    \<and> out_ok c d s' \<and> http_same s s'
    \<and> sent c s' @ unsent c s' = sent c s @ unsent c s @ (if cn_state (cw_conns s c) = kConnected then m else [])
    \<and> (cn_state (cw_conns s' c) = kConnected \<longleftrightarrow> cn_state (cw_conns s c) = kConnected \<and> \<not> close)"
proof -
  have "sum_list (map op_size (say m close)) \<le> room (cn_outputBuffer (cw_conns s c))" using fits by (simp add: say_def)
  from conn_execs_effect [OF ok doc run this] obtain s' where
    s': "fold_res (conn_exec K E c) (say m close) s = Inr s'" "out_ok c d s'"
      "sent c s' @ unsent c s' = sent c s @ unsent c s
        @ (if cn_state (cw_conns s c) = kConnected then accepted (say m close) else [])"
      "cn_state (cw_conns s' c) = kConnected \<longleftrightarrow> cn_state (cw_conns s c) = kConnected \<and> OpShutdown \<notin> set (say m close)"
    by blast
  have "conn_ok c s" using ok by (simp add: out_ok_def)
  obtain t where t: "conn_send K E c m s = Inr t" "(if close then conn_shutdown E c t else Inr t) = Inr s'"
    using s'(1) unfolding say_exec by (auto simp: res_simps)
  have "op_size (OpSend m) \<le> room (cn_outputBuffer (cw_conns s c))" using fits by simp
  from conn_exec_effect [OF ok doc run this] t(1) have "conn_ok c t" by (auto simp: out_ok_def)
  have "http_same s t" using conn_exec_http [OF \<open>conn_ok c s\<close> run, of "OpSend m" t] t(1) by simp
  moreover have "http_same t s'" using conn_exec_http [OF \<open>conn_ok c t\<close> run, of OpShutdown s'] t(2) by (cases close) simp_all
  ultimately have "http_same s s'" by (simp add: http_same_def)
  then show ?thesis
    using s' unfolding say_exec by (intro exI [of _ s']) (simp add: say_def)
qed

lemma out_ok_cong:
  assumes "out_ok c d s" and "chans s' = chans s" "w_loops s' = w_loops s" "w_tid s' = w_tid s" "sk_trace s' = sk_trace s"
    and "cw_conns s' c = set_input b (cw_conns s c)" and "buf_ok b"
  shows "out_ok c d s'"
proof -
  have "registered (cn_channel (cw_conns s c)) s'"
    using assms(1) by (intro registered_cong [OF conn_okD(1)]) (auto simp: out_ok_def assms(2-4))
  then show ?thesis using assms
    by (simp add: out_ok_def conn_ok_def Let_def down_def unsent_def)
qed

text \<open>What the server answers, and what one turn of the parser makes it do: \<open>reply\<close>, with \<open>leaves\<close> telling
  whether it shuts the connection down.\<close>

definition answer :: "http_callback \<Rightarrow> http_request \<Rightarrow> http_response" where
  "answer cb req = cb req (response_new (wants_close req))"

definition reply :: "http_callback \<Rightarrow> bool \<Rightarrow> http_context \<Rightarrow> string" where
  "reply cb ok ctx = (if \<not> ok then bad_request else if gotAll ctx then response_text (answer cb (hc_request ctx)) else [])"

definition leaves :: "http_callback \<Rightarrow> bool \<Rightarrow> http_context \<Rightarrow> bool" where
  "leaves cb ok ctx \<longleftrightarrow> \<not> ok \<or> gotAll ctx \<and> rs_closeConnection (answer cb (hc_request ctx))"

definition answer_fits :: "http_callback \<Rightarrow> http_request \<Rightarrow> bool" where
  "answer_fits cb req \<longleftrightarrow> length (rs_body (answer cb req)) < 10 ^ 13 \<and> length (response_text (answer cb req)) \<le> room buffer_init"

lemma onRequest_eq:
  assumes "answer_fits (hs_httpCallback (hw_servers s h)) req"
  defines "resp \<equiv> answer (hs_httpCallback (hw_servers s h)) req"
  shows "http_onRequest K E h c req s
    = bnd (conn_send K E c (response_text resp) s) (\<lambda>s. if rs_closeConnection resp then conn_shutdown E c s else Inr s)"
proof -
  obtain b where b: "appendTobuffer resp buffer_init = Inr b" "buf_ok b" "contents b = response_text resp"
    using appendTobuffer_ok [of resp buffer_init] assms buf_ok_init contents_init by (auto simp: answer_fits_def)
  have send: "conn_send_buffer K E c b s = bnd (conn_send K E c (response_text resp) s) (\<lambda>s. Inr (retrieveAll b, s))"
    by (simp only: conn_send_buffer_def read_peek [OF b(2)] bnd_Inr Let_def b(3))
  have "http_onRequest K E h c req s = bnd (bnd (conn_send K E c (response_text resp) s) (\<lambda>s. Inr (retrieveAll b, s)))
      (\<lambda>(buf, s). if rs_closeConnection resp then conn_shutdown E c s else Inr s)"
    unfolding http_onRequest_def Let_def buffer_new_eq bnd_Inr resp_def [unfolded answer_def, symmetric] b(1) send
      closeConnection_def ..
  then show ?thesis by (cases "conn_send K E c (response_text resp) s") simp_all
qed

lemma parse_str_refused:
  assumes "expecting c" and "parse_str t c s = (False, c', s')"
  shows "hc_state c' = kExpectRequestLine"
  using assms
proof (induction t c s rule: parse_str.induct)
  case (1 t c s)
  from "1.prems"(1) consider (line) "hc_state c = kExpectRequestLine" | (head) "hc_state c = kExpectRequestHead"
    by (auto simp: expecting_def)
  then show ?case
  proof cases
    case line
    with "1.prems"(2) obtain l rest where sp: "split_line s = Some (l, rest)"
      by (auto simp: parse_str_line split: option.splits)
    obtain ok r where pl: "processRequestLine l (hc_request c) = (ok, r)" by force
    show ?thesis
      using "1.IH"(1) [OF line sp refl pl [symmetric]] "1.prems"(2) line
      by (cases ok) (auto simp: parse_str_line sp pl expecting_def)
  next
    case head
    with "1.prems"(2) obtain l rest where sp: "split_line s = Some (l, rest)"
      by (auto simp: parse_str_head split: option.splits)
    show ?thesis
      using "1.IH"(2) [OF head sp refl] "1.prems"(2) head
      by (cases "find_char (CHR '':'') l = length l") (simp_all add: parse_str_head sp expecting_def)
  qed
qed

lemma context_reset_init: "context_reset ctx = context_init"
  by (simp add: context_reset_def context_init_def request_swap_swap)

lemma getContext_some: "hw_contexts s c = Some ctx \<Longrightarrow> getContext c s = (ctx, s)"
  by (simp add: getContext_def auto_context_def Let_def upd_context_def fun_upd_idem)

text \<open>A turn of \<open>onMessage\<close>: the parse, then the answer of a complete request or the refusal of a bad one.\<close>

lemma onMessage_parsed:
  assumes ok: "out_ok c d s" and ex: "expecting (auto_context (hw_contexts s c))"
    and p: "parse_str t (auto_context (hw_contexts s c)) (contents (cn_inputBuffer (cw_conns s c))) = (good, ctx, rest)"
  shows "\<exists>s1 b. out_ok c d s1 \<and> cw_conns s1 c = set_input b (cw_conns s c) \<and> contents b = rest \<and> hw_contexts s1 c = Some ctx
    \<and> hw_servers s1 = hw_servers s \<and> sent c s1 = sent c s \<and> unsent c s1 = unsent c s
    \<and> http_onMessage K E h c t s = Some (bnd
        (if \<not> good then bnd (conn_send K E c bad_request s1) (conn_shutdown E c) else Inr s1) (\<lambda>s.
        case getContext c s of (context, s) \<Rightarrow>
        if gotAll context then
          bnd (http_onRequest K E h c (hc_request context) s) (\<lambda>s.
          case getContext c s of (context, s) \<Rightarrow> Inr (upd_context c (Some (context_reset context)) s))
        else Inr s))"
proof -
  let ?ctx = "auto_context (hw_contexts s c)"
  have c: "conn_ok c s" using ok by (simp add: out_ok_def)
  from parseRequest_ok [OF conn_okD(4) [OF c] ex p] obtain b where
    b: "parseRequest t ?ctx (cn_inputBuffer (cw_conns s c)) = Some (Inr (good, ctx, b))" "buf_ok b" "contents b = rest" by blast
  let ?s = "upd_conn c (\<lambda>cn. cn\<lparr>cn_inputBuffer := b\<rparr>) (upd_context c (Some ctx) (upd_context c (Some ?ctx) s))"
  have v: "cw_conns ?s c = set_input b (cw_conns s c)" "hw_contexts ?s c = Some ctx" "hw_servers ?s = hw_servers s"
    by (simp_all add: loop_simps set_input_def)
  have "out_ok c d ?s" by (rule out_ok_cong [OF ok _ _ _ _ v(1) b(2)]) (simp_all add: loop_simps)
  moreover have "sent c ?s = sent c s" "unsent c ?s = unsent c s" by (simp_all add: sent_def unsent_def v(1) loop_simps)
  moreover have "http_onMessage K E h c t s = Some (bnd
      (if \<not> good then bnd (conn_send K E c bad_request ?s) (conn_shutdown E c) else Inr ?s) (\<lambda>s.
      case getContext c s of (context, s) \<Rightarrow>
      if gotAll context then
        bnd (http_onRequest K E h c (hc_request context) s) (\<lambda>s.
        case getContext c s of (context, s) \<Rightarrow> Inr (upd_context c (Some (context_reset context)) s))
      else Inr s))"
    unfolding http_onMessage_def by (simp add: getContext_def Let_def loop_simps b(1))
  ultimately show ?thesis using v b(3) by (intro exI [of _ ?s] exI [of _ b]) simp
qed

lemma onMessage_answers:
  assumes ok: "out_ok c d s" and doc: "write_documented K"
    and run: "run_closure E (ShutdownInloop c) = shutdownInloop K c"
    and ctx: "hw_contexts s c = Some ctx" and afits: "answer_fits (hs_httpCallback (hw_servers s h)) (hc_request ctx)"
  defines "resp \<equiv> answer (hs_httpCallback (hw_servers s h)) (hc_request ctx)"
  assumes fits: "length (response_text resp) \<le> room (cn_outputBuffer (cw_conns s c))"
  shows "\<exists>s'. bnd (http_onRequest K E h c (hc_request ctx) s) (\<lambda>s.
        case getContext c s of (context, s) \<Rightarrow> Inr (upd_context c (Some (context_reset context)) s)) = Inr s'
    \<and> out_ok c d s' \<and> cn_inputBuffer (cw_conns s' c) = cn_inputBuffer (cw_conns s c) \<and> hw_contexts s' c = Some context_init
    \<and> sent c s' @ unsent c s' = sent c s @ unsent c s @ (if cn_state (cw_conns s c) = kConnected then response_text resp else [])
    \<and> (cn_state (cw_conns s' c) = kConnected \<longleftrightarrow> cn_state (cw_conns s c) = kConnected \<and> \<not> rs_closeConnection resp)"
proof -
  note on = onRequest_eq [OF afits, folded resp_def]
  from say_effect [OF ok doc run fits, of "rs_closeConnection resp"] obtain s1 where
    s1: "http_onRequest K E h c (hc_request ctx) s = Inr s1" "out_ok c d s1" "http_same s s1"
      "sent c s1 @ unsent c s1 = sent c s @ unsent c s @ (if cn_state (cw_conns s c) = kConnected then response_text resp else [])"
      "cn_state (cw_conns s1 c) = kConnected \<longleftrightarrow> cn_state (cw_conns s c) = kConnected \<and> \<not> rs_closeConnection resp"
    unfolding on by blast
  have ctx1: "hw_contexts s1 c = Some ctx" and inp: "cn_inputBuffer (cw_conns s1 c) = cn_inputBuffer (cw_conns s c)"
    using s1(3) ctx by (simp_all add: http_same_def)
  let ?s' = "upd_context c (Some context_init) s1"
  have "bnd (http_onRequest K E h c (hc_request ctx) s) (\<lambda>s.
      case getContext c s of (context, s) \<Rightarrow> Inr (upd_context c (Some (context_reset context)) s)) = Inr ?s'"
    by (simp only: prod.case s1(1) bnd_Inr getContext_some [OF ctx1] context_reset_init)
  moreover have "out_ok c d ?s'"
    by (rule out_ok_cong [OF s1(2), where b = "cn_inputBuffer (cw_conns s1 c)"])
      (use s1(2) in \<open>simp_all add: loop_simps set_input_def out_ok_def conn_okD(4)\<close>)
  moreover have "sent c ?s' = sent c s1" "unsent c ?s' = unsent c s1" "cw_conns ?s' = cw_conns s1"
    by (simp_all add: sent_def unsent_def loop_simps)
  ultimately show ?thesis using s1(4,5) inp by (intro exI [of _ ?s']) (simp add: upd_context_sel)
qed

lemma onMessage_refuses:
  assumes ok: "out_ok c d s" and doc: "write_documented K"
    and run: "run_closure E (ShutdownInloop c) = shutdownInloop K c"
    and ctx: "hw_contexts s c = Some ctx" "\<not> gotAll ctx" and fits: "length bad_request \<le> room (cn_outputBuffer (cw_conns s c))"
  shows "\<exists>s'. bnd (bnd (conn_send K E c bad_request s) (conn_shutdown E c)) (\<lambda>s.
        case getContext c s of (context, s) \<Rightarrow>
        if gotAll context then
          bnd (http_onRequest K E h c (hc_request context) s) (\<lambda>s.
          case getContext c s of (context, s) \<Rightarrow> Inr (upd_context c (Some (context_reset context)) s))
        else Inr s) = Inr s'
    \<and> out_ok c d s' \<and> cn_inputBuffer (cw_conns s' c) = cn_inputBuffer (cw_conns s c) \<and> hw_contexts s' c = Some ctx
    \<and> sent c s' @ unsent c s' = sent c s @ unsent c s @ (if cn_state (cw_conns s c) = kConnected then bad_request else [])
    \<and> cn_state (cw_conns s' c) \<noteq> kConnected"
proof -
  from say_effect [OF ok doc run fits, of True] obtain s1 where
    s1: "bnd (conn_send K E c bad_request s) (conn_shutdown E c) = Inr s1" "out_ok c d s1" "http_same s s1"
      "sent c s1 @ unsent c s1 = sent c s @ unsent c s @ (if cn_state (cw_conns s c) = kConnected then bad_request else [])"
      "cn_state (cw_conns s1 c) \<noteq> kConnected" by auto
  have ctx1: "hw_contexts s1 c = Some ctx" and inp: "cn_inputBuffer (cw_conns s1 c) = cn_inputBuffer (cw_conns s c)"
    using s1(3) ctx(1) by (simp_all add: http_same_def)
  show ?thesis
    using s1(2,4,5) ctx1 inp ctx(2) by (intro exI [of _ s1]) (simp add: s1(1) getContext_some [OF ctx1])
qed

lemma onMessage_effect:
  assumes ok: "out_ok c d s" and doc: "write_documented K"
    and run: "run_closure E (ShutdownInloop c) = shutdownInloop K c"
    and ex: "expecting (auto_context (hw_contexts s c))"
    and p: "parse_str t (auto_context (hw_contexts s c)) (contents (cn_inputBuffer (cw_conns s c))) = (good, ctx, rest)"
    and fits: "length (reply (hs_httpCallback (hw_servers s h)) good ctx) \<le> room (cn_outputBuffer (cw_conns s c))"
    and afits: "good \<and> gotAll ctx \<longrightarrow> answer_fits (hs_httpCallback (hw_servers s h)) (hc_request ctx)"
  defines "cb \<equiv> hs_httpCallback (hw_servers s h)"
  defines "next \<equiv> if good \<and> gotAll ctx then context_init else ctx"
  shows "\<exists>s'. http_onMessage K E h c t s = Some (Inr s') \<and> out_ok c d s'
    \<and> contents (cn_inputBuffer (cw_conns s' c)) = rest \<and> hw_contexts s' c = Some next \<and> expecting next
    \<and> sent c s' @ unsent c s' = sent c s @ unsent c s @ (if cn_state (cw_conns s c) = kConnected then reply cb good ctx else [])
    \<and> (cn_state (cw_conns s' c) = kConnected \<longleftrightarrow> cn_state (cw_conns s c) = kConnected \<and> \<not> leaves cb good ctx)"
proof -
  from onMessage_parsed [OF ok ex p, of K E h] obtain s1 b where
    s1: "out_ok c d s1" "cw_conns s1 c = set_input b (cw_conns s c)" "contents b = rest" "hw_contexts s1 c = Some ctx"
      "hw_servers s1 = hw_servers s" "sent c s1 = sent c s" "unsent c s1 = unsent c s" and
    start: "http_onMessage K E h c t s = Some (bnd
        (if \<not> good then bnd (conn_send K E c bad_request s1) (conn_shutdown E c) else Inr s1) (\<lambda>s.
        case getContext c s of (context, s) \<Rightarrow>
        if gotAll context then
          bnd (http_onRequest K E h c (hc_request context) s) (\<lambda>s.
          case getContext c s of (context, s) \<Rightarrow> Inr (upd_context c (Some (context_reset context)) s))
        else Inr s))" by blast
  have v: "cn_state (cw_conns s1 c) = cn_state (cw_conns s c)" "cn_inputBuffer (cw_conns s1 c) = b" by (simp_all add: s1(2))
  have room: "length (reply cb good ctx) \<le> room (cn_outputBuffer (cw_conns s1 c))" using fits by (simp add: cb_def s1(2))
  consider (got) "good" "gotAll ctx" | (waits) "good" "\<not> gotAll ctx" | (bad) "\<not> good" by blast
  then show ?thesis
  proof cases
    case got
    then have r: "reply cb good ctx = response_text (answer cb (hc_request ctx))"
      "leaves cb good ctx = rs_closeConnection (answer cb (hc_request ctx))" by (simp_all add: reply_def leaves_def)
    have "answer_fits (hs_httpCallback (hw_servers s1 h)) (hc_request ctx)" using afits got by (simp add: s1(5))
    from onMessage_answers [OF s1(1) doc run s1(4) this] room obtain s' where
      s': "bnd (http_onRequest K E h c (hc_request ctx) s1) (\<lambda>s.
          case getContext c s of (context, s) \<Rightarrow> Inr (upd_context c (Some (context_reset context)) s)) = Inr s'"
        "out_ok c d s'" "cn_inputBuffer (cw_conns s' c) = b" "hw_contexts s' c = Some context_init"
        "sent c s' @ unsent c s' = sent c s @ unsent c s @ (if cn_state (cw_conns s c) = kConnected then reply cb good ctx else [])"
        "cn_state (cw_conns s' c) = kConnected \<longleftrightarrow> cn_state (cw_conns s c) = kConnected \<and> \<not> leaves cb good ctx"
      unfolding cb_def r [unfolded cb_def] v s1(5-7) by blast
    have "http_onMessage K E h c t s = Some (Inr s')" using got s'(1) by (simp add: start getContext_some [OF s1(4)])
    then show ?thesis
      using got s'(2-6) s1(3) by (intro exI [of _ s']) (simp add: next_def expecting_def context_init_def)
  next
    case waits
    then have "http_onMessage K E h c t s = Some (Inr s1)" by (simp add: start getContext_some [OF s1(4)])
    moreover have "expecting ctx" using parse_str_state [OF ex p] waits by simp
    ultimately show ?thesis
      using waits s1 v by (intro exI [of _ s1]) (simp add: next_def reply_def leaves_def)
  next
    case bad
    then have "hc_state ctx = kExpectRequestLine" using parse_str_refused [OF ex] p by simp
    then have no: "\<not> gotAll ctx" "expecting ctx" by (simp_all add: gotAll_def expecting_def)
    have r: "reply cb good ctx = bad_request" "leaves cb good ctx" using bad by (simp_all add: reply_def leaves_def)
    from onMessage_refuses [OF s1(1) doc run s1(4) no(1) room [unfolded r], of h] obtain s' where
      s': "http_onMessage K E h c t s = Some (Inr s')" "out_ok c d s'" "cn_inputBuffer (cw_conns s' c) = b"
        "hw_contexts s' c = Some ctx" "cn_state (cw_conns s' c) \<noteq> kConnected"
        "sent c s' @ unsent c s' = sent c s @ unsent c s @ (if cn_state (cw_conns s c) = kConnected then bad_request else [])"
      unfolding start v s1(6,7) using bad by auto
    then show ?thesis using bad no r s1(3) by (intro exI [of _ s']) (simp add: next_def)
  qed
qed

section \<open>Properties\<close>

text \<open>A whole HTTP request that arrives on an idle connection is answered. When the bytes a read event
  delivers complete the text of a request in the input of a connected connection, \<open>handleRead\<close> parses
  it, gives it to the user's callback with a response that is to close the connection exactly if the
  request asks for it (\<open>Connection: close\<close>, or version 1.0 without \<open>Connection: Keep-Alive\<close>), and sends
  the serialised response and nothing else; the bytes behind the request stay in the input, the context
  is ready for the next request, and the connection is shut down exactly if the response says so.\<close>

theorem http_serves:
  fixes s :: "'z http_world_scheme"
  assumes "conn_ok c s" and "cn_state (cw_conns s c) = kConnected" and "unsent c s = []"
    and "write_documented K" and "readv_documented K"
    and "run_closure E (ShutdownInloop c) = shutdownInloop K c" and "cn_messageCallBack (cw_conns s c) = Some h"
    and "\<forall>s r. http_onMessage K E h c t s = Some r \<longrightarrow> on_message E h c t s = r"
    and "auto_context (hw_contexts s c) = context_init"
    and "m \<noteq> kInvaild" and "v \<noteq> kUnknow" and "target_ok path query" and "\<forall>h\<in>set hs. header_ok h"
    and "a = K (sk_trace s) (SysReadv (cn_fd (cw_conns s c)) (writableBytes (cn_inputBuffer (cw_conns s c)) + extraBuf_size))"
    and "0 < an_ret a"
    and "contents (cn_inputBuffer (cw_conns s c)) @ an_data a = render_request m path query v hs @ rest"
    and "length (store (cn_inputBuffer (cw_conns s c))) + length (an_data a) \<le> size_max"
    and "req = parsed_request t m path query v hs"
    and "resp = hs_httpCallback (hw_servers s h) req (response_new (
           map_of (rev hs) ''Connection'' = Some ''close''
           \<or> v = kHttp10 \<and> map_of (rev hs) ''Connection'' \<noteq> Some ''Keep-Alive''))"
    and "length (rs_body resp) < 10 ^ 13" and "length (response_text resp) \<le> room buffer_init"
    and "length (response_text resp) \<le> room (cn_outputBuffer (cw_conns s c))"
  shows "\<exists>s'. conn_handleRead K E c t s = Inr s' \<and> conn_ok c s'
    \<and> sent c s' @ unsent c s' = sent c s @ response_text resp
    \<and> contents (cn_inputBuffer (cw_conns s' c)) = rest \<and> hw_contexts s' c = Some context_init
    \<and> (cn_state (cw_conns s' c) = kConnected \<longleftrightarrow> \<not> rs_closeConnection resp)
    \<and> down c s' = down c s + (if rs_closeConnection resp \<and> unsent c s' = [] then 1 else 0)"
proof -
  let ?call = "SysReadv (cn_fd (cw_conns s c)) (writableBytes (cn_inputBuffer (cw_conns s c)) + extraBuf_size)"
  have "length (store (cn_inputBuffer (cw_conns s c))) + length (an_data (K (sk_trace s) ?call)) \<le> size_max"
    using assms(14,17) by simp
  from handleRead_start [OF conn_ok_registered [OF assms(1)] conn_okD(4) [OF assms(1)] assms(5) this, of E t] obtain b where
    b: "buf_ok b" "contents b = render_request m path query v hs @ rest"
      "conn_handleRead K E c t s = on_message E h c t (upd_conn c (set_input b) (snd (syscall K ?call s)))"
    using assms(7,14-16) by (auto simp: call_any_def Let_def)
  obtain s0 where s0: "s0 = upd_conn c (set_input b) (snd (syscall K ?call s))" by blast
  have v0: "cw_conns s0 c = set_input b (cw_conns s c)" "hw_contexts s0 c = hw_contexts s c" "hw_servers s0 = hw_servers s"
    "sent c s0 = sent c s" "unsent c s0 = []" "down c s0 = down c s"
    using assms(3)
    by (simp_all add: s0 loop_simps sent_def unsent_def down_def written_snoc shutdowns_snoc)
  have ok0: "out_ok c (down c s) s0"
    using conn_ok_input [OF conn_ok_syscall [OF assms(1)] b(1)] assms(2) v0(1,6) by (simp add: out_ok_def s0)
  let ?ctx = "\<lparr>hc_state = kGotAll, hc_request = req\<rparr>"
  have ex: "expecting (auto_context (hw_contexts s0 c))" by (simp add: v0(2) assms(9) expecting_def context_init_def)
  have p: "parse_str t (auto_context (hw_contexts s0 c)) (contents (cn_inputBuffer (cw_conns s0 c))) = (True, ?ctx, rest)"
    using render_parsed [OF assms(10-13)] by (simp add: v0(1,2) assms(9,18) b(2))
  have resp: "answer (hs_httpCallback (hw_servers s0 h)) req = resp"
    by (simp add: answer_def wants_close_def Let_def assms(18,19) getHeader_parsed v0(3))
      (auto simp: parsed_request_def split: option.splits intro!: arg_cong [of _ _ response_new] arg_cong2 [of _ _ _ _ "hs_httpCallback (hw_servers s h)"])
  have r: "gotAll ?ctx" "reply (hs_httpCallback (hw_servers s0 h)) True ?ctx = response_text resp"
    "leaves (hs_httpCallback (hw_servers s0 h)) True ?ctx = rs_closeConnection resp"
    by (simp_all add: gotAll_def reply_def leaves_def resp)
  have afits: "answer_fits (hs_httpCallback (hw_servers s0 h)) (hc_request ?ctx)"
    using assms(20,21) by (simp add: answer_fits_def resp)
  have fits: "length (reply (hs_httpCallback (hw_servers s0 h)) True ?ctx) \<le> room (cn_outputBuffer (cw_conns s0 c))"
    using assms(22) by (simp add: r(2) v0(1))
  from onMessage_effect [OF ok0 assms(4,6) ex p fits] afits r obtain s' where
    s': "http_onMessage K E h c t s0 = Some (Inr s')" "out_ok c (down c s) s'"
      "contents (cn_inputBuffer (cw_conns s' c)) = rest" "hw_contexts s' c = Some context_init"
      "sent c s' @ unsent c s' = sent c s @ response_text resp"
      "cn_state (cw_conns s' c) = kConnected \<longleftrightarrow> \<not> rs_closeConnection resp"
    using assms(2) by (auto simp: v0)
  have "conn_handleRead K E c t s = Inr s'" using assms(8) s'(1) by (simp add: b(3) s0 [symmetric])
  then show ?thesis using s' by (intro exI [of _ s']) (auto simp: out_ok_def)
qed

text \<open>C24. A request line the parser refuses is answered once, with 400, and closes the connection: the
  server sends the fixed text, shuts the connection down behind it and stays where it was in the
  input, so that whatever arrives later, the same line is refused again and nothing more is sent.\<close>

theorem http_refuses:
  fixes s :: "'z http_world_scheme"
  assumes "out_ok c d s" and "write_documented K" and "run_closure E (ShutdownInloop c) = shutdownInloop K c"
    and "hc_state (auto_context (hw_contexts s c)) = kExpectRequestLine"
    and "split_line (contents (cn_inputBuffer (cw_conns s c))) = Some (line, beyond)"
    and "processRequestLine line (hc_request (auto_context (hw_contexts s c))) = (False, req)"
    and "length bad_request \<le> room (cn_outputBuffer (cw_conns s c))"
  shows "\<exists>s'. http_onMessage K E h c t s = Some (Inr s') \<and> out_ok c d s'
    \<and> sent c s' @ unsent c s' = sent c s @ unsent c s @ (if cn_state (cw_conns s c) = kConnected then bad_request else [])
    \<and> cn_state (cw_conns s' c) = kDisconnecting
    \<and> contents (cn_inputBuffer (cw_conns s' c)) = contents (cn_inputBuffer (cw_conns s c))
    \<and> processRequestLine line (hc_request (auto_context (hw_contexts s' c))) = (False, req)
    \<and> hc_state (auto_context (hw_contexts s' c)) = kExpectRequestLine"
proof -
  let ?ctx = "(auto_context (hw_contexts s c))\<lparr>hc_request := req\<rparr>"
  have ex: "expecting (auto_context (hw_contexts s c))" using assms(4) by (simp add: expecting_def)
  have p: "parse_str t (auto_context (hw_contexts s c)) (contents (cn_inputBuffer (cw_conns s c)))
      = (False, ?ctx, contents (cn_inputBuffer (cw_conns s c)))"
    using assms(4-6) by (simp add: parse_str_line)
  have "length (reply (hs_httpCallback (hw_servers s h)) False ?ctx) \<le> room (cn_outputBuffer (cw_conns s c))"
    using assms(7) by (simp add: reply_def)
  from onMessage_effect [OF assms(1-3) ex p this] obtain s' where
    s': "http_onMessage K E h c t s = Some (Inr s')" "out_ok c d s'"
      "contents (cn_inputBuffer (cw_conns s' c)) = contents (cn_inputBuffer (cw_conns s c))" "hw_contexts s' c = Some ?ctx"
      "sent c s' @ unsent c s' = sent c s @ unsent c s @ (if cn_state (cw_conns s c) = kConnected then bad_request else [])"
      "cn_state (cw_conns s' c) \<noteq> kConnected" by (auto simp: reply_def leaves_def)
  have ctx: "auto_context (hw_contexts s' c) = ?ctx" by (simp add: s'(4))
  have "cn_state (cw_conns s' c) = kDisconnecting" using s'(2,6) by (auto simp: out_ok_def)
  with s' processRequestLine_again [OF assms(6)] show ?thesis
    by (intro exI [of _ s']) (simp add: ctx assms(4))
qed

text \<open>C17. \<open>onMessage\<close> always returns. On an open connection whose context expects a line or a header, whatever
  bytes are in its input, the parser's loop ends, no step fails, the server sends what \<open>reply\<close> names, and
  the context afterwards expects a line or a header again, so that no later message can meet the states
  in which the parser loops for ever.\<close>

theorem http_onMessage_returns:
  fixes s :: "'z http_world_scheme"
  assumes "out_ok c d s" and "write_documented K" and "run_closure E (ShutdownInloop c) = shutdownInloop K c"
    and "expecting (auto_context (hw_contexts s c))"
    and "\<forall>req. answer_fits (hs_httpCallback (hw_servers s h)) req
          \<and> length (response_text (answer (hs_httpCallback (hw_servers s h)) req)) \<le> room (cn_outputBuffer (cw_conns s c))"
    and "length bad_request \<le> room (cn_outputBuffer (cw_conns s c))"
  shows "\<exists>s' good ctx. http_onMessage K E h c t s = Some (Inr s') \<and> out_ok c d s'
    \<and> expecting (auto_context (hw_contexts s' c))
    \<and> parse_str t (auto_context (hw_contexts s c)) (contents (cn_inputBuffer (cw_conns s c)))
        = (good, ctx, contents (cn_inputBuffer (cw_conns s' c)))
    \<and> sent c s' @ unsent c s' = sent c s @ unsent c s
        @ (if cn_state (cw_conns s c) = kConnected then reply (hs_httpCallback (hw_servers s h)) good ctx else [])"
proof -
  obtain good ctx rest where
    p: "parse_str t (auto_context (hw_contexts s c)) (contents (cn_inputBuffer (cw_conns s c))) = (good, ctx, rest)"
    by (metis prod_cases3)
  have fits: "length (reply (hs_httpCallback (hw_servers s h)) good ctx) \<le> room (cn_outputBuffer (cw_conns s c))"
    using assms(5,6) by (simp add: reply_def)
  have afits: "good \<and> gotAll ctx \<longrightarrow> answer_fits (hs_httpCallback (hw_servers s h)) (hc_request ctx)" using assms(5) by simp
  from onMessage_effect [OF assms(1-4) p fits afits] obtain s' where
    "http_onMessage K E h c t s = Some (Inr s')" "out_ok c d s'" "contents (cn_inputBuffer (cw_conns s' c)) = rest"
    "expecting (auto_context (hw_contexts s' c))"
    "sent c s' @ unsent c s' = sent c s @ unsent c s
        @ (if cn_state (cw_conns s c) = kConnected then reply (hs_httpCallback (hw_servers s h)) good ctx else [])"
    by (auto simp: auto_context_def)
  with p show ?thesis by blast
qed

section \<open>Witnesses\<close>

text \<open>A connected connection with no context, a server with the default callback, and a kernel that delivers
  a request and takes three bytes at a time.\<close>

definition sample_input :: "string \<Rightarrow> conn_world" where
  "sample_input input = upd_conn 1 (set_input (buffer_of input)) (sample_conns True kConnected)"

definition sample_http :: "string \<Rightarrow> http_world" where
  "sample_http input = server_world.extend (acceptor_world.extend (conn_world.extend (sample_input input)
       (acceptor_world.fields (\<lambda>_. undefined))) (server_world.fields (\<lambda>_. undefined)))
     (http_world.fields (\<lambda>_. None) (\<lambda>_. \<lparr>hs_server = 0, hs_httpCallback = defaultHttpCallback\<rparr>))"

lemma sample_http_sel [simp]:
  "cw_conns (sample_http i) (Suc 0) = set_input (buffer_of i) (sample_connection kConnected)" "sk_trace (sample_http i) = []"
  "hw_contexts (sample_http i) c = None" "hw_servers (sample_http i) h = \<lparr>hs_server = 0, hs_httpCallback = defaultHttpCallback\<rparr>"
  by (simp_all add: sample_http_def http_world.defs server_world.defs acceptor_world.defs conn_world.defs sample_input_def
      loop_simps)

lemma sample_http_state:
  "cn_state (cw_conns (sample_http i) 1) = kConnected" "unsent 1 (sample_http i) = []"
  "cn_messageCallBack (cw_conns (sample_http i) 1) = Some 2" "auto_context (hw_contexts (sample_http i) 1) = context_init"
  "sent 1 (sample_http i) = []" "down 1 (sample_http i) = 0"
  by (simp_all add: unsent_def contents_init auto_context_def sent_def written_def down_def shutdowns_def)

lemma sample_http_ok: "length i < 1000 \<Longrightarrow> conn_ok 1 (sample_http i)"
proof -
  assume i: "length i < 1000"
  have "chans (sample_http i) = chans (sample_input i)" "w_loops (sample_http i) = w_loops (sample_input i)"
    "w_tid (sample_http i) = w_tid (sample_input i)" "cw_conns (sample_http i) = cw_conns (sample_input i)"
    by (simp_all add: sample_http_def http_world.defs server_world.defs acceptor_world.defs conn_world.defs)
  then have "conn_ok 1 (sample_http i) = conn_ok 1 (sample_input i)"
    by (simp add: conn_ok_def Let_def registered_def isInLoopThread_def)
  moreover have "conn_ok 1 (sample_input i)"
    unfolding sample_input_def by (rule conn_ok_input [OF sample_conn_ok buffer_of_ok(1) [OF i]])
  ultimately show ?thesis by simp
qed

definition delivers :: "string \<Rightarrow> kernel" where
  "delivers bytes tr call = (case call of
       SysReadv fd n \<Rightarrow> \<lparr>an_ret = int (length (take n bytes)), an_errno = 0, an_val = 0, an_addr = address_zero, an_data = take n bytes\<rparr>
     | _ \<Rightarrow> three_bytes tr call)"

definition http_env :: "kernel \<Rightarrow> http_world env" where
  "http_env K = (let E = \<lparr>run_closure = (\<lambda>cl. case cl of ShutdownInloop c \<Rightarrow> shutdownInloop K c | _ \<Rightarrow> Inr),
       on_connection = (\<lambda>_ _. Inr), on_message = (\<lambda>_ _ _. Inr), on_close = (\<lambda>_ _. Inr)\<rparr>
     in E\<lparr>on_message := (\<lambda>h c t s. case http_onMessage K E h c t s of None \<Rightarrow> Inr s | Some r \<Rightarrow> r)\<rparr>)"

lemma http_onMessage_cong:
  assumes "run_closure E = run_closure E'"
  shows "http_onMessage K E = http_onMessage K E'"
proof -
  have send: "conn_send K E = conn_send K E'" and down: "conn_shutdown E = conn_shutdown E'"
    by (simp_all add: fun_eq_iff conn_send_def conn_shutdown_def Let_def assms)
  have "conn_send_buffer K E = conn_send_buffer K E'" by (intro ext) (simp only: conn_send_buffer_def send)
  then have req: "http_onRequest K E = http_onRequest K E'" by (intro ext) (simp only: http_onRequest_def down)
  show ?thesis by (intro ext) (simp only: http_onMessage_def send down req)
qed

lemma http_env_ok:
  "run_closure (http_env K) (ShutdownInloop c) = shutdownInloop K c"
  "http_onMessage K (http_env K) h c t s = Some r \<Longrightarrow> on_message (http_env K) h c t s = r"
proof -
  show "run_closure (http_env K) (ShutdownInloop c) = shutdownInloop K c" by (simp add: http_env_def Let_def)
  let ?E = "\<lparr>run_closure = (\<lambda>cl. case cl of ShutdownInloop c \<Rightarrow> shutdownInloop K c | _ \<Rightarrow> Inr),
       on_connection = (\<lambda>_ _. Inr), on_message = (\<lambda>_ _ _. Inr), on_close = (\<lambda>_ _. Inr)\<rparr>"
  have "http_onMessage K (http_env K) = http_onMessage K ?E"
    by (rule http_onMessage_cong) (simp add: http_env_def Let_def)
  then show "http_onMessage K (http_env K) h c t s = Some r \<Longrightarrow> on_message (http_env K) h c t s = r"
    by (simp add: http_env_def Let_def)
qed

lemma delivers_documented: "write_documented (delivers bytes)" "readv_documented (delivers bytes)"
  by (auto simp: write_documented_def readv_documented_def delivers_def three_bytes_def)

lemma default_answer: "answer defaultHttpCallback req =
    \<lparr>rs_headers = [], rs_statusCode = k404NotFound, rs_statusMessage = ''Not Found'', rs_closeConnection = True, rs_body = []\<rparr>"
  by (simp add: answer_def defaultHttpCallback_def setCloseConnection_def setStatusMessage_def setStatusCode_def response_new_def)

lemma default_text: "response_text (answer defaultHttpCallback req)
    = ''HTTP/1.1 404 Not Found'' @ kCRLF @ ''Connection: close'' @ kCRLF @ kCRLF"
  by (simp add: default_answer response_text_def head_lines_def status_line_def framing_lines_def dec.simps)

text \<open>A request of version 1.0 whose first line is in the input arrives; the connection is shut down.\<close>

lemma http_serves_witness:
  "\<exists>s'. conn_handleRead (delivers kCRLF) (http_env (delivers kCRLF)) 1 7 (sample_http (''GET / HTTP/1.0'' @ kCRLF)) = Inr s'
    \<and> sent 1 s' @ unsent 1 s' = ''HTTP/1.1 404 Not Found'' @ kCRLF @ ''Connection: close'' @ kCRLF @ kCRLF
    \<and> cn_state (cw_conns s' 1) \<noteq> kConnected \<and> contents (cn_inputBuffer (cw_conns s' 1)) = []"
proof -
  let ?i = "''GET / HTTP/1.0'' @ kCRLF" and ?K = "delivers kCRLF"
  let ?s = "sample_http ?i"
  have i: "length ?i < 1000" by (simp add: kCRLF_def)
  note b = buffer_of_ok [OF i]
  note v = sample_http_state [of ?i]
  have e: "\<forall>s r. http_onMessage ?K (http_env ?K) 2 1 7 s = Some r \<longrightarrow> on_message (http_env ?K) 2 1 7 s = r"
    using http_env_ok(2) by blast
  let ?a = "?K (sk_trace ?s) (SysReadv (cn_fd (cw_conns ?s 1)) (writableBytes (cn_inputBuffer (cw_conns ?s 1)) + extraBuf_size))"
  have d: "an_data ?a = kCRLF" "an_ret ?a = 2" by (simp_all add: delivers_def extraBuf_size_def kCRLF_def)
  have ret: "0 < an_ret ?a" unfolding d(2) by simp
  have t: "target_ok ''/'' []" and h: "\<forall>h\<in>set []. header_ok h" by (simp_all add: target_ok_def)
  have inp: "cn_inputBuffer (cw_conns ?s 1) = buffer_of ?i" by simp
  have c: "contents (cn_inputBuffer (cw_conns ?s 1)) @ an_data ?a = render_request kGet ''/'' [] kHttp10 [] @ []"
    unfolding d(1) unfolding inp b(2) by (simp add: render_request_def request_line_def)
  have len: "length (store (cn_inputBuffer (cw_conns ?s 1))) + length (an_data ?a) \<le> size_max"
    unfolding d(1) unfolding inp by (simp add: buffer_of_def kCheapPrepared_def kCRLF_def)
  let ?req = "parsed_request 7 kGet ''/'' [] kHttp10 []"
  let ?resp = "hs_httpCallback (hw_servers ?s 2) ?req (response_new (map_of (rev []) ''Connection'' = Some ''close''
           \<or> kHttp10 = kHttp10 \<and> map_of (rev []) ''Connection'' \<noteq> Some ''Keep-Alive''))"
  have resp: "?resp = answer defaultHttpCallback ?req" by (simp add: default_answer)
      (simp add: defaultHttpCallback_def setCloseConnection_def setStatusMessage_def setStatusCode_def response_new_def)
  have tx: "response_text ?resp = ''HTTP/1.1 404 Not Found'' @ kCRLF @ ''Connection: close'' @ kCRLF @ kCRLF"
    and close: "rs_closeConnection ?resp" and body: "length (rs_body ?resp) < 10 ^ 13"
    unfolding resp by (simp_all add: default_text) (simp_all add: default_answer)
  have fits: "length (response_text ?resp) \<le> room buffer_init"
      "length (response_text ?resp) \<le> room (cn_outputBuffer (cw_conns ?s 1))"
    unfolding tx by (simp_all add: room_init kCRLF_def)
  from http_serves [OF sample_http_ok [OF i] v(1,2) delivers_documented http_env_ok(1) v(3) e v(4) _ _ t h refl ret c len
      refl refl body fits] obtain s' where
    s': "conn_handleRead ?K (http_env ?K) 1 7 ?s = Inr s'" "sent 1 s' @ unsent 1 s' = sent 1 ?s @ response_text ?resp"
    "contents (cn_inputBuffer (cw_conns s' 1)) = []" "cn_state (cw_conns s' 1) = kConnected \<longleftrightarrow> \<not> rs_closeConnection ?resp"
    by auto
  from s'(2) have "sent 1 s' @ unsent 1 s' = ''HTTP/1.1 404 Not Found'' @ kCRLF @ ''Connection: close'' @ kCRLF @ kCRLF"
    unfolding v(5) tx append_Nil .
  with s'(1,3,4) close show ?thesis by blast
qed

lemma sample_out_ok: "length i < 1000 \<Longrightarrow> out_ok 1 0 (sample_http i)"
  using sample_http_ok [of i] sample_http_state [of i] by (simp add: out_ok_def)

lemma http_refuses_witness:
  "\<exists>s'. http_onMessage three_bytes (http_env three_bytes) 2 1 7 (sample_http (''GET / HTTP/9.9'' @ kCRLF)) = Some (Inr s')
    \<and> sent 1 s' @ unsent 1 s' = bad_request \<and> cn_state (cw_conns s' 1) = kDisconnecting"
proof -
  let ?i = "''GET / HTTP/9.9'' @ kCRLF"
  let ?s = "sample_http ?i"
  have i: "length ?i < 1000" by (simp add: kCRLF_def)
  have doc: "write_documented three_bytes" by (simp add: write_documented_def three_bytes_def)
  have st: "hc_state (auto_context (hw_contexts ?s 1)) = kExpectRequestLine" by (simp add: auto_context_def context_init_def)
  have cr: "CHR 0x0D \<notin> set ''GET / HTTP/9.9''" by simp
  have "contents (cn_inputBuffer (cw_conns ?s 1)) = ?i" using buffer_of_ok(2) [OF i] by simp
  then have sp: "split_line (contents (cn_inputBuffer (cw_conns ?s 1))) = Some (''GET / HTTP/9.9'', [])"
    using split_line_no_cr [OF cr, of "[]"] by (simp only: append_Nil2)
  have g: "CHR '' '' \<notin> set ''GET''" "CHR '' '' \<notin> set ''/''" by simp_all
  obtain r where r: "processRequestLine ''GET / HTTP/9.9'' (hc_request (auto_context (hw_contexts ?s 1))) = (False, r)"
    using processRequestLine_three [OF g, of "''HTTP/9.9''"] by (simp add: setMethod_def parseMethod_def Let_def storeVersion_def)
  have fits: "length bad_request \<le> room (cn_outputBuffer (cw_conns ?s 1))"
    by (simp add: bad_request_def room_init kCRLF_def)
  note v = sample_http_state [of ?i]
  from http_refuses [OF sample_out_ok [OF i] doc http_env_ok(1) st sp r fits, of 2 7] v show ?thesis by auto
qed

lemma http_onMessage_returns_witness:
  "\<exists>s'. http_onMessage three_bytes (http_env three_bytes) 2 1 7 (sample_http ''GET'') = Some (Inr s')
    \<and> expecting (auto_context (hw_contexts s' 1))"
proof -
  let ?s = "sample_http ''GET''"
  have i: "length ''GET'' < 1000" by simp
  have doc: "write_documented three_bytes" by (simp add: write_documented_def three_bytes_def)
  have ex: "expecting (auto_context (hw_contexts ?s 1))" by (simp add: auto_context_def context_init_def expecting_def)
  have "answer_fits defaultHttpCallback req \<and> length (response_text (answer defaultHttpCallback req)) \<le> room buffer_init" for req
    by (simp add: answer_fits_def default_text) (simp add: default_answer room_init kCRLF_def)
  then have a: "\<forall>req. answer_fits (hs_httpCallback (hw_servers ?s 2)) req
      \<and> length (response_text (answer (hs_httpCallback (hw_servers ?s 2)) req)) \<le> room (cn_outputBuffer (cw_conns ?s 1))"
    by simp
  have fits: "length bad_request \<le> room (cn_outputBuffer (cw_conns ?s 1))"
    by (simp add: bad_request_def room_init kCRLF_def)
  from http_onMessage_returns [OF sample_out_ok [OF i] doc http_env_ok(1) ex a fits, of 7] show ?thesis by blast
qed

end
