(* ===== verification/Untouched.thy ===== *)
theory Untouched
  imports HttpServer
begin

text \<open>
  What the handlers of one connection leave alone: the other connections with their parsers, the other
  channels but for their places in the poller, and what was written to and is registered under the
  other descriptors. The theorems on a server with many connections rest on it.
\<close>

text \<open>Outside the connections \<open>C\<close>, the channels \<open>H\<close> and the descriptors \<open>F\<close> nothing is different.\<close>

definition untouched ::
  "nat set \<Rightarrow> nat set \<Rightarrow> int set \<Rightarrow> 'z http_world_scheme \<Rightarrow> 'z http_world_scheme \<Rightarrow> bool" where
  "untouched C H F s s' \<longleftrightarrow> w_tid s' = w_tid s \<and> hw_servers s' = hw_servers s \<and> aw_acceptors s' = aw_acceptors s
   \<and> (\<forall>l. lp_threadId (w_loops s' l) = lp_threadId (w_loops s l))
   \<and> (\<forall>d. d \<notin> C \<longrightarrow> cw_conns s' d = cw_conns s d \<and> hw_contexts s' d = hw_contexts s d)
   \<and> (\<forall>k. k \<notin> H \<longrightarrow> chans s' k = (chans s k)\<lparr>ch_index := ch_index (chans s' k)\<rparr>)
   \<and> (\<forall>fd. fd \<notin> F \<longrightarrow> written fd (sk_trace s') = written fd (sk_trace s) \<and> shutdowns fd (sk_trace s') = shutdowns fd (sk_trace s)
        \<and> (\<forall>l. loop_channels l s' fd = loop_channels l s fd))"

lemma untouchedD:
  assumes "untouched C H F s s'"
  shows "w_tid s' = w_tid s" and "hw_servers s' = hw_servers s" and "aw_acceptors s' = aw_acceptors s"
    and "lp_threadId (w_loops s' l) = lp_threadId (w_loops s l)"
    and "d \<notin> C \<Longrightarrow> cw_conns s' d = cw_conns s d" and "d \<notin> C \<Longrightarrow> hw_contexts s' d = hw_contexts s d"
    and "k \<notin> H \<Longrightarrow> chans s' k = (chans s k)\<lparr>ch_index := ch_index (chans s' k)\<rparr>"
    and "fd \<notin> F \<Longrightarrow> written fd (sk_trace s') = written fd (sk_trace s)"
    and "fd \<notin> F \<Longrightarrow> shutdowns fd (sk_trace s') = shutdowns fd (sk_trace s)"
    and "fd \<notin> F \<Longrightarrow> loop_channels l s' fd = loop_channels l s fd"
  using assms unfolding untouched_def by blast+

lemma untouched_refl [simp]: "untouched C H F s s"
  by (simp add: untouched_def)

lemma untouched_trans:
  assumes "untouched C H F s t" and "untouched C H F t u"
  shows "untouched C H F s u"
proof -
  have "chans u k = (chans s k)\<lparr>ch_index := ch_index (chans u k)\<rparr>" if k: "k \<notin> H" for k
    by (subst untouchedD(7) [OF assms(2) k], subst untouchedD(7) [OF assms(1) k]) simp
  then show ?thesis using assms by (simp add: untouched_def)
qed

lemma untouched_mono: "untouched C H F s t \<Longrightarrow> C \<subseteq> C' \<Longrightarrow> H \<subseteq> H' \<Longrightarrow> F \<subseteq> F' \<Longrightarrow> untouched C' H' F' s t"
  unfolding untouched_def by blast

section \<open>The primitive changes\<close>

text \<open>A system call that writes to or shuts down no descriptor outside \<open>F\<close>.\<close>

fun call_on :: "int set \<Rightarrow> sysc \<Rightarrow> bool" where
  "call_on F (SysWrite fd bytes) = (fd \<in> F)"
| "call_on F (SysShutdownWr fd) = (fd \<in> F)"
| "call_on F call = True"

lemma call_on_kept:
  assumes "call_on F call" and "fd \<notin> F"
  shows "written_by fd (call, a) = []" and "call \<noteq> SysShutdownWr fd"
  using assms by (cases call; auto)+

lemma untouched_syscall:
  assumes "call_on F call"
  shows "untouched C H F s (snd (syscall K call s))"
  using call_on_kept [OF assms]
  by (simp add: untouched_def syscall_def Let_def written_snoc shutdowns_snoc loop_channels_def)

lemma untouched_conn: "c \<in> C \<Longrightarrow> untouched C H F s (upd_conn c f s)"
  by (auto simp: untouched_def upd_conn_def loop_channels_def)

lemma untouched_context: "c \<in> C \<Longrightarrow> untouched C H F s (upd_context c ctx s)"
  by (auto simp: untouched_def upd_context_def loop_channels_def)

lemma untouched_chan: "k \<in> H \<Longrightarrow> untouched C H F s (upd_chan k g s)"
  by (auto simp: untouched_def upd_chan_def loop_channels_def)

lemma untouched_server: "untouched C H F s (upd_server sv f s)"
  by (simp add: untouched_def upd_server_def loop_channels_def)

lemma untouched_loop:
  assumes "\<And>lp. lp_threadId (f lp) = lp_threadId lp \<and> lp_poller (f lp) = lp_poller lp"
  shows "untouched C H F s (upd_loop l f s)"
  using assms by (simp add: untouched_def upd_loop_def loop_channels_def)

lemma untouched_queue: "untouched C H F s (queueInloop l cb s)"
  by (simp add: untouched_def queueInloop_def queue_wake_def queue_push_def wakeup_def upd_loop_def loop_channels_def)

text \<open>A poller that registers the same channels but for those under \<open>F\<close>.\<close>

lemma untouched_poller:
  assumes "\<And>fd. fd \<notin> F \<Longrightarrow> pl_channels pl fd = loop_channels l s fd"
    and "\<And>k. k \<notin> H \<Longrightarrow> cs k = (chans s k)\<lparr>ch_index := ch_index (cs k)\<rparr>"
  shows "untouched C H F s (set_poller l pl cs s)"
  using assms by (simp add: untouched_def set_poller_def upd_loop_def loop_channels_def)

lemma set_poller_same: "upd_loop l (\<lambda>lp. lp\<lparr>lp_poller := pl\<rparr>) s = set_poller l pl (chans s) s"
  by (simp add: set_poller_def)

lemma poller_update_untouched:
  assumes "poller_updateChannel b k pl cs = Inr (pl', cs')"
  shows "fd \<noteq> ch_fd (cs k) \<Longrightarrow> pl_channels pl' fd = pl_channels pl fd" and "cs' j = (cs j)\<lparr>ch_index := ch_index (cs' j)\<rparr>"
  using assms by (auto simp: poller_updateChannel_def Let_def res_simps setIndex_def split: if_splits)

lemma untouched_update:
  assumes "channel_update k s = Inr s'" and "ch_fd (chans s k) \<in> F"
  shows "untouched C H F s s'" and "ch_fd (chans s' j) = ch_fd (chans s j)"
proof -
  let ?l = "ch_loop (chans s k)"
  from assms(1) obtain pl cs where p: "poller_updateChannel (isInLoopThread ?l s) k (lp_poller (w_loops s ?l)) (chans s) = Inr (pl, cs)"
    "s' = set_poller ?l pl cs s"
    by (auto simp: channel_update_def loop_updateChannel_def with_poller_def res_simps set_poller_def)
  note u = poller_update_untouched [OF p(1)]
  show "untouched C H F s s'"
    unfolding p(2)
  proof (rule untouched_poller)
    show "pl_channels pl fd = loop_channels ?l s fd" if "fd \<notin> F" for fd
      using u(1) [of fd] that assms(2) by (auto simp: loop_channels_def)
  qed (rule u(2))
  have "ch_fd (cs j) = ch_fd (chans s j)" by (subst u(2)) simp
  then show "ch_fd (chans s' j) = ch_fd (chans s j)" by (simp add: p(2) loop_simps)
qed

end
