(* ===== verification/Program.thy ===== *)
theory Program
  imports Untouched
begin

text \<open>
  The components of the server together: what runs when a closure is called, the callbacks wired as the
  constructors wire them, and what one turn of the event loop does to a connection.
\<close>

section \<open>Running closures\<close>

text \<open>What the program is given: the kernel, the clock, where the next connection and its channel are
  allocated, and what runs the closures of the user.\<close>

record 's program =
  pg_kernel :: kernel
  pg_clock :: clock
  pg_new_conn :: "'s \<Rightarrow> nat \<times> nat"
  pg_other :: "closure \<Rightarrow> 's \<Rightarrow> 's res"

definition returned :: "'a res option \<Rightarrow> 'a res" where
  "returned r = (case r of None \<Rightarrow> Inl NoReturn | Some x \<Rightarrow> x)"

text \<open>The callbacks of a connection: those of the HTTP server and, when it closes, of its \<open>TcpServer\<close>.\<close>

definition system_env ::
  "('z http_world_scheme) program \<Rightarrow> (closure \<Rightarrow> 'z http_world_scheme \<Rightarrow> 'z http_world_scheme res)
    \<Rightarrow> ('z http_world_scheme) env" where
  "system_env P run =
     (let E = \<lparr>run_closure = run, on_connection = http_onConnection, on_message = (\<lambda>_ _ _. Inr),
                on_close = (\<lambda>sv c. server_removeConnection run sv c)\<rparr>
      in E\<lparr>on_message := (\<lambda>h c t s. returned (http_onMessage (pg_kernel P) E h c t s))\<rparr>)"

text \<open>One call of a closure; the calls it makes in turn are run by \<open>run\<close>.\<close>

definition perform ::
  "('z http_world_scheme) program \<Rightarrow> (closure \<Rightarrow> 'z http_world_scheme \<Rightarrow> 'z http_world_scheme res)
    \<Rightarrow> closure \<Rightarrow> int \<Rightarrow> 'z http_world_scheme \<Rightarrow> 'z http_world_scheme res" where
  "perform P run cl receiveTime s =
     (let K = pg_kernel P; E = system_env P run in
      case cl of
        LoopHandleRead l \<Rightarrow> Inr (loop_handleRead l s)
      | TimerHandleRead l \<Rightarrow> timer_handleRead (pg_clock P) run l s
      | AddTimerInloop l p \<Rightarrow> addTimerInloop (pg_clock P) l p s
      | CancelInLoop l p sequence \<Rightarrow> timer_cancelInLoop l p sequence s
      | ConnHandleRead c \<Rightarrow> conn_handleRead K E c receiveTime s
      | ConnHandleWrite c \<Rightarrow> conn_handleWrite K c s
      | ConnHandleClose c \<Rightarrow> handleClose E c s
      | ConnHandleError c \<Rightarrow> Inr (handleError K c s)
      | SendInloop c message \<Rightarrow> sendInloop K c message s
      | ShutdownInloop c \<Rightarrow> shutdownInloop K c s
      | ConnectEstablished c \<Rightarrow> connectEestablished E c s
      | ConnectDestory c \<Rightarrow> connectDestory E c s
      | RemoveConnectionInLoop sv c \<Rightarrow> server_removeConnectionInLoop sv c s
      | AcceptorListen a \<Rightarrow> acceptor_listen K a s
      | AcceptorHandleRead a \<Rightarrow>
          acceptor_handleRead K (\<lambda>sv fd addr s. case pg_new_conn P s of (ch, c) \<Rightarrow>
            server_newConnection K run ch c sv fd addr s) a s
      | _ \<Rightarrow> pg_other P cl s)"

text \<open>Calls nested \<open>n\<close> deep; only the read callback of a channel is given a time.\<close>

fun system_run ::
  "('z http_world_scheme) program \<Rightarrow> nat \<Rightarrow> closure \<Rightarrow> 'z http_world_scheme \<Rightarrow> 'z http_world_scheme res" where
  "system_run P 0 cl s = Inl StackOverflow"
| "system_run P (Suc n) cl s = perform P (system_run P n) cl 0 s"

definition system_read ::
  "('z http_world_scheme) program \<Rightarrow> nat \<Rightarrow> closure \<Rightarrow> int \<Rightarrow> 'z http_world_scheme \<Rightarrow> 'z http_world_scheme res" where
  "system_read P n cl receiveTime s = perform P (system_run P n) cl receiveTime s"

section \<open>Closing a connection of the server\<close>

lemma sw_servers_set_poller [loop_simps]:
  "sw_servers (set_poller l pl cs s) = sw_servers s" "pending_of k (set_poller l pl cs s) = pending_of k s"
  by (simp_all add: set_poller_def upd_loop_def view_defs)

lemma upd_chan_frame [loop_simps]:
  "pending_of k (upd_chan ch g s) = pending_of k s" "loop_channels k (upd_chan ch g s) = loop_channels k s"
  "loop_channels k (upd_conn c f s) = loop_channels k s" "loop_channels k (upd_server sv h s) = loop_channels k s"
  "loop_channels k (queueInloop l cb s) = loop_channels k s" "loop_channels k (snd (syscall K call s)) = loop_channels k s"
  "pending_of k (snd (syscall K call s)) = pending_of k s"
  "chans (queueInloop l cb s) = chans s" "sk_trace (queueInloop l cb s) = sk_trace s"
  by (simp_all add: view_defs loop_channels_def loop_simps queueInloop_def queue_wake_def queue_push_def wakeup_def)

lemma system_env_sel [simp]:
  "run_closure (system_env P run) = run" "on_connection (system_env P run) = http_onConnection"
  "on_close (system_env P run) sv c = server_removeConnection run sv c"
  by (simp_all add: system_env_def Let_def fun_eq_iff)

text \<open>What closing does to a connection of the server on the loop of the server: its channel stops watching,
  the server forgets it, and its destruction is queued if the server still knew it.\<close>

definition forgets :: "nat \<Rightarrow> string \<Rightarrow> (nat \<Rightarrow> tcp_server) \<Rightarrow> nat \<Rightarrow> tcp_server" where
  "forgets sv name servers = servers(sv := (servers sv)\<lparr>ts_connects := (ts_connects (servers sv))(name := None)\<rparr>)"

definition closes :: "nat \<Rightarrow> nat \<Rightarrow> 'z http_world_scheme \<Rightarrow> 'z http_world_scheme \<Rightarrow> bool" where
  "closes sv c s s' \<longleftrightarrow> (let cn = cw_conns s c; known = ts_connects (sw_servers s sv) (cn_name cn) \<noteq> None in
     conn_registered c s' \<and> cw_conns s' = cw_conns s \<and> sw_servers s' = forgets sv (cn_name cn) (sw_servers s)
   \<and> pending_of (cn_loop cn) s' = pending_of (cn_loop cn) s @ (if known then [ConnectDestory c] else [])
   \<and> loop_channels (cn_loop cn) s' = loop_channels (cn_loop cn) s \<and> sk_trace s' = sk_trace s
   \<and> (\<forall>ch. ch_revent (chans s' ch) = ch_revent (chans s ch) \<and> ch_readCallBack (chans s' ch) = ch_readCallBack (chans s ch))
   \<and> untouched {} {cn_channel cn} {} s s')"

lemma conn_registered_cong:
  assumes reg: "conn_registered c s"
    and ch: "\<And>k. ch_fd (chans s' k) = ch_fd (chans s k)" "\<And>k. ch_index (chans s' k) = ch_index (chans s k)"
      "\<And>k. ch_loop (chans s' k) = ch_loop (chans s k)"
    and cn: "cn_channel (cw_conns s' c) = cn_channel (cw_conns s c)" "cn_fd (cw_conns s' c) = cn_fd (cw_conns s c)"
      "cn_loop (cw_conns s' c) = cn_loop (cw_conns s c)"
    and w: "w_tid s' = w_tid s" "\<And>l. lp_threadId (w_loops s' l) = lp_threadId (w_loops s l)"
      "\<And>l. lp_poller (w_loops s' l) = lp_poller (w_loops s l)"
  shows "conn_registered c s'"
proof -
  let ?ch = "cn_channel (cw_conns s c)"
  have r: "registered ?ch s" "ch_fd (chans s ?ch) = cn_fd (cw_conns s c)" "ch_loop (chans s ?ch) = cn_loop (cw_conns s c)"
    using reg by (simp_all add: conn_registered_def Let_def)
  have "poller_ok pl (chans s) \<Longrightarrow> poller_ok pl (chans s')" for pl by (erule poller_ok_cong) (rule ch)+
  then have "registered ?ch s'" using r(1) by (simp add: registered_def isInLoopThread_def ch w)
  then show ?thesis using r(2,3) by (simp add: conn_registered_def Let_def ch cn)
qed

lemma close_runs:
  assumes reg: "conn_registered c s" and st: "cn_state (cw_conns s c) \<in> {kConnected, kDisconnecting}"
    and cb: "cn_closeCallBack (cw_conns s c) = Some sv" and lp: "ts_loop (sw_servers s sv) = cn_loop (cw_conns s c)"
  shows "\<exists>s'. handleClose (system_env P (system_run P (Suc n))) c s = Inr s' \<and> closes sv c s s'"
proof -
  let ?cn = "cw_conns s c" and ?m = "ts_connects (sw_servers s sv)"
  from handleClose_effect [OF reg st, of "system_env P (system_run P (Suc n))"] cb obtain t pl where
    t: "handleClose (system_env P (system_run P (Suc n))) c s = server_removeConnection (system_run P (Suc n)) sv c t"
      "t = upd_loop (cn_loop ?cn) (\<lambda>lp. lp\<lparr>lp_poller := pl\<rparr>) (upd_chan (cn_channel ?cn) noBits s)"
      "conn_registered c t" "cw_conns t = cw_conns s" "loop_channels (cn_loop ?cn) t = loop_channels (cn_loop ?cn) s"
    by auto
  have tv: "sw_servers t = sw_servers s" "sk_trace t = sk_trace s" "pending_of k t = pending_of k s"
    "ch_revent (chans t ch) = ch_revent (chans s ch)" "ch_readCallBack (chans t ch) = ch_readCallBack (chans s ch)" for k ch
    by (simp_all add: t(2) loop_simps view_defs noBits_def)
  have "untouched {} {cn_channel ?cn} {} (upd_chan (cn_channel ?cn) noBits s) t"
    unfolding t(2) set_poller_same
    by (rule untouched_poller) (use t(5) in \<open>simp_all add: t(2) loop_channels_def loop_simps\<close>)
  then have ut: "untouched {} {cn_channel ?cn} {} s t" by (rule untouched_trans [OF untouched_chan, rotated]) simp
  have here: "isInLoopThread (cn_loop ?cn) t"
    using conn_registered_here [OF t(3)] by (simp add: conn_in_loop_def t(4) assertInLoopThread_eq)
  let ?u = "upd_server sv (\<lambda>ts. ts\<lparr>ts_connects := ?m(cn_name ?cn := None)\<rparr>) t"
  let ?s' = "if ?m (cn_name ?cn) = None then ?u else queueInloop (cn_loop ?cn) (ConnectDestory c) ?u"
  have "server_removeConnection (system_run P (Suc n)) sv c t = Inr ?s'"
    using here lp
    by (simp add: server_removeConnection_def runInLoop_def tv(1) perform_def Let_def server_removeConnectionInLoop_def
        assertInLoopThread_in map_erase_def t(4) upd_server_sel)
  moreover have "conn_registered c ?s'"
    by (rule conn_registered_cong [OF t(3)])
      (simp_all add: loop_simps t(4) queueInloop_def queue_wake_def queue_push_def wakeup_def)
  moreover have "untouched {} {cn_channel ?cn} {} s ?s'"
    using untouched_trans [OF ut untouched_server] untouched_trans [OF untouched_trans [OF ut untouched_server] untouched_queue]
    by simp
  ultimately show ?thesis
    unfolding t(1) closes_def Let_def
    by (intro exI [of _ ?s']) (simp add: loop_simps tv t(4,5) forgets_def fun_eq_iff)
qed

lemma closesD:
  assumes "closes sv c s s'"
  shows "conn_registered c s'" and "cw_conns s' = cw_conns s"
    and "sw_servers s' = forgets sv (cn_name (cw_conns s c)) (sw_servers s)"
    and "pending_of (cn_loop (cw_conns s c)) s' = pending_of (cn_loop (cw_conns s c)) s
      @ (if ts_connects (sw_servers s sv) (cn_name (cw_conns s c)) \<noteq> None then [ConnectDestory c] else [])"
    and "loop_channels (cn_loop (cw_conns s c)) s' = loop_channels (cn_loop (cw_conns s c)) s" and "sk_trace s' = sk_trace s"
    and "ch_revent (chans s' ch) = ch_revent (chans s ch)" and "ch_readCallBack (chans s' ch) = ch_readCallBack (chans s ch)"
    and "untouched {} {cn_channel (cw_conns s c)} {} s s'"
  using assms unfolding closes_def Let_def by simp_all

text \<open>A read event at the end of the input closes the connection, too.\<close>

lemma read_closes:
  assumes reg: "conn_registered c s" and st: "cn_state (cw_conns s c) \<in> {kConnected, kDisconnecting}"
    and cb: "cn_closeCallBack (cw_conns s c) = Some sv" and lp: "ts_loop (sw_servers s sv) = cn_loop (cw_conns s c)"
    and input: "buf_ok (cn_inputBuffer (cw_conns s c))" and doc: "readv_documented (pg_kernel P)"
    and eof: "an_ret (pg_kernel P (sk_trace s) (SysReadv (cn_fd (cw_conns s c))
        (writableBytes (cn_inputBuffer (cw_conns s c)) + extraBuf_size))) = 0"
  shows "\<exists>s1 s' b. conn_handleRead (pg_kernel P) (system_env P (system_run P (Suc n))) c t s = Inr s' \<and> closes sv c s1 s'
    \<and> s1 = upd_conn c (set_input b) (snd (syscall (pg_kernel P) (SysReadv (cn_fd (cw_conns s c))
        (writableBytes (cn_inputBuffer (cw_conns s c)) + extraBuf_size)) s))"
proof -
  let ?b = "cn_inputBuffer (cw_conns s c)"
  let ?call = "SysReadv (cn_fd (cw_conns s c)) (writableBytes ?b + extraBuf_size)"
  have "0 \<le> an_ret (pg_kernel P (sk_trace s) ?call)
      \<longrightarrow> an_ret (pg_kernel P (sk_trace s) ?call) = int (length (an_data (pg_kernel P (sk_trace s) ?call)))"
    using doc unfolding readv_documented_def by blast
  then have none: "an_data (pg_kernel P (sk_trace s) ?call) = []" by (simp add: eof)
  have "length (store ?b) + length (an_data (pg_kernel P (sk_trace s) ?call)) \<le> size_max"
    using buf_okD(4) [OF input] by (simp add: none)
  from handleRead_start [OF reg input doc this, of "system_env P (system_run P (Suc n))" t] eof obtain b where
    r: "conn_handleRead (pg_kernel P) (system_env P (system_run P (Suc n))) c t s
      = handleClose (system_env P (system_run P (Suc n))) c (upd_conn c (set_input b) (snd (syscall (pg_kernel P) ?call s)))"
    by auto
  let ?s1 = "upd_conn c (set_input b) (snd (syscall (pg_kernel P) ?call s))"
  have reg1: "conn_registered c ?s1" by (rule conn_registered_cong [OF reg]) (simp_all add: loop_simps)
  have "cw_conns ?s1 c = set_input b (cw_conns s c)" "sw_servers ?s1 = sw_servers s" by (simp_all add: loop_simps)
  with close_runs [OF reg1, of sv P n] st cb lp obtain s' where
    "handleClose (system_env P (system_run P (Suc n))) c ?s1 = Inr s'" "closes sv c ?s1 s'" by auto
  with r show ?thesis by auto
qed

text \<open>A connection the server knows and runs on its own loop, with the callbacks its constructor set.\<close>

definition served :: "nat \<Rightarrow> nat \<Rightarrow> 'z http_world_scheme \<Rightarrow> bool" where
  "served sv c s \<longleftrightarrow> (let cn = cw_conns s c; ch = chans s (cn_channel cn) in
     conn_registered c s \<and> cn_state cn \<in> {kConnected, kDisconnecting} \<and> buf_ok (cn_inputBuffer cn)
   \<and> cn_closeCallBack cn = Some sv \<and> ts_loop (sw_servers s sv) = cn_loop cn
   \<and> ts_connects (sw_servers s sv) (cn_name cn) = Some c
   \<and> ch_readCallBack ch = Some (ConnHandleRead c) \<and> ch_closeCallBack ch = Some (ConnHandleClose c))"

lemma servedD:
  assumes "served sv c s"
  shows "conn_registered c s" and "cn_state (cw_conns s c) \<in> {kConnected, kDisconnecting}"
    and "buf_ok (cn_inputBuffer (cw_conns s c))" and "cn_closeCallBack (cw_conns s c) = Some sv"
    and "ts_loop (sw_servers s sv) = cn_loop (cw_conns s c)" and "ts_connects (sw_servers s sv) (cn_name (cw_conns s c)) = Some c"
    and "ch_readCallBack (chans s (cn_channel (cw_conns s c))) = Some (ConnHandleRead c)"
    and "ch_closeCallBack (chans s (cn_channel (cw_conns s c))) = Some (ConnHandleClose c)"
  using assms by (simp_all add: served_def Let_def)

definition hung_up :: "nat \<Rightarrow> nat \<Rightarrow> 'z http_world_scheme \<Rightarrow> 'z http_world_scheme \<Rightarrow> bool" where
  "hung_up sv c s s' \<longleftrightarrow> (let cn = cw_conns s c; l = cn_loop cn in
     conn_registered c s' \<and> (\<exists>b. cw_conns s' = (cw_conns s)(c := set_input b cn))
   \<and> sw_servers s' = forgets sv (cn_name cn) (sw_servers s)
   \<and> pending_of l s' = pending_of l s @ [ConnectDestory c] \<and> loop_channels l s' = loop_channels l s
   \<and> untouched {c} {cn_channel cn} {} s s')"

lemma event_flag_registered:
  "conn_registered c s \<Longrightarrow> conn_registered c (upd_chan ch (\<lambda>k. k\<lparr>ch_eventHanding := f\<rparr>) s)"
  by (erule conn_registered_cong) (simp_all add: loop_simps)

lemma forgets_sel [simp]:
  "ts_loop (forgets sv name servers k) = ts_loop (servers k)"
  "ts_connects (forgets sv name servers sv) = (ts_connects (servers sv))(name := None)"
  "forgets sv name (forgets sv name servers) = forgets sv name servers"
  by (auto simp: forgets_def fun_eq_iff)

lemma hangup_bits:
  "POLLIN AND (POLLNVAL OR POLLERR) = (0 :: 32 word)" "POLLIN AND POLLOUT = (0 :: 32 word)" "POLLIN AND POLLIN \<noteq> (0 :: 32 word)"
  "POLLIN AND (POLLIN OR POLLPRI OR POLLRDHUP) \<noteq> (0 :: 32 word)" "POLLIN AND POLLHUP = (0 :: 32 word)"
  "(POLLIN OR POLLHUP) AND (POLLNVAL OR POLLERR) = (0 :: 32 word)" "(POLLIN OR POLLHUP) AND POLLOUT = (0 :: 32 word)"
  "(POLLIN OR POLLHUP) AND POLLIN \<noteq> (0 :: 32 word)" "(POLLIN OR POLLHUP) AND POLLHUP \<noteq> (0 :: 32 word)"
  "(POLLIN OR POLLHUP) AND (POLLIN OR POLLPRI OR POLLRDHUP) \<noteq> (0 :: 32 word)"
  by (simp_all add: poll_bits)

text \<open>The close callback of an event with \<open>POLLHUP\<close>, if there is one.\<close>

lemma hangup_close:
  fixes P :: "('z http_world_scheme) program" and c n :: nat
  assumes sv: "served sv c s"
  defines "s1 \<equiv> upd_chan (cn_channel (cw_conns s c)) (\<lambda>k. k\<lparr>ch_eventHanding := True\<rparr>) s"
    and "l \<equiv> cn_loop (cw_conns s c)" and "ch \<equiv> cn_channel (cw_conns s c)"
  shows "\<exists>s2. call_if hup (Some (ConnHandleClose c)) (system_run P (Suc (Suc n))) s1 = Inr s2
    \<and> conn_registered c s2 \<and> cw_conns s2 = cw_conns s \<and> sk_trace s2 = sk_trace s \<and> loop_channels l s2 = loop_channels l s
    \<and> (sw_servers s2 = sw_servers s \<and> pending_of l s2 = pending_of l s
       \<or> sw_servers s2 = forgets sv (cn_name (cw_conns s c)) (sw_servers s) \<and> pending_of l s2 = pending_of l s @ [ConnectDestory c])
    \<and> ch_revent (chans s2 ch) = ch_revent (chans s ch) \<and> ch_readCallBack (chans s2 ch) = Some (ConnHandleRead c)
    \<and> untouched {c} {ch} {} s s2"
proof -
  note D = servedD [OF sv]
  have u1: "untouched {c} {ch} {} s s1" by (simp add: s1_def ch_def untouched_chan)
  have v1: "cw_conns s1 = cw_conns s" "sw_servers s1 = sw_servers s" "pending_of l s1 = pending_of l s"
    "loop_channels l s1 = loop_channels l s" "sk_trace s1 = sk_trace s"
    "ch_revent (chans s1 ch) = ch_revent (chans s ch)" "ch_readCallBack (chans s1 ch) = Some (ConnHandleRead c)"
    by (simp_all add: s1_def ch_def loop_simps D(7,8))
  have reg1: "conn_registered c s1" unfolding s1_def by (rule event_flag_registered [OF D(1)])
  show ?thesis
  proof (cases hup)
    case False
    then show ?thesis by (intro exI [of _ s1]) (auto simp: call_if_def reg1 v1 u1)
  next
    case True
    from close_runs [OF reg1, of sv P n] obtain s2 where
      s2: "handleClose (system_env P (system_run P (Suc n))) c s1 = Inr s2" "closes sv c s1 s2"
      using D(2,4,5) by (auto simp: v1 l_def)
    have "call_if hup (Some (ConnHandleClose c)) (system_run P (Suc (Suc n))) s1 = Inr s2"
      using True s2(1) by (simp add: call_if_def perform_def Let_def)
    moreover have "untouched {c} {ch} {} s s2"
      by (rule untouched_trans [OF u1 untouched_mono [OF closesD(9) [OF s2(2)]]]) (simp_all add: v1(1) ch_def)
    ultimately show ?thesis using closesD(1-8) [OF s2(2)] D(6)
      by (intro exI [of _ s2]) (simp add: v1 [unfolded l_def] l_def)
  qed
qed

lemma hangup_event:
  fixes P :: "('z http_world_scheme) program" and c n :: nat
  assumes sv: "served sv c s" and doc: "readv_documented (pg_kernel P)"
    and eof: "an_ret (pg_kernel P (sk_trace s) (SysReadv (cn_fd (cw_conns s c))
        (writableBytes (cn_inputBuffer (cw_conns s c)) + extraBuf_size))) = 0"
    and rev: "ch_revent (chans s (cn_channel (cw_conns s c))) \<in> {POLLIN, POLLIN OR POLLHUP}"
  defines "run \<equiv> system_run P (Suc (Suc n))" and "read \<equiv> system_read P (Suc (Suc n))"
  shows "\<exists>s'. handleEvent run read (cn_channel (cw_conns s c)) t s = Inr s' \<and> hung_up sv c s s'"
proof -
  note D = servedD [OF sv]
  let ?cn = "cw_conns s c"
  let ?ch = "cn_channel ?cn" and ?l = "cn_loop ?cn"
  let ?s1 = "upd_chan ?ch (\<lambda>k. k\<lparr>ch_eventHanding := True\<rparr>) s"
  have v1: "cw_conns ?s1 = cw_conns s" "sw_servers ?s1 = sw_servers s" "pending_of ?l ?s1 = pending_of ?l s"
    "loop_channels ?l ?s1 = loop_channels ?l s" "sk_trace ?s1 = sk_trace s"
    "ch_revent (chans ?s1 ?ch) = ch_revent (chans s ?ch)" "ch_readCallBack (chans ?s1 ?ch) = Some (ConnHandleRead c)"
    "ch_closeCallBack (chans ?s1 ?ch) = Some (ConnHandleClose c)"
    by (simp_all add: loop_simps D(7,8))
  have reg1: "conn_registered c ?s1" by (rule event_flag_registered [OF D(1)])
  let ?hup = "ch_revent (chans s ?ch) AND POLLHUP \<noteq> 0 \<and> ch_revent (chans s ?ch) AND POLLIN \<noteq> 0"
  from hangup_close [OF sv, of ?hup P n, folded run_def] obtain s2 where s2: "call_if ?hup (Some (ConnHandleClose c)) run ?s1 = Inr s2" "conn_registered c s2"
    "cw_conns s2 = cw_conns s" "sk_trace s2 = sk_trace s" "loop_channels ?l s2 = loop_channels ?l s"
    "sw_servers s2 = sw_servers s \<and> pending_of ?l s2 = pending_of ?l s
       \<or> sw_servers s2 = forgets sv (cn_name ?cn) (sw_servers s) \<and> pending_of ?l s2 = pending_of ?l s @ [ConnectDestory c]"
    "ch_revent (chans s2 ?ch) = ch_revent (chans s ?ch)" "ch_readCallBack (chans s2 ?ch) = Some (ConnHandleRead c)"
    "untouched {c} {?ch} {} s s2" by blast
  have lp2: "ts_loop (sw_servers s2 sv) = ?l" using s2(6) D(5) by auto
  from read_closes [OF s2(2), of sv P "Suc n" t] obtain s21 s3 b where
    s3: "conn_handleRead (pg_kernel P) (system_env P (system_run P (Suc (Suc n)))) c t s2 = Inr s3" "closes sv c s21 s3"
      "s21 = upd_conn c (set_input b) (snd (syscall (pg_kernel P) (SysReadv (cn_fd ?cn)
        (writableBytes (cn_inputBuffer ?cn) + extraBuf_size)) s2))"
    using D(2-4) lp2 doc eof by (auto simp: s2(3,4))
  have v21: "cw_conns s21 = (cw_conns s)(c := set_input b ?cn)" "sw_servers s21 = sw_servers s2"
    "pending_of ?l s21 = pending_of ?l s2" "loop_channels ?l s21 = loop_channels ?l s" "chans s21 = chans s2"
    by (simp_all add: s3(3) loop_simps s2(3,5))
  note C = closesD [OF s3(2)]
  have c3: "cw_conns s3 = (cw_conns s)(c := set_input b ?cn)" using C(2) v21(1) by simp
  have srv3: "sw_servers s3 = forgets sv (cn_name ?cn) (sw_servers s)"
    using C(3) s2(6) by (auto simp: v21(1,2))
  have pend3: "pending_of ?l s3 = pending_of ?l s @ [ConnectDestory c]"
    using C(4) s2(6) D(6) by (auto simp: v21)
  have lc3: "loop_channels ?l s3 = loop_channels ?l s" using C(5) by (simp add: v21)
  have rev3: "ch_revent (chans s3 ?ch) = ch_revent (chans s ?ch)" using C(7) s2(7) by (simp add: v21(5))
  have read: "read (ConnHandleRead c) t s2 = Inr s3"
    unfolding read_def system_read_def perform_def Let_def using s3(1) by simp
  have bits: "(ch_revent (chans s ?ch) AND (POLLNVAL OR POLLERR) \<noteq> 0) = False"
    "(ch_revent (chans s ?ch) AND POLLOUT \<noteq> 0) = False"
    "(ch_revent (chans s ?ch) AND (POLLIN OR POLLPRI OR POLLRDHUP) \<noteq> 0) = True"
    using rev hangup_bits by auto
  let ?s' = "upd_chan ?ch (\<lambda>k. k\<lparr>ch_eventHanding := False\<rparr>) s3"
  have "handleEvent run read ?ch t s = Inr ?s'"
    unfolding handleEvent_def Let_def v1(6,8) s2(1) bnd_Inr s2(7,8)
    by (simp only: call_if_def bits if_True if_False bnd_Inr option.case read rev3 s2(7,8))
  moreover have "conn_registered c ?s'" by (rule event_flag_registered [OF C(1)])
  moreover have "cw_conns ?s' = (cw_conns s)(c := set_input b ?cn)" by (simp add: loop_simps c3)
  moreover have "untouched {c} {?ch} {} s ?s'"
  proof -
    have "untouched {c} {?ch} {} s2 s21" unfolding s3(3)
      by (rule untouched_trans [OF untouched_syscall untouched_conn]) simp_all
    moreover have "untouched {c} {?ch} {} s21 s3" by (rule untouched_mono [OF C(9)]) (simp_all add: v21(1))
    moreover have "untouched {c} {?ch} {} s3 ?s'" by (simp add: untouched_chan)
    ultimately show ?thesis using s2(9) untouched_trans by blast
  qed
  ultimately show ?thesis
    by (intro exI [of _ ?s']) (auto simp: hung_up_def Let_def loop_simps srv3 pend3 lc3)
qed

section \<open>One turn of the loop\<close>

text \<open>A poll that reports only the channel of the connection.\<close>

lemma poll_one:
  assumes sv: "served sv c s"
  defines "l \<equiv> cn_loop (cw_conns s c)" and "ch \<equiv> cn_channel (cw_conns s c)"
  assumes doc: "poll_documented (pl_pollfds (lp_poller (w_loops s l))) (pa_nums ans) (pa_revents ans)"
    and one: "ready (lp_poller (w_loops s l)) (pa_revents ans) = [ch]"
  shows "\<exists>s0. poll_active l ans s = Inr s0 \<and> served sv c s0 \<and> lp_activeChannels (w_loops s0 l) = [ch]
    \<and> ch_revent (chans s0 ch) = scast (pa_revents ans ! nat (ch_index (chans s ch)))
    \<and> cw_conns s0 = cw_conns s \<and> sw_servers s0 = sw_servers s \<and> pending_of l s0 = pending_of l s
    \<and> loop_channels l s0 = loop_channels l s \<and> sk_trace s0 = sk_trace s
    \<and> chans s0 = (chans s)(ch := setEvent (scast (pa_revents ans ! nat (ch_index (chans s ch)))) (chans s ch))
    \<and> hw_contexts s0 = hw_contexts s \<and> hw_servers s0 = hw_servers s \<and> calling_of l s0 = calling_of l s"
proof -
  note D = servedD [OF sv]
  have r: "registered ch s" "ch_fd (chans s ch) = cn_fd (cw_conns s c)" "ch_loop (chans s ch) = l"
    using D(1) by (simp_all add: conn_registered_def Let_def l_def ch_def)
  then have ok: "poller_ok (lp_poller (w_loops s l)) (chans s)"
    and m: "pl_channels (lp_poller (w_loops s l)) (cn_fd (cw_conns s c)) = Some ch" and here: "isInLoopThread l s"
    by (simp_all add: registered_def)
  let ?rv = "scast (pa_revents ans ! nat (ch_index (chans s ch))) :: 32 word"
  from poll_reports [OF ok doc, of "[]"] one obtain pl cs where
    pl: "poller_poll (pa_nums ans) (pa_revents ans) [] (lp_poller (w_loops s l)) (chans s) = Inr ([ch], pl, cs)"
      "poller_ok pl cs" "pl_channels pl = pl_channels (lp_poller (w_loops s l))"
      "cs = (\<lambda>k. if k = ch then setEvent ?rv (chans s ch) else chans s k)" by (auto cong: if_cong)
  let ?s0 = "upd_loop l (\<lambda>lp. lp\<lparr>lp_poller := pl, lp_activeChannels := [ch], lp_pollReturnTime := pa_now ans\<rparr>) (s\<lparr>chans := cs\<rparr>)"
  have cs: "ch_fd (cs k) = ch_fd (chans s k)" "ch_loop (cs k) = ch_loop (chans s k)"
    "ch_readCallBack (cs k) = ch_readCallBack (chans s k)" "ch_closeCallBack (cs k) = ch_closeCallBack (chans s k)"
    "ch_revent (cs ch) = ?rv" for k
    by (simp_all add: pl(4) setEvent_def)
  have v: "chans ?s0 = cs" "w_tid ?s0 = w_tid s" "cw_conns ?s0 = cw_conns s" "sw_servers ?s0 = sw_servers s"
    "sk_trace ?s0 = sk_trace s" "pending_of l ?s0 = pending_of l s" "loop_channels l ?s0 = loop_channels l s"
    "hw_contexts ?s0 = hw_contexts s" "hw_servers ?s0 = hw_servers s" "calling_of l ?s0 = calling_of l s"
    by (simp_all add: upd_loop_def view_defs loop_channels_def pl(3))
  have cs': "chans ?s0 = (chans s)(ch := setEvent ?rv (chans s ch))" by (simp only: v(1)) (auto simp: pl(4))
  have lps: "lp_poller (w_loops ?s0 l) = pl" "lp_threadId (w_loops ?s0 l) = lp_threadId (w_loops s l)"
    by (simp_all add: loop_simps)
  have "registered ch ?s0"
    using pl(2) m here r(2,3) by (simp add: registered_def isInLoopThread_def v lps cs pl(3))
  then have "conn_registered c ?s0" using r(2,3) by (simp add: conn_registered_def Let_def v cs l_def [symmetric] ch_def [symmetric])
  then have "served sv c ?s0" using D by (simp add: served_def Let_def v cs)
  moreover have "poll_active l ans s = Inr ?s0" by (simp add: poll_active_def pl(1))
  ultimately show ?thesis using v cs(5) cs' by (intro exI [of _ ?s0]) (simp add: loop_simps)
qed

text \<open>The pending functors after the event: the destruction of the connection.\<close>

lemma destroy_one:
  fixes P :: "('z http_world_scheme) program" and c n :: nat
  assumes reg: "conn_registered c s" and st: "cn_state (cw_conns s c) \<in> {kConnected, kDisconnecting}"
  defines "l \<equiv> cn_loop (cw_conns s c)"
  shows "\<exists>s'. system_run P (Suc n) (ConnectDestory c) s = Inr s' \<and> cw_conns s' = (cw_conns s)(c := setState kDisconnected (cw_conns s c))
    \<and> loop_channels l s' = (loop_channels l s)(cn_fd (cw_conns s c) := None) \<and> poller_ok (lp_poller (w_loops s' l)) (chans s')
    \<and> sw_servers s' = sw_servers s \<and> (\<forall>k. pending_of k s' = pending_of k s)
    \<and> untouched {c} {cn_channel (cw_conns s c)} {cn_fd (cw_conns s c)} s s'"
proof -
  let ?cn = "cw_conns s c"
  have calm: "calm_callbacks (system_env P (system_run P n)) c"
    by (simp add: calm_callbacks_def http_onConnection_def same_registry_refl)
  from connectDestory_effect [OF reg st calm, folded l_def] obtain s1 s2 s3 pl pl' cs where
    s3: "connectDestory (system_env P (system_run P n)) c s = Inr s3"
      "s1 = upd_loop l (\<lambda>lp. lp\<lparr>lp_poller := pl\<rparr>) (upd_chan (cn_channel ?cn) noBits (upd_conn c (setState kDisconnected) s))"
      "call_set (cn_connectionCallBack ?cn) (\<lambda>h. http_onConnection h c) s1 = Inr s2"
      "s3 = set_poller l pl' cs s2" "same_but_index (chans s2) cs" "poller_ok pl' cs"
      "loop_channels l s3 = (loop_channels l s)(cn_fd ?cn := None)"
    unfolding system_env_sel by blast
  have "s2 = s1" using s3(3) by (auto simp: call_set_def http_onConnection_def split: option.splits)
  then have e: "s3 = set_poller l pl' cs (upd_chan (cn_channel ?cn) noBits (upd_conn c (setState kDisconnected) s))"
    "same_but_index (chans (upd_chan (cn_channel ?cn) noBits (upd_conn c (setState kDisconnected) s))) cs"
    using s3(2,4,5) by (simp_all add: set_poller_def upd_loop_def upd_chan_def upd_conn_def)
  let ?t = "upd_chan (cn_channel ?cn) noBits (upd_conn c (setState kDisconnected) s)"
  have "untouched {c} {cn_channel ?cn} {cn_fd ?cn} s ?t"
    by (rule untouched_trans [OF untouched_conn untouched_chan]) simp_all
  moreover have "untouched {c} {cn_channel ?cn} {cn_fd ?cn} ?t s3"
    unfolding e(1)
  proof (rule untouched_poller)
    show "pl_channels pl' fd = loop_channels l ?t fd" if "fd \<notin> {cn_fd ?cn}" for fd
      using that fun_cong [OF s3(7), of fd] by (simp add: e(1) loop_channels_def loop_simps)
    show "cs k = (chans ?t k)\<lparr>ch_index := ch_index (cs k)\<rparr>" for k using e(2) unfolding same_but_index_def by blast
  qed
  ultimately have "untouched {c} {cn_channel ?cn} {cn_fd ?cn} s s3" by (rule untouched_trans)
  then show ?thesis using s3(1,6,7)
    by (intro exI [of _ s3]) (simp add: perform_def Let_def, simp add: e(1) loop_simps)
qed

lemma destroy_pending:
  fixes P :: "('z http_world_scheme) program" and c n :: nat
  assumes reg: "conn_registered c s" and st: "cn_state (cw_conns s c) \<in> {kConnected, kDisconnecting}"
    and pend: "pending_of (cn_loop (cw_conns s c)) s = [ConnectDestory c]"
  defines "l \<equiv> cn_loop (cw_conns s c)"
  shows "\<exists>s'. doPendingFunctors (system_run P (Suc n)) l s = Inr s' \<and> cn_state (cw_conns s' c) = kDisconnected
    \<and> loop_channels l s' = (loop_channels l s)(cn_fd (cw_conns s c) := None)
    \<and> sw_servers s' = sw_servers s \<and> pending_of l s' = []"
proof -
  let ?t = "upd_loop l (\<lambda>lp. lp\<lparr>lp_pendingFunctor := []\<rparr>) (set_calling l True s)"
  have swap: "swap_pending l (set_calling l True s) = ([ConnectDestory c], ?t)"
    using pend by (simp add: swap_pending_def set_calling_def loop_simps view_defs l_def)
  have tv: "cw_conns ?t = cw_conns s" "sw_servers ?t = sw_servers s" "pending_of l ?t = []" "loop_channels l ?t = loop_channels l s"
    by (simp_all add: set_calling_def loop_simps view_defs loop_channels_def)
  have regt: "conn_registered c ?t"
    by (rule conn_registered_cong [OF reg]) (simp_all add: set_calling_def loop_simps)
  from destroy_one [OF regt, of P n, unfolded tv(1,2,4) l_def [symmetric], OF st] obtain s' where
    s': "system_run P (Suc n) (ConnectDestory c) ?t = Inr s'" "cw_conns s' = (cw_conns s)(c := setState kDisconnected (cw_conns s c))"
      "loop_channels l s' = (loop_channels l s)(cn_fd (cw_conns s c) := None)" "sw_servers s' = sw_servers s" "\<forall>k. pending_of k s' = pending_of k ?t"
    by (elim exE conjE) (rule that)
  have "doPendingFunctors (system_run P (Suc n)) l s = Inr (set_calling l False s')"
    unfolding doPendingFunctors_def Let_def swap prod.case fold_res.simps s'(1) bnd_Inr ..
  moreover have "cn_state (setState kDisconnected (cw_conns s c)) = kDisconnected" by (simp add: setState_def)
  ultimately show ?thesis
    using s'(2-5) tv(3)
    by (intro exI [of _ "set_calling l False s'"]) (simp add: set_calling_def loop_simps view_defs loop_channels_def)
qed

section \<open>Properties\<close>

text \<open>C7. A connection whose peer closes is gone after one turn of the loop. When the poll reports the end of
  the input on the channel of a connection of the server, alone or with a hang-up (then the connection is
  closed twice in the same turn, by the close callback and by the read callback), the turn ends without a
  fault, with nothing nested deeper than two calls: the connection is disconnected, its channel is out of the poller,
  the server has forgotten its name, and nothing is left to run; all other channels and names stay.\<close>

theorem hangup_turn:
  fixes P :: "('z http_world_scheme) program" and c n :: nat
  assumes "served sv c s" and "l = cn_loop (cw_conns s c)" and "ch = cn_channel (cw_conns s c)"
    and "pending_of l s = []" and "readv_documented (pg_kernel P)"
    and "poll_documented (pl_pollfds (lp_poller (w_loops s l))) (pa_nums ans) (pa_revents ans)"
    and "ready (lp_poller (w_loops s l)) (pa_revents ans) = [ch]"
    and "scast (pa_revents ans ! nat (ch_index (chans s ch))) \<in> {POLLIN, POLLIN OR POLLHUP}"
    and "an_ret (pg_kernel P (sk_trace s) (SysReadv (cn_fd (cw_conns s c))
        (writableBytes (cn_inputBuffer (cw_conns s c)) + extraBuf_size))) = 0"
  shows "\<exists>s'. loop_turn (system_run P (Suc (Suc n))) (system_read P (Suc (Suc n))) l ans s = Inr s'
    \<and> cn_state (cw_conns s' c) = kDisconnected
    \<and> loop_channels l s' = (loop_channels l s)(cn_fd (cw_conns s c) := None)
    \<and> ts_connects (sw_servers s' sv) = (ts_connects (sw_servers s sv))(cn_name (cw_conns s c) := None)
    \<and> pending_of l s' = []"
proof -
  let ?run = "system_run P (Suc (Suc n))" and ?read = "system_read P (Suc (Suc n))"
  from poll_one [OF assms(1), folded assms(2,3), OF assms(6,7)] obtain s0 where
    s0: "poll_active l ans s = Inr s0" "served sv c s0" "lp_activeChannels (w_loops s0 l) = [ch]"
      "ch_revent (chans s0 ch) = scast (pa_revents ans ! nat (ch_index (chans s ch)))" "cw_conns s0 = cw_conns s"
      "sw_servers s0 = sw_servers s" "pending_of l s0 = pending_of l s" "loop_channels l s0 = loop_channels l s"
      "sk_trace s0 = sk_trace s" by blast
  have ev: "ch_revent (chans s0 (cn_channel (cw_conns s0 c))) \<in> {POLLIN, POLLIN OR POLLHUP}"
    using assms(3,8) s0(4,5) by simp
  have eof: "an_ret (pg_kernel P (sk_trace s0) (SysReadv (cn_fd (cw_conns s0 c))
        (writableBytes (cn_inputBuffer (cw_conns s0 c)) + extraBuf_size))) = 0" using assms(9) s0(5,9) by simp
  from hangup_event [OF s0(2) assms(5) eof ev, of n "pa_now ans"] obtain s1 where
    s1: "handleEvent ?run ?read ch (pa_now ans) s0 = Inr s1" "hung_up sv c s0 s1"
    unfolding s0(5) assms(3) [symmetric] by blast
  obtain b where h: "conn_registered c s1" "cw_conns s1 = (cw_conns s)(c := set_input b (cw_conns s c))"
    "sw_servers s1 = forgets sv (cn_name (cw_conns s c)) (sw_servers s)" "pending_of l s1 = [ConnectDestory c]"
    "loop_channels l s1 = loop_channels l s"
    using s1(2) assms(2,4) s0(5-8) by (auto simp: hung_up_def Let_def)
  have c1: "cn_loop (cw_conns s1 c) = l" "cn_fd (cw_conns s1 c) = cn_fd (cw_conns s c)"
    "cn_state (cw_conns s1 c) \<in> {kConnected, kDisconnecting}"
    using servedD(2) [OF assms(1)] by (simp_all add: h(2) assms(2))
  have "pending_of (cn_loop (cw_conns s1 c)) s1 = [ConnectDestory c]" using h(4) c1(1) by simp
  from destroy_pending [OF h(1) c1(3) this, of P "Suc n", unfolded c1(1,2)] obtain s' where
    s': "doPendingFunctors ?run l s1 = Inr s'" "cn_state (cw_conns s' c) = kDisconnected"
      "loop_channels l s' = (loop_channels l s1)(cn_fd (cw_conns s c) := None)" "sw_servers s' = sw_servers s1"
      "pending_of l s' = []" by blast
  have "loop_turn ?run ?read l ans s = Inr s'"
    unfolding loop_turn_def s0(1) bnd_Inr s0(3) fold_res.simps s1(1) by (rule s'(1))
  then show ?thesis using s'(2-5) h(3,5) by (intro exI [of _ s']) simp
qed

text \<open>A channel that is not registered may be made anew.\<close>

lemma poller_ok_fresh:
  assumes "poller_ok pl cs" and "ch \<notin> ran (pl_channels pl)"
  shows "poller_ok pl (cs(ch := k))"
proof -
  have ne: "x \<noteq> ch" if "pl_channels pl fd = Some x" for fd x using assms(2) that by (auto intro: ranI)
  show ?thesis
    unfolding poller_ok_def
  proof (rule conjI)
    show "\<forall>fd x. pl_channels pl fd = Some x \<longrightarrow> 0 \<le> fd \<and> ch_fd ((cs(ch := k)) x) = fd \<and> 0 \<le> ch_index ((cs(ch := k)) x)
        \<and> nat (ch_index ((cs(ch := k)) x)) < length (pl_pollfds pl)
        \<and> decoded (pl_pollfds pl ! nat (ch_index ((cs(ch := k)) x))) = fd"
      using assms(1) ne by (simp add: poller_ok_def)
    show "\<forall>i<length (pl_pollfds pl). \<exists>x. pl_channels pl (decoded (pl_pollfds pl ! i)) = Some x
        \<and> ch_index ((cs(ch := k)) x) = int i"
    proof (intro allI impI)
      fix i assume "i < length (pl_pollfds pl)"
      then obtain x where "pl_channels pl (decoded (pl_pollfds pl ! i)) = Some x" "ch_index (cs x) = int i"
        using assms(1) by (auto simp: poller_ok_def)
      with ne [OF this(1)] show "\<exists>x. pl_channels pl (decoded (pl_pollfds pl ! i)) = Some x
        \<and> ch_index ((cs(ch := k)) x) = int i" by auto
    qed
  qed
qed

lemma server_ok_cong:
  assumes "server_ok sv s" and "sw_servers s' = sw_servers s"
    and "\<And>d. cn_name (cw_conns s' d) = cn_name (cw_conns s d)"
    and "\<And>d. cn_closeCallBack (cw_conns s' d) = cn_closeCallBack (cw_conns s d)"
  shows "server_ok sv s'"
  using assms(1) by (simp add: server_ok_def assms(2-4))

lemma setState_sel [simp]:
  "cn_loop (setState st cn) = cn_loop cn" "cn_name (setState st cn) = cn_name cn" "cn_state (setState st cn) = st"
  "cn_fd (setState st cn) = cn_fd cn" "cn_channel (setState st cn) = cn_channel cn" "cn_peerAddr (setState st cn) = cn_peerAddr cn"
  "cn_inputBuffer (setState st cn) = cn_inputBuffer cn" "cn_closeCallBack (setState st cn) = cn_closeCallBack cn"
  by (simp_all add: setState_def)

lemma made_channel_sel [simp]:
  "ch_loop (made_channel l fd c) = l" "ch_fd (made_channel l fd c) = fd" "ch_event (made_channel l fd c) = 0"
  "ch_index (made_channel l fd c) = -1" "ch_readCallBack (made_channel l fd c) = Some (ConnHandleRead c)"
  "ch_closeCallBack (made_channel l fd c) = Some (ConnHandleClose c)"
  by (simp_all add: made_channel_def channel_new_def)

text \<open>The fields of the HTTP server are what the record of a server is extended by.\<close>

lemma http_fields:
  fixes s s' :: "'z http_world_scheme"
  assumes "server_world.more s' = server_world.more s"
  shows "hw_contexts s' = hw_contexts s" and "hw_servers s' = hw_servers s"
  using assms by (cases s; cases s'; simp)+

text \<open>What the read callback of the acceptor leaves before the connection is established.\<close>

lemma accepted_connection_made:
  fixes P :: "('z http_world_scheme) program" and c n :: nat
  assumes cb: "ac_newConnCallBack (aw_acceptors s a) = Some sv" and l: "ac_loop (aw_acceptors s a) = l"
    and sv: "ts_loop (sw_servers s sv) = l" "tp_loops (ts_threadpoll (sw_servers s sv)) = []" and here: "isInLoopThread l s"
    and ok: "server_ok sv s" "ts_nextConnId (sw_servers s sv) < 2147483647" "c \<notin> ran (ts_connects (sw_servers s sv))"
    and ans: "ans = pg_kernel P (sk_trace s) (SysAccept (ac_fd (aw_acceptors s a)))" "0 \<le> an_ret ans"
    and pg: "pg_new_conn P (s\<lparr>sk_trace := sk_trace s @ [(SysAccept (ac_fd (aw_acceptors s a)), ans)]\<rparr>) = (ch, c)"
  shows "\<exists>tp (s1 :: 'z http_world_scheme) s2. system_run P (Suc (Suc n)) (AcceptorHandleRead a) s
      = runInLoop (system_run P (Suc n)) l (ConnectEstablished c) s2
    \<and> cw_conns s2 = (cw_conns s)(c := made_connection (pg_kernel P) ch sv (an_ret ans) (an_addr ans) s1)
    \<and> sw_servers s1 = sw_servers s \<and> sw_servers s2 = (sw_servers s)(sv := server_after tp c (sw_servers s sv))
    \<and> w_loops s2 = w_loops s \<and> isInLoopThread l s2 \<and> server_ok sv s2
    \<and> chans s2 = (chans s)(ch := made_channel l (an_ret ans) c) \<and> hw_contexts s2 = hw_contexts s \<and> untouched {c} {ch} {} s s2
    \<and> tp_loops tp = []"
proof -
  let ?K = "pg_kernel P" and ?run = "system_run P (Suc n)" and ?call = "SysAccept (ac_fd (aw_acceptors s a))"
  obtain s1 where s1: "s1 = snd (syscall ?K ?call s)" by blast
  have v1: "sw_servers s1 = sw_servers s" "cw_conns s1 = cw_conns s" "chans s1 = chans s" "w_loops s1 = w_loops s"
    "isInLoopThread l s1" using here by (simp_all add: s1 loop_simps)
  have pg': "pg_new_conn P s1 = (ch, c)" using ans(1) pg by (simp add: s1 syscall_def Let_def)
  have here': "isInLoopThread (ac_loop (aw_acceptors s a)) s" using l here by simp
  have accept: "system_run P (Suc (Suc n)) (AcceptorHandleRead a) s
      = server_newConnection ?K ?run ch c sv (an_ret ans) (an_addr ans) s1"
    using cb ans pg' by (simp add: perform_def Let_def acceptor_handleRead_eq [OF here'] s1 [symmetric])
  have ok1: "server_ok sv s1" by (rule server_ok_cong [OF ok(1) v1(1)]) (simp_all add: v1(2))
  have "isInLoopThread (ts_loop (sw_servers s1 sv)) s1" "ts_nextConnId (sw_servers s1 sv) < 2147483647"
    using sv(1) ok(2) v1(5) by (simp_all add: v1(1))
  from newConnection_eq [OF this(1) ok1 this(2), of ?K ?run ch c "an_ret ans" "an_addr ans"] obtain tp s2 call where
    s2: "server_newConnection ?K ?run ch c sv (an_ret ans) (an_addr ans) s1
        = runInLoop ?run (turn (ts_threadpoll (sw_servers s sv)) 0) (ConnectEstablished c) s2"
      "cw_conns s2 = (cw_conns s)(c := made_connection ?K ch sv (an_ret ans) (an_addr ans) s1)"
      "sw_servers s2 = (sw_servers s)(sv := server_after tp c (sw_servers s sv))"
      "pool_ok tp" "tp_baseloop tp = l" "w_loops s2 = w_loops s" "w_tid s2 = w_tid s1" "tp_loops tp = tp_loops (ts_threadpoll (sw_servers s sv))"
      "chans s2 = (chans s)(ch := made_channel (turn (ts_threadpoll (sw_servers s sv)) 0) (an_ret ans) c)"
      "sk_trace s2 = sk_trace s1 @ [(SysGetsockname (an_ret ans), call)]" "aw_acceptors s2 = aw_acceptors s1"
      "server_world.more s2 = server_world.more s1"
    unfolding v1 sv(1) by (elim exE conjE) (rule that)
  have hw: "hw_contexts s2 = hw_contexts s" "hw_servers s2 = hw_servers s"
    using http_fields [OF s2(12)] by (simp_all add: s1 syscall_def Let_def)
  have "untouched {c} {ch} {} s1 s2"
    by (simp add: untouched_def s2(2,6,7,9-11) v1 http_fields [OF s2(12)] loop_channels_def written_snoc shutdowns_snoc)
  moreover have "untouched {c} {ch} {} s s1" unfolding s1 by (rule untouched_syscall) simp
  ultimately have ut: "untouched {c} {ch} {} s s2" by (rule untouched_trans [rotated])
  have base: "turn (ts_threadpoll (sw_servers s sv)) 0 = l"
    using sv ok(1) by (simp add: turn_def server_ok_def Let_def)
  have "isInLoopThread l s2" using v1(4,5) s2(6,7) by (simp add: isInLoopThread_def)
  moreover have "server_ok sv s2"
    by (rule server_ok_after [OF ok1 _ s2(2) [folded v1(2)] _ s2(4)]) (simp_all add: v1(1) sv(1) ok(3) s2(3,5))
  ultimately show ?thesis using s2(1-3,6,9) trans [OF s2(8) sv(2)] v1(1) hw(1) ut unfolding accept base by blast
qed

text \<open>And after it: the connection is established in the same call.\<close>

lemma accepted_connection_effect:
  fixes P :: "('z http_world_scheme) program" and c n :: nat
  assumes "ac_newConnCallBack (aw_acceptors s a) = Some sv" and "ac_loop (aw_acceptors s a) = l"
    and "ts_loop (sw_servers s sv) = l" and "tp_loops (ts_threadpoll (sw_servers s sv)) = []" and "isInLoopThread l s"
    and "server_ok sv s" and "ts_nextConnId (sw_servers s sv) < 2147483647" and "c \<notin> ran (ts_connects (sw_servers s sv))"
    and "ans = pg_kernel P (sk_trace s) (SysAccept (ac_fd (aw_acceptors s a)))" and "0 \<le> an_ret ans"
    and "pg_new_conn P (s\<lparr>sk_trace := sk_trace s @ [(SysAccept (ac_fd (aw_acceptors s a)), ans)]\<rparr>) = (ch, c)"
    and "poller_ok (lp_poller (w_loops s l)) (chans s)" and "loop_channels l s (an_ret ans) = None"
    and "ch \<notin> ran (loop_channels l s)"
  shows "\<exists>s' tp (s1 :: 'z http_world_scheme). system_run P (Suc (Suc n)) (AcceptorHandleRead a) s = Inr s' \<and> served sv c s' \<and> server_ok sv s'
    \<and> sw_servers s1 = sw_servers s
    \<and> cw_conns s' = (cw_conns s)(c := setState kConnected (made_connection (pg_kernel P) ch sv (an_ret ans) (an_addr ans) s1))
    \<and> sw_servers s' = (sw_servers s)(sv := server_after tp c (sw_servers s sv)) \<and> conn_ok c s'
    \<and> loop_channels l s' = (loop_channels l s)(an_ret ans \<mapsto> ch) \<and> ch_event (chans s' ch) = kReadEvent
    \<and> ch_writeCallBack (chans s' ch) = Some (ConnHandleWrite c) \<and> hw_contexts s' = hw_contexts s
    \<and> (\<forall>k. pending_of k s' = pending_of k s) \<and> untouched {c} {ch} {an_ret ans} s s' \<and> tp_loops tp = []
    \<and> (\<forall>fd. written fd (sk_trace s') = written fd (sk_trace s))"
proof -
  let ?K = "pg_kernel P"
  from accepted_connection_made [OF assms(1-11), of n] obtain tp s2 and s1 :: "'z http_world_scheme" where
    s2: "system_run P (Suc (Suc n)) (AcceptorHandleRead a) s = runInLoop (system_run P (Suc n)) l (ConnectEstablished c) s2"
      "cw_conns s2 = (cw_conns s)(c := made_connection ?K ch sv (an_ret ans) (an_addr ans) s1)" "sw_servers s1 = sw_servers s"
      "sw_servers s2 = (sw_servers s)(sv := server_after tp c (sw_servers s sv))" "w_loops s2 = w_loops s"
      "isInLoopThread l s2" "server_ok sv s2" "chans s2 = (chans s)(ch := made_channel l (an_ret ans) c)"
      "hw_contexts s2 = hw_contexts s" "untouched {c} {ch} {} s s2" "tp_loops tp = []"
    by blast
  have base: "turn (ts_threadpoll (sw_servers s sv)) 0 = l"
    using assms(3,4,6) by (simp add: turn_def server_ok_def Let_def)
  have "conn_fresh c s2"
    using s2(6) poller_ok_fresh [OF assms(12), of ch] assms(10,13,14)
    by (simp add: conn_fresh_def Let_def s2(2,3,5,8) base registrable_def loop_channels_def buf_ok_init contents_init)
  from established_effect [OF this, of "system_env P (system_run P n)"] obtain s3 pl i where
    s3: "connectEestablished (system_env P (system_run P n)) c s2
          = call_set (cn_connectionCallBack (cw_conns s2 c)) (\<lambda>h. http_onConnection h c) s3"
      "s3 = set_poller l pl ((chans s2)(ch := setIndex i (readingBits (chans s2 ch)))) (upd_conn c (setState kConnected) s2)"
      "conn_ok c s3" "cw_conns s3 = (cw_conns s2)(c := setState kConnected (cw_conns s2 c))"
      "ch_event (chans s3 ch) = kReadEvent" "loop_channels l s3 = (loop_channels l s2)(an_ret ans \<mapsto> ch)"
    by (simp add: s2(2,3) base) blast
  have other: "sw_servers s3 = sw_servers s2" "hw_contexts s3 = hw_contexts s2" "\<forall>k. pending_of k s3 = pending_of k s"
    by (simp_all add: s3(2) loop_simps view_defs s2(5)) (simp add: set_poller_def upd_loop_def upd_conn_def)
  have "sk_trace s3 = sk_trace s2" by (simp add: s3(2) loop_simps)
  then have wr: "\<forall>fd. written fd (sk_trace s3) = written fd (sk_trace s)" using untouchedD(8) [OF s2(10)] by simp
  have ch3: "chans s3 ch = setIndex i (readingBits (made_channel l (an_ret ans) c))" by (simp add: s3(2) loop_simps s2(8))
  have "untouched {c} {ch} {an_ret ans} (upd_conn c (setState kConnected) s2) s3" unfolding s3(2)
  proof (rule untouched_poller)
    show "pl_channels pl fd = loop_channels l (upd_conn c (setState kConnected) s2) fd" if "fd \<notin> {an_ret ans}" for fd
      using that fun_cong [OF s3(6), of fd] by (simp add: s3(2) loop_channels_def loop_simps)
  qed (simp add: loop_simps)
  then have ut: "untouched {c} {ch} {an_ret ans} s s3"
    using untouched_trans [OF untouched_mono [OF s2(10)] untouched_trans [OF untouched_conn]] by simp
  have "call_set (cn_connectionCallBack (cw_conns s2 c)) (\<lambda>h. http_onConnection h c) s3 = Inr s3"
    by (simp add: call_set_def http_onConnection_def split: option.splits)
  then have "system_run P (Suc (Suc n)) (AcceptorHandleRead a) s = Inr s3"
    using s2(6) s3(1) unfolding s2(1) by (simp add: runInLoop_def perform_def Let_def)
  moreover have "server_ok sv s3" by (rule server_ok_cong [OF s2(7) other(1)]) (simp_all add: s3(4))
  moreover have "served sv c s3"
    using conn_ok_registered [OF s3(3)] assms(3)
    by (simp add: served_def Let_def s3(4) s2(2,3,4) other(1) ch3 buf_ok_init base server_after_def readingBits_def setIndex_def)
  moreover have "loop_channels l s3 = (loop_channels l s)(an_ret ans \<mapsto> ch)"
    using s3(6) by (simp add: loop_channels_def s2(5))
  moreover have "ch_writeCallBack (chans s3 ch) = Some (ConnHandleWrite c)"
    by (simp add: ch3 setIndex_def readingBits_def made_channel_def)
  ultimately show ?thesis
    using s2(3,9,11) s3(3,5) other(2,3) ut wr
    by (intro exI [of _ s3] exI [of _ tp] exI [of _ s1]) (simp add: s3(4) s2(2,4) other(1))
qed

text \<open>C12. An accepted connection is served from then on. When the listening socket of a server without loop
  threads is readable and \<open>accept\<close> returns a descriptor, the read callback of the acceptor makes the
  connection, files it under a new name, connects it and registers its channel for reading, all in this one
  call and without a fault; what it leaves is exactly the state in which the connection can be served.\<close>

theorem accepted_connection_served:
  fixes P :: "('z http_world_scheme) program" and c n :: nat
  assumes "ac_newConnCallBack (aw_acceptors s a) = Some sv" and "ac_loop (aw_acceptors s a) = l"
    and "ts_loop (sw_servers s sv) = l" and "tp_loops (ts_threadpoll (sw_servers s sv)) = []" and "isInLoopThread l s"
    and "server_ok sv s" and "ts_nextConnId (sw_servers s sv) < 2147483647" and "c \<notin> ran (ts_connects (sw_servers s sv))"
    and "ans = pg_kernel P (sk_trace s) (SysAccept (ac_fd (aw_acceptors s a)))" and "0 \<le> an_ret ans"
    and "pg_new_conn P (s\<lparr>sk_trace := sk_trace s @ [(SysAccept (ac_fd (aw_acceptors s a)), ans)]\<rparr>) = (ch, c)"
    and "poller_ok (lp_poller (w_loops s l)) (chans s)" and "loop_channels l s (an_ret ans) = None"
    and "ch \<notin> ran (loop_channels l s)"
  shows "\<exists>s'. system_run P (Suc (Suc n)) (AcceptorHandleRead a) s = Inr s' \<and> served sv c s' \<and> server_ok sv s'
    \<and> cn_state (cw_conns s' c) = kConnected \<and> cn_peerAddr (cw_conns s' c) = an_addr ans
    \<and> ts_connects (sw_servers s' sv) = (ts_connects (sw_servers s sv))(next_name (sw_servers s sv) \<mapsto> c)
    \<and> loop_channels l s' = (loop_channels l s)(an_ret ans \<mapsto> ch) \<and> ch_event (chans s' ch) = kReadEvent"
proof -
  from accepted_connection_effect [OF assms, of n] obtain s' tp and s1 :: "'z http_world_scheme" where
    "system_run P (Suc (Suc n)) (AcceptorHandleRead a) s = Inr s'" "served sv c s'" "server_ok sv s'"
    "sw_servers s1 = sw_servers s"
    "cw_conns s' = (cw_conns s)(c := setState kConnected (made_connection (pg_kernel P) ch sv (an_ret ans) (an_addr ans) s1))"
    "sw_servers s' = (sw_servers s)(sv := server_after tp c (sw_servers s sv))"
    "loop_channels l s' = (loop_channels l s)(an_ret ans \<mapsto> ch)" "ch_event (chans s' ch) = kReadEvent"
    by (elim exE conjE) (rule that)
  then show ?thesis by (intro exI [of _ s']) (simp add: server_after_def)
qed

section \<open>Witnesses\<close>

text \<open>The connection 1 of server 3, on descriptor 9, and a poll that reports it hung up.\<close>

definition sample_served :: http_world where
  "sample_served = (sample_http [])
     \<lparr>chans := (\<lambda>_. (made_channel 0 9 1)\<lparr>ch_event := 3, ch_index := 0\<rparr>),
      sw_servers := (\<lambda>_. \<lparr>ts_loop = 0, ts_name = ''s'', ts_acceptor = 0,
        ts_threadpoll = \<lparr>tp_baseloop = 0, tp_started = True, tp_numThreads = 0, tp_next = 0, tp_loops = []\<rparr>,
        ts_connectCallBack = Some 0, ts_messageCallBack = Some 0, ts_started = True, ts_nextConnId = 2,
        ts_connects = [''c'' \<mapsto> 1]\<rparr>)\<rparr>"

definition sample_program :: "http_world program" where
  "sample_program = \<lparr>pg_kernel = delivers [], pg_clock = (\<lambda>_. 0), pg_new_conn = (\<lambda>_. (2, 2)), pg_other = (\<lambda>_. Inr)\<rparr>"

definition hangup_answer :: poll_answer where
  "hangup_answer = \<lparr>pa_nums = 1, pa_revents = [0x11], pa_now = 5\<rparr>"

lemma sample_served_sel:
  "cw_conns sample_served (Suc 0) = set_input (buffer_of []) (sample_connection kConnected)" "sk_trace sample_served = []"
  "chans sample_served k = (made_channel 0 9 1)\<lparr>ch_event := 3, ch_index := 0\<rparr>" "w_tid sample_served = 7"
  "lp_threadId (w_loops sample_served k) = 7" "pending_of k sample_served = []"
  "lp_poller (w_loops sample_served k) = \<lparr>pl_pollfds = [\<lparr>pfd_fd = 9, pfd_events = 3, pfd_revents = 0\<rparr>], pl_channels = [9 \<mapsto> 1]\<rparr>"
  "ts_loop (sw_servers sample_served v) = 0" "ts_connects (sw_servers sample_served v) = [''c'' \<mapsto> 1]"
  by (simp_all add: sample_served_def sample_http_def http_world.defs server_world.defs acceptor_world.defs conn_world.defs
      sample_input_def loop_simps view_defs) (simp_all add: sample_conns_def)

lemma sample_served: "served 3 1 sample_served"
proof -
  have "length [] < 1000" by simp
  from buffer_of_ok(1) [OF this] show ?thesis
    by (simp add: served_def Let_def conn_registered_def registered_def isInLoopThread_def sample_served_sel poller_ok_def
        decoded_def made_channel_def channel_new_def) (simp add: sample_connection_def set_input_def)
qed

lemma hangup_turn_witness:
  "\<exists>s'. loop_turn (system_run sample_program 2) (system_read sample_program 2) 0 hangup_answer sample_served = Inr s'
    \<and> cn_state (cw_conns s' 1) = kDisconnected \<and> loop_channels 0 s' = Map.empty
    \<and> ts_connects (sw_servers s' 3) = Map.empty"
proof -
  have l: "0 = cn_loop (cw_conns sample_served 1)" and ch: "1 = cn_channel (cw_conns sample_served 1)"
    and fd: "cn_fd (cw_conns sample_served 1) = 9" and nm: "cn_name (cw_conns sample_served 1) = ''c''"
    by (simp_all add: sample_served_sel) (simp add: sample_connection_def)
  have doc: "readv_documented (pg_kernel sample_program)" by (simp add: sample_program_def delivers_documented)
  have p: "poll_documented (pl_pollfds (lp_poller (w_loops sample_served 0))) (pa_nums hangup_answer) (pa_revents hangup_answer)"
    by (simp add: poll_documented_def sample_served_sel hangup_answer_def)
  have r: "ready (lp_poller (w_loops sample_served 0)) (pa_revents hangup_answer) = [1]"
    by (simp add: ready_def slot_channel_def sample_served_sel hangup_answer_def)
  have e: "scast (pa_revents hangup_answer ! nat (ch_index (chans sample_served 1))) \<in> {POLLIN, POLLIN OR POLLHUP :: 32 word}"
    by (simp add: sample_served_sel hangup_answer_def poll_bits)
  have eof: "an_ret (pg_kernel sample_program (sk_trace sample_served) (SysReadv (cn_fd (cw_conns sample_served 1))
        (writableBytes (cn_inputBuffer (cw_conns sample_served 1)) + extraBuf_size))) = 0"
    by (simp add: sample_program_def delivers_def)
  have two: "Suc (Suc 0) = 2" by simp
  from hangup_turn [OF sample_served l ch sample_served_sel(6) doc p r e eof, of 0] show ?thesis
    by (auto simp: two fd loop_channels_def sample_served_sel sample_connection_def)
qed

text \<open>Server 3 with a listening socket, before its first connection.\<close>

definition sample_listening :: http_world where
  "sample_listening = sample_served
     \<lparr>sw_servers := (\<lambda>_. \<lparr>ts_loop = 0, ts_name = ''s'', ts_acceptor = 0,
        ts_threadpoll = \<lparr>tp_baseloop = 0, tp_started = True, tp_numThreads = 0, tp_next = 0, tp_loops = []\<rparr>,
        ts_connectCallBack = Some 0, ts_messageCallBack = Some 0, ts_started = True, ts_nextConnId = 1,
        ts_connects = Map.empty\<rparr>),
      aw_acceptors := (\<lambda>_. \<lparr>ac_loop = 0, ac_fd = 4, ac_channel = 7, ac_newConnCallBack = Some 3, ac_listenning = True\<rparr>)\<rparr>"

lemma sample_listening_sel:
  "aw_acceptors sample_listening a = \<lparr>ac_loop = 0, ac_fd = 4, ac_channel = 7, ac_newConnCallBack = Some 3, ac_listenning = True\<rparr>"
  "sw_servers sample_listening v = \<lparr>ts_loop = 0, ts_name = ''s'', ts_acceptor = 0,
        ts_threadpoll = \<lparr>tp_baseloop = 0, tp_started = True, tp_numThreads = 0, tp_next = 0, tp_loops = []\<rparr>,
        ts_connectCallBack = Some 0, ts_messageCallBack = Some 0, ts_started = True, ts_nextConnId = 1, ts_connects = Map.empty\<rparr>"
  "chans sample_listening = chans sample_served" "w_loops sample_listening = w_loops sample_served"
  "w_tid sample_listening = w_tid sample_served" "sk_trace sample_listening = sk_trace sample_served"
  by (simp_all add: sample_listening_def)

lemma accepted_connection_served_witness:
  "\<exists>s'. system_run sample_program 2 (AcceptorHandleRead 0) sample_listening = Inr s' \<and> served 3 2 s'
    \<and> ts_connects (sw_servers s' 3) = [''s#1'' \<mapsto> 2] \<and> loop_channels 0 s' = [9 \<mapsto> 1, 0 \<mapsto> 2]"
proof -
  let ?s = "sample_listening"
  let ?ans = "pg_kernel sample_program (sk_trace ?s) (SysAccept (ac_fd (aw_acceptors ?s 0)))"
  have cb: "ac_newConnCallBack (aw_acceptors ?s 0) = Some 3" and l: "ac_loop (aw_acceptors ?s 0) = 0"
    and ts: "ts_loop (sw_servers ?s 3) = 0" and no: "tp_loops (ts_threadpoll (sw_servers ?s 3)) = []"
    and id: "ts_nextConnId (sw_servers ?s 3) < 2147483647" and free: "2 \<notin> ran (ts_connects (sw_servers ?s 3))"
    by (simp_all add: sample_listening_sel)
  have here: "isInLoopThread 0 ?s" by (simp add: isInLoopThread_def sample_listening_sel sample_served_sel)
  have ok: "server_ok 3 ?s" by (simp add: server_ok_def Let_def sample_listening_sel pool_ok_def)
  have ret: "0 \<le> an_ret ?ans" "an_ret ?ans = 0" by (simp_all add: sample_program_def delivers_def three_bytes_def)
  have new: "pg_new_conn sample_program (?s\<lparr>sk_trace := sk_trace ?s @ [(SysAccept (ac_fd (aw_acceptors ?s 0)), ?ans)]\<rparr>) = (2, 2)"
    by (simp add: sample_program_def)
  have p: "poller_ok (lp_poller (w_loops ?s 0)) (chans ?s)"
    by (simp add: sample_listening_sel sample_served_sel poller_ok_def decoded_def made_channel_def channel_new_def)
  have lc: "loop_channels 0 ?s = [9 \<mapsto> 1]" by (simp add: loop_channels_def sample_listening_sel sample_served_sel)
  have none: "loop_channels 0 ?s (an_ret ?ans) = None" and ch: "2 \<notin> ran (loop_channels 0 ?s)"
    unfolding lc ret(2) by simp_all
  have two: "Suc (Suc 0) = 2" by simp
  have name: "next_name (sw_servers ?s 3) = ''s#1''"
    by (simp add: sample_listening_sel next_name_def conn_suffix_def dec_int_def dec.simps)
  from accepted_connection_served [OF cb l ts no here ok id free refl ret(1) new p none ch, of 0] obtain s' where
    "system_run sample_program 2 (AcceptorHandleRead 0) ?s = Inr s'" "served 3 2 s'"
    "ts_connects (sw_servers s' 3) = (ts_connects (sw_servers ?s 3))(''s#1'' \<mapsto> 2)" "loop_channels 0 s' = [9 \<mapsto> 1, 0 \<mapsto> 2]"
    unfolding two name lc ret(2) by blast
  then show ?thesis by (intro exI [of _ s']) (simp add: sample_listening_sel)
qed

end
