(* ===== verification/ServerFunctors.thy ===== *)
theory ServerFunctors
  imports Program
begin

text \<open>
  The functors a server queues in its loops, run by the program: each of them keeps the contract the event
  loop has with its functors, so that a round of pending functors of a server ends as the loop expects.
\<close>

section \<open>What the operations of a loop's channels do to its queue\<close>

text \<open>An operation that touches neither the queue of any loop nor its eventfd.\<close>

definition queues_same :: "('cb, 'z) world_scheme \<Rightarrow> ('cb, 'z) world_scheme \<Rightarrow> bool" where
  "queues_same s s' \<longleftrightarrow> (\<forall>l. pending_of l s' = pending_of l s \<and> calling_of l s' = calling_of l s \<and> eventfd_of l s' = eventfd_of l s)"

lemma queues_same_kept: "queues_same s s' \<Longrightarrow> loop_kept F l s s'"
  by (intro loop_kept_same) (simp_all add: queues_same_def)

lemma queues_same_refl [simp]: "queues_same s s"
  by (simp add: queues_same_def)

lemma queues_same_trans: "queues_same s t \<Longrightarrow> queues_same t u \<Longrightarrow> queues_same s u"
  by (simp add: queues_same_def)

lemma queues_same_loops: "w_loops s' = w_loops s \<Longrightarrow> queues_same s s'"
  by (simp add: queues_same_def view_defs)

lemma queues_same_upd [simp]:
  "queues_same s (upd_chan ch g t) = queues_same s t" "queues_same s (snd (syscall K call t)) = queues_same s t"
  "queues_same (snd (syscall K call s)) t = queues_same s t"
  by (simp_all add: queues_same_def view_defs upd_chan_def syscall_def Let_def)

lemma syscall_same:
  assumes "syscall K call s = (a, t)"
  shows "queues_same s t" and "queues_same t v = queues_same s v"
proof -
  have "t = snd (syscall K call s)" by (simp add: assms)
  then show "queues_same s t" "queues_same t v = queues_same s v" by simp_all
qed

lemma queues_same_conn [simp]:
  "queues_same s (upd_conn c f t) = queues_same s t" "queues_same (upd_conn c f s) t = queues_same s t"
  by (simp_all add: queues_same_def view_defs upd_conn_def)

lemma queues_same_timers [simp]:
  "queues_same s (upd_queue l q t) = queues_same s t" "queues_same s (upd_timer p tm t) = queues_same s t"
  "queues_same s (resetTimerfd clock l e t) = queues_same s t"
  by (simp_all add: queues_same_def view_defs upd_queue_def upd_timer_def resetTimerfd_def clock_now_def)

lemma queues_same_server [simp]:
  "queues_same s (upd_server sv h t) = queues_same s t"
  by (simp add: queues_same_def view_defs upd_server_def)

lemma queues_same_acceptor [simp]:
  "queues_same s (upd_acceptor a k t) = queues_same s t" "queues_same (upd_acceptor a k s) t = queues_same s t"
  by (simp_all add: queues_same_def view_defs upd_acceptor_def)

lemma with_poller_same:
  assumes "with_poller l f s = Inr s'"
  shows "queues_same s s'"
  using assms by (auto simp: with_poller_def res_simps queues_same_def view_defs upd_loop_def split: if_splits)

lemma channel_same:
  "channel_update c s = Inr s' \<Longrightarrow> queues_same s s'" "loop_removeChannel l c s = Inr s' \<Longrightarrow> queues_same s s'"
  by (auto simp: channel_update_def loop_updateChannel_def loop_removeChannel_def res_simps dest: with_poller_same)

lemma enable_same:
  "enableReading c s = Inr s' \<Longrightarrow> queues_same s s'" "enableWriting c s = Inr s' \<Longrightarrow> queues_same s s'"
  "disableWriting c s = Inr s' \<Longrightarrow> queues_same s s'" "disableAll c s = Inr s' \<Longrightarrow> queues_same s s'"
  unfolding enableReading_def enableWriting_def disableWriting_def disableAll_def
  by (drule channel_same(1), simp add: queues_same_def view_defs upd_chan_def)+

section \<open>The functors of a server\<close>

lemma timer_functors_same:
  "addTimerInloop clock l p s = Inr s' \<Longrightarrow> queues_same s s'" "timer_cancelInLoop l p n s = Inr s' \<Longrightarrow> queues_same s s'"
  by (auto simp: addTimerInloop_def timer_insert_def timer_cancelInLoop_def with_timer_def res_simps Let_def
      split: option.splits prod.splits if_splits)

lemma shutdown_same: "shutdownInloop K c s = Inr s' \<Longrightarrow> queues_same s s'"
  by (auto simp: shutdownInloop_def socket_shutdownWrite_def res_simps split: if_splits)

lemma send_same:
  assumes "sendInloop K c message s = Inr s'"
  shows "queues_same s s'"
proof -
  obtain n t where t: "(if \<not> isWriting (chans s (cn_channel (cw_conns s c))) \<and> readableBytes (cn_outputBuffer (cw_conns s c)) = 0
      then case syscall K (SysWrite (ch_fd (chans s (cn_channel (cw_conns s c)))) message) s of (a, s) \<Rightarrow>
             (if an_ret a \<ge> 0 then an_ret a else 0, s)
      else (0, s)) = (n, t)" by fastforce
  have same: "queues_same s t"
    using t by (auto split: if_splits prod.splits dest: syscall_same(1))
  from assms show ?thesis
    unfolding sendInloop_def Let_def t
    by (auto simp: res_simps same split: if_splits dest!: enable_same(2) intro: queues_same_trans [OF same])
qed

lemma established_same:
  "connectEestablished (system_env P run) c s = Inr s' \<Longrightarrow> queues_same s s'"
  by (auto simp: connectEestablished_def http_onConnection_def call_set_def res_simps Let_def split: option.splits
      dest!: enable_same)

lemma destory_same:
  "connectDestory (system_env P run) c s = Inr s' \<Longrightarrow> queues_same s s'"
  by (auto simp: connectDestory_def http_onConnection_def call_set_def res_simps Let_def split: option.splits
      dest!: enable_same channel_same intro: queues_same_trans)

lemma listen_same:
  assumes "acceptor_listen K a s = Inr s'"
  shows "queues_same s s'"
proof -
  let ?t = "upd_acceptor a (\<lambda>ac. ac\<lparr>ac_listenning := True\<rparr>) s"
  obtain x u where u: "syscall K (SysListen (ac_fd (aw_acceptors ?t a))) ?t = (x, u)" by fastforce
  with assms have "enableReading (ac_channel (aw_acceptors u a)) u = Inr s'"
    by (auto simp: acceptor_listen_def socket_listen_def res_simps Let_def)
  then have "queues_same u s'" by (rule enable_same)
  then show ?thesis using syscall_same(2) [OF u] by simp
qed

lemma remove_kept:
  assumes "server_removeConnectionInLoop sv c s = Inr s'" and "ConnectDestory c \<in> F"
  shows "loop_kept F l s s'"
proof -
  obtain n connects where m: "map_erase (cn_name (cw_conns s c)) (ts_connects (sw_servers s sv)) = (n, connects)" by fastforce
  let ?t = "upd_server sv (\<lambda>ts. ts\<lparr>ts_connects := connects\<rparr>) s"
  have t: "loop_kept F l s ?t" by (rule queues_same_kept) simp
  have q: "loop_kept F l ?t (queueInloop k (ConnectDestory c) ?t)" for k by (rule loop_kept_queue [OF assms(2)])
  from assms(1) have "s' = ?t \<or> (\<exists>k. s' = queueInloop k (ConnectDestory c) ?t)"
    by (auto simp: server_removeConnectionInLoop_def m res_simps Let_def split: if_splits)
  then show ?thesis using t loop_kept_trans [OF t q] by blast
qed

text \<open>What the members of a server, its connections, its acceptor and its timers give to \<open>queueInloop\<close> and
  \<open>runInLoop\<close>. A handler of events is never queued, and what the user queues is left out.\<close>

definition server_functors :: "closure set" where
  "server_functors = {cl. case cl of AddTimerInloop l p \<Rightarrow> True | CancelInLoop l p n \<Rightarrow> True
     | SendInloop c message \<Rightarrow> True | ShutdownInloop c \<Rightarrow> True | ConnectEstablished c \<Rightarrow> True
     | ConnectDestory c \<Rightarrow> True | RemoveConnectionInLoop sv c \<Rightarrow> True | AcceptorListen a \<Rightarrow> True | _ \<Rightarrow> False}"

lemma server_functors_ok: "functor_ok server_functors (system_run P n) l"
  unfolding functor_ok_def
proof (intro ballI allI impI)
  fix cl s s' assume cl: "cl \<in> server_functors" and r: "system_run P n cl s = Inr s'"
  from r obtain m where m: "perform P (system_run P m) cl 0 s = Inr s'" by (cases n) auto
  show "loop_kept server_functors l s s'"
  proof (cases "\<exists>sv c. cl = RemoveConnectionInLoop sv c")
    case True
    then show ?thesis using m by (auto simp: perform_def Let_def server_functors_def intro!: remove_kept)
  next
    case False
    have "queues_same s s'"
      using cl m False
      by (auto simp: perform_def Let_def server_functors_def split: closure.splits
          intro: timer_functors_same send_same shutdown_same established_same destory_same listen_same)
    then show ?thesis by (rule queues_same_kept)
  qed
qed

interpretation server: functor_runner server_functors "system_run P n" l for P n l
  by unfold_locales (rule server_functors_ok)

text \<open>A round of pending functors of a server, run by the program itself: nothing but functors of a server
  is queued afterwards, and if anything is, the loop will not sleep on it.\<close>

theorem server_round:
  assumes "doPendingFunctors (system_run P n) l s = Inr s'" and "set (pending_of l s) \<subseteq> server_functors"
  shows "\<not> calling_of l s' \<and> set (pending_of l s') \<subseteq> server_functors \<and> (pending_of l s' \<noteq> [] \<longrightarrow> 0 < eventfd_of l s')"
  using server.pending_round [OF assms] by blast

end
