(* ===== verification/Session.thy ===== *)
theory Session
  imports ServerFunctors
begin

text \<open>
  An HTTP connection through many turns of its loop: what the server answers is a function of the bytes
  that arrived, turn by turn, however the poller and the kernel schedule reading and writing.
\<close>

section \<open>What the events of a connection leave alone\<close>

text \<open>The parts of a connection and of a channel that are fixed once the server has made them.\<close>

definition conn_fixed :: "connection \<Rightarrow> nat \<times> string \<times> int \<times> nat \<times> nat option \<times> nat option" where
  "conn_fixed cn = (cn_loop cn, cn_name cn, cn_fd cn, cn_channel cn, cn_messageCallBack cn, cn_closeCallBack cn)"

definition callbacks :: "'cb channel \<Rightarrow> 'cb option \<times> 'cb option \<times> 'cb option \<times> 'cb option" where
  "callbacks ch = (ch_readCallBack ch, ch_writeCallBack ch, ch_errorCallBack ch, ch_closeCallBack ch)"

text \<open>The descriptor of a connection, as it and its channel know it.\<close>

definition own_fds :: "nat \<Rightarrow> 'z http_world_scheme \<Rightarrow> int set" where
  "own_fds c s = {cn_fd (cw_conns s c), ch_fd (chans s (cn_channel (cw_conns s c)))}"

definition conn_frame :: "nat \<Rightarrow> 'z http_world_scheme \<Rightarrow> 'z http_world_scheme \<Rightarrow> bool" where
  "conn_frame c s s' \<longleftrightarrow> queues_same s s' \<and> sw_servers s' = sw_servers s
     \<and> conn_fixed (cw_conns s' c) = conn_fixed (cw_conns s c)
     \<and> (\<forall>k. callbacks (chans s' k) = callbacks (chans s k) \<and> ch_revent (chans s' k) = ch_revent (chans s k)
          \<and> ch_fd (chans s' k) = ch_fd (chans s k))
     \<and> untouched {c} {cn_channel (cw_conns s c)} (own_fds c s) s s'"

lemma conn_frameD:
  assumes "conn_frame c s s'"
  shows "conn_fixed (cw_conns s' c) = conn_fixed (cw_conns s c)" and "sw_servers s' = sw_servers s" and "pending_of k s' = pending_of k s"
    and "callbacks (chans s' k) = callbacks (chans s k)" and "ch_revent (chans s' k) = ch_revent (chans s k)"
    and "untouched {c} {cn_channel (cw_conns s c)} (own_fds c s) s s'" and "hw_servers s' = hw_servers s"
    and "isInLoopThread k s' = isInLoopThread k s"
  using assms untouchedD(1,2,4) [of "{c}" "{cn_channel (cw_conns s c)}" "own_fds c s" s s']
  by (simp_all add: conn_frame_def queues_same_def isInLoopThread_def)

lemma conn_fixed_sel:
  assumes "conn_fixed cn' = conn_fixed cn"
  shows "cn_loop cn' = cn_loop cn" and "cn_channel cn' = cn_channel cn" and "cn_fd cn' = cn_fd cn" and "cn_name cn' = cn_name cn"
  using assms by (simp_all add: conn_fixed_def)

lemma conn_frame_refl [simp]: "conn_frame c s s"
  by (simp add: conn_frame_def)

lemma conn_frame_own:
  assumes "conn_frame c s s'"
  shows "own_fds c s' = own_fds c s"
  using assms conn_fixed_sel [OF conn_frameD(1) [OF assms]] by (simp add: conn_frame_def own_fds_def)

lemma conn_frame_trans [trans]:
  assumes "conn_frame c s t" and "conn_frame c t u"
  shows "conn_frame c s u"
proof -
  have "untouched {c} {cn_channel (cw_conns s c)} (own_fds c s) t u"
    using conn_frameD(6) [OF assms(2)] conn_fixed_sel(2) [OF conn_frameD(1) [OF assms(1)]] conn_frame_own [OF assms(1)] by simp
  with conn_frameD(6) [OF assms(1)] have "untouched {c} {cn_channel (cw_conns s c)} (own_fds c s) s u" by (rule untouched_trans)
  then show ?thesis using assms by (simp add: conn_frame_def queues_same_def)
qed

lemma conn_fixed_upd [simp]:
  "conn_fixed (cn\<lparr>cn_inputBuffer := b\<rparr>) = conn_fixed cn" "conn_fixed (cn\<lparr>cn_outputBuffer := b\<rparr>) = conn_fixed cn"
  "conn_fixed (setState st cn) = conn_fixed cn" "conn_fixed (set_input b cn) = conn_fixed cn"
  by (simp_all add: conn_fixed_def setState_def set_input_def)

lemma callbacks_upd [simp]:
  "callbacks (writingBits ch) = callbacks ch" "callbacks (noWritingBits ch) = callbacks ch"
  "callbacks (ch\<lparr>ch_eventHanding := f\<rparr>) = callbacks ch" "callbacks (setIndex i ch) = callbacks ch"
  "ch_revent (writingBits ch) = ch_revent ch" "ch_revent (noWritingBits ch) = ch_revent ch" "ch_revent (setIndex i ch) = ch_revent ch"
  "ch_fd (writingBits ch) = ch_fd ch" "ch_fd (noWritingBits ch) = ch_fd ch"
  by (simp_all add: callbacks_def writingBits_def noWritingBits_def setIndex_def)

text \<open>The primitive changes a handler makes, each after a change that keeps the frame.\<close>

lemma frame_syscall:
  assumes "conn_frame c s t" and "call_on (own_fds c t) call"
  shows "conn_frame c s (snd (syscall K call t))"
proof (rule conn_frame_trans [OF assms(1)])
  show "conn_frame c t (snd (syscall K call t))"
    using untouched_syscall [OF assms(2)] by (simp add: conn_frame_def queues_same_def view_defs loop_simps)
qed

lemma frame_context:
  assumes "conn_frame c s t"
  shows "conn_frame c s (upd_context c ctx t)"
proof (rule conn_frame_trans [OF assms])
  have "untouched {c} {cn_channel (cw_conns t c)} (own_fds c t) t (upd_context c ctx t)" by (rule untouched_context) simp
  then show "conn_frame c t (upd_context c ctx t)" by (simp add: conn_frame_def queues_same_def view_defs upd_context_def)
qed

lemma frame_conn:
  assumes "conn_frame c s t" and "\<And>cn. conn_fixed (f cn) = conn_fixed cn"
  shows "conn_frame c s (upd_conn c f t)"
proof (rule conn_frame_trans [OF assms(1)])
  have "untouched {c} {cn_channel (cw_conns t c)} (own_fds c t) t (upd_conn c f t)" by (rule untouched_conn) simp
  then show "conn_frame c t (upd_conn c f t)"
    using assms(2) by (simp add: conn_frame_def queues_same_def view_defs upd_conn_def)
qed

lemma frame_chan:
  assumes "conn_frame c s t" and "k = cn_channel (cw_conns t c)"
    and "\<And>ch. callbacks (g ch) = callbacks ch \<and> ch_revent (g ch) = ch_revent ch \<and> ch_fd (g ch) = ch_fd ch"
  shows "conn_frame c s (upd_chan k g t)"
proof (rule conn_frame_trans [OF assms(1)])
  have "callbacks (chans (upd_chan k g t) x) = callbacks (chans t x)" "ch_revent (chans (upd_chan k g t) x) = ch_revent (chans t x)"
    "ch_fd (chans (upd_chan k g t) x) = ch_fd (chans t x)" for x
    using assms(3) by (simp_all add: upd_chan_def)
  moreover have "untouched {c} {cn_channel (cw_conns t c)} (own_fds c t) t (upd_chan k g t)"
    by (rule untouched_chan) (simp add: assms(2))
  ultimately show "conn_frame c t (upd_chan k g t)" by (simp add: conn_frame_def queues_same_def view_defs loop_simps)
qed

lemma syscall_frame: "syscall K call s = (a, t) \<Longrightarrow> call_on (own_fds c s) call \<Longrightarrow> conn_frame c s t"
  by (metis conn_frame_refl frame_syscall snd_conv)

lemma updateChannel_callbacks:
  assumes "poller_updateChannel b k pl cs = Inr (pl', cs')"
  shows "callbacks (cs' x) = callbacks (cs x) \<and> ch_revent (cs' x) = ch_revent (cs x)"
  using assms by (auto simp: poller_updateChannel_def Let_def res_simps split: if_splits)

lemma update_frame:
  assumes "channel_update k s = Inr s'" and k: "k = cn_channel (cw_conns s c)"
  shows "conn_frame c s s'"
proof -
  from assms(1) obtain pl cs where p: "poller_updateChannel (isInLoopThread (ch_loop (chans s k)) s) k
      (lp_poller (w_loops s (ch_loop (chans s k)))) (chans s) = Inr (pl, cs)"
    "s' = upd_loop (ch_loop (chans s k)) (\<lambda>lp. lp\<lparr>lp_poller := pl\<rparr>) (s\<lparr>chans := cs\<rparr>)"
    by (auto simp: channel_update_def loop_updateChannel_def with_poller_def res_simps)
  have "ch_fd (chans s k) \<in> own_fds c s" by (simp add: own_fds_def k)
  note u = untouched_update [OF assms(1) this]
  show ?thesis
    using channel_same(1) [OF assms(1)] updateChannel_callbacks [OF p(1)] u(1) [of "{c}" "{cn_channel (cw_conns s c)}"] u(2)
    by (simp add: conn_frame_def p(2) upd_loop_def)
qed

lemma writing_frame:
  assumes "k = cn_channel (cw_conns s c)"
  shows "enableWriting k s = Inr s' \<Longrightarrow> conn_frame c s s'" and "disableWriting k s = Inr s' \<Longrightarrow> conn_frame c s s'"
proof -
  have go: "conn_frame c s s'" if "channel_update k (upd_chan k g s) = Inr s'"
    and "\<And>ch. callbacks (g ch) = callbacks ch \<and> ch_revent (g ch) = ch_revent ch \<and> ch_fd (g ch) = ch_fd ch" for g
    by (rule conn_frame_trans [OF frame_chan [OF conn_frame_refl assms] update_frame [OF that(1)]])
      (use that(2) assms in \<open>simp_all add: loop_simps\<close>)
  show "enableWriting k s = Inr s' \<Longrightarrow> conn_frame c s s'" "disableWriting k s = Inr s' \<Longrightarrow> conn_frame c s s'"
    unfolding enableWriting_def disableWriting_def by (rule go, assumption, simp)+
qed

lemma frame_in_loop:
  assumes "conn_frame c s s'"
  shows "isInLoopThread l s' = isInLoopThread l s" "cn_loop (cw_conns s' c) = cn_loop (cw_conns s c)"
    "cn_channel (cw_conns s' c) = cn_channel (cw_conns s c)"
  using conn_frameD(8) [OF assms] conn_fixed_sel [OF conn_frameD(1) [OF assms]] by simp_all

lemma sendInloop_frame:
  assumes "sendInloop K c message s = Inr s'"
  shows "conn_frame c s s'"
proof -
  obtain n t where t: "(if \<not> isWriting (chans s (cn_channel (cw_conns s c))) \<and> readableBytes (cn_outputBuffer (cw_conns s c)) = 0
      then case syscall K (SysWrite (ch_fd (chans s (cn_channel (cw_conns s c)))) message) s of (a, s) \<Rightarrow>
             (if an_ret a \<ge> 0 then an_ret a else 0, s)
      else (0, s)) = (n, t)" by fastforce
  have "call_on (own_fds c s) (SysWrite (ch_fd (chans s (cn_channel (cw_conns s c)))) message)" by (simp add: own_fds_def)
  then have same: "conn_frame c s t"
    using t by (auto split: if_splits prod.splits dest: syscall_frame [of K _ s _ _ c])
  have "s' = t \<or> (\<exists>b. let u = upd_conn c (\<lambda>cn. cn\<lparr>cn_outputBuffer := b\<rparr>) t in
      s' = u \<or> enableWriting (cn_channel (cw_conns s c)) u = Inr s')"
    using assms unfolding sendInloop_def Let_def t by (auto simp: res_simps split: if_splits)
  then consider "s' = t" | b where "s' = upd_conn c (\<lambda>cn. cn\<lparr>cn_outputBuffer := b\<rparr>) t"
    | b where "enableWriting (cn_channel (cw_conns s c)) (upd_conn c (\<lambda>cn. cn\<lparr>cn_outputBuffer := b\<rparr>) t) = Inr s'"
    by (auto simp: Let_def)
  then show ?thesis
  proof cases
    case (3 b)
    have f: "conn_frame c s (upd_conn c (\<lambda>cn. cn\<lparr>cn_outputBuffer := b\<rparr>) t)" by (rule frame_conn [OF same]) simp
    show ?thesis by (rule conn_frame_trans [OF f writing_frame(1) [OF _ 3]]) (simp add: frame_in_loop(3) [OF f])
  qed (simp_all add: same frame_conn)
qed

lemma shutdownInloop_frame: "shutdownInloop K c s = Inr s' \<Longrightarrow> conn_frame c s s'"
  by (auto simp: shutdownInloop_def socket_shutdownWrite_def res_simps own_fds_def intro: frame_syscall split: if_splits)

lemma conn_send_frame:
  assumes "conn_send K E c message s = Inr s'" and "isInLoopThread (cn_loop (cw_conns s c)) s"
  shows "conn_frame c s s'"
  using assms by (auto simp: conn_send_def Let_def split: if_splits intro: sendInloop_frame)

lemma conn_shutdown_frame:
  assumes "conn_shutdown E c s = Inr s'" and "isInLoopThread (cn_loop (cw_conns s c)) s"
    and "run_closure E (ShutdownInloop c) = shutdownInloop K c"
  shows "conn_frame c s s'"
proof (cases "cn_state (cw_conns s c) = kConnected")
  case True
  let ?t = "upd_conn c (setState kDisconnecting) s"
  have f: "conn_frame c s ?t" by (rule frame_conn) simp_all
  have "isInLoopThread (cn_loop (cw_conns ?t c)) ?t" using assms(2) by (simp add: frame_in_loop [OF f])
  then have "shutdownInloop K c ?t = Inr s'" using assms True by (simp add: conn_shutdown_def Let_def runInLoop_def)
  then show ?thesis by (rule conn_frame_trans [OF f shutdownInloop_frame])
next
  case False
  then show ?thesis using assms(1) by (simp add: conn_shutdown_def)
qed

lemma handleWrite_cases:
  assumes w: "conn_handleWrite K c s = Inr s'"
  obtains "s' = s"
  | a bytes t where "syscall K (SysWrite (ch_fd (chans s (cn_channel (cw_conns s c)))) bytes) s = (a, t)" and "s' = t"
  | a bytes t b where "syscall K (SysWrite (ch_fd (chans s (cn_channel (cw_conns s c)))) bytes) s = (a, t)" and "s' = upd_conn c (\<lambda>cn. cn\<lparr>cn_outputBuffer := b\<rparr>) t"
  | a bytes t b u where "syscall K (SysWrite (ch_fd (chans s (cn_channel (cw_conns s c)))) bytes) s = (a, t)"
      and "disableWriting (cn_channel (cw_conns s c)) (upd_conn c (\<lambda>cn. cn\<lparr>cn_outputBuffer := b\<rparr>) t) = Inr u"
      and "s' = u \<or> shutdownInloop K c u = Inr s'"
proof (cases "isWriting (chans s (cn_channel (cw_conns s c)))")
  case False
  then show ?thesis using w by (intro that(1)) (simp add: conn_handleWrite_def res_simps Let_def)
next
  case True
  let ?b = "cn_outputBuffer (cw_conns s c)"
  obtain bytes where bytes: "read_range (store ?b) (peek ?b) (peek ?b + int (readableBytes ?b)) = Inr bytes"
    using w True by (auto simp: conn_handleWrite_def res_simps Let_def)
  obtain a t where t: "syscall K (SysWrite (ch_fd (chans s (cn_channel (cw_conns s c)))) bytes) s = (a, t)" by fastforce
  show ?thesis
  proof (cases "an_ret a > 0")
    case False
    then show ?thesis using w True by (intro that(2) [OF t]) (simp add: conn_handleWrite_def res_simps Let_def bytes t)
  next
    case pos: True
    with w True obtain b where
      b: "(let u = upd_conn c (\<lambda>cn. cn\<lparr>cn_outputBuffer := b\<rparr>) t in
        if readableBytes b = 0 then bnd (disableWriting (cn_channel (cw_conns s c)) u) (\<lambda>s.
           if cn_state (cw_conns s c) = kDisconnecting then shutdownInloop K c s else Inr s) else Inr u) = Inr s'"
      by (auto simp: conn_handleWrite_def res_simps Let_def bytes t)
    show ?thesis
    proof (cases "readableBytes b = 0")
      case True
      with b obtain u where "disableWriting (cn_channel (cw_conns s c)) (upd_conn c (\<lambda>cn. cn\<lparr>cn_outputBuffer := b\<rparr>) t) = Inr u"
        "s' = u \<or> shutdownInloop K c u = Inr s'" by (auto simp: Let_def res_simps split: if_splits)
      then show ?thesis by (rule that(4) [OF t])
    next
      case False
      then have "s' = upd_conn c (\<lambda>cn. cn\<lparr>cn_outputBuffer := b\<rparr>) t" using b by (simp add: Let_def)
      then show ?thesis by (rule that(3) [OF t])
    qed
  qed
qed

lemma handleWrite_frame:
  assumes "conn_handleWrite K c s = Inr s'"
  shows "conn_frame c s s'"
proof -
  have on: "call_on (own_fds c s) (SysWrite (ch_fd (chans s (cn_channel (cw_conns s c)))) bytes)" for bytes
    by (simp add: own_fds_def)
  have upd: "conn_frame c s (upd_conn c (\<lambda>cn. cn\<lparr>cn_outputBuffer := b\<rparr>) t)" if "conn_frame c s t" for b t
    using that by (rule frame_conn) simp
  from assms show ?thesis
  proof (cases rule: handleWrite_cases)
    case (4 a bytes t b u)
    note f = upd [OF syscall_frame [OF 4(1) on]]
    have "conn_frame c s u" by (rule conn_frame_trans [OF f writing_frame(2) [OF _ 4(2)]]) (simp add: frame_in_loop(3) [OF f])
    with 4(3) show ?thesis by (auto intro: conn_frame_trans shutdownInloop_frame)
  qed (auto intro: upd dest: syscall_frame [OF _ on])
qed

lemma handleWrite_http:
  assumes "conn_handleWrite K c s = Inr s'"
  shows "http_same s s'"
proof -
  have sys: "http_same s t" if "syscall K call s = (a, t)" for call a t
    using http_same_simps(4) [of s K call s] that by simp
  from assms show ?thesis
  proof (cases rule: handleWrite_cases)
    case (4 a bytes t b u)
    have "http_same s (upd_chan (cn_channel (cw_conns s c)) noWritingBits (upd_conn c (\<lambda>cn. cn\<lparr>cn_outputBuffer := b\<rparr>) t))"
      using sys [OF 4(1)] by simp
    with 4(2) have "http_same s u" unfolding disableWriting_def by (rule channel_update_http)
    with 4(3) show ?thesis by (auto elim: shutdownInloop_http)
  qed (auto dest: sys)
qed

lemma onRequest_frame:
  assumes r: "http_onRequest K E h c req s = Inr s'" and here: "isInLoopThread (cn_loop (cw_conns s c)) s"
    and run: "run_closure E (ShutdownInloop c) = shutdownInloop K c"
  shows "conn_frame c s s'"
proof -
  from r obtain msg t where t: "conn_send K E c msg s = Inr t" "s' = t \<or> conn_shutdown E c t = Inr s'"
    by (auto simp: http_onRequest_def Let_def conn_send_buffer_def res_simps split: if_splits)
  have f: "conn_frame c s t" by (rule conn_send_frame [OF t(1) here])
  have "isInLoopThread (cn_loop (cw_conns t c)) t" using here by (simp add: frame_in_loop [OF f])
  with t(2) f conn_shutdown_frame [OF _ _ run] show ?thesis by (auto intro: conn_frame_trans)
qed

lemma onMessage_frame:
  assumes r: "http_onMessage K E h c t s = Some (Inr s')" and here: "isInLoopThread (cn_loop (cw_conns s c)) s"
    and run: "run_closure E (ShutdownInloop c) = shutdownInloop K c"
  shows "conn_frame c s s'"
proof -
  obtain ctx0 s0 where s0: "getContext c s = (ctx0, s0)" by fastforce
  have f0: "conn_frame c s s0" using s0 by (auto simp: getContext_def Let_def intro: frame_context)
  from r s0 obtain ctx ok buf where p: "parseRequest t ctx0 (cn_inputBuffer (cw_conns s0 c)) = Some (Inr (ok, ctx, buf))"
    by (auto simp: http_onMessage_def res_simps)
  let ?s1 = "upd_conn c (\<lambda>cn. cn\<lparr>cn_inputBuffer := buf\<rparr>) (upd_context c (Some ctx) s0)"
  have f1: "conn_frame c s ?s1" by (rule frame_conn [OF frame_context [OF f0]]) simp
  from r obtain s2 where s2: "(if \<not> ok then bnd (conn_send K E c bad_request ?s1) (conn_shutdown E c) else Inr ?s1) = Inr s2"
    and rest: "(case getContext c s2 of (context, s) \<Rightarrow>
        if gotAll context then bnd (http_onRequest K E h c (hc_request context) s) (\<lambda>s.
          case getContext c s of (context, s) \<Rightarrow> Inr (upd_context c (Some (context_reset context)) s)) else Inr s) = Inr s'"
    by (auto simp: http_onMessage_def s0 p res_simps Let_def)
  have here1: "isInLoopThread (cn_loop (cw_conns ?s1 c)) ?s1" using here by (simp add: frame_in_loop [OF f1])
  have f2: "conn_frame c s s2"
  proof (cases ok)
    case True
    then show ?thesis using s2 f1 by simp
  next
    case False
    then obtain u where u: "conn_send K E c bad_request ?s1 = Inr u" "conn_shutdown E c u = Inr s2"
      using s2 by (auto simp: res_simps)
    have fu: "conn_frame c s u" by (rule conn_frame_trans [OF f1 conn_send_frame [OF u(1) here1]])
    have "isInLoopThread (cn_loop (cw_conns u c)) u" using here by (simp add: frame_in_loop [OF fu])
    from conn_frame_trans [OF fu conn_shutdown_frame [OF u(2) this run]] show ?thesis .
  qed
  obtain ctx3 s3 where s3: "getContext c s2 = (ctx3, s3)" by fastforce
  have f3: "conn_frame c s s3" using s3 f2 by (auto simp: getContext_def Let_def intro: frame_context)
  have here3: "isInLoopThread (cn_loop (cw_conns s3 c)) s3" using here by (simp add: frame_in_loop [OF f3])
  show ?thesis
  proof (cases "gotAll ctx3")
    case False
    then show ?thesis using rest f3 by (simp add: s3)
  next
    case True
    then obtain s4 where s4: "http_onRequest K E h c (hc_request ctx3) s3 = Inr s4"
      "(case getContext c s4 of (context, s) \<Rightarrow> Inr (upd_context c (Some (context_reset context)) s)) = (Inr s' :: _ res)"
      using rest by (auto simp: s3 res_simps)
    have "conn_frame c s s4" by (rule conn_frame_trans [OF f3 onRequest_frame [OF s4(1) here3 run]])
    then show ?thesis using s4(2) by (auto simp: getContext_def Let_def intro!: frame_context)
  qed
qed

section \<open>The abstract session\<close>

text \<open>A session is the parser's context, the input not parsed yet, and whether the connection may still send.
  Bytes that arrive are appended to the input, parsed, and answered as \<open>reply\<close> says.\<close>

type_synonym session = "http_context \<times> string \<times> bool"

fun session_step :: "http_callback \<Rightarrow> int \<Rightarrow> string \<Rightarrow> session \<Rightarrow> string \<times> session" where
  "session_step cb t bytes (ctx, input, up) =
     (case parse_str t ctx (input @ bytes) of (good, ctx', rest) \<Rightarrow>
      (if up then reply cb good ctx' else [],
       if good \<and> gotAll ctx' then context_init else ctx', rest, up \<and> \<not> leaves cb good ctx'))"

fun serve :: "http_callback \<Rightarrow> (int \<times> string) list \<Rightarrow> session \<Rightarrow> string \<times> session" where
  "serve cb [] S = ([], S)"
| "serve cb ((t, bytes) # ms) S =
     (case session_step cb t bytes S of (out, S') \<Rightarrow> case serve cb ms S' of (out', S'') \<Rightarrow> (out @ out', S''))"

lemma serve_append:
  "serve cb (ms @ ms') S = (case serve cb ms S of (out, S') \<Rightarrow> case serve cb ms' S' of (out', S'') \<Rightarrow> (out @ out', S''))"
  by (induction cb ms S rule: serve.induct) (auto split: prod.splits)

definition session_of :: "nat \<Rightarrow> 'z http_world_scheme \<Rightarrow> session" where
  "session_of c s = (auto_context (hw_contexts s c), contents (cn_inputBuffer (cw_conns s c)), cn_state (cw_conns s c) = kConnected)"

text \<open>A connection of an HTTP server that is not closed yet; \<open>d\<close> counts what its descriptor was shut
  down before it.\<close>

definition session_live :: "nat \<Rightarrow> nat \<Rightarrow> nat \<Rightarrow> nat \<Rightarrow> 'z http_world_scheme \<Rightarrow> bool" where
  "session_live sv h d c s \<longleftrightarrow> served sv c s \<and> out_ok c d s \<and> expecting (auto_context (hw_contexts s c))
     \<and> cn_messageCallBack (cw_conns s c) = Some h
     \<and> ch_writeCallBack (chans s (cn_channel (cw_conns s c))) = Some (ConnHandleWrite c)"

text \<open>Between two turns no functor waits in its loop.\<close>

definition session_ok :: "nat \<Rightarrow> nat \<Rightarrow> nat \<Rightarrow> nat \<Rightarrow> 'z http_world_scheme \<Rightarrow> bool" where
  "session_ok sv h d c s \<longleftrightarrow> session_live sv h d c s \<and> pending_of (cn_loop (cw_conns s c)) s = []"

text \<open>An event of the connection keeps the session when it keeps the frame and the output in order.\<close>

lemma session_live_frame:
  assumes ok: "session_live sv h d c s" and f: "conn_frame c s s'" and out: "out_ok c d s'"
    and ex: "expecting (auto_context (hw_contexts s' c))"
  shows "session_live sv h d c s'"
proof -
  have conn: "conn_fixed (cw_conns s' c) = conn_fixed (cw_conns s c)"
    and cb: "callbacks (chans s' k) = callbacks (chans s k)" and sv: "sw_servers s' = sw_servers s"
    and pend: "pending_of k s' = pending_of k s" for k
    using f by (simp_all add: conn_frame_def queues_same_def)
  have c: "conn_ok c s'" and st: "cn_state (cw_conns s' c) \<in> {kConnected, kDisconnecting}" using out by (simp_all add: out_ok_def)
  have D: "served sv c s" using ok by (simp add: session_live_def)
  have "served sv c s'"
    using servedD(4-8) [OF D] conn_ok_registered [OF c] conn_okD(4) [OF c] st conn cb [of "cn_channel (cw_conns s c)"]
    by (simp add: served_def Let_def sv conn_fixed_def callbacks_def)
  then show ?thesis
    using ok out ex conn cb [of "cn_channel (cw_conns s c)"]
    by (simp add: session_live_def pend conn_fixed_def callbacks_def)
qed

text \<open>So does a change of the world around it.\<close>

lemma session_live_cong:
  assumes ok: "session_live sv h d c s" and reg: "conn_registered c s'"
    and same: "cw_conns s' = cw_conns s" "sw_servers s' = sw_servers s" "hw_contexts s' = hw_contexts s" "sk_trace s' = sk_trace s"
    and ch: "\<And>k. callbacks (chans s' k) = callbacks (chans s k)" "\<And>k. ch_event (chans s' k) = ch_event (chans s k)"
  shows "session_live sv h d c s'" and "session_of c s' = session_of c s" and "sent c s' = sent c s" and "unsent c s' = unsent c s"
proof -
  have v: "isWriting (chans s' k) = isWriting (chans s k)" "ch_readCallBack (chans s' k) = ch_readCallBack (chans s k)"
    "ch_writeCallBack (chans s' k) = ch_writeCallBack (chans s k)" "ch_closeCallBack (chans s' k) = ch_closeCallBack (chans s k)" for k
    using ch [of k] by (simp_all add: isWriting_def callbacks_def)
  show "session_of c s' = session_of c s" "sent c s' = sent c s" "unsent c s' = unsent c s"
    by (simp_all add: session_of_def sent_def unsent_def same)
  have "down c s' = down c s" by (simp add: down_def same)
  then show "session_live sv h d c s'"
    using ok reg
    by (simp add: session_live_def served_def out_ok_def conn_ok_def conn_registered_def Let_def same v unsent_def)
qed

section \<open>The events of a session\<close>

definition read_call :: "nat \<Rightarrow> 'z http_world_scheme \<Rightarrow> sysc" where
  "read_call c s = SysReadv (cn_fd (cw_conns s c)) (writableBytes (cn_inputBuffer (cw_conns s c)) + extraBuf_size)"

definition arrives :: "kernel \<Rightarrow> nat \<Rightarrow> 'z http_world_scheme \<Rightarrow> answer" where
  "arrives K c s = K (sk_trace s) (read_call c s)"

text \<open>What a read event needs: bytes, memory for them, and memory for what they are answered with.\<close>

definition can_read :: "kernel \<Rightarrow> http_callback \<Rightarrow> nat \<Rightarrow> int \<Rightarrow> 'z http_world_scheme \<Rightarrow> bool" where
  "can_read K cb c t s \<longleftrightarrow> (let a = arrives K c s in
     0 < an_ret a \<and> length (store (cn_inputBuffer (cw_conns s c))) + length (an_data a) \<le> size_max
   \<and> (case parse_str t (auto_context (hw_contexts s c)) (contents (cn_inputBuffer (cw_conns s c)) @ an_data a) of (good, ctx, rest) \<Rightarrow>
        length (reply cb good ctx) \<le> room (cn_outputBuffer (cw_conns s c))
      \<and> (good \<and> gotAll ctx \<longrightarrow> answer_fits cb (hc_request ctx))))"

lemma env_message:
  "on_message (system_env P run) h c t s = returned (http_onMessage (pg_kernel P) (system_env P run) h c t s)"
proof -
  let ?E = "\<lparr>run_closure = run, on_connection = http_onConnection, on_message = (\<lambda>_ _ _. Inr),
       on_close = (\<lambda>sv c. server_removeConnection run sv c)\<rparr>"
  have e: "http_onMessage (pg_kernel P) ?E = http_onMessage (pg_kernel P) (system_env P run)"
    by (rule http_onMessage_cong) simp
  have "on_message (system_env P run) h c t s = returned (http_onMessage (pg_kernel P) ?E h c t s)"
    by (simp add: system_env_def Let_def)
  then show ?thesis unfolding e .
qed

lemma env_shutdown: "run_closure (system_env P (system_run P (Suc n))) (ShutdownInloop c) = shutdownInloop (pg_kernel P) c"
  by (simp add: fun_eq_iff perform_def Let_def)

lemma session_read:
  assumes ok: "session_live sv h d c s" and doc: "write_documented (pg_kernel P)" "readv_documented (pg_kernel P)"
    and can: "can_read (pg_kernel P) (hs_httpCallback (hw_servers s h)) c t s"
  shows "\<exists>s' out. system_read P (Suc n) (ConnHandleRead c) t s = Inr s' \<and> session_live sv h d c s' \<and> conn_frame c s s'
    \<and> session_step (hs_httpCallback (hw_servers s h)) t (an_data (arrives (pg_kernel P) c s)) (session_of c s) = (out, session_of c s')
    \<and> sent c s' @ unsent c s' = sent c s @ unsent c s @ out"
proof -
  let ?K = "pg_kernel P" and ?E = "system_env P (system_run P (Suc n))" and ?cb = "hs_httpCallback (hw_servers s h)"
  let ?a = "arrives ?K c s" and ?in = "cn_inputBuffer (cw_conns s c)"
  have out: "out_ok c d s" and c: "conn_ok c s" and ex: "expecting (auto_context (hw_contexts s c))"
    and cb: "cn_messageCallBack (cw_conns s c) = Some h"
    using ok by (simp_all add: session_live_def out_ok_def)
  obtain good ctx rest where p: "parse_str t (auto_context (hw_contexts s c)) (contents ?in @ an_data ?a) = (good, ctx, rest)"
    by (metis prod_cases3)
  have can': "0 < an_ret ?a" "length (store ?in) + length (an_data ?a) \<le> size_max"
    "length (reply ?cb good ctx) \<le> room (cn_outputBuffer (cw_conns s c))"
    "good \<and> gotAll ctx \<longrightarrow> answer_fits ?cb (hc_request ctx)"
    using can by (simp_all add: can_read_def Let_def p)
  from handleRead_start [OF conn_ok_registered [OF c] conn_okD(4) [OF c] doc(2), folded read_call_def arrives_def,
      OF can'(2), of ?E t] can'(1) obtain b where
    b: "buf_ok b" "contents b = contents ?in @ an_data ?a"
      "conn_handleRead ?K ?E c t s = on_message ?E h c t (upd_conn c (set_input b) (snd (syscall ?K (read_call c s) s)))"
    by (auto simp: call_any_def Let_def cb)
  obtain s0 where s0: "s0 = upd_conn c (set_input b) (snd (syscall ?K (read_call c s) s))" by blast
  have v0: "cw_conns s0 c = set_input b (cw_conns s c)" "hw_contexts s0 c = hw_contexts s c" "hw_servers s0 = hw_servers s"
    "sent c s0 = sent c s" "unsent c s0 = unsent c s" "down c s0 = down c s"
    by (simp_all add: s0 read_call_def loop_simps sent_def unsent_def down_def written_snoc shutdowns_snoc)
  have out0: "out_ok c d s0"
    using conn_ok_input [OF conn_ok_syscall [OF c] b(1)] out v0(1,5,6) by (simp add: out_ok_def s0)
  have f0: "conn_frame c s s0"
    unfolding s0 by (rule frame_conn [OF frame_syscall]) (simp_all add: read_call_def)
  have here0: "isInLoopThread (cn_loop (cw_conns s0 c)) s0"
    using conn_ok_in_loop [of c s0] out0 by (simp add: out_ok_def)
  have ex0: "expecting (auto_context (hw_contexts s0 c))" using ex by (simp add: v0(2))
  have p0: "parse_str t (auto_context (hw_contexts s0 c)) (contents (cn_inputBuffer (cw_conns s0 c))) = (good, ctx, rest)"
    using p by (simp add: v0(1,2) b(2))
  have fits0: "length (reply (hs_httpCallback (hw_servers s0 h)) good ctx) \<le> room (cn_outputBuffer (cw_conns s0 c))"
    using can'(3) by (simp add: v0(1,3))
  have afits0: "good \<and> gotAll ctx \<longrightarrow> answer_fits (hs_httpCallback (hw_servers s0 h)) (hc_request ctx)"
    using can'(4) by (simp add: v0(3))
  from onMessage_effect [OF out0 doc(1) env_shutdown [of P n c] ex0 p0 fits0 afits0, unfolded v0 set_input_sel] obtain s' where
    s': "http_onMessage ?K ?E h c t s0 = Some (Inr s')" "out_ok c d s'" "contents (cn_inputBuffer (cw_conns s' c)) = rest"
      "hw_contexts s' c = Some (if good \<and> gotAll ctx then context_init else ctx)"
      "expecting (if good \<and> gotAll ctx then context_init else ctx)"
      "sent c s' @ unsent c s' = sent c s @ unsent c s @ (if cn_state (cw_conns s c) = kConnected then reply ?cb good ctx else [])"
      "cn_state (cw_conns s' c) = kConnected \<longleftrightarrow> cn_state (cw_conns s c) = kConnected \<and> \<not> leaves ?cb good ctx"
    by (elim exE conjE) (rule that)
  have f: "conn_frame c s s'" by (rule conn_frame_trans [OF f0 onMessage_frame [OF s'(1) here0 env_shutdown]])
  have "system_read P (Suc n) (ConnHandleRead c) t s = Inr s'"
    by (simp add: system_read_def perform_def Let_def b(3) s0 [symmetric] env_message s'(1) returned_def)
  moreover have "session_live sv h d c s'"
    by (rule session_live_frame [OF ok f s'(2)]) (simp add: s'(4,5))
  moreover have "session_step ?cb t (an_data ?a) (session_of c s)
      = (if cn_state (cw_conns s c) = kConnected then reply ?cb good ctx else [], session_of c s')"
    using s'(3,4,7) by (simp add: session_of_def p)
  ultimately show ?thesis using f s'(6) by blast
qed

lemma session_write:
  assumes ok: "session_live sv h d c s" and doc: "write_documented (pg_kernel P)"
  shows "\<exists>s'. system_run P (Suc n) (ConnHandleWrite c) s = Inr s' \<and> session_live sv h d c s' \<and> conn_frame c s s'
    \<and> session_of c s' = session_of c s \<and> sent c s' @ unsent c s' = sent c s @ unsent c s"
proof -
  have out: "out_ok c d s" using ok by (simp add: session_live_def)
  from conn_exec_effect [OF out doc env_shutdown [of P n c], of OpWritable] obtain s' where
    s': "conn_handleWrite (pg_kernel P) c s = Inr s'" "out_ok c d s'" "sent c s' @ unsent c s' = sent c s @ unsent c s"
      "cn_state (cw_conns s' c) = kConnected \<longleftrightarrow> cn_state (cw_conns s c) = kConnected"
    by auto
  have f: "conn_frame c s s'" and h: "http_same s s'"
    by (rule handleWrite_frame [OF s'(1)], rule handleWrite_http [OF s'(1)])
  have "session_live sv h d c s'"
    by (rule session_live_frame [OF ok f s'(2)]) (use ok h in \<open>simp add: session_live_def http_same_def\<close>)
  moreover have "session_of c s' = session_of c s" using h s'(4) by (simp add: session_of_def http_same_def)
  moreover have "system_run P (Suc n) (ConnHandleWrite c) s = Inr s'" by (simp add: perform_def Let_def s'(1))
  ultimately show ?thesis using f s'(3) by blast
qed

section \<open>The turns of a session\<close>

definition session_bits :: "32 word set" where
  "session_bits = {POLLIN, POLLOUT, POLLIN OR POLLOUT}"

lemma session_bits_decoded:
  assumes "r \<in> session_bits"
  shows "r AND POLLHUP = 0" "r AND (POLLNVAL OR POLLERR) = 0" "r AND (POLLIN OR POLLPRI OR POLLRDHUP) \<noteq> 0 \<longleftrightarrow> r AND POLLIN \<noteq> 0"
  using assms by (auto simp: session_bits_def poll_bits)

text \<open>The bytes a turn reads, with the time of the poll.\<close>

definition heard :: "kernel \<Rightarrow> nat \<Rightarrow> 32 word \<Rightarrow> int \<Rightarrow> 'z http_world_scheme \<Rightarrow> (int \<times> string) list" where
  "heard K c r t s = (if r AND POLLIN \<noteq> 0 then [(t, an_data (arrives K c s))] else [])"

lemma handleEvent_plain:
  assumes r: "ch_revent (chans s ch) \<in> session_bits" and rd: "ch_readCallBack (chans s ch) = Some rc"
    and t1: "(if ch_revent (chans s ch) AND POLLIN \<noteq> 0 then runRead rc t (upd_chan ch (\<lambda>k. k\<lparr>ch_eventHanding := True\<rparr>) s)
        else Inr (upd_chan ch (\<lambda>k. k\<lparr>ch_eventHanding := True\<rparr>) s)) = Inr s1"
    and same: "ch_revent (chans s1 ch) = ch_revent (chans s ch)" "ch_writeCallBack (chans s1 ch) = Some wc"
    and t2: "(if ch_revent (chans s ch) AND POLLOUT \<noteq> 0 then run wc s1 else Inr s1) = Inr s2"
  shows "handleEvent run runRead ch t s = Inr (upd_chan ch (\<lambda>k. k\<lparr>ch_eventHanding := False\<rparr>) s2)"
proof -
  let ?s = "upd_chan ch (\<lambda>k. k\<lparr>ch_eventHanding := True\<rparr>) s"
  have v: "ch_revent (chans ?s ch) = ch_revent (chans s ch)" "ch_readCallBack (chans ?s ch) = Some rc"
    by (simp_all add: upd_chan_def rd)
  note b = session_bits_decoded [OF r]
  have 1: "call_if (ch_revent (chans s ch) AND (POLLIN OR POLLPRI OR POLLRDHUP) \<noteq> 0) (Some rc) (\<lambda>f. runRead f t) ?s = Inr s1"
    unfolding b(3) call_if_def using t1 by (cases "ch_revent (chans s ch) AND POLLIN = 0") simp_all
  have 2: "call_if (ch_revent (chans s ch) AND POLLOUT \<noteq> 0) (Some wc) run s1 = Inr s2"
    unfolding call_if_def using t2 by (cases "ch_revent (chans s ch) AND POLLOUT = 0") simp_all
  have 3: "call_if (ch_revent (chans s ch) AND POLLHUP \<noteq> 0 \<and> P) cb run ?s = Inr ?s"
    "call_if (ch_revent (chans s ch) AND (POLLNVAL OR POLLERR) \<noteq> 0) cb run ?s = Inr ?s" for P cb
    by (simp_all add: call_if_def b(1,2))
  show ?thesis unfolding handleEvent_def Let_def v 3 bnd_Inr 1 same 2 ..
qed

lemma session_flag:
  fixes s :: "'z http_world_scheme" and ch :: nat and f :: bool
  assumes ok: "session_live sv h d c s" and own: "ch = cn_channel (cw_conns s c)"
  defines "s' \<equiv> upd_chan ch (\<lambda>k. k\<lparr>ch_eventHanding := f\<rparr>) s"
  shows "session_live sv h d c s'" and "session_of c s' = session_of c s" and "sent c s' = sent c s" and "unsent c s' = unsent c s"
    and "conn_frame c s s'" and "cw_conns s' = cw_conns s" and "hw_contexts s' = hw_contexts s" and "sk_trace s' = sk_trace s"
proof -
  have reg: "conn_registered c s'"
    unfolding s'_def by (rule event_flag_registered) (use ok in \<open>simp add: session_live_def served_def Let_def\<close>)
  have v: "cw_conns s' = cw_conns s" "sw_servers s' = sw_servers s" "hw_contexts s' = hw_contexts s" "sk_trace s' = sk_trace s"
    "callbacks (chans s' k) = callbacks (chans s k)" "ch_event (chans s' k) = ch_event (chans s k)" for k
    by (simp_all add: s'_def loop_simps)
  show "session_live sv h d c s'" "session_of c s' = session_of c s" "sent c s' = sent c s" "unsent c s' = unsent c s"
    by (rule session_live_cong [OF ok reg v(1-6)])+
  show "cw_conns s' = cw_conns s" "hw_contexts s' = hw_contexts s" "sk_trace s' = sk_trace s" by (fact v)+
  show "conn_frame c s s'" unfolding s'_def by (rule frame_chan) (simp_all add: own)
qed

lemma session_event:
  fixes P :: "('z http_world_scheme) program" and c n :: nat
  assumes ok: "session_live sv h d c s" and doc: "write_documented (pg_kernel P)" "readv_documented (pg_kernel P)"
    and r: "ch_revent (chans s (cn_channel (cw_conns s c))) = r" "r \<in> session_bits"
    and can: "r AND POLLIN \<noteq> 0 \<longrightarrow> can_read (pg_kernel P) (hs_httpCallback (hw_servers s h)) c t s"
  shows "\<exists>s' out. handleEvent (system_run P (Suc n)) (system_read P (Suc n)) (cn_channel (cw_conns s c)) t s = Inr s'
    \<and> session_live sv h d c s' \<and> conn_frame c s s'
    \<and> serve (hs_httpCallback (hw_servers s h)) (heard (pg_kernel P) c r t s) (session_of c s) = (out, session_of c s')
    \<and> sent c s' @ unsent c s' = sent c s @ unsent c s @ out"
proof -
  let ?ch = "cn_channel (cw_conns s c)" and ?cb = "hs_httpCallback (hw_servers s h)"
  let ?s = "upd_chan ?ch (\<lambda>k. k\<lparr>ch_eventHanding := True\<rparr>) s"
  note F = session_flag [OF ok refl, of True]
  have same: "arrives (pg_kernel P) c ?s = arrives (pg_kernel P) c s" "hw_servers ?s = hw_servers s"
    by (simp_all add: arrives_def read_call_def F(6,8) loop_simps)
  have can': "can_read (pg_kernel P) ?cb c t ?s" if "r AND POLLIN \<noteq> 0"
    using can that by (simp add: can_read_def same F(6,7))
  have "\<exists>s1 out. (if r AND POLLIN \<noteq> 0 then system_read P (Suc n) (ConnHandleRead c) t ?s else Inr ?s) = Inr s1
    \<and> session_live sv h d c s1 \<and> conn_frame c s s1
    \<and> serve ?cb (heard (pg_kernel P) c r t s) (session_of c s) = (out, session_of c s1)
    \<and> sent c s1 @ unsent c s1 = sent c s @ unsent c s @ out"
  proof (cases "r AND POLLIN = 0")
    case True
    then show ?thesis using F by (intro exI [of _ ?s] exI [of _ "[]"]) (simp add: heard_def)
  next
    case False
    have can2: "can_read (pg_kernel P) (hs_httpCallback (hw_servers ?s h)) c t ?s" unfolding same using can' False by blast
    from session_read [OF F(1) doc can2, of n] obtain s1 out where
      s1: "system_read P (Suc n) (ConnHandleRead c) t ?s = Inr s1" "session_live sv h d c s1" "conn_frame c ?s s1"
        "session_step ?cb t (an_data (arrives (pg_kernel P) c s)) (session_of c s) = (out, session_of c s1)"
        "sent c s1 @ unsent c s1 = sent c s @ unsent c s @ out"
      unfolding same F(2-4) by (elim exE conjE) (rule that)
    then show ?thesis using False conn_frame_trans [OF F(5) s1(3)]
      by (intro exI [of _ s1] exI [of _ out]) (simp add: heard_def)
  qed
  then obtain s1 out where s1: "(if r AND POLLIN \<noteq> 0 then system_read P (Suc n) (ConnHandleRead c) t ?s else Inr ?s) = Inr s1"
    "session_live sv h d c s1" "conn_frame c s s1"
    "serve ?cb (heard (pg_kernel P) c r t s) (session_of c s) = (out, session_of c s1)"
    "sent c s1 @ unsent c s1 = sent c s @ unsent c s @ out" by blast
  have "\<exists>s2. (if r AND POLLOUT \<noteq> 0 then system_run P (Suc n) (ConnHandleWrite c) s1 else Inr s1) = Inr s2
    \<and> session_live sv h d c s2 \<and> conn_frame c s s2 \<and> session_of c s2 = session_of c s1
    \<and> sent c s2 @ unsent c s2 = sent c s1 @ unsent c s1"
    using session_write [OF s1(2) doc(1), of n] s1(2,3) conn_frame_trans [OF s1(3)] by auto
  then obtain s2 where s2: "(if r AND POLLOUT \<noteq> 0 then system_run P (Suc n) (ConnHandleWrite c) s1 else Inr s1) = Inr s2"
    "session_live sv h d c s2" "conn_frame c s s2" "session_of c s2 = session_of c s1"
    "sent c s2 @ unsent c s2 = sent c s1 @ unsent c s1" by blast
  have cb: "ch_readCallBack (chans s ?ch) = Some (ConnHandleRead c)"
    using ok by (simp add: session_live_def served_def Let_def)
  have "conn_fixed (cw_conns s1 c) = conn_fixed (cw_conns s c)" using s1(3) by (simp add: conn_frame_def)
  then have wr: "ch_writeCallBack (chans s1 ?ch) = Some (ConnHandleWrite c)" using s1(2) by (simp add: session_live_def conn_fixed_def)
  have rv: "ch_revent (chans s1 ?ch) = ch_revent (chans s ?ch)" using s1(3) by (simp add: conn_frame_def)
  let ?s' = "upd_chan ?ch (\<lambda>k. k\<lparr>ch_eventHanding := False\<rparr>) s2"
  have "handleEvent (system_run P (Suc n)) (system_read P (Suc n)) ?ch t s = Inr ?s'"
    by (rule handleEvent_plain [OF _ cb _ rv wr]) (use r s1(1) s2(1) in simp_all)
  moreover note G = session_flag [OF s2(2) frame_in_loop(3) [OF s2(3), symmetric], of False]
  ultimately show ?thesis
    using conn_frame_trans [OF s2(3) G(5)] s1(4,5) s2(4,5) G(1-4) by (intro exI [of _ ?s'] exI [of _ out]) simp
qed

definition round_over :: "nat \<Rightarrow> ('cb, 'z) world_scheme \<Rightarrow> ('cb, 'z) world_scheme" where
  "round_over l = upd_loop l (\<lambda>lp. lp\<lparr>lp_pendingFunctor := [], lp_callingPendingFunctors := False\<rparr>)"

lemma no_functors:
  "pending_of l s = [] \<Longrightarrow> doPendingFunctors run l s = Inr (round_over l s)"
  by (simp add: doPendingFunctors_def swap_pending_def set_calling_def upd_loop_def view_defs round_over_def)

text \<open>What the poll of a turn must be: it reports only the channel of the connection, readable, writable or
  both; when it is readable, bytes arrive and there is memory for them and for the answer.\<close>

definition turn_given :: "('z http_world_scheme) program \<Rightarrow> nat \<Rightarrow> nat \<Rightarrow> poll_answer \<Rightarrow> 'z http_world_scheme \<Rightarrow> bool" where
  "turn_given P h c ans s \<longleftrightarrow>
     (let l = cn_loop (cw_conns s c); ch = cn_channel (cw_conns s c); pl = lp_poller (w_loops s l);
          r = scast (pa_revents ans ! nat (ch_index (chans s ch))) in
      poll_documented (pl_pollfds pl) (pa_nums ans) (pa_revents ans) \<and> ready pl (pa_revents ans) = [ch]
    \<and> r \<in> session_bits
    \<and> (r AND POLLIN \<noteq> 0 \<longrightarrow> can_read (pg_kernel P) (hs_httpCallback (hw_servers s h)) c (pa_now ans) s))"

definition turn_hears :: "('z http_world_scheme) program \<Rightarrow> nat \<Rightarrow> poll_answer \<Rightarrow> 'z http_world_scheme \<Rightarrow> (int \<times> string) list" where
  "turn_hears P c ans s =
     heard (pg_kernel P) c (scast (pa_revents ans ! nat (ch_index (chans s (cn_channel (cw_conns s c)))))) (pa_now ans) s"

lemma session_turn_effect:
  fixes P :: "('z http_world_scheme) program" and c n :: nat
  assumes ok: "session_ok sv h d c s" and doc: "write_documented (pg_kernel P)" "readv_documented (pg_kernel P)"
    and given: "turn_given P h c ans s"
  shows "\<exists>s' out. loop_turn (system_run P (Suc n)) (system_read P (Suc n)) (cn_loop (cw_conns s c)) ans s = Inr s'
    \<and> session_ok sv h d c s' \<and> hw_servers s' = hw_servers s \<and> conn_fixed (cw_conns s' c) = conn_fixed (cw_conns s c)
    \<and> serve (hs_httpCallback (hw_servers s h)) (turn_hears P c ans s) (session_of c s) = (out, session_of c s')
    \<and> sent c s' @ unsent c s' = sent c s @ unsent c s @ out"
proof -
  let ?l = "cn_loop (cw_conns s c)" and ?ch = "cn_channel (cw_conns s c)" and ?cb = "hs_httpCallback (hw_servers s h)"
  let ?r = "scast (pa_revents ans ! nat (ch_index (chans s ?ch))) :: 32 word"
  have live: "session_live sv h d c s" and idle: "pending_of ?l s = []" using ok by (simp_all add: session_ok_def)
  then have sv: "served sv c s" by (simp add: session_live_def)
  have g: "poll_documented (pl_pollfds (lp_poller (w_loops s ?l))) (pa_nums ans) (pa_revents ans)"
    "ready (lp_poller (w_loops s ?l)) (pa_revents ans) = [?ch]" "?r \<in> session_bits"
    "?r AND POLLIN \<noteq> 0 \<longrightarrow> can_read (pg_kernel P) ?cb c (pa_now ans) s"
    using given by (simp_all add: turn_given_def Let_def)
  from poll_one [OF sv g(1,2)] obtain s0 where
    s0: "poll_active ?l ans s = Inr s0" "served sv c s0" "lp_activeChannels (w_loops s0 ?l) = [?ch]"
      "ch_revent (chans s0 ?ch) = ?r" "cw_conns s0 = cw_conns s" "sw_servers s0 = sw_servers s" "pending_of ?l s0 = pending_of ?l s"
      "sk_trace s0 = sk_trace s" "chans s0 = (chans s)(?ch := setEvent ?r (chans s ?ch))"
      "hw_contexts s0 = hw_contexts s" "hw_servers s0 = hw_servers s" by (elim exE conjE) (rule that)
  have ch0: "callbacks (chans s0 k) = callbacks (chans s k)" "ch_event (chans s0 k) = ch_event (chans s k)" for k
    by (simp_all add: s0(9) setEvent_def callbacks_def)
  note G = session_live_cong [OF live servedD(1) [OF s0(2)] s0(5,6,10,8) ch0]
  have same: "arrives (pg_kernel P) c s0 = arrives (pg_kernel P) c s" "can_read (pg_kernel P) cb c t s0 = can_read (pg_kernel P) cb c t s"
    "heard (pg_kernel P) c r t s0 = heard (pg_kernel P) c r t s" for cb r t
    by (simp_all add: arrives_def read_call_def can_read_def heard_def s0(5,8,10))
  have rv: "ch_revent (chans s0 (cn_channel (cw_conns s0 c))) = ?r" using s0(4) by (simp add: s0(5))
  have can: "?r AND POLLIN \<noteq> 0 \<longrightarrow> can_read (pg_kernel P) (hs_httpCallback (hw_servers s0 h)) c (pa_now ans) s0"
    using g(4) unfolding same s0(11) .
  from session_event [OF G(1) doc rv g(3) can, of n, unfolded s0(5,11) G(2-4) same] obtain s1 out where
    s1: "handleEvent (system_run P (Suc n)) (system_read P (Suc n)) ?ch (pa_now ans) s0 = Inr s1" "session_live sv h d c s1"
      "conn_frame c s0 s1" "serve ?cb (heard (pg_kernel P) c ?r (pa_now ans) s) (session_of c s) = (out, session_of c s1)"
      "sent c s1 @ unsent c s1 = sent c s @ unsent c s @ out"
    by (elim exE conjE) (rule that)
  have fix1: "conn_fixed (cw_conns s1 c) = conn_fixed (cw_conns s c)" "hw_servers s1 = hw_servers s"
    using conn_frameD(1,7) [OF s1(3)] by (simp_all add: s0(5,11))
  have l1: "cn_loop (cw_conns s1 c) = ?l" using fix1(1) by (simp add: conn_fixed_def)
  have pend1: "pending_of ?l s1 = []" using conn_frameD(3) [OF s1(3)] idle s0(7) by simp
  let ?s' = "round_over ?l s1"
  have turn: "loop_turn (system_run P (Suc n)) (system_read P (Suc n)) ?l ans s = Inr ?s'"
    unfolding loop_turn_def s0(1) bnd_Inr s0(3) fold_res.simps s1(1) by (rule no_functors [OF pend1])
  have v: "cw_conns ?s' = cw_conns s1" "sw_servers ?s' = sw_servers s1" "hw_contexts ?s' = hw_contexts s1" "sk_trace ?s' = sk_trace s1"
    "hw_servers ?s' = hw_servers s1" "callbacks (chans ?s' k) = callbacks (chans s1 k)" "ch_event (chans ?s' k) = ch_event (chans s1 k)" for k
    by (simp_all add: round_over_def loop_simps)
  have reg1: "conn_registered c s1" using servedD(1) s1(2) by (auto simp: session_live_def)
  have reg: "conn_registered c ?s'"
    by (rule conn_registered_cong [OF reg1]) (simp_all add: round_over_def loop_simps)
  note H = session_live_cong [OF s1(2) reg v(1-4) v(6,7)]
  have ok': "session_ok sv h d c ?s'" using H(1) l1 by (simp add: session_ok_def v(1) round_over_def loop_simps view_defs)
  show ?thesis
    using turn ok' fix1 s1(4,5) v(5) unfolding turn_hears_def
    by (intro exI [of _ ?s'] exI [of _ out]) (simp add: H(2-4) v(1))
qed

section \<open>Properties\<close>

text \<open>Every turn of the loop that finds an HTTP connection readable, writable or both ends without a
  fault and is a step of the abstract session: bytes that arrived are parsed and answered as the
  session says, the answer goes behind everything sent before, nothing else is sent, no functor is
  left waiting, and the connection is again in a state from which the next turn can start.\<close>

theorem session_turn:
  fixes P :: "('z http_world_scheme) program" and c n :: nat
  assumes "session_ok sv h d c s" and "write_documented (pg_kernel P)" and "readv_documented (pg_kernel P)"
    and "turn_given P h c ans s"
  shows "\<exists>s' out. loop_turn (system_run P (Suc n)) (system_read P (Suc n)) (cn_loop (cw_conns s c)) ans s = Inr s'
    \<and> session_ok sv h d c s'
    \<and> serve (hs_httpCallback (hw_servers s h)) (turn_hears P c ans s) (session_of c s) = (out, session_of c s')
    \<and> sent c s' @ unsent c s' = sent c s @ unsent c s @ out"
  using session_turn_effect [OF assms, of n] by blast

text \<open>A run of turns of the loop of a connection, with all it heard.\<close>

inductive session_run ::
  "('z http_world_scheme) program \<Rightarrow> nat \<Rightarrow> nat \<Rightarrow> nat \<Rightarrow> (int \<times> string) list \<Rightarrow> 'z http_world_scheme \<Rightarrow> 'z http_world_scheme \<Rightarrow> bool"
  for P :: "('z http_world_scheme) program" and n h c :: nat where
  over: "session_run P n h c [] s s"
| turn: "turn_given P h c ans s
    \<Longrightarrow> loop_turn (system_run P (Suc n)) (system_read P (Suc n)) (cn_loop (cw_conns s c)) ans s = Inr t
    \<Longrightarrow> session_run P n h c ms t s' \<Longrightarrow> session_run P n h c (turn_hears P c ans s @ ms) s s'"

lemma session_run_effect:
  assumes "session_run P n h c ms s s'" and "session_ok sv h d c s" and doc: "write_documented (pg_kernel P)" "readv_documented (pg_kernel P)"
  shows "session_ok sv h d c s' \<and> (\<exists>out. serve (hs_httpCallback (hw_servers s h)) ms (session_of c s) = (out, session_of c s')
    \<and> sent c s' @ unsent c s' = sent c s @ unsent c s @ out)"
  using assms(1,2)
proof (induction rule: session_run.induct)
  case (over s)
  then show ?case by simp
next
  case (turn ans s t ms s')
  from session_turn_effect [OF turn.prems doc turn.hyps(1), of n] turn.hyps(2) obtain out where
    t: "session_ok sv h d c t" "hw_servers t = hw_servers s"
      "serve (hs_httpCallback (hw_servers s h)) (turn_hears P c ans s) (session_of c s) = (out, session_of c t)"
      "sent c t @ unsent c t = sent c s @ unsent c s @ out" by auto
  from turn.IH [OF t(1)] obtain out' where
    "session_ok sv h d c s'" "serve (hs_httpCallback (hw_servers s h)) ms (session_of c t) = (out', session_of c s')"
    "sent c s' @ unsent c s' = sent c t @ unsent c t @ out'" by (auto simp: t(2))
  then show ?case using t(3,4) by (simp add: serve_append)
qed

text \<open>C31. The answers of an HTTP connection depend on nothing but what arrived. In any run of turns, whatever
  part of each write the kernel takes and however reading and writing alternate, the bytes the kernel
  took followed by those still buffered are exactly what the abstract session sends for the bytes that
  were heard, turn by turn, and the connection, its context and its unparsed input are where the
  abstract session ends.\<close>

theorem session_answers:
  fixes P :: "('z http_world_scheme) program" and c n :: nat
  assumes "session_ok sv h d c s" and "unsent c s = []"
    and "write_documented (pg_kernel P)" and "readv_documented (pg_kernel P)" and "session_run P n h c ms s s'"
  shows "session_ok sv h d c s'
    \<and> serve (hs_httpCallback (hw_servers s h)) ms (session_of c s)
      = (drop (length (sent c s)) (sent c s' @ unsent c s'), session_of c s')
    \<and> take (length (sent c s)) (sent c s' @ unsent c s') = sent c s"
  using session_run_effect [OF assms(5,1,3,4)] assms(2) by (elim conjE exE) simp

text \<open>A client whose requests are each heard in one turn, and the answers it gets: up to the first that closes
  the connection.\<close>

type_synonym asked = "int \<times> http_method \<times> string \<times> string \<times> http_version \<times> (string \<times> string) list"

fun asks :: "asked \<Rightarrow> int \<times> string" where
  "asks (t, m, path, query, v, hs) = (t, render_request m path query v hs)"

fun asked_request :: "asked \<Rightarrow> http_request" where
  "asked_request (t, m, path, query, v, hs) = parsed_request t m path query v hs"

fun asked_ok :: "asked \<Rightarrow> bool" where
  "asked_ok (t, m, path, query, v, hs) \<longleftrightarrow> m \<noteq> kInvaild \<and> v \<noteq> kUnknow \<and> target_ok path query \<and> (\<forall>h\<in>set hs. header_ok h)"

fun answers :: "http_callback \<Rightarrow> http_request list \<Rightarrow> http_response list" where
  "answers cb [] = []"
| "answers cb (req # reqs) =
     answer cb req # (if rs_closeConnection (answer cb req) then [] else answers cb reqs)"

lemma serve_asked:
  assumes "\<forall>r\<in>set rs. asked_ok r"
  shows "serve cb (map asks rs) (context_init, [], up)
    = (if up then concat (map response_text (answers cb (map asked_request rs))) else [],
       context_init, [], up \<and> (\<forall>r\<in>set rs. \<not> rs_closeConnection (answer cb (asked_request r))))"
  using assms
proof (induction rs arbitrary: up)
  case Nil
  then show ?case by simp
next
  case (Cons r rs)
  obtain t m path query v hs where r: "r = (t, m, path, query, v, hs)" by (cases r)
  have "session_step cb t (render_request m path query v hs) (context_init, [], up)
      = (if up then response_text (answer cb (asked_request r)) else [],
         context_init, [], up \<and> \<not> rs_closeConnection (answer cb (asked_request r)))"
    using render_parsed [of m v path query hs t "[]"] Cons.prems
    by (simp add: r reply_def leaves_def gotAll_def)
  with Cons show ?case by (auto simp: r)
qed

text \<open>A keep-alive connection answers each request once and in order. When whole requests arrive, each in
  one turn, the bytes sent are the serialised responses of the user's callback to the requests as
  parsed, in the order of the requests, up to and including the first response that closes the
  connection; no input is left over, and the connection stays open exactly if no response closed it.\<close>

theorem requests_answered:
  fixes P :: "('z http_world_scheme) program" and c n :: nat
  assumes "session_ok sv h d c s" and "unsent c s = []" and "session_of c s = (context_init, [], True)"
    and "write_documented (pg_kernel P)" and "readv_documented (pg_kernel P)"
    and "\<forall>r\<in>set rs. asked_ok r" and "session_run P n h c (map asks rs) s s'"
    and "cb = hs_httpCallback (hw_servers s h)"
  shows "sent c s' @ unsent c s' = sent c s @ concat (map response_text (answers cb (map asked_request rs)))
    \<and> contents (cn_inputBuffer (cw_conns s' c)) = []
    \<and> (cn_state (cw_conns s' c) = kConnected \<longleftrightarrow> (\<forall>r\<in>set rs. \<not> rs_closeConnection (answer cb (asked_request r))))"
proof -
  from session_run_effect [OF assms(7,1,4,5), folded assms(8)] assms(2) obtain out where
    out: "serve cb (map asks rs) (session_of c s) = (out, session_of c s')" "sent c s' @ unsent c s' = sent c s @ out" by auto
  from out(1) have "out = concat (map response_text (answers cb (map asked_request rs)))"
    and "session_of c s' = (context_init, [], \<forall>r\<in>set rs. \<not> rs_closeConnection (answer cb (asked_request r)))"
    unfolding assms(3) serve_asked [OF assms(6)] by simp_all
  then show ?thesis using out(2) by (simp add: session_of_def)
qed

section \<open>Witnesses\<close>

text \<open>The connection of the earlier example, a kernel that delivers a request of version 1.0, and a poll that
  reports the connection readable.\<close>

definition hello :: asked where
  "hello = (5, kGet, ''/'', [], kHttp10, [])"

definition serving_program :: "http_world program" where
  "serving_program = sample_program\<lparr>pg_kernel := delivers (snd (asks hello))\<rparr>"

definition readable_answer :: poll_answer where
  "readable_answer = \<lparr>pa_nums = 1, pa_revents = [1], pa_now = 5\<rparr>"

lemma hello_text: "snd (asks hello) = ''GET / HTTP/1.0'' @ kCRLF @ kCRLF"
  by (simp add: hello_def render_request_def request_line_def)

lemma sample_served_http:
  "hw_contexts sample_served k = None" "hw_servers sample_served h = \<lparr>hs_server = 0, hs_httpCallback = defaultHttpCallback\<rparr>"
  by (simp_all add: sample_served_def)

lemma sample_served_conn:
  "cn_state (cw_conns sample_served 1) = kConnected" "contents (cn_inputBuffer (cw_conns sample_served 1)) = []"
  "cn_outputBuffer (cw_conns sample_served 1) = buffer_init" "cn_loop (cw_conns sample_served 1) = 0"
  "cn_channel (cw_conns sample_served 1) = 1" "cn_messageCallBack (cw_conns sample_served 1) = Some 2"
  "cn_fd (cw_conns sample_served 1) = 9"
proof -
  have "length [] < 1000" by simp
  from buffer_of_ok(2) [OF this] show "contents (cn_inputBuffer (cw_conns sample_served 1)) = []" by (simp add: sample_served_sel)
qed (simp_all add: sample_served_sel)

lemmas sample_conn_simps = sample_served_conn sample_served_conn [unfolded One_nat_def]

lemma sample_session: "session_ok 3 2 0 1 sample_served" "session_of 1 sample_served = (context_init, [], True)"
  "sent 1 sample_served = []" "unsent 1 sample_served = []"
proof -
  show "session_of 1 sample_served = (context_init, [], True)"
    by (simp add: session_of_def sample_conn_simps sample_served_http auto_context_def)
  show s: "sent 1 sample_served = []" "unsent 1 sample_served = []"
    by (simp_all add: sent_def unsent_def sample_conn_simps sample_served_sel written_def contents_init)
  note reg = servedD(1,3) [OF sample_served]
  have w: "\<not> isWriting (chans sample_served 1)"
    by (simp add: sample_served_sel isWriting_def poll_bits made_channel_def channel_new_def)
  have "conn_ok 1 sample_served"
    using reg w by (simp add: conn_ok_def conn_registered_def Let_def sample_conn_simps buf_ok_init contents_init)
  moreover have "down 1 sample_served = 0" by (simp add: down_def sample_served_sel shutdowns_def)
  ultimately have "out_ok 1 0 sample_served" by (simp add: out_ok_def sample_conn_simps)
  then show "session_ok 3 2 0 1 sample_served"
    using sample_served
    by (simp add: session_ok_def session_live_def sample_conn_simps sample_served_http auto_context_def expecting_def context_init_def
        sample_served_sel made_channel_def)
qed

lemma serving_documented: "write_documented (pg_kernel serving_program)" "readv_documented (pg_kernel serving_program)"
  by (simp_all add: serving_program_def delivers_documented)

lemma hello_arrives: "an_data (arrives (pg_kernel serving_program) 1 sample_served) = snd (asks hello)"
  "0 < an_ret (arrives (pg_kernel serving_program) 1 sample_served)"
proof -
  have "length (snd (asks hello)) \<le> extraBuf_size" "0 < length (snd (asks hello))"
    unfolding hello_text by (simp_all add: kCRLF_def extraBuf_size_def)
  then show "an_data (arrives (pg_kernel serving_program) 1 sample_served) = snd (asks hello)"
    "0 < an_ret (arrives (pg_kernel serving_program) 1 sample_served)"
    by (simp_all add: arrives_def read_call_def serving_program_def delivers_def)
qed

lemma hello_ok: "asked_ok hello"
  by (simp add: hello_def target_ok_def)

lemma hello_parsed: "parse_str 5 context_init (snd (asks hello))
    = (True, \<lparr>hc_state = kGotAll, hc_request = asked_request hello\<rparr>, [])"
  using render_parsed [of kGet kHttp10 "''/''" "[]" "[]" 5 "[]"] hello_ok by (simp add: hello_def)

lemma hello_given: "turn_given serving_program 2 1 readable_answer sample_served"
proof -
  have r: "scast (pa_revents readable_answer ! nat (ch_index (chans sample_served k))) = (POLLIN :: 32 word)" for k
    by (simp add: readable_answer_def sample_served_sel poll_bits)
  have one: "POLLIN AND POLLIN \<noteq> (0 :: 32 word)" by (simp add: poll_bits)
  have p: "poll_documented (pl_pollfds (lp_poller (w_loops sample_served 0))) (pa_nums readable_answer) (pa_revents readable_answer)"
    by (simp add: poll_documented_def sample_served_sel readable_answer_def)
  have rd: "ready (lp_poller (w_loops sample_served 0)) (pa_revents readable_answer) = [1]"
    by (simp add: ready_def slot_channel_def sample_served_sel readable_answer_def)
  have st: "length (store (cn_inputBuffer (cw_conns sample_served 1))) + length (snd (asks hello)) \<le> size_max"
    unfolding hello_text by (simp add: sample_served_sel buffer_of_def kCheapPrepared_def kCRLF_def)
  have len: "length (response_text (answer defaultHttpCallback (asked_request hello))) \<le> room buffer_init"
    unfolding default_text by (simp add: room_init kCRLF_def)
  have body: "length (rs_body (answer defaultHttpCallback (asked_request hello))) < 10 ^ 13"
    by (simp add: default_answer)
  have "can_read (pg_kernel serving_program) (hs_httpCallback (hw_servers sample_served 2)) 1 5 sample_served"
    unfolding can_read_def Let_def hello_arrives sample_served_conn sample_served_http append_Nil
    using hello_arrives(2) st len body
    by (simp add: auto_context_def hello_parsed reply_def gotAll_def answer_fits_def)
  then show ?thesis
    unfolding turn_given_def Let_def sample_served_conn r
    using p rd by (simp add: session_bits_def readable_answer_def)
qed

lemma hello_heard: "turn_hears serving_program 1 readable_answer sample_served = [asks hello]"
proof -
  have r: "scast (pa_revents readable_answer ! nat (ch_index (chans sample_served k))) = (POLLIN :: 32 word)" for k
    by (simp add: readable_answer_def sample_served_sel poll_bits)
  have "(5, snd (asks hello)) = asks hello" by (simp add: hello_def)
  then show ?thesis
    unfolding turn_hears_def r heard_def hello_arrives(1) by (simp add: poll_bits readable_answer_def)
qed

definition not_found :: string where
  "not_found = ''HTTP/1.1 404 Not Found'' @ kCRLF @ ''Connection: close'' @ kCRLF @ kCRLF"

lemma hello_served: "serve defaultHttpCallback [asks hello] (context_init, [], True) = (not_found, context_init, [], False)"
  using serve_asked [of "[hello]" defaultHttpCallback True] hello_ok
  by (simp add: default_text not_found_def) (simp add: default_answer)

lemma session_turn_witness:
  "\<exists>s'. loop_turn (system_run serving_program 1) (system_read serving_program 1) 0 readable_answer sample_served = Inr s'
    \<and> sent 1 s' @ unsent 1 s' = not_found \<and> session_of 1 s' = (context_init, [], False)"
proof -
  from session_turn [OF sample_session(1) serving_documented hello_given, of 0] obtain s' out where
    "loop_turn (system_run serving_program 1) (system_read serving_program 1) 0 readable_answer sample_served = Inr s'"
    "serve defaultHttpCallback [asks hello] (context_init, [], True) = (out, session_of 1 s')"
    "sent 1 s' @ unsent 1 s' = out"
    unfolding hello_heard sample_session(2-4) sample_served_conn sample_served_http One_nat_def [symmetric] by auto
  then show ?thesis unfolding hello_served by (intro exI [of _ s']) simp
qed

lemma hello_run: "\<exists>s'. session_run serving_program 0 2 1 [asks hello] sample_served s'"
proof -
  from session_turn_effect [OF sample_session(1) serving_documented hello_given, of 0] obtain s' where
    s': "loop_turn (system_run serving_program (Suc 0)) (system_read serving_program (Suc 0))
      (cn_loop (cw_conns sample_served 1)) readable_answer sample_served = Inr s'" by blast
  from session_run.turn [OF hello_given s' session_run.over] show ?thesis unfolding append_Nil2 hello_heard by blast
qed

lemma session_answers_witness:
  "\<exists>s'. session_run serving_program 0 2 1 [asks hello] sample_served s' \<and> session_of 1 s' = (context_init, [], False)
    \<and> sent 1 s' @ unsent 1 s' = not_found"
proof -
  obtain s' where s': "session_run serving_program 0 2 1 [asks hello] sample_served s'" using hello_run by blast
  from session_answers [OF sample_session(1,4) serving_documented s'] have
    "serve defaultHttpCallback [asks hello] (context_init, [], True) = (sent 1 s' @ unsent 1 s', session_of 1 s')"
    unfolding sample_session(2,3) sample_served_http by simp
  then have "(not_found, context_init, [], False) = (sent 1 s' @ unsent 1 s', session_of 1 s')" unfolding hello_served .
  with s' show ?thesis by (intro exI [of _ s']) simp
qed

lemma requests_answered_witness:
  "\<exists>s'. session_run serving_program 0 2 1 (map asks [hello]) sample_served s'
    \<and> sent 1 s' @ unsent 1 s' = not_found \<and> cn_state (cw_conns s' 1) \<noteq> kConnected"
proof -
  obtain s' where s': "session_run serving_program 0 2 1 (map asks [hello]) sample_served s'" using hello_run by auto
  have ok: "\<forall>r\<in>set [hello]. asked_ok r" using hello_ok by simp
  have cb: "defaultHttpCallback = hs_httpCallback (hw_servers sample_served 2)" by (simp add: sample_served_http)
  from requests_answered [OF sample_session(1,4,2) serving_documented ok s' cb] have
    r: "sent 1 s' @ unsent 1 s' = concat (map response_text (answers defaultHttpCallback (map asked_request [hello])))"
    "cn_state (cw_conns s' 1) = kConnected \<longleftrightarrow> (\<forall>r\<in>set [hello]. \<not> rs_closeConnection (answer defaultHttpCallback (asked_request r)))"
    unfolding sample_session(3) by simp_all
  have "answers defaultHttpCallback (map asked_request [hello]) = [answer defaultHttpCallback (asked_request hello)]" by simp
  with r(1) have "sent 1 s' @ unsent 1 s' = not_found" by (simp add: default_text not_found_def)
  moreover have "cn_state (cw_conns s' 1) \<noteq> kConnected" unfolding r(2) by (simp add: default_answer)
  ultimately show ?thesis using s' by blast
qed

end
