(* ===== verification/Crowd.thy ===== *)
theory Crowd
  imports Session
begin

text \<open>
  All connections of an HTTP server in one loop: one turn may accept new connections, read, write and
  close any of the others. Each connection is served by its own session whatever the others do, those
  that close are destroyed before the turn ends, and the server's map holds exactly those that are left.
\<close>

section \<open>A session that nothing touches\<close>

lemma same_but_index_views:
  assumes "ch' = ch\<lparr>ch_index := i\<rparr>"
  shows "callbacks ch' = callbacks ch" and "ch_event ch' = ch_event ch" and "ch_revent ch' = ch_revent ch"
    and "ch_fd ch' = ch_fd ch" and "ch_loop ch' = ch_loop ch" and "ch_readCallBack ch' = ch_readCallBack ch"
  using assms by (simp_all add: callbacks_def)

definition spared :: "nat set \<Rightarrow> nat set \<Rightarrow> int set \<Rightarrow> nat \<Rightarrow> 'z http_world_scheme \<Rightarrow> bool" where
  "spared C H F c s \<longleftrightarrow> c \<notin> C \<and> cn_channel (cw_conns s c) \<notin> H \<and> cn_fd (cw_conns s c) \<notin> F"

lemma spared_registered:
  assumes reg: "conn_registered c s" and u: "untouched C H F s s'" and sp: "spared C H F c s"
    and ok: "poller_ok (lp_poller (w_loops s' (cn_loop (cw_conns s c)))) (chans s')"
  shows "conn_registered c s'"
proof -
  let ?ch = "cn_channel (cw_conns s c)" and ?l = "cn_loop (cw_conns s c)"
  have r: "registered ?ch s" "ch_fd (chans s ?ch) = cn_fd (cw_conns s c)" "ch_loop (chans s ?ch) = ?l"
    using reg by (simp_all add: conn_registered_def Let_def)
  have k: "c \<notin> C" "?ch \<notin> H" "cn_fd (cw_conns s c) \<notin> F" using sp by (simp_all add: spared_def)
  note ch = same_but_index_views(4,5) [OF untouchedD(7) [OF u k(2)]]
  have "isInLoopThread ?l s" "loop_channels ?l s (cn_fd (cw_conns s c)) = Some ?ch"
    using r by (simp_all add: registered_def loop_channels_def)
  then have "isInLoopThread ?l s'" "loop_channels ?l s' (cn_fd (cw_conns s c)) = Some ?ch"
    by (simp_all add: isInLoopThread_def untouchedD(1,4,10) [OF u] k(3))
  then show ?thesis
    using ok by (simp add: conn_registered_def Let_def registered_def untouchedD(5) [OF u k(1)] ch r(2,3) loop_channels_def)
qed

lemma spared_session:
  assumes live: "session_live sv h d c s" and u: "untouched C H F s s'" and sp: "spared C H F c s"
    and ok: "poller_ok (lp_poller (w_loops s' (cn_loop (cw_conns s c)))) (chans s')"
    and sv: "ts_loop (sw_servers s' sv) = ts_loop (sw_servers s sv)"
      "ts_connects (sw_servers s' sv) (cn_name (cw_conns s c)) = ts_connects (sw_servers s sv) (cn_name (cw_conns s c))"
  shows "session_live sv h d c s'" and "session_of c s' = session_of c s" and "sent c s' = sent c s" and "unsent c s' = unsent c s"
proof -
  let ?ch = "cn_channel (cw_conns s c)"
  have k: "c \<notin> C" "?ch \<notin> H" "cn_fd (cw_conns s c) \<notin> F" using sp by (simp_all add: spared_def)
  note cn = untouchedD(5,6) [OF u k(1)] and tr = untouchedD(8,9) [OF u k(3)]
  note ch = same_but_index_views [OF untouchedD(7) [OF u k(2)]]
  show e: "session_of c s' = session_of c s" "sent c s' = sent c s" "unsent c s' = unsent c s"
    by (simp_all add: session_of_def sent_def unsent_def cn tr)
  have "served sv c s" using live by (simp add: session_live_def)
  have reg: "conn_registered c s'"
    by (rule spared_registered [OF servedD(1) [OF \<open>served sv c s\<close>] u sp ok])
  have "isWriting (chans s' ?ch) = isWriting (chans s ?ch)" "ch_writeCallBack (chans s' ?ch) = ch_writeCallBack (chans s ?ch)"
    "ch_closeCallBack (chans s' ?ch) = ch_closeCallBack (chans s ?ch)"
    using ch(1,2) by (simp_all add: isWriting_def callbacks_def)
  moreover have "down c s' = down c s" by (simp add: down_def cn tr)
  ultimately show "session_live sv h d c s'"
    using live reg
    by (simp add: session_live_def served_def out_ok_def conn_ok_def conn_registered_def Let_def cn e sv ch unsent_def)
qed

section \<open>What a session has answered\<close>

definition answered :: "http_callback \<Rightarrow> nat \<Rightarrow> (int \<times> string) list \<Rightarrow> 'z http_world_scheme \<Rightarrow> 'z http_world_scheme \<Rightarrow> bool" where
  "answered cb c ms s s' \<longleftrightarrow> (\<exists>out. serve cb ms (session_of c s) = (out, session_of c s')
     \<and> sent c s' @ unsent c s' = sent c s @ unsent c s @ out)"

lemma answered_nothing:
  "session_of c s' = session_of c s \<Longrightarrow> sent c s' = sent c s \<Longrightarrow> unsent c s' = unsent c s \<Longrightarrow> answered cb c [] s s'"
  by (simp add: answered_def)

lemma answered_trans:
  assumes "answered cb c ms s t" and "answered cb c ms' t u"
  shows "answered cb c (ms @ ms') s u"
  using assms by (auto simp: answered_def serve_append)

text \<open>The messages of one connection among those of all.\<close>

definition said :: "nat \<Rightarrow> (nat \<times> int \<times> string) list \<Rightarrow> (int \<times> string) list" where
  "said c ms = map snd (filter (\<lambda>m. fst m = c) ms)"

lemma said_simps [simp]:
  "said c [] = []" "said c (ms @ ms') = said c ms @ said c ms'" "said c (map (Pair c') hs) = (if c' = c then hs else [])"
  by (auto simp: said_def comp_def filter_empty_conv)

section \<open>The server, its loop and its connections\<close>

text \<open>Where the objects of the server are: the \<open>TcpServer\<close>, the \<open>HttpServer\<close>, the acceptor and the loop.\<close>

record site =
  su_server :: nat
  su_http :: nat
  su_acceptor :: nat
  su_loop :: nat

definition listening :: "site \<Rightarrow> 'z http_world_scheme \<Rightarrow> bool" where
  "listening G s \<longleftrightarrow> (let ac = aw_acceptors s (su_acceptor G) in
     ac_newConnCallBack ac = Some (su_server G) \<and> ac_loop ac = su_loop G
   \<and> ch_readCallBack (chans s (ac_channel ac)) = Some (AcceptorHandleRead (su_acceptor G))
   \<and> loop_channels (su_loop G) s (ac_fd ac) = Some (ac_channel ac))"

definition server_live :: "site \<Rightarrow> 'z http_world_scheme \<Rightarrow> bool" where
  "server_live G s \<longleftrightarrow> (let ts = sw_servers s (su_server G) in
     isInLoopThread (su_loop G) s \<and> poller_ok (lp_poller (w_loops s (su_loop G))) (chans s)
   \<and> server_ok (su_server G) s \<and> ts_loop ts = su_loop G \<and> tp_loops (ts_threadpoll ts) = []
   \<and> ts_messageCallBack ts = Some (su_http G) \<and> listening G s)"

text \<open>A connection that reported its close and waits for its destruction.\<close>

definition doomed :: "site \<Rightarrow> nat \<Rightarrow> 'z http_world_scheme \<Rightarrow> bool" where
  "doomed G c s \<longleftrightarrow> conn_registered c s \<and> cn_state (cw_conns s c) \<in> {kConnected, kDisconnecting} \<and> cn_loop (cw_conns s c) = su_loop G"

definition attended :: "site \<Rightarrow> nat \<Rightarrow> 'z http_world_scheme \<Rightarrow> bool" where
  "attended G c s \<longleftrightarrow> (\<exists>d. session_live (su_server G) (su_http G) d c s) \<and> cn_loop (cw_conns s c) = su_loop G"

definition conn_channel :: "'z http_world_scheme \<Rightarrow> nat \<Rightarrow> nat" where
  "conn_channel s c = cn_channel (cw_conns s c)"

text \<open>The server with the connections \<open>cs\<close> it serves and the connections \<open>ds\<close> it is about to destroy.\<close>

definition crowd :: "site \<Rightarrow> nat list \<Rightarrow> nat list \<Rightarrow> 'z http_world_scheme \<Rightarrow> bool" where
  "crowd G cs ds s \<longleftrightarrow> server_live G s \<and> distinct (map (conn_channel s) (cs @ ds))
     \<and> ac_channel (aw_acceptors s (su_acceptor G)) \<notin> conn_channel s ` set (cs @ ds)
     \<and> (\<forall>c\<in>set cs. attended G c s) \<and> (\<forall>c\<in>set ds. doomed G c s)
     \<and> ran (ts_connects (sw_servers s (su_server G))) = set cs"

lemma attended_doomed: "attended G c s \<Longrightarrow> doomed G c s"
  by (auto simp: attended_def doomed_def session_live_def dest: servedD(1,2))

lemma doomedD:
  assumes "doomed G c s"
  shows "loop_channels (su_loop G) s (cn_fd (cw_conns s c)) = Some (conn_channel s c)"
    and "ch_fd (chans s (conn_channel s c)) = cn_fd (cw_conns s c)" and "ch_loop (chans s (conn_channel s c)) = su_loop G"
    and "conn_registered c s" and "cn_loop (cw_conns s c) = su_loop G"
    and "poller_ok (lp_poller (w_loops s (su_loop G))) (chans s)" and "isInLoopThread (su_loop G) s"
  using assms by (auto simp: doomed_def conn_registered_def Let_def registered_def loop_channels_def conn_channel_def)

lemma attendedD:
  assumes "attended G c s"
  shows "served (su_server G) c s" and "cn_loop (cw_conns s c) = su_loop G"
  using assms by (auto simp: attended_def session_live_def)

lemma crowdD:
  assumes "crowd G cs ds s"
  shows "server_live G s" and "distinct (cs @ ds)" and "inj_on (conn_channel s) (set cs \<union> set ds)"
    and "c \<in> set cs \<Longrightarrow> attended G c s" and "c \<in> set cs \<union> set ds \<Longrightarrow> doomed G c s"
    and "c \<in> set cs \<union> set ds \<Longrightarrow> conn_channel s c \<noteq> ac_channel (aw_acceptors s (su_acceptor G))"
    and "ran (ts_connects (sw_servers s (su_server G))) = set cs"
proof -
  show "distinct (cs @ ds)" "inj_on (conn_channel s) (set cs \<union> set ds)"
    using assms unfolding crowd_def distinct_map by auto
  show "c \<in> set cs \<union> set ds \<Longrightarrow> doomed G c s" using assms by (auto simp: crowd_def attended_doomed)
  show "c \<in> set cs \<union> set ds \<Longrightarrow> conn_channel s c \<noteq> ac_channel (aw_acceptors s (su_acceptor G))"
    using assms unfolding crowd_def set_append by (metis imageI)
qed (use assms in \<open>auto simp: crowd_def\<close>)

lemma server_liveD:
  assumes "server_live G s"
  shows "isInLoopThread (su_loop G) s" and "poller_ok (lp_poller (w_loops s (su_loop G))) (chans s)" and "server_ok (su_server G) s"
    and "ts_loop (sw_servers s (su_server G)) = su_loop G" and "tp_loops (ts_threadpoll (sw_servers s (su_server G))) = []"
    and "ts_messageCallBack (sw_servers s (su_server G)) = Some (su_http G)" and "listening G s"
  using assms by (simp_all add: server_live_def Let_def)

text \<open>Two connections share neither channel nor descriptor, and the acceptor has its own.\<close>

lemma crowd_apart:
  assumes c: "crowd G cs ds s" and d: "x \<in> set cs \<union> set ds" "y \<in> set cs \<union> set ds" "x \<noteq> y"
  shows "conn_channel s x \<noteq> conn_channel s y" and "cn_fd (cw_conns s x) \<noteq> cn_fd (cw_conns s y)"
proof -
  show ch: "conn_channel s x \<noteq> conn_channel s y" using crowdD(3) [OF c] d by (auto simp: inj_on_def)
  show "cn_fd (cw_conns s x) \<noteq> cn_fd (cw_conns s y)"
    using ch doomedD(1) [OF crowdD(5) [OF c d(1)]] doomedD(1) [OF crowdD(5) [OF c d(2)]] by auto
qed

lemma crowd_apart_acceptor:
  assumes c: "crowd G cs ds s" and x: "x \<in> set cs \<union> set ds"
  shows "cn_fd (cw_conns s x) \<noteq> ac_fd (aw_acceptors s (su_acceptor G))"
  using doomedD(1) [OF crowdD(5) [OF c x]] crowdD(6) [OF c x] server_liveD(7) [OF crowdD(1) [OF c]]
  by (auto simp: listening_def Let_def)

section \<open>What an event leaves of the others\<close>

lemma ran_forget:
  assumes inj: "\<forall>x y e. m x = Some e \<longrightarrow> m y = Some e \<longrightarrow> x = y" and k: "m k = Some v"
  shows "ran (m(k := None)) = ran m - {v}"
proof -
  have "m a = Some e \<and> a \<noteq> k \<longleftrightarrow> m a = Some e \<and> e \<noteq> v" for a e using inj k by (metis option.inject)
  then have "{e. \<exists>a. m a = Some e \<and> a \<noteq> k} = {e. \<exists>a. m a = Some e \<and> e \<noteq> v}" by simp
  then show ?thesis by (auto simp: ran_def)
qed

lemma kept_attended:
  assumes at: "attended G c s" and u: "untouched C H F s s'" and sp: "spared C H F c s"
    and ok: "poller_ok (lp_poller (w_loops s' (su_loop G))) (chans s')"
    and sv: "ts_loop (sw_servers s' (su_server G)) = ts_loop (sw_servers s (su_server G))"
      "ts_connects (sw_servers s' (su_server G)) (cn_name (cw_conns s c)) = ts_connects (sw_servers s (su_server G)) (cn_name (cw_conns s c))"
  shows "attended G c s'" and "answered cb c [] s s'"
proof -
  obtain d where d: "session_live (su_server G) (su_http G) d c s" "cn_loop (cw_conns s c) = su_loop G"
    using at by (auto simp: attended_def)
  note S = spared_session [OF d(1) u sp _ sv, unfolded d(2), OF ok]
  have "c \<notin> C" using sp by (simp add: spared_def)
  then show "attended G c s'" using S(1) d(2) untouchedD(5) [OF u] by (auto simp: attended_def)
  show "answered cb c [] s s'" by (rule answered_nothing [OF S(2-4)])
qed

lemma kept_doomed:
  assumes dm: "doomed G c s" and u: "untouched C H F s s'" and sp: "spared C H F c s"
    and ok: "poller_ok (lp_poller (w_loops s' (su_loop G))) (chans s')"
  shows "doomed G c s'"
  using spared_registered [OF doomedD(4) [OF dm] u sp] ok sp untouchedD(5) [OF u] dm
  by (simp add: doomed_def spared_def)

lemma kept_listening:
  assumes "listening G s" and u: "untouched C H F s s'"
    and "ac_channel (aw_acceptors s (su_acceptor G)) \<notin> H" and "ac_fd (aw_acceptors s (su_acceptor G)) \<notin> F"
  shows "listening G s'"
  using assms(1,3,4) untouchedD(3,10) [OF u] same_but_index_views(6) [OF untouchedD(7) [OF u assms(3)]]
  by (simp add: listening_def Let_def)

text \<open>So does the whole crowd, but for the connections the event is about.\<close>

lemma kept_crowd:
  assumes c: "crowd G cs ds s" and u: "untouched C H F s s'" and live: "server_live G s'"
    and sub: "set cs' \<subseteq> set cs" "set ds' \<subseteq> set ds" and sp: "\<forall>x\<in>set cs' \<union> set ds'. spared C H F x s"
    and sv: "\<forall>x\<in>set cs'. ts_connects (sw_servers s' (su_server G)) (cn_name (cw_conns s x)) = Some x"
  shows "x \<in> set cs' \<Longrightarrow> attended G x s'" and "x \<in> set cs' \<Longrightarrow> answered cb x [] s s'"
    and "x \<in> set ds' \<Longrightarrow> doomed G x s'" and "x \<in> set cs' \<union> set ds' \<Longrightarrow> conn_channel s' x = conn_channel s x"
proof -
  note L = server_liveD [OF live] and L0 = server_liveD [OF crowdD(1) [OF c]]
  have lp: "ts_loop (sw_servers s' (su_server G)) = ts_loop (sw_servers s (su_server G))" using L(4) L0(4) by simp
  {
    assume x: "x \<in> set cs'"
    then have at: "attended G x s" using crowdD(4) [OF c] sub(1) by blast
    have "ts_connects (sw_servers s' (su_server G)) (cn_name (cw_conns s x))
        = ts_connects (sw_servers s (su_server G)) (cn_name (cw_conns s x))"
      using bspec [OF sv x] servedD(6) [OF attendedD(1) [OF at]] by simp
    moreover have "spared C H F x s" using sp x by blast
    ultimately show "attended G x s'" "answered cb x [] s s'" using kept_attended [OF at u _ L(2) lp] by blast+
  }
  show "x \<in> set ds' \<Longrightarrow> doomed G x s'" using kept_doomed [OF crowdD(5) [OF c] u _ L(2)] sub(2) sp by blast
  show "conn_channel s' x = conn_channel s x" if "x \<in> set cs' \<union> set ds'"
    using bspec [OF sp that] untouchedD(5) [OF u] by (simp add: conn_channel_def spared_def)
qed

lemma apart_spared:
  assumes c: "crowd G cs ds s" and x: "x \<in> set cs \<union> set ds" and y: "y \<in> set cs \<union> set ds" "y \<noteq> x"
  shows "spared {x} {conn_channel s x} {cn_fd (cw_conns s x)} y s"
  using crowd_apart [OF c y(1) x y(2)] y(2) by (simp add: spared_def conn_channel_def)

section \<open>One event\<close>

text \<open>A connection that is readable, writable or both.\<close>

lemma crowd_serves:
  fixes P :: "('z http_world_scheme) program" and c n :: nat
  assumes cr: "crowd G cs ds s" and c: "c \<in> set cs"
    and doc: "write_documented (pg_kernel P)" "readv_documented (pg_kernel P)"
    and r: "ch_revent (chans s (conn_channel s c)) = r" "r \<in> session_bits"
    and can: "r AND POLLIN \<noteq> 0 \<longrightarrow> can_read (pg_kernel P) (hs_httpCallback (hw_servers s (su_http G))) c t s"
  defines "cb \<equiv> hs_httpCallback (hw_servers s (su_http G))"
  shows "\<exists>s'. handleEvent (system_run P (Suc n)) (system_read P (Suc n)) (conn_channel s c) t s = Inr s'
    \<and> crowd G cs ds s' \<and> (\<forall>x\<in>set cs. answered cb x (said x (map (Pair c) (heard (pg_kernel P) c r t s))) s s')
    \<and> hw_servers s' = hw_servers s \<and> pending_of (su_loop G) s' = pending_of (su_loop G) s"
proof -
  let ?sv = "su_server G" and ?l = "su_loop G"
  have at: "attended G c s" by (rule crowdD(4) [OF cr c])
  then obtain d where d: "session_live ?sv (su_http G) d c s" "cn_loop (cw_conns s c) = ?l" by (auto simp: attended_def)
  from session_event [OF d(1) doc, folded conn_channel_def, OF r can, of n] obtain s' out where
    s': "handleEvent (system_run P (Suc n)) (system_read P (Suc n)) (conn_channel s c) t s = Inr s'"
      "session_live ?sv (su_http G) d c s'" "conn_frame c s s'"
      "serve cb (heard (pg_kernel P) c r t s) (session_of c s) = (out, session_of c s')"
      "sent c s' @ unsent c s' = sent c s @ unsent c s @ out"
    unfolding cb_def by blast
  note f = conn_frameD [OF s'(3)]
  note cf = conn_fixed_sel [OF f(1)]
  have "own_fds c s = {cn_fd (cw_conns s c)}"
    using doomedD(2) [OF attended_doomed [OF at]] by (auto simp: own_fds_def conn_channel_def)
  then have u: "untouched {c} {conn_channel s c} {cn_fd (cw_conns s c)} s s'" using f(6) by (simp add: conn_channel_def)
  have at': "attended G c s'" using s'(2) d(2) cf(1) by (auto simp: attended_def)
  then have ok: "poller_ok (lp_poller (w_loops s' ?l)) (chans s')"
    by (rule doomedD(6) [OF attended_doomed])
  have cn: "cn_name (cw_conns s' x) = cn_name (cw_conns s x)" "cn_closeCallBack (cw_conns s' x) = cn_closeCallBack (cw_conns s x)" for x
    using untouchedD(5) [OF u, of x] f(1) by (cases "x = c"; simp add: conn_fixed_def)+
  have acc: "ac_channel (aw_acceptors s (su_acceptor G)) \<notin> {conn_channel s c}" using crowdD(6) [OF cr, of c] c by auto
  have "ac_fd (aw_acceptors s (su_acceptor G)) \<notin> {cn_fd (cw_conns s c)}" using crowd_apart_acceptor [OF cr, of c] c by auto
  note lis = kept_listening [OF server_liveD(7) [OF crowdD(1) [OF cr]] u acc this]
  have live: "server_live G s'"
    using server_liveD [OF crowdD(1) [OF cr]] ok lis server_ok_cong [of ?sv s s'] f(2,8) cn
    by (simp add: server_live_def Let_def)
  have sp: "\<forall>x\<in>set (remove1 c cs) \<union> set ds. spared {c} {conn_channel s c} {cn_fd (cw_conns s c)} x s"
    using apart_spared [OF cr, of c] c crowdD(2) [OF cr] by auto
  have sv: "\<forall>x\<in>set (remove1 c cs). ts_connects (sw_servers s' ?sv) (cn_name (cw_conns s x)) = Some x"
    using servedD(6) [OF attendedD(1) [OF crowdD(4) [OF cr]]] crowdD(2) [OF cr] by (simp add: f(2))
  note K = kept_crowd [OF cr u live set_remove1_subset subset_refl sp sv]
  have rm: "set (remove1 c cs) = set cs - {c}" using crowdD(2) [OF cr] by simp
  have ch: "conn_channel s' x = conn_channel s x" if "x \<in> set (cs @ ds)" for x
    using K(4) [of x] that cf(2) by (cases "x = c") (auto simp: rm conn_channel_def)
  have "crowd G cs ds s'"
    using cr live K(1,3) at' ch untouchedD(3) [OF u] f(2) unfolding crowd_def by (auto simp: rm cong: map_cong image_cong)
  moreover have "answered cb x (said x (map (Pair c) (heard (pg_kernel P) c r t s))) s s'" if "x \<in> set cs" for x
    using K(2) [of x cb] that s'(4,5) by (cases "x = c") (auto simp: rm answered_def)
  ultimately show ?thesis using s'(1) f(3,7) by blast
qed

lemma crowd_forgets:
  assumes cr: "crowd G cs ds s" and c: "c \<in> set cs"
  defines "connects \<equiv> ts_connects (sw_servers s (su_server G))"
  shows "ran (connects(cn_name (cw_conns s c) := None)) = set cs - {c}"
proof -
  have "\<forall>x y e. connects x = Some e \<longrightarrow> connects y = Some e \<longrightarrow> x = y"
    using server_liveD(3) [OF crowdD(1) [OF cr]] unfolding server_ok_def Let_def connects_def by metis
  moreover have "connects (cn_name (cw_conns s c)) = Some c"
    using servedD(6) [OF attendedD(1) [OF crowdD(4) [OF cr c]]] by (simp add: connects_def)
  ultimately have "ran (connects(cn_name (cw_conns s c) := None)) = ran connects - {c}" by (rule ran_forget)
  then show ?thesis using crowdD(7) [OF cr] by (simp add: connects_def)
qed

text \<open>A connection whose peer closed: the server forgets it and queues its destruction.\<close>

lemma crowd_closes:
  fixes P :: "('z http_world_scheme) program" and c n :: nat
  assumes cr: "crowd G cs ds s" and c: "c \<in> set cs" and doc: "readv_documented (pg_kernel P)"
    and rev: "ch_revent (chans s (conn_channel s c)) \<in> {POLLIN, POLLIN OR POLLHUP}" and eof: "an_ret (arrives (pg_kernel P) c s) = 0"
  shows "\<exists>s'. handleEvent (system_run P (Suc (Suc n))) (system_read P (Suc (Suc n))) (conn_channel s c) t s = Inr s'
    \<and> crowd G (remove1 c cs) (ds @ [c]) s' \<and> (\<forall>x\<in>set (remove1 c cs). answered cb x [] s s')
    \<and> hw_servers s' = hw_servers s \<and> pending_of (su_loop G) s' = pending_of (su_loop G) s @ [ConnectDestory c]"
proof -
  let ?sv = "su_server G" and ?l = "su_loop G"
  have at: "attended G c s" by (rule crowdD(4) [OF cr c])
  note sd = attendedD [OF at]
  from hangup_event [OF sd(1) doc, folded conn_channel_def read_call_def arrives_def, OF eof rev, of n t] obtain s' where
    s': "handleEvent (system_run P (Suc (Suc n))) (system_read P (Suc (Suc n))) (conn_channel s c) t s = Inr s'" "hung_up ?sv c s s'"
    by blast
  from s'(2) obtain b where h: "conn_registered c s'" "cw_conns s' = (cw_conns s)(c := set_input b (cw_conns s c))"
    "sw_servers s' = forgets ?sv (cn_name (cw_conns s c)) (sw_servers s)"
    "pending_of ?l s' = pending_of ?l s @ [ConnectDestory c]" "untouched {c} {conn_channel s c} {} s s'"
    unfolding hung_up_def Let_def sd(2) conn_channel_def by blast
  note u = h(5)
  have dm: "doomed G c s'" using h(1,2) sd servedD(2) [OF sd(1)] by (auto simp: doomed_def)
  have acc: "ac_channel (aw_acceptors s (su_acceptor G)) \<notin> {conn_channel s c}" using crowdD(6) [OF cr, of c] c by auto
  note L = server_liveD [OF crowdD(1) [OF cr]]
  have name: "cn_name (cw_conns s x) \<noteq> cn_name (cw_conns s c)" if "x \<in> set cs" "x \<noteq> c" for x
    using servedD(6) [OF attendedD(1) [OF crowdD(4) [OF cr that(1)]]] servedD(6) [OF sd(1)] that(2) by auto
  have "server_ok ?sv s'"
    using L(3) by (auto simp: server_ok_def Let_def h(2,3) forgets_def numbered_def split: if_splits)
  then have live: "server_live G s'"
    using L doomedD(6,7) [OF dm] kept_listening [OF L(7) u acc] by (simp add: server_live_def Let_def h(3) forgets_def)
  have rm: "set (remove1 c cs) = set cs - {c}" using crowdD(2) [OF cr] by simp
  have sp: "\<forall>x\<in>set (remove1 c cs) \<union> set ds. spared {c} {conn_channel s c} {} x s"
    using apart_spared [OF cr, of c] c crowdD(2) [OF cr] by (auto simp: spared_def rm)
  have sv: "\<forall>x\<in>set (remove1 c cs). ts_connects (sw_servers s' ?sv) (cn_name (cw_conns s x)) = Some x"
    using servedD(6) [OF attendedD(1) [OF crowdD(4) [OF cr]]] name by (simp add: h(3) rm)
  note K = kept_crowd [OF cr u live set_remove1_subset subset_refl sp sv]
  have ch: "conn_channel s' x = conn_channel s x" for x by (simp add: conn_channel_def h(2))
  have ran: "ran (ts_connects (sw_servers s' ?sv)) = set (remove1 c cs)"
    using crowd_forgets [OF cr c] by (simp add: h(3) rm)
  have "crowd G (remove1 c cs) (ds @ [c]) s'"
    unfolding crowd_def
  proof (intro conjI ballI)
    show "distinct (map (conn_channel s') (remove1 c cs @ ds @ [c]))"
      using cr c unfolding crowd_def ch distinct_map by (auto simp: rm inj_on_def)
    show "ac_channel (aw_acceptors s' (su_acceptor G)) \<notin> conn_channel s' ` set (remove1 c cs @ ds @ [c])"
      using cr c unfolding crowd_def ch untouchedD(3) [OF u] by (auto simp: rm)
    show "x \<in> set (ds @ [c]) \<Longrightarrow> doomed G x s'" for x using K(3) dm by auto
  qed (use live K(1) ran in auto)
  then show ?thesis using s'(1) K(2) h(4) untouchedD(2) [OF u] by blast
qed

section \<open>What changes no session\<close>

text \<open>A step of the loop itself: a poll, a functor that is taken from its queue, the flag of a channel
  that is handled.\<close>

definition same_world :: "'z http_world_scheme \<Rightarrow> 'z http_world_scheme \<Rightarrow> bool" where
  "same_world s s' \<longleftrightarrow> cw_conns s' = cw_conns s \<and> sw_servers s' = sw_servers s \<and> aw_acceptors s' = aw_acceptors s
     \<and> hw_servers s' = hw_servers s \<and> hw_contexts s' = hw_contexts s \<and> sk_trace s' = sk_trace s \<and> w_tid s' = w_tid s
     \<and> (\<forall>l. lp_threadId (w_loops s' l) = lp_threadId (w_loops s l) \<and> loop_channels l s' = loop_channels l s
          \<and> (poller_ok (lp_poller (w_loops s l)) (chans s) \<longrightarrow> poller_ok (lp_poller (w_loops s' l)) (chans s')))
     \<and> (\<forall>k. callbacks (chans s' k) = callbacks (chans s k) \<and> ch_event (chans s' k) = ch_event (chans s k)
          \<and> ch_fd (chans s' k) = ch_fd (chans s k) \<and> ch_loop (chans s' k) = ch_loop (chans s k))"

lemma same_worldD:
  assumes "same_world s s'"
  shows "cw_conns s' = cw_conns s" and "sw_servers s' = sw_servers s" and "aw_acceptors s' = aw_acceptors s"
    and "hw_servers s' = hw_servers s" and "hw_contexts s' = hw_contexts s" and "sk_trace s' = sk_trace s" and "w_tid s' = w_tid s"
    and "lp_threadId (w_loops s' l) = lp_threadId (w_loops s l)" and "loop_channels l s' = loop_channels l s"
    and "poller_ok (lp_poller (w_loops s l)) (chans s) \<Longrightarrow> poller_ok (lp_poller (w_loops s' l)) (chans s')"
    and "callbacks (chans s' k) = callbacks (chans s k)" and "ch_event (chans s' k) = ch_event (chans s k)"
    and "ch_fd (chans s' k) = ch_fd (chans s k)" and "ch_loop (chans s' k) = ch_loop (chans s k)"
  using assms by (simp_all add: same_world_def)

lemma same_world_loop:
  assumes "\<And>lp. lp_threadId (f lp) = lp_threadId lp \<and> lp_poller (f lp) = lp_poller lp"
  shows "same_world s (upd_loop l f s)"
  using assms by (simp add: same_world_def upd_loop_def loop_channels_def)

lemma same_world_chan:
  assumes "\<And>ch. callbacks (g ch) = callbacks ch \<and> ch_event (g ch) = ch_event ch \<and> ch_fd (g ch) = ch_fd ch
    \<and> ch_loop (g ch) = ch_loop ch \<and> ch_index (g ch) = ch_index ch"
  shows "same_world s (upd_chan k g s)"
proof -
  have "poller_ok pl (chans (upd_chan k g s))" if "poller_ok pl (chans s)" for pl
    by (rule poller_ok_cong [OF that]) (simp_all add: upd_chan_def assms)
  then show ?thesis using assms by (simp add: same_world_def upd_chan_def loop_channels_def)
qed

lemma same_world_flag: "same_world s (upd_chan k (\<lambda>ch. ch\<lparr>ch_eventHanding := b\<rparr>) s)"
  by (rule same_world_chan) (simp add: callbacks_def)

lemma same_world_poll:
  assumes doc: "poll_documented (pl_pollfds (lp_poller (w_loops s l))) (pa_nums ans) (pa_revents ans)"
    and ok: "poller_ok (lp_poller (w_loops s l)) (chans s)"
  shows "\<exists>s0. poll_active l ans s = Inr s0 \<and> same_world s s0 \<and> (\<forall>k. pending_of k s0 = pending_of k s)
    \<and> lp_activeChannels (w_loops s0 l) = ready (lp_poller (w_loops s l)) (pa_revents ans)
    \<and> (\<forall>k\<in>set (ready (lp_poller (w_loops s l)) (pa_revents ans)).
         ch_revent (chans s0 k) = scast (pa_revents ans ! nat (ch_index (chans s k))))"
proof -
  from poll_reports [OF ok doc, of "[]"] obtain pl cs where
    pl: "poller_poll (pa_nums ans) (pa_revents ans) [] (lp_poller (w_loops s l)) (chans s)
        = Inr (ready (lp_poller (w_loops s l)) (pa_revents ans), pl, cs)"
      "poller_ok pl cs" "pl_channels pl = pl_channels (lp_poller (w_loops s l))"
      "\<forall>k. cs k = (if k \<in> set (ready (lp_poller (w_loops s l)) (pa_revents ans))
         then setEvent (scast (pa_revents ans ! nat (ch_index (chans s k)))) (chans s k) else chans s k)"
    by auto
  let ?s0 = "upd_loop l (\<lambda>lp. lp\<lparr>lp_poller := pl, lp_activeChannels := ready (lp_poller (w_loops s l)) (pa_revents ans),
    lp_pollReturnTime := pa_now ans\<rparr>) (s\<lparr>chans := cs\<rparr>)"
  have c: "callbacks (cs k) = callbacks (chans s k)" "ch_event (cs k) = ch_event (chans s k)" "ch_fd (cs k) = ch_fd (chans s k)"
    "ch_loop (cs k) = ch_loop (chans s k)" "ch_index (cs k) = ch_index (chans s k)" for k
    using pl(4) by (simp_all add: setEvent_def callbacks_def)
  have "poller_ok p cs" if "poller_ok p (chans s)" for p by (rule poller_ok_cong [OF that]) (simp_all add: c)
  then have "same_world s ?s0"
    using pl(2,3) by (simp add: same_world_def upd_loop_def loop_channels_def c)
  moreover have "poll_active l ans s = Inr ?s0" by (simp add: poll_active_def pl(1))
  moreover have "pending_of k ?s0 = pending_of k s"
    "lp_activeChannels (w_loops ?s0 l) = ready (lp_poller (w_loops s l)) (pa_revents ans)" for k
    by (simp_all add: upd_loop_def view_defs)
  moreover have "ch_revent (chans ?s0 k) = scast (pa_revents ans ! nat (ch_index (chans s k)))"
    if "k \<in> set (ready (lp_poller (w_loops s l)) (pa_revents ans))" for k
    using that pl(4) by (simp add: loop_simps setEvent_def)
  ultimately show ?thesis by blast
qed

lemma same_world_registered:
  assumes w: "same_world s s'" and reg: "conn_registered c s"
  shows "conn_registered c s'"
  using reg same_worldD(10) [OF w]
  by (auto simp: conn_registered_def Let_def registered_def isInLoopThread_def same_worldD(1,7,8,13,14) [OF w]
      fun_cong [OF same_worldD(9) [OF w], unfolded loop_channels_def])

lemma same_world_session:
  assumes w: "same_world s s'" and live: "session_live sv h d c s"
  shows "session_live sv h d c s'" and "answered cb c [] s s'"
proof -
  have "conn_registered c s'" using same_world_registered [OF w] live by (auto simp: session_live_def dest: servedD(1))
  note S = session_live_cong [OF live this same_worldD(1,2,5,6,11,12) [OF w]]
  show "session_live sv h d c s'" by (rule S(1))
  show "answered cb c [] s s'" by (rule answered_nothing [OF S(2-4)])
qed

lemma same_world_crowd:
  assumes w: "same_world s s'" and cr: "crowd G cs ds s"
  shows "crowd G cs ds s'" and "c \<in> set cs \<Longrightarrow> answered cb c [] s s'"
proof -
  note v = same_worldD [OF w]
  have "ch_readCallBack (chans s' k) = ch_readCallBack (chans s k)" for k using v(11) by (simp add: callbacks_def)
  then have live: "server_live G s'"
    using server_liveD [OF crowdD(1) [OF cr]] v(10) server_ok_cong [of "su_server G" s s']
    by (simp add: server_live_def Let_def isInLoopThread_def listening_def v(1-3,7-9))
  have at: "attended G x s' \<and> answered cb x [] s s'" if x: "x \<in> set cs" for x cb
  proof -
    obtain d where d: "session_live (su_server G) (su_http G) d x s" "cn_loop (cw_conns s x) = su_loop G"
      using crowdD(4) [OF cr x] by (auto simp: attended_def)
    show ?thesis using same_world_session [OF w d(1)] d(2) unfolding attended_def v(1) by blast
  qed
  have "doomed G x s'" if "x \<in> set ds" for x
    using crowdD(5) [OF cr, of x] that same_world_registered [OF w] by (simp add: doomed_def v(1))
  then show "crowd G cs ds s'"
    using cr live at by (simp add: crowd_def conn_channel_def [abs_def] v(1-3))
  show "c \<in> set cs \<Longrightarrow> answered cb c [] s s'" using at by blast
qed

section \<open>A connection that is accepted\<close>

text \<open>What accepting takes from the kernel and the heap: a descriptor that no channel of the loop has, and
  memory that no connection uses.\<close>

definition accepting :: "('z http_world_scheme) program \<Rightarrow> site \<Rightarrow> 'z http_world_scheme \<Rightarrow> answer \<times> nat \<times> nat" where
  "accepting P G s = (let call = SysAccept (ac_fd (aw_acceptors s (su_acceptor G))); a = pg_kernel P (sk_trace s) call in
     (a, pg_new_conn P (s\<lparr>sk_trace := sk_trace s @ [(call, a)]\<rparr>)))"

definition accept_given :: "('z http_world_scheme) program \<Rightarrow> site \<Rightarrow> nat \<Rightarrow> 'z http_world_scheme \<Rightarrow> bool" where
  "accept_given P G c s \<longleftrightarrow> (case accepting P G s of (a, ch, c') \<Rightarrow>
     c' = c \<and> c \<notin> ran (ts_connects (sw_servers s (su_server G))) \<and> ConnectDestory c \<notin> set (pending_of (su_loop G) s) \<and> hw_contexts s c = None \<and> 0 \<le> an_ret a \<and> loop_channels (su_loop G) s (an_ret a) = None
   \<and> ch \<notin> ran (loop_channels (su_loop G) s) \<and> ts_nextConnId (sw_servers s (su_server G)) < 2147483647)"

lemma server_names:
  assumes "server_ok sv s" and "ts_connects (sw_servers s sv) name = Some c"
  shows "name \<noteq> next_name (sw_servers s sv)"
  using assms next_name_fresh by (auto simp: server_ok_def Let_def)

text \<open>A crowd takes in a connection with a channel and a descriptor of its own that the server files under
  its next name.\<close>

lemma crowd_extended:
  assumes cr: "crowd G cs ds s" and u: "untouched {c} {ch} {fd} s s'"
    and own: "c \<notin> set cs \<union> set ds" "loop_channels (su_loop G) s fd = None" "ch \<notin> ran (loop_channels (su_loop G) s)"
    and at: "attended G c s'" "conn_channel s' c = ch" and ok: "server_ok (su_server G) s'" and tp: "tp_loops tp = []"
    and filed: "sw_servers s' = (sw_servers s)(su_server G := server_after tp c (sw_servers s (su_server G)))"
  shows "crowd G (c # cs) ds s'" and "x \<in> set cs \<Longrightarrow> answered cb x [] s s'"
proof -
  let ?sv = "su_server G" and ?l = "su_loop G" and ?ac = "aw_acceptors s (su_acceptor G)"
  note L = server_liveD [OF crowdD(1) [OF cr]]
  have lis: "loop_channels ?l s (ac_fd ?ac) = Some (ac_channel ?ac)" using L(7) by (simp add: listening_def Let_def)
  have acc: "ac_channel ?ac \<noteq> ch" "ac_fd ?ac \<noteq> fd" using lis own(2,3) by (auto intro: ranI)
  then have "listening G s'" using kept_listening [OF L(7) u] by simp
  then have live: "server_live G s'"
    using L ok tp doomedD(6,7) [OF attended_doomed [OF at(1)]] by (simp add: server_live_def Let_def filed server_after_def)
  have apart: "conn_channel s x \<noteq> ch" "cn_fd (cw_conns s x) \<noteq> fd" "x \<noteq> c" if "x \<in> set cs \<union> set ds" for x
    using doomedD(1) [OF crowdD(5) [OF cr that]] own that by (auto intro: ranI)
  have sp: "\<forall>x\<in>set cs \<union> set ds. spared {c} {ch} {fd} x s"
    using apart by (simp add: spared_def conn_channel_def)
  have sv: "\<forall>x\<in>set cs. ts_connects (sw_servers s' ?sv) (cn_name (cw_conns s x)) = Some x"
    using servedD(6) [OF attendedD(1) [OF crowdD(4) [OF cr]]] server_names [OF L(3)] by (auto simp: filed server_after_def)
  note K = kept_crowd [OF cr u live subset_refl subset_refl sp sv]
  have "next_name (sw_servers s ?sv) \<notin> dom (ts_connects (sw_servers s ?sv))" using server_names [OF L(3)] by auto
  then have ran: "ran (ts_connects (sw_servers s' ?sv)) = set (c # cs)"
    using crowdD(7) [OF cr] by (simp add: filed server_after_def domIff)
  have chs: "map (conn_channel s') (cs @ ds) = map (conn_channel s) (cs @ ds)"
    "conn_channel s' ` set (cs @ ds) = conn_channel s ` set (cs @ ds)" using K(4) by (auto intro: image_cong)
  have dist: "distinct (map (conn_channel s') ((c # cs) @ ds))"
    using cr apart(1) unfolding crowd_def append_Cons list.map chs at(2) by auto
  have out: "ac_channel (aw_acceptors s' (su_acceptor G)) \<notin> conn_channel s' ` set ((c # cs) @ ds)"
    using cr acc unfolding crowd_def append_Cons list.set image_insert chs at(2) untouchedD(3) [OF u] by simp
  show "crowd G (c # cs) ds s'" unfolding crowd_def using live dist out ran at(1) K(1,3) by simp
  show "x \<in> set cs \<Longrightarrow> answered cb x [] s s'" by (rule K(2))
qed

lemma crowd_accepted:
  fixes P :: "('z http_world_scheme) program" and c n :: nat
  assumes cr: "crowd G cs ds s" and pend: "pending_of (su_loop G) s = map ConnectDestory ds" and given: "accept_given P G c s"
  shows "\<exists>s'. system_run P (Suc (Suc n)) (AcceptorHandleRead (su_acceptor G)) s = Inr s' \<and> crowd G (c # cs) ds s'
    \<and> (\<forall>x\<in>set cs. answered cb x [] s s') \<and> session_of c s' = (context_init, [], True) \<and> unsent c s' = []
    \<and> sent c s' = written (an_ret (fst (accepting P G s))) (sk_trace s)
    \<and> hw_servers s' = hw_servers s \<and> pending_of (su_loop G) s' = pending_of (su_loop G) s
    \<and> (\<forall>k\<in>ran (loop_channels (su_loop G) s). ch_revent (chans s' k) = ch_revent (chans s k))
    \<and> (\<forall>x\<in>set cs. cw_conns s' x = cw_conns s x \<and> hw_contexts s' x = hw_contexts s x)"
proof -
  let ?sv = "su_server G" and ?l = "su_loop G" and ?ac = "aw_acceptors s (su_acceptor G)"
  note L = server_liveD [OF crowdD(1) [OF cr]]
  have lis: "ac_newConnCallBack ?ac = Some ?sv" "ac_loop ?ac = ?l" "loop_channels ?l s (ac_fd ?ac) = Some (ac_channel ?ac)"
    "ch_readCallBack (chans s (ac_channel ?ac)) = Some (AcceptorHandleRead (su_acceptor G))"
    using L(7) by (simp_all add: listening_def Let_def)
  obtain a ch where a: "a = pg_kernel P (sk_trace s) (SysAccept (ac_fd ?ac))"
    "pg_new_conn P (s\<lparr>sk_trace := sk_trace s @ [(SysAccept (ac_fd ?ac), a)]\<rparr>) = (ch, c)" "c \<notin> set cs \<union> set ds"
    "hw_contexts s c = None" "0 \<le> an_ret a" "loop_channels ?l s (an_ret a) = None" "ch \<notin> ran (loop_channels ?l s)"
    "ts_nextConnId (sw_servers s ?sv) < 2147483647"
    using given crowdD(7) [OF cr] pend by (auto simp: accept_given_def accepting_def Let_def split: prod.splits)
  have free: "c \<notin> ran (ts_connects (sw_servers s ?sv))" using crowdD(7) [OF cr] a(3) by simp
  from accepted_connection_effect [OF lis(1,2) L(4,5,1,3) a(8) free a(1,5,2) L(2) a(6,7), of n] obtain s' tp and s1 :: "'z http_world_scheme" where
    s': "system_run P (Suc (Suc n)) (AcceptorHandleRead (su_acceptor G)) s = Inr s'" "served ?sv c s'" "server_ok ?sv s'"
      "sw_servers s1 = sw_servers s"
      "cw_conns s' = (cw_conns s)(c := setState kConnected (made_connection (pg_kernel P) ch ?sv (an_ret a) (an_addr a) s1))"
      "sw_servers s' = (sw_servers s)(?sv := server_after tp c (sw_servers s ?sv))" "conn_ok c s'"
      "ch_writeCallBack (chans s' ch) = Some (ConnHandleWrite c)" "hw_contexts s' = hw_contexts s"
      "\<forall>k. pending_of k s' = pending_of k s" "untouched {c} {ch} {an_ret a} s s'" "tp_loops tp = []"
      "\<forall>fd. written fd (sk_trace s') = written fd (sk_trace s)"
    by (elim exE conjE) (rule that)
  note u = s'(11)
  have cn: "cw_conns s' x = cw_conns s x" "conn_channel s' x = conn_channel s x" if "x \<noteq> c" for x
    using that by (simp_all add: s'(5) conn_channel_def)
  have new: "conn_channel s' c = ch" "cn_messageCallBack (cw_conns s' c) = Some (su_http G)" "cn_loop (cw_conns s' c) = ?l"
    "cn_state (cw_conns s' c) = kConnected" "unsent c s' = []" "contents (cn_inputBuffer (cw_conns s' c)) = []"
    using L(4-6) servedD(5) [OF s'(2)]
    by (simp_all add: conn_channel_def s'(4,5,6) unsent_def contents_init server_after_def setState_def made_connection_def Let_def)
  have out0: "sent c s' = written (an_ret (fst (accepting P G s))) (sk_trace s)"
    using s'(13) by (simp add: sent_def s'(5) made_connection_def Let_def accepting_def a(1))
  have ses: "session_of c s' = (context_init, [], True)" by (simp add: session_of_def s'(9) a(4) new auto_context_def)
  have "session_live ?sv (su_http G) (down c s') c s'"
    using s'(2,7,8) new by (simp add: session_live_def out_ok_def s'(9) a(4) auto_context_def expecting_def context_init_def
        conn_channel_def)
  then have at: "attended G c s'" using new(3) by (auto simp: attended_def)
  note X = crowd_extended [OF cr u a(3,6,7) at new(1) s'(3,12,6)]
  have "crowd G (c # cs) ds s'" by (rule X(1))
  moreover have "ch_revent (chans s' k) = ch_revent (chans s k)" if "k \<in> ran (loop_channels ?l s)" for k
    using same_but_index_views(3) [OF untouchedD(7) [OF u, of k]] a(7) that by blast
  moreover have "cw_conns s' x = cw_conns s x \<and> hw_contexts s' x = hw_contexts s x" if "x \<in> set cs" for x
    using cn(1) [of x] a(3) that s'(9) by (cases "x = c") auto
  ultimately show ?thesis using s'(1,10) X(2) ses new(5) out0 untouchedD(2) [OF u] by blast
qed

text \<open>The event of the acceptor's channel: it is readable when a client waits.\<close>

lemma handleEvent_readable:
  assumes "ch_revent (chans s ch) = POLLIN" and "ch_readCallBack (chans s ch) = Some rc"
    and "runRead rc t (upd_chan ch (\<lambda>k. k\<lparr>ch_eventHanding := True\<rparr>) s) = Inr s1" and "ch_revent (chans s1 ch) = POLLIN"
  shows "handleEvent run runRead ch t s = Inr (upd_chan ch (\<lambda>k. k\<lparr>ch_eventHanding := False\<rparr>) s1)"
proof -
  let ?s = "upd_chan ch (\<lambda>k. k\<lparr>ch_eventHanding := True\<rparr>) s"
  have v: "ch_revent (chans ?s ch) = POLLIN" "ch_readCallBack (chans ?s ch) = Some rc" using assms(1,2) by (simp_all add: upd_chan_def)
  note b = hangup_bits(1-5)
  have 1: "call_if (POLLIN AND (POLLIN OR POLLPRI OR POLLRDHUP) \<noteq> (0 :: 32 word)) (Some rc) (\<lambda>f. runRead f t) ?s = Inr s1"
    using assms(3) b(3) by (simp add: call_if_def)
  have 2: "call_if (POLLIN AND POLLOUT \<noteq> (0 :: 32 word)) cb run s1 = Inr s1" for cb by (simp add: call_if_def b)
  have 3: "call_if (POLLIN AND POLLHUP \<noteq> (0 :: 32 word) \<and> Q) cb run ?s = Inr ?s"
    "call_if (POLLIN AND (POLLNVAL OR POLLERR) \<noteq> (0 :: 32 word)) cb run ?s = Inr ?s" for Q cb by (simp_all add: call_if_def b)
  show ?thesis unfolding handleEvent_def Let_def v 3 bnd_Inr 1 assms(4) 2 ..
qed

definition acceptor_channel :: "site \<Rightarrow> 'z http_world_scheme \<Rightarrow> nat" where
  "acceptor_channel G s = ac_channel (aw_acceptors s (su_acceptor G))"

lemma crowd_accepts:
  fixes P :: "('z http_world_scheme) program" and c n :: nat
  assumes cr: "crowd G cs ds s" and rev: "ch_revent (chans s (acceptor_channel G s)) = POLLIN"
    and pend: "pending_of (su_loop G) s = map ConnectDestory ds" and given: "accept_given P G c (upd_chan (acceptor_channel G s) (\<lambda>k. k\<lparr>ch_eventHanding := True\<rparr>) s)"
  shows "\<exists>s'. handleEvent (system_run P (Suc (Suc n))) (system_read P (Suc (Suc n))) (acceptor_channel G s) t s = Inr s'
    \<and> crowd G (c # cs) ds s' \<and> (\<forall>x\<in>set cs. answered cb x [] s s') \<and> session_of c s' = (context_init, [], True)
    \<and> sent c s' @ unsent c s' = written (an_ret (fst (accepting P G s))) (sk_trace s)
    \<and> hw_servers s' = hw_servers s \<and> pending_of (su_loop G) s' = pending_of (su_loop G) s
    \<and> (\<forall>x\<in>set cs. cw_conns s' x = cw_conns s x \<and> hw_contexts s' x = hw_contexts s x
         \<and> ch_revent (chans s' (conn_channel s x)) = ch_revent (chans s (conn_channel s x)))"
proof -
  let ?ch = "acceptor_channel G s" and ?l = "su_loop G"
  let ?s = "upd_chan ?ch (\<lambda>k. k\<lparr>ch_eventHanding := True\<rparr>) s"
  have w: "same_world s ?s" by (rule same_world_flag)
  note C = same_world_crowd [OF w cr]
  have lis: "loop_channels ?l s (ac_fd (aw_acceptors s (su_acceptor G))) = Some ?ch"
    "ch_readCallBack (chans s ?ch) = Some (AcceptorHandleRead (su_acceptor G))"
    using server_liveD(7) [OF crowdD(1) [OF cr]] by (simp_all add: listening_def Let_def acceptor_channel_def)
  have pendF: "pending_of ?l ?s = map ConnectDestory ds" using pend by (simp add: loop_simps)
  from crowd_accepted [OF C(1) pendF given, of "Suc n" cb] obtain s1 where
    s1: "system_run P (Suc (Suc (Suc n))) (AcceptorHandleRead (su_acceptor G)) ?s = Inr s1" "crowd G (c # cs) ds s1"
      "\<forall>x\<in>set cs. answered cb x [] ?s s1" "session_of c s1 = (context_init, [], True)" "unsent c s1 = []"
      "sent c s1 = written (an_ret (fst (accepting P G ?s))) (sk_trace ?s)" "hw_servers s1 = hw_servers ?s" "pending_of ?l s1 = pending_of ?l ?s"
      "\<forall>k\<in>ran (loop_channels ?l ?s). ch_revent (chans s1 k) = ch_revent (chans ?s k)"
      "\<forall>x\<in>set cs. cw_conns s1 x = cw_conns ?s x \<and> hw_contexts s1 x = hw_contexts ?s x"
    by (elim exE conjE) (rule that)
  have "?ch \<in> ran (loop_channels ?l ?s)" using lis(1) same_worldD(9) [OF w] by (auto intro: ranI)
  then have rev1: "ch_revent (chans s1 ?ch) = POLLIN" using s1(9) rev by (simp add: upd_chan_def)
  have read: "system_read P (Suc (Suc n)) (AcceptorHandleRead (su_acceptor G)) t ?s = Inr s1"
    using s1(1) by (simp add: system_read_def perform_def Let_def)
  let ?s' = "upd_chan ?ch (\<lambda>k. k\<lparr>ch_eventHanding := False\<rparr>) s1"
  have w': "same_world s1 ?s'" by (rule same_world_flag)
  note C' = same_world_crowd [OF w' s1(2)] and v = same_worldD [OF w']
  have "answered cb x [] s ?s'" if "x \<in> set cs" for x
    using answered_trans [OF answered_trans [OF C(2) [OF that] bspec [OF s1(3) that]]] C'(2) [of x] that by simp
  moreover have "fst (accepting P G ?s) = fst (accepting P G s)" by (simp add: accepting_def Let_def same_worldD(3,6) [OF w])
  then have "session_of c ?s' = (context_init, [], True)"
    "sent c ?s' @ unsent c ?s' = written (an_ret (fst (accepting P G s))) (sk_trace s)"
    using s1(4-6) same_worldD(6) [OF w] by (simp_all add: session_of_def unsent_def sent_def v(1,5,6))
  moreover have "hw_servers ?s' = hw_servers s" "pending_of ?l ?s' = pending_of ?l s"
    using s1(7,8) same_worldD(4) [OF w] by (simp_all add: v(4) loop_simps)
  moreover have "cw_conns ?s' x = cw_conns s x \<and> hw_contexts ?s' x = hw_contexts s x
      \<and> ch_revent (chans ?s' (conn_channel s x)) = ch_revent (chans s (conn_channel s x))" if x: "x \<in> set cs" for x
  proof -
    have "loop_channels ?l ?s (cn_fd (cw_conns s x)) = Some (conn_channel s x)"
      using doomedD(1) [OF attended_doomed [OF crowdD(4) [OF cr x]]] same_worldD(9) [OF w] by simp
    then have "conn_channel s x \<in> ran (loop_channels ?l ?s)" by (rule ranI)
    then show ?thesis using s1(9,10) x same_worldD(1,5) [OF w] v(1,5) by (auto simp: upd_chan_def)
  qed
  moreover note handleEvent_readable [of s ?ch _ "system_read P (Suc (Suc n))" t s1 "system_run P (Suc (Suc n))", OF rev lis(2) read rev1]
  ultimately show ?thesis using C'(1) by (intro exI [of _ ?s']) simp
qed

text \<open>An accept that fails for now changes nothing: the socket closes the negative descriptor and goes on.\<close>

lemma crowd_refused:
  fixes P :: "('z http_world_scheme) program" and n :: nat
  assumes cr: "crowd G cs ds s" and a: "a = fst (accepting P G s)" "an_ret a < 0" "transient (an_errno a)"
  shows "\<exists>s'. system_run P (Suc n) (AcceptorHandleRead (su_acceptor G)) s = Inr s' \<and> crowd G cs ds s'
    \<and> (\<forall>x\<in>set cs. answered cb x [] s s') \<and> hw_servers s' = hw_servers s \<and> chans s' = chans s
    \<and> (\<forall>k. pending_of k s' = pending_of k s)"
proof -
  let ?K = "pg_kernel P" and ?call = "SysAccept (ac_fd (aw_acceptors s (su_acceptor G)))"
  obtain s1 where s1: "s1 = snd (syscall ?K ?call s)" by blast
  obtain s' where s': "s' = sys_close ?K (an_ret a) s1" by blast
  note L = server_liveD [OF crowdD(1) [OF cr]]
  have "ac_loop (aw_acceptors s (su_acceptor G)) = su_loop G" using L(7) by (simp add: listening_def Let_def)
  with L(1) have here: "isInLoopThread (ac_loop (aw_acceptors s (su_acceptor G))) s" by simp
  have "?K (sk_trace s) ?call = a" using a(1) by (simp add: accepting_def Let_def)
  with a(2,3) have run: "system_run P (Suc n) (AcceptorHandleRead (su_acceptor G)) s = Inr s'"
    by (simp add: perform_def Let_def acceptor_handleRead_eq [OF here] s' s1)
  have u: "untouched {} {} {} s s'"
    unfolding s' s1 sys_close_def by (rule untouched_trans [OF untouched_syscall untouched_syscall]) simp_all
  have v: "w_loops s' = w_loops s" "chans s' = chans s" "sw_servers s' = sw_servers s" "cw_conns s' = cw_conns s"
    by (simp_all add: s' s1 sys_close_def loop_simps)
  have "server_ok (su_server G) s'" by (rule server_ok_cong [OF L(3) v(3)]) (simp_all add: v(4))
  then have live: "server_live G s'"
    using L kept_listening [OF L(7) u] untouchedD(1) [OF u] by (simp add: server_live_def Let_def v isInLoopThread_def)
  have sp: "\<forall>x\<in>set cs \<union> set ds. spared {} {} {} x s" by (simp add: spared_def)
  have sv: "\<forall>x\<in>set cs. ts_connects (sw_servers s' (su_server G)) (cn_name (cw_conns s x)) = Some x"
    using servedD(6) [OF attendedD(1) [OF crowdD(4) [OF cr]]] by (simp add: v(3))
  note K = kept_crowd [OF cr u live subset_refl subset_refl sp sv]
  have "crowd G cs ds s'"
    using cr live K(1,3) by (simp add: crowd_def conn_channel_def [abs_def] v(3,4) untouchedD(3) [OF u])
  then show ?thesis using run K(2) untouchedD(2) [OF u] v(1,2) by (intro exI [of _ s']) (simp add: view_defs del: system_run.simps)
qed

text \<open>A readable channel whose read callback keeps the crowd keeps it with its own event.\<close>

lemma crowd_readable:
  fixes P :: "('z http_world_scheme) program" and n :: nat
  assumes cr: "crowd G cs ds s" and rev: "ch_revent (chans s k) = POLLIN" and rd: "ch_readCallBack (chans s k) = Some rc"
    and run: "\<And>t. perform P (system_run P n) rc t (upd_chan k (\<lambda>k. k\<lparr>ch_eventHanding := True\<rparr>) s) = Inr s1"
    and s1: "crowd G cs ds s1" "\<forall>x\<in>set cs. answered cb x [] (upd_chan k (\<lambda>k. k\<lparr>ch_eventHanding := True\<rparr>) s) s1"
      "hw_servers s1 = hw_servers s" "ch_revent (chans s1 k) = POLLIN" "pending_of l s1 = pending_of l s"
  shows "\<exists>s'. handleEvent (system_run P n) (system_read P n) k t s = Inr s' \<and> crowd G cs ds s'
    \<and> (\<forall>x\<in>set cs. answered cb x [] s s') \<and> hw_servers s' = hw_servers s \<and> pending_of l s' = pending_of l s"
proof -
  let ?s' = "upd_chan k (\<lambda>k. k\<lparr>ch_eventHanding := False\<rparr>) s1"
  have "system_read P n rc t (upd_chan k (\<lambda>k. k\<lparr>ch_eventHanding := True\<rparr>) s) = Inr s1" using run by (simp add: system_read_def)
  from handleEvent_readable [of s k rc "system_read P n" t s1 "system_run P n", OF rev rd this s1(4)]
  have ev: "handleEvent (system_run P n) (system_read P n) k t s = Inr ?s'" .
  note w = same_world_flag [of s k True] and w' = same_world_flag [of s1 k False]
  have "answered cb x [] s ?s'" if "x \<in> set cs" for x
    using answered_trans [OF answered_trans [OF same_world_crowd(2) [OF w cr that] bspec [OF s1(2) that]]
      same_world_crowd(2) [OF w' s1(1) that]] by simp
  then show ?thesis
    using ev same_world_crowd(1) [OF w' s1(1)] s1(3,5) same_worldD(4) [OF w'] by (intro exI [of _ ?s']) (simp add: loop_simps)
qed

section \<open>A connection that is destroyed\<close>

definition gone :: "site \<Rightarrow> nat \<Rightarrow> 'z http_world_scheme \<Rightarrow> bool" where
  "gone G c s \<longleftrightarrow> cn_state (cw_conns s c) = kDisconnected \<and> loop_channels (su_loop G) s (cn_fd (cw_conns s c)) = None"

lemma crowd_destroys:
  fixes P :: "('z http_world_scheme) program" and d n :: nat
  assumes cr: "crowd G cs (d # ds) s"
  shows "\<exists>s'. system_run P (Suc n) (ConnectDestory d) s = Inr s' \<and> crowd G cs ds s' \<and> (\<forall>x\<in>set cs. answered cb x [] s s')
    \<and> gone G d s' \<and> (\<forall>x. x \<noteq> d \<longrightarrow> gone G x s \<longrightarrow> gone G x s')
    \<and> hw_servers s' = hw_servers s \<and> (\<forall>k. pending_of k s' = pending_of k s)"
proof -
  let ?sv = "su_server G" and ?l = "su_loop G" and ?cn = "cw_conns s d"
  have dm: "doomed G d s" using crowdD(5) [OF cr] by simp
  note D = doomedD [OF dm] and L = server_liveD [OF crowdD(1) [OF cr]]
  have st: "cn_state ?cn \<in> {kConnected, kDisconnecting}" using dm by (simp add: doomed_def)
  from destroy_one [OF D(4) st, unfolded D(5), folded conn_channel_def, of P n] obtain s' where
    s': "system_run P (Suc n) (ConnectDestory d) s = Inr s'" "cw_conns s' = (cw_conns s)(d := setState kDisconnected ?cn)"
      "loop_channels ?l s' = (loop_channels ?l s)(cn_fd ?cn := None)" "poller_ok (lp_poller (w_loops s' ?l)) (chans s')"
      "sw_servers s' = sw_servers s" "\<forall>k. pending_of k s' = pending_of k s"
      "untouched {d} {conn_channel s d} {cn_fd ?cn} s s'"
    by (elim exE conjE) (rule that)
  note u = s'(7)
  have lis: "listening G s'"
    using kept_listening [OF L(7) u] crowdD(6) [OF cr, of d] crowd_apart_acceptor [OF cr, of d] by auto
  have ok: "server_ok ?sv s'" by (rule server_ok_cong [OF L(3) s'(5)]) (simp_all add: s'(2))
  have here: "isInLoopThread ?l s'" using L(1) by (simp add: isInLoopThread_def untouchedD(1,4) [OF u])
  have live: "server_live G s'" using L lis ok here s'(4) by (simp add: server_live_def Let_def s'(5))
  have notin: "d \<notin> set cs" "d \<notin> set ds" using crowdD(2) [OF cr] by auto
  have sp: "\<forall>x\<in>set cs \<union> set ds. spared {d} {conn_channel s d} {cn_fd ?cn} x s"
    using apart_spared [OF cr, of d] notin by auto
  have sv: "\<forall>x\<in>set cs. ts_connects (sw_servers s' ?sv) (cn_name (cw_conns s x)) = Some x"
    using servedD(6) [OF attendedD(1) [OF crowdD(4) [OF cr]]] by (simp add: s'(5))
  note K = kept_crowd [OF cr u live subset_refl set_subset_Cons sp sv]
  have chs: "conn_channel s' x = conn_channel s x" for x by (simp add: conn_channel_def s'(2))
  have "crowd G cs ds s'"
    using cr live K(1,3) unfolding crowd_def chs untouchedD(3) [OF u] s'(5) by auto
  moreover have "gone G d s'" by (simp add: gone_def s'(2,3))
  moreover have "gone G x s'" if "x \<noteq> d" "gone G x s" for x using that by (simp add: gone_def s'(2,3))
  ultimately show ?thesis using s'(1,6) K(2) untouchedD(2) [OF u] by blast
qed

text \<open>All of them, in the order they were queued.\<close>

lemma crowd_destroys_all:
  fixes P :: "('z http_world_scheme) program" and n :: nat
  assumes "crowd G cs ds s"
  shows "\<exists>s'. fold_res (system_run P (Suc n)) (map ConnectDestory ds) s = Inr s' \<and> crowd G cs [] s'
    \<and> (\<forall>x\<in>set cs. answered cb x [] s s') \<and> (\<forall>x\<in>set ds. gone G x s') \<and> (\<forall>x. x \<notin> set ds \<longrightarrow> gone G x s \<longrightarrow> gone G x s')
    \<and> hw_servers s' = hw_servers s \<and> (\<forall>k. pending_of k s' = pending_of k s)"
  using assms
proof (induction ds arbitrary: s)
  case Nil
  then show ?case by (intro exI [of _ s]) (simp add: answered_nothing)
next
  case (Cons d ds)
  from crowd_destroys [OF Cons.prems, of P n cb] obtain t where
    t: "system_run P (Suc n) (ConnectDestory d) s = Inr t" "crowd G cs ds t" "\<forall>x\<in>set cs. answered cb x [] s t" "gone G d t"
      "\<forall>x. x \<noteq> d \<longrightarrow> gone G x s \<longrightarrow> gone G x t" "hw_servers t = hw_servers s" "\<forall>k. pending_of k t = pending_of k s" by blast
  from Cons.IH [OF t(2)] obtain s' where
    s': "fold_res (system_run P (Suc n)) (map ConnectDestory ds) t = Inr s'" "crowd G cs [] s'"
      "\<forall>x\<in>set cs. answered cb x [] t s'" "\<forall>x\<in>set ds. gone G x s'" "\<forall>x. x \<notin> set ds \<longrightarrow> gone G x t \<longrightarrow> gone G x s'"
      "hw_servers s' = hw_servers t" "\<forall>k. pending_of k s' = pending_of k t" by blast
  have "d \<notin> set ds" using crowdD(2) [OF Cons.prems] by simp
  then have "\<forall>x\<in>set (d # ds). gone G x s'" using s'(4,5) t(4) by simp
  moreover have "answered cb x [] s s'" if "x \<in> set cs" for x
    using answered_trans [OF bspec [OF t(3) that] bspec [OF s'(3) that]] by simp
  ultimately show ?case using t(1,5-7) s'(1,2,5-7) by (intro exI [of _ s']) (simp del: system_run.simps)
qed

end
