(* ===== verification/ManyClients.thy ===== *)
theory ManyClients
  imports Crowd
begin

text \<open>
  The HTTP server as its clients see it: a map from the connections to their sessions and to all that
  was sent on them. A turn of the loop over the real server, its poller and its queue is a list of
  actions on that map, so each client gets what its own requests are answered with, whatever the
  others do.
\<close>

section \<open>The server as a map of sessions\<close>

type_synonym clients = "nat \<Rightarrow> (session \<times> string) option"

datatype act = Begins nat string | Hears nat "(int \<times> string) list" | Ends nat

fun client :: "act \<Rightarrow> nat" where
  "client (Begins c base) = c"
| "client (Hears c ms) = c"
| "client (Ends c) = c"

text \<open>A new connection starts behind what was ever written under its descriptor.\<close>

fun act_step :: "http_callback \<Rightarrow> act \<Rightarrow> clients \<Rightarrow> clients" where
  "act_step cb (Begins c base) V = V(c \<mapsto> ((context_init, [], True), base))"
| "act_step cb (Hears c ms) V = V(c := map_option (\<lambda>(S, out). case serve cb ms S of (ans, S') \<Rightarrow> (S', out @ ans)) (V c))"
| "act_step cb (Ends c) V = V(c := None)"

lemma act_step_cong: "V c = W c \<Longrightarrow> act_step cb a V c = act_step cb a W c"
  by (cases a) auto

lemma act_step_other: "client a \<noteq> c \<Longrightarrow> act_step cb a V c = V c"
  by (cases a) auto

text \<open>A client depends on its own actions only.\<close>

lemma acts_own:
  assumes "V c = W c"
  shows "fold (act_step cb) acts V c = fold (act_step cb) (filter (\<lambda>a. client a = c) acts) W c"
  using assms
proof (induction acts arbitrary: V W)
  case Nil
  then show ?case by simp
next
  case (Cons a acts)
  show ?case
  proof (cases "client a = c")
    case True
    then show ?thesis using Cons.IH [of "act_step cb a V" "act_step cb a W", OF act_step_cong [of V c W, OF Cons.prems]] by simp
  next
    case False
    then show ?thesis using Cons.IH [of "act_step cb a V" W] act_step_other [OF False] Cons.prems by simp
  qed
qed

definition clients_of :: "site \<Rightarrow> 'z http_world_scheme \<Rightarrow> clients" where
  "clients_of G s c = (if c \<in> ran (ts_connects (sw_servers s (su_server G)))
     then Some (session_of c s, sent c s @ unsent c s) else None)"

lemma crowd_clients:
  "crowd G cs ds s \<Longrightarrow> clients_of G s c = (if c \<in> set cs then Some (session_of c s, sent c s @ unsent c s) else None)"
  by (simp add: clients_of_def crowdD(7))

lemma answered_clients:
  assumes "answered cb c ms s s'"
  shows "Some (session_of c s', sent c s' @ unsent c s')
    = map_option (\<lambda>(S, out). case serve cb ms S of (ans, S') \<Rightarrow> (S', out @ ans)) (Some (session_of c s, sent c s @ unsent c s))"
  using assms by (auto simp: answered_def)

section \<open>One event of a turn\<close>

text \<open>\<open>Refuses\<close> is an accept that fails for now, \<open>Wakes\<close> the loop's own wake-up channel.\<close>

datatype event = Accepts nat | Serves nat | Closes nat | Refuses | Wakes nat

fun event_channel :: "site \<Rightarrow> 'z http_world_scheme \<Rightarrow> event \<Rightarrow> nat" where
  "event_channel G s (Accepts c) = acceptor_channel G s"
| "event_channel G s (Serves c) = conn_channel s c"
| "event_channel G s (Closes c) = conn_channel s c"
| "event_channel G s Refuses = acceptor_channel G s"
| "event_channel G s (Wakes k) = k"

text \<open>What the kernel and the memory give an event: a client for the acceptor, bytes and room for the answer
  when a connection is read, the end of the input when it closes.\<close>

fun event_given :: "('z http_world_scheme) program \<Rightarrow> site \<Rightarrow> int \<Rightarrow> 'z http_world_scheme \<Rightarrow> event \<Rightarrow> bool" where
  "event_given P G t s (Accepts c) \<longleftrightarrow> ch_revent (chans s (acceptor_channel G s)) = POLLIN
     \<and> accept_given P G c (upd_chan (acceptor_channel G s) (\<lambda>k. k\<lparr>ch_eventHanding := True\<rparr>) s)"
| "event_given P G t s (Serves c) \<longleftrightarrow> (let r = ch_revent (chans s (conn_channel s c)) in
     c \<in> ran (ts_connects (sw_servers s (su_server G))) \<and> r \<in> session_bits
   \<and> (r AND POLLIN \<noteq> 0 \<longrightarrow> can_read (pg_kernel P) (hs_httpCallback (hw_servers s (su_http G))) c t s))"
| "event_given P G t s (Closes c) \<longleftrightarrow> c \<in> ran (ts_connects (sw_servers s (su_server G)))
   \<and> ch_revent (chans s (conn_channel s c)) \<in> {POLLIN, POLLIN OR POLLHUP} \<and> an_ret (arrives (pg_kernel P) c s) = 0"
| "event_given P G t s Refuses \<longleftrightarrow> ch_revent (chans s (acceptor_channel G s)) = POLLIN
     \<and> an_ret (fst (accepting P G s)) < 0 \<and> transient (an_errno (fst (accepting P G s)))"
| "event_given P G t s (Wakes k) \<longleftrightarrow> ch_revent (chans s k) = POLLIN \<and> ch_readCallBack (chans s k) = Some (LoopHandleRead (su_loop G))"

fun acts_of :: "('z http_world_scheme) program \<Rightarrow> site \<Rightarrow> int \<Rightarrow> 'z http_world_scheme \<Rightarrow> event \<Rightarrow> act list" where
  "acts_of P G t s (Accepts c) = [Begins c (written (an_ret (fst (accepting P G s))) (sk_trace s))]"
| "acts_of P G t s (Serves c) = [Hears c (heard (pg_kernel P) c (ch_revent (chans s (conn_channel s c))) t s)]"
| "acts_of P G t s (Closes c) = [Ends c]"
| "acts_of P G t s Refuses = []"
| "acts_of P G t s (Wakes k) = []"

fun dooms :: "event \<Rightarrow> nat list" where
  "dooms (Closes c) = [c]"
| "dooms e = []"

definition crowd_busy :: "site \<Rightarrow> nat list \<Rightarrow> 'z http_world_scheme \<Rightarrow> bool" where
  "crowd_busy G ds s \<longleftrightarrow> (\<exists>cs. crowd G cs ds s) \<and> pending_of (su_loop G) s = map ConnectDestory ds"

text \<open>What an event does: it ends without a fault, queues the destruction of a connection it closed, and is
  what its actions make of the map.\<close>

definition event_done ::
  "('z http_world_scheme) program \<Rightarrow> nat \<Rightarrow> site \<Rightarrow> int \<Rightarrow> http_callback \<Rightarrow> nat list \<Rightarrow> 'z http_world_scheme \<Rightarrow> event \<Rightarrow> bool" where
  "event_done P n G t cb ds s e \<longleftrightarrow> (\<exists>s'.
     handleEvent (system_run P (Suc (Suc n))) (system_read P (Suc (Suc n))) (event_channel G s e) t s = Inr s'
   \<and> crowd_busy G (ds @ dooms e) s' \<and> clients_of G s' = fold (act_step cb) (acts_of P G t s e) (clients_of G s)
   \<and> hw_servers s' = hw_servers s)"

lemma answered_idle:
  "answered cb x [] s s' \<Longrightarrow> Some (session_of x s', sent x s' @ unsent x s') = Some (session_of x s, sent x s @ unsent x s)"
  using answered_clients [of cb x "[]" s s'] by simp

lemma crowd_still:
  assumes "crowd G cs ds s" and "crowd G cs ds s'" and "\<forall>x\<in>set cs. answered cb x [] s s'"
  shows "clients_of G s' = clients_of G s"
  using answered_idle bspec [OF assms(3)] by (fastforce simp: fun_eq_iff crowd_clients [OF assms(1)] crowd_clients [OF assms(2)])

lemma event_accepts:
  fixes P :: "('z http_world_scheme) program" and n :: nat
  assumes cr: "crowd G cs ds s" and pend: "pending_of (su_loop G) s = map ConnectDestory ds"
    and given: "event_given P G t s (Accepts c)"
  shows "event_done P n G t cb ds s (Accepts c)"
proof -
  note V = crowd_clients [OF cr] and known = crowdD(7) [OF cr] and dist = crowdD(2) [OF cr]
  have g: "ch_revent (chans s (acceptor_channel G s)) = POLLIN"
    "accept_given P G c (upd_chan (acceptor_channel G s) (\<lambda>k. k\<lparr>ch_eventHanding := True\<rparr>) s)" using given by simp_all
  from crowd_accepts [OF cr g(1) pend g(2), of n t cb] obtain s' where
    s': "handleEvent (system_run P (Suc (Suc n))) (system_read P (Suc (Suc n))) (acceptor_channel G s) t s = Inr s'"
      "crowd G (c # cs) ds s'" "\<forall>x\<in>set cs. answered cb x [] s s'" "session_of c s' = (context_init, [], True)"
      "sent c s' @ unsent c s' = written (an_ret (fst (accepting P G s))) (sk_trace s)" "hw_servers s' = hw_servers s"
      "pending_of (su_loop G) s' = pending_of (su_loop G) s"
    by (elim exE conjE) (rule that)
  have "clients_of G s' x = fold (act_step cb) (acts_of P G t s (Accepts c)) (clients_of G s) x" for x
    using answered_idle [of cb x s s'] s'(3-5) by (simp add: V crowd_clients [OF s'(2)])
  then show ?thesis using s' pend by (auto simp: event_done_def crowd_busy_def)
qed

lemma event_serves:
  fixes P :: "('z http_world_scheme) program" and n :: nat
  assumes cr: "crowd G cs ds s" and pend: "pending_of (su_loop G) s = map ConnectDestory ds"
    and doc: "write_documented (pg_kernel P)" "readv_documented (pg_kernel P)"
    and given: "event_given P G t s (Serves c)" and cb: "cb = hs_httpCallback (hw_servers s (su_http G))"
  shows "event_done P n G t cb ds s (Serves c)"
proof -
  note V = crowd_clients [OF cr] and known = crowdD(7) [OF cr] and dist = crowdD(2) [OF cr]
  let ?r = "ch_revent (chans s (conn_channel s c))"
  have g: "c \<in> set cs" "?r \<in> session_bits"
    "?r AND POLLIN \<noteq> 0 \<longrightarrow> can_read (pg_kernel P) (hs_httpCallback (hw_servers s (su_http G))) c t s"
    using given by (simp_all add: Let_def known)
  from crowd_serves [OF cr g(1) doc refl g(2,3), of "Suc n", folded cb] obtain s' where
    s': "handleEvent (system_run P (Suc (Suc n))) (system_read P (Suc (Suc n))) (conn_channel s c) t s = Inr s'"
      "crowd G cs ds s'" "\<forall>x\<in>set cs. answered cb x (said x (map (Pair c) (heard (pg_kernel P) c ?r t s))) s s'"
      "hw_servers s' = hw_servers s" "pending_of (su_loop G) s' = pending_of (su_loop G) s"
    by (elim exE conjE) (rule that)
  have "clients_of G s' x = fold (act_step cb) (acts_of P G t s (Serves c)) (clients_of G s) x" for x
  proof (cases "x = c")
    case True
    have "answered cb c (heard (pg_kernel P) c ?r t s) s s'" using bspec [OF s'(3) g(1)] by simp
    from answered_clients [OF this] True show ?thesis using g(1) by (simp add: V crowd_clients [OF s'(2)])
  next
    case False
    have "answered cb x [] s s'" if "x \<in> set cs" using bspec [OF s'(3) that] False by simp
    then show ?thesis using answered_idle [of cb x s s'] False by (simp add: V crowd_clients [OF s'(2)])
  qed
  then show ?thesis using s' pend by (auto simp: event_done_def crowd_busy_def)
qed

lemma event_closes:
  fixes P :: "('z http_world_scheme) program" and n :: nat
  assumes cr: "crowd G cs ds s" and pend: "pending_of (su_loop G) s = map ConnectDestory ds"
    and doc: "readv_documented (pg_kernel P)"
    and given: "event_given P G t s (Closes c)"
  shows "event_done P n G t cb ds s (Closes c)"
proof -
  note V = crowd_clients [OF cr] and known = crowdD(7) [OF cr] and dist = crowdD(2) [OF cr]
  have g: "c \<in> set cs" "ch_revent (chans s (conn_channel s c)) \<in> {POLLIN, POLLIN OR POLLHUP}"
    "an_ret (arrives (pg_kernel P) c s) = 0"
    using given by (simp_all add: known)
  from crowd_closes [OF cr g(1) doc g(2,3), of n t cb] obtain s' where
    s': "handleEvent (system_run P (Suc (Suc n))) (system_read P (Suc (Suc n))) (conn_channel s c) t s = Inr s'"
      "crowd G (remove1 c cs) (ds @ [c]) s'" "\<forall>x\<in>set (remove1 c cs). answered cb x [] s s'"
      "hw_servers s' = hw_servers s" "pending_of (su_loop G) s' = pending_of (su_loop G) s @ [ConnectDestory c]"
    by (elim exE conjE) (rule that)
  have "clients_of G s' x = fold (act_step cb) (acts_of P G t s (Closes c)) (clients_of G s) x" for x
    using answered_idle [of cb x s s'] s'(3) dist by (simp add: V crowd_clients [OF s'(2)])
  then show ?thesis using s' pend by (auto simp: event_done_def crowd_busy_def)
qed

lemma event_refuses:
  fixes P :: "('z http_world_scheme) program" and n :: nat
  assumes cr: "crowd G cs ds s" and pend: "pending_of (su_loop G) s = map ConnectDestory ds"
    and given: "event_given P G t s Refuses"
  shows "event_done P n G t cb ds s Refuses"
proof -
  let ?ch = "acceptor_channel G s" and ?a = "fst (accepting P G s)"
  let ?F = "upd_chan ?ch (\<lambda>k. k\<lparr>ch_eventHanding := True\<rparr>) s"
  have g: "ch_revent (chans s ?ch) = POLLIN" "an_ret ?a < 0" "transient (an_errno ?a)" using given by simp_all
  note w = same_world_flag [of s ?ch True]
  have a: "?a = fst (accepting P G ?F)" by (simp add: accepting_def Let_def same_worldD(3,6) [OF w])
  from crowd_refused [OF same_world_crowd(1) [OF w cr] a g(2,3), of "Suc (Suc n)" cb] obtain s1 where
    s1: "system_run P (Suc (Suc (Suc n))) (AcceptorHandleRead (su_acceptor G)) ?F = Inr s1" "crowd G cs ds s1"
      "\<forall>x\<in>set cs. answered cb x [] ?F s1" "hw_servers s1 = hw_servers ?F" "chans s1 = chans ?F" "\<forall>k. pending_of k s1 = pending_of k ?F"
    by (elim exE conjE) (rule that)
  have run: "perform P (system_run P (Suc (Suc n))) (AcceptorHandleRead (su_acceptor G)) t ?F = Inr s1" for t
    using s1(1) by (simp add: perform_def Let_def)
  have rd: "ch_readCallBack (chans s ?ch) = Some (AcceptorHandleRead (su_acceptor G))"
    using server_liveD(7) [OF crowdD(1) [OF cr]] by (simp add: listening_def Let_def acceptor_channel_def)
  have s1': "hw_servers s1 = hw_servers s" "ch_revent (chans s1 ?ch) = POLLIN" "pending_of (su_loop G) s1 = pending_of (su_loop G) s"
    using s1(4-6) g(1) same_worldD(4) [OF w] by (simp_all add: loop_simps)
  from crowd_readable [OF cr g(1) rd run s1(2,3) s1', of t] show ?thesis
    unfolding event_done_def event_channel.simps using crowd_still [OF cr, of _ cb] pend by (simp add: crowd_busy_def) blast
qed

lemma event_wakes:
  fixes P :: "('z http_world_scheme) program" and n :: nat
  assumes cr: "crowd G cs ds s" and pend: "pending_of (su_loop G) s = map ConnectDestory ds"
    and given: "event_given P G t s (Wakes k)"
  shows "event_done P n G t cb ds s (Wakes k)"
proof -
  let ?F = "upd_chan k (\<lambda>k. k\<lparr>ch_eventHanding := True\<rparr>) s"
  have g: "ch_revent (chans s k) = POLLIN" "ch_readCallBack (chans s k) = Some (LoopHandleRead (su_loop G))"
    using given by simp_all
  note w = same_world_flag [of s k True]
  have w1: "same_world ?F (loop_handleRead (su_loop G) ?F)" unfolding loop_handleRead_def by (rule same_world_loop) simp
  have run: "perform P (system_run P (Suc (Suc n))) (LoopHandleRead (su_loop G)) t ?F = Inr (loop_handleRead (su_loop G) ?F)" for t
    by (simp add: perform_def Let_def)
  note C = same_world_crowd [OF w1 same_world_crowd(1) [OF w cr]]
  have s1: "hw_servers (loop_handleRead (su_loop G) ?F) = hw_servers s" "ch_revent (chans (loop_handleRead (su_loop G) ?F) k) = POLLIN"
    "pending_of (su_loop G) (loop_handleRead (su_loop G) ?F) = pending_of (su_loop G) s"
    using g(1) same_worldD(4) [OF w] same_worldD(4) [OF w1] by (simp_all add: loop_handleRead_def loop_simps view_defs)
  have "\<forall>x\<in>set cs. answered cb x [] ?F (loop_handleRead (su_loop G) ?F)" using C(2) by blast
  from crowd_readable [OF cr g run C(1) this s1, of t] show ?thesis
    unfolding event_done_def event_channel.simps using crowd_still [OF cr, of _ cb] pend by (simp add: crowd_busy_def) blast
qed

lemma event_effect:
  fixes P :: "('z http_world_scheme) program" and n :: nat
  assumes busy: "crowd_busy G ds s" and doc: "write_documented (pg_kernel P)" "readv_documented (pg_kernel P)"
    and given: "event_given P G t s e" and cb: "cb = hs_httpCallback (hw_servers s (su_http G))"
  shows "event_done P n G t cb ds s e"
proof -
  obtain cs where cr: "crowd G cs ds s" "pending_of (su_loop G) s = map ConnectDestory ds"
    using busy by (auto simp: crowd_busy_def)
  show ?thesis
    using event_accepts [OF cr] event_serves [OF cr doc] event_closes [OF cr doc(2)] event_refuses [OF cr] event_wakes [OF cr] given cb
    by (cases e) simp_all
qed

section \<open>One turn of the loop\<close>

text \<open>The channels a poll reports, each with the event it has when its turn comes.\<close>

fun round_given ::
  "('z http_world_scheme) program \<Rightarrow> nat \<Rightarrow> site \<Rightarrow> int \<Rightarrow> (nat \<times> event) list \<Rightarrow> 'z http_world_scheme \<Rightarrow> bool" where
  "round_given P n G t [] s \<longleftrightarrow> True"
| "round_given P n G t ((k, e) # es) s \<longleftrightarrow> k = event_channel G s e \<and> event_given P G t s e
     \<and> (case handleEvent (system_run P n) (system_read P n) k t s of
          Inl err \<Rightarrow> True
        | Inr s' \<Rightarrow> round_given P n G t es s')"

fun round_acts ::
  "('z http_world_scheme) program \<Rightarrow> nat \<Rightarrow> site \<Rightarrow> int \<Rightarrow> (nat \<times> event) list \<Rightarrow> 'z http_world_scheme \<Rightarrow> act list" where
  "round_acts P n G t [] s = []"
| "round_acts P n G t ((k, e) # es) s = acts_of P G t s e
     @ (case handleEvent (system_run P n) (system_read P n) k t s of
          Inl err \<Rightarrow> []
        | Inr s' \<Rightarrow> round_acts P n G t es s')"

lemma round_effect:
  fixes P :: "('z http_world_scheme) program" and n :: nat
  assumes "crowd_busy G ds s" and doc: "write_documented (pg_kernel P)" "readv_documented (pg_kernel P)"
    and "round_given P (Suc (Suc n)) G t es s" and "cb = hs_httpCallback (hw_servers s (su_http G))"
  shows "\<exists>s'. fold_res (\<lambda>k. handleEvent (system_run P (Suc (Suc n))) (system_read P (Suc (Suc n))) k t) (map fst es) s = Inr s'
    \<and> crowd_busy G (ds @ concat (map (dooms \<circ> snd) es)) s'
    \<and> clients_of G s' = fold (act_step cb) (round_acts P (Suc (Suc n)) G t es s) (clients_of G s) \<and> hw_servers s' = hw_servers s"
  using assms(1,4,5)
proof (induction es arbitrary: ds s)
  case Nil
  then show ?case by (intro exI [of _ s]) simp
next
  case (Cons ke es)
  obtain k e where ke: "ke = (k, e)" by (cases ke)
  have g: "k = event_channel G s e" "event_given P G t s e" using Cons.prems(2) by (simp_all add: ke)
  from event_effect [OF Cons.prems(1) doc g(2) Cons.prems(3), of n, unfolded event_done_def, folded g(1)] obtain s1 where
    s1: "handleEvent (system_run P (Suc (Suc n))) (system_read P (Suc (Suc n))) k t s = Inr s1"
      "crowd_busy G (ds @ dooms e) s1" "clients_of G s1 = fold (act_step cb) (acts_of P G t s e) (clients_of G s)"
      "hw_servers s1 = hw_servers s"
    by (elim exE conjE) (rule that)
  have g1: "round_given P (Suc (Suc n)) G t es s1"
    using Cons.prems(2) unfolding ke round_given.simps s1(1) by simp
  have "cb = hs_httpCallback (hw_servers s1 (su_http G))" using Cons.prems(3) s1(4) by simp
  from Cons.IH [OF s1(2) g1 this] obtain s' where
    s': "fold_res (\<lambda>k. handleEvent (system_run P (Suc (Suc n))) (system_read P (Suc (Suc n))) k t) (map fst es) s1 = Inr s'"
      "crowd_busy G ((ds @ dooms e) @ concat (map (dooms \<circ> snd) es)) s'"
      "clients_of G s' = fold (act_step cb) (round_acts P (Suc (Suc n)) G t es s1) (clients_of G s1)" "hw_servers s' = hw_servers s1"
    by (elim exE conjE) (rule that)
  have clients: "clients_of G s' = fold (act_step cb) (round_acts P (Suc (Suc n)) G t (ke # es) s) (clients_of G s)"
    unfolding ke round_acts.simps s1(1) sum.case s'(3) s1(3) by simp
  have "fold_res (\<lambda>k. handleEvent (system_run P (Suc (Suc n))) (system_read P (Suc (Suc n))) k t) (map fst (ke # es)) s = Inr s'"
    unfolding ke list.map fst_conv fold_res.simps s1(1) bnd_Inr by (rule s'(1))
  moreover have "crowd_busy G (ds @ concat (map (dooms \<circ> snd) (ke # es))) s'" using s'(2) by (simp add: ke)
  moreover have "hw_servers s' = hw_servers s" using s'(4) s1(4) by simp
  ultimately show ?case using clients by blast
qed

text \<open>After its events a turn destroys the connections they closed.\<close>

definition loop_resting :: "site \<Rightarrow> 'z http_world_scheme \<Rightarrow> bool" where
  "loop_resting G s \<longleftrightarrow> crowd_busy G [] s"

lemma clients_same:
  assumes w: "same_world s s'"
  shows "clients_of G s' = clients_of G s"
  by (simp add: fun_eq_iff clients_of_def session_of_def sent_def unsent_def same_worldD(1,2,5,6) [OF w])

lemma busy_same:
  assumes "same_world s s'" and "crowd_busy G ds s" and "pending_of (su_loop G) s' = pending_of (su_loop G) s"
  shows "crowd_busy G ds s'"
  using same_world_crowd(1) [OF assms(1)] assms(2,3) by (auto simp: crowd_busy_def)

lemma end_of_turn:
  fixes P :: "('z http_world_scheme) program" and n :: nat
  assumes busy: "crowd_busy G ds s"
  shows "\<exists>s'. doPendingFunctors (system_run P (Suc n)) (su_loop G) s = Inr s' \<and> loop_resting G s'
    \<and> clients_of G s' = clients_of G s \<and> hw_servers s' = hw_servers s \<and> (\<forall>d\<in>set ds. gone G d s')"
proof -
  let ?l = "su_loop G"
  obtain cs where cr: "crowd G cs ds s" and pend: "pending_of ?l s = map ConnectDestory ds"
    using busy by (auto simp: crowd_busy_def)
  obtain t where t: "t = upd_loop ?l (\<lambda>lp. lp\<lparr>lp_callingPendingFunctors := True, lp_pendingFunctor := []\<rparr>) s" by blast
  have swap: "swap_pending ?l (set_calling ?l True s) = (map ConnectDestory ds, t)"
    using pend by (simp add: swap_pending_def set_calling_def upd_loop_def view_defs t)
  have w: "same_world s t" unfolding t by (rule same_world_loop) simp
  have t0: "pending_of ?l t = []" by (simp add: t upd_loop_def view_defs)
  note C = same_world_crowd [OF w cr]
  from crowd_destroys_all [OF C(1), of P n defaultHttpCallback] obtain s1 where
    s1: "fold_res (system_run P (Suc n)) (map ConnectDestory ds) t = Inr s1" "crowd G cs [] s1"
      "\<forall>x\<in>set ds. gone G x s1" "hw_servers s1 = hw_servers t" "\<forall>k. pending_of k s1 = pending_of k t"
    and ans: "\<forall>x\<in>set cs. answered defaultHttpCallback x [] t s1"
    by blast
  obtain s' where s': "s' = set_calling ?l False s1" by blast
  have w': "same_world s1 s'" unfolding s' set_calling_def by (rule same_world_loop) simp
  have "clients_of G s1 x = clients_of G t x" for x
    using answered_clients [OF bspec [OF ans]] by (simp add: crowd_clients [OF s1(2)] crowd_clients [OF C(1)])
  then have "clients_of G s' = clients_of G s" by (simp add: fun_eq_iff clients_same [OF w'] clients_same [OF w, symmetric])
  moreover have "doPendingFunctors (system_run P (Suc n)) ?l s = Inr s'"
    unfolding doPendingFunctors_def swap prod.case s1(1) bnd_Inr s' ..
  moreover have "loop_resting G s'"
    using same_world_crowd(1) [OF w' s1(2)] s1(5) t0 unfolding loop_resting_def crowd_busy_def
    by (auto simp: s' set_calling_def upd_loop_def view_defs)
  moreover have "\<forall>d\<in>set ds. gone G d s'" using s1(3) by (simp add: gone_def same_worldD(1,9) [OF w'])
  moreover have "hw_servers s' = hw_servers s" using s1(4) same_worldD(4) [OF w] same_worldD(4) [OF w'] by simp
  ultimately show ?thesis by blast
qed

definition crowd_given ::
  "('z http_world_scheme) program \<Rightarrow> nat \<Rightarrow> site \<Rightarrow> poll_answer \<Rightarrow> (nat \<times> event) list \<Rightarrow> 'z http_world_scheme \<Rightarrow> bool" where
  "crowd_given P n G ans es s \<longleftrightarrow> (let pl = lp_poller (w_loops s (su_loop G)) in
     poll_documented (pl_pollfds pl) (pa_nums ans) (pa_revents ans) \<and> ready pl (pa_revents ans) = map fst es
   \<and> (case poll_active (su_loop G) ans s of Inl err \<Rightarrow> True | Inr s0 \<Rightarrow> round_given P n G (pa_now ans) es s0))"

definition crowd_acts ::
  "('z http_world_scheme) program \<Rightarrow> nat \<Rightarrow> site \<Rightarrow> poll_answer \<Rightarrow> (nat \<times> event) list \<Rightarrow> 'z http_world_scheme \<Rightarrow> act list" where
  "crowd_acts P n G ans es s =
     (case poll_active (su_loop G) ans s of Inl err \<Rightarrow> [] | Inr s0 \<Rightarrow> round_acts P n G (pa_now ans) es s0)"

lemma crowd_turn_effect:
  fixes P :: "('z http_world_scheme) program" and n :: nat
  assumes rest: "loop_resting G s" and doc: "write_documented (pg_kernel P)" "readv_documented (pg_kernel P)"
    and given: "crowd_given P (Suc (Suc n)) G ans es s" and cb: "cb = hs_httpCallback (hw_servers s (su_http G))"
  shows "\<exists>s'. loop_turn (system_run P (Suc (Suc n))) (system_read P (Suc (Suc n))) (su_loop G) ans s = Inr s'
    \<and> loop_resting G s' \<and> clients_of G s' = fold (act_step cb) (crowd_acts P (Suc (Suc n)) G ans es s) (clients_of G s)
    \<and> hw_servers s' = hw_servers s \<and> (\<forall>k c. (k, Closes c) \<in> set es \<longrightarrow> gone G c s')"
proof -
  let ?l = "su_loop G" and ?run = "system_run P (Suc (Suc n))" and ?read = "system_read P (Suc (Suc n))"
  have ok: "poller_ok (lp_poller (w_loops s ?l)) (chans s)"
    using rest server_liveD(2) [OF crowdD(1)] by (auto simp: loop_resting_def crowd_busy_def)
  have g: "poll_documented (pl_pollfds (lp_poller (w_loops s ?l))) (pa_nums ans) (pa_revents ans)"
    "ready (lp_poller (w_loops s ?l)) (pa_revents ans) = map fst es"
    using given by (simp_all add: crowd_given_def Let_def)
  from same_world_poll [OF g(1) ok] obtain s0 where
    s0: "poll_active ?l ans s = Inr s0" "same_world s s0" "\<forall>k. pending_of k s0 = pending_of k s"
      "lp_activeChannels (w_loops s0 ?l) = map fst es" unfolding g(2) by blast
  have g0: "round_given P (Suc (Suc n)) G (pa_now ans) es s0" using given by (simp add: crowd_given_def Let_def s0(1))
  have busy: "crowd_busy G [] s0" using busy_same [OF s0(2)] rest s0(3) by (simp add: loop_resting_def)
  have cb0: "cb = hs_httpCallback (hw_servers s0 (su_http G))" using cb same_worldD(4) [OF s0(2)] by simp
  from round_effect [OF busy doc g0 cb0] obtain s1 where
    s1: "fold_res (\<lambda>k. handleEvent ?run ?read k (pa_now ans)) (map fst es) s0 = Inr s1"
      "crowd_busy G ([] @ concat (map (dooms \<circ> snd) es)) s1"
      "clients_of G s1 = fold (act_step cb) (round_acts P (Suc (Suc n)) G (pa_now ans) es s0) (clients_of G s0)"
      "hw_servers s1 = hw_servers s0"
    by (elim exE conjE) (rule that)
  from end_of_turn [OF s1(2), of P "Suc n"] obtain s' where
    s': "doPendingFunctors ?run ?l s1 = Inr s'" "loop_resting G s'" "clients_of G s' = clients_of G s1"
      "hw_servers s' = hw_servers s1" "\<forall>d\<in>set ([] @ concat (map (dooms \<circ> snd) es)). gone G d s'"
    by (elim exE conjE) (rule that)
  have "loop_turn ?run ?read ?l ans s = Inr s'"
    unfolding loop_turn_def s0(1) bnd_Inr s0(4) s1(1) by (rule s'(1))
  moreover have "clients_of G s' = fold (act_step cb) (crowd_acts P (Suc (Suc n)) G ans es s) (clients_of G s)"
    by (simp add: s'(3) s1(3) crowd_acts_def s0(1) clients_same [OF s0(2)])
  moreover have "gone G c s'" if "(k, Closes c) \<in> set es" for k c
    using s'(5) that by (force simp: comp_def)
  ultimately show ?thesis using s'(2,4) s1(4) same_worldD(4) [OF s0(2)] by auto
qed

section \<open>Properties\<close>

text \<open>C2. A turn of the loop refines the server seen as a map of sessions, however many connections it has.
  When the poll reports any of the acceptor, of the connections that can be read or written, and of
  those whose peer closed, the turn ends without a fault, each event is one action on the map (a new
  session, bytes parsed and answered, a session removed), nothing else happens to any session, the
  closed connections are disconnected and out of the poller, and the loop rests again with no functor
  waiting.\<close>

theorem crowd_turn:
  fixes P :: "('z http_world_scheme) program" and n :: nat
  assumes "loop_resting G s" and "write_documented (pg_kernel P)" and "readv_documented (pg_kernel P)"
    and "crowd_given P (Suc (Suc n)) G ans es s" and "cb = hs_httpCallback (hw_servers s (su_http G))"
  shows "\<exists>s'. loop_turn (system_run P (Suc (Suc n))) (system_read P (Suc (Suc n))) (su_loop G) ans s = Inr s'
    \<and> loop_resting G s' \<and> clients_of G s' = fold (act_step cb) (crowd_acts P (Suc (Suc n)) G ans es s) (clients_of G s)
    \<and> (\<forall>k c. (k, Closes c) \<in> set es \<longrightarrow> cn_state (cw_conns s' c) = kDisconnected
         \<and> loop_channels (su_loop G) s' (cn_fd (cw_conns s' c)) = None)"
  using crowd_turn_effect [OF assms] unfolding gone_def by blast

text \<open>A run of turns, with the actions of all.\<close>

inductive crowd_run ::
  "('z http_world_scheme) program \<Rightarrow> nat \<Rightarrow> site \<Rightarrow> act list \<Rightarrow> 'z http_world_scheme \<Rightarrow> 'z http_world_scheme \<Rightarrow> bool"
  for P :: "('z http_world_scheme) program" and n :: nat and G :: site where
  over: "crowd_run P n G [] s s"
| turn: "crowd_given P (Suc (Suc n)) G ans es s
    \<Longrightarrow> loop_turn (system_run P (Suc (Suc n))) (system_read P (Suc (Suc n))) (su_loop G) ans s = Inr t
    \<Longrightarrow> crowd_run P n G acts t s' \<Longrightarrow> crowd_run P n G (crowd_acts P (Suc (Suc n)) G ans es s @ acts) s s'"

lemma crowd_run_effect:
  assumes "crowd_run P n G acts s s'" and "loop_resting G s"
    and doc: "write_documented (pg_kernel P)" "readv_documented (pg_kernel P)"
  shows "loop_resting G s' \<and> clients_of G s' = fold (act_step (hs_httpCallback (hw_servers s (su_http G)))) acts (clients_of G s)"
  using assms(1,2)
proof (induction rule: crowd_run.induct)
  case (over s)
  then show ?case by simp
next
  case (turn ans es s t acts s')
  from crowd_turn_effect [OF turn.prems doc turn.hyps(1) refl] turn.hyps(2) have
    t: "loop_resting G t" "hw_servers t = hw_servers s"
      "clients_of G t = fold (act_step (hs_httpCallback (hw_servers s (su_http G)))) (crowd_acts P (Suc (Suc n)) G ans es s) (clients_of G s)"
    by auto
  then show ?case using turn.IH by simp
qed

text \<open>C4. Clients are independent. Over any run of turns, what a client was sent and where its session stands
  (or that it has none) is what its own actions alone make of where it started; the actions of the
  other clients, their number and the order of the events do not matter.\<close>

theorem clients_independent:
  fixes P :: "('z http_world_scheme) program" and n :: nat
  assumes "crowd_run P n G acts s s'" and "loop_resting G s"
    and "write_documented (pg_kernel P)" and "readv_documented (pg_kernel P)"
  shows "loop_resting G s'
    \<and> clients_of G s' c = fold (act_step (hs_httpCallback (hw_servers s (su_http G)))) (filter (\<lambda>a. client a = c) acts) (clients_of G s) c"
  using crowd_run_effect [OF assms] acts_own [of "clients_of G s" c "clients_of G s", OF refl] by simp

definition silent :: "act \<Rightarrow> bool" where
  "silent a \<longleftrightarrow> (\<exists>c. a = Hears c [])"

lemma silent_acts:
  "fold (act_step cb) acts V = fold (act_step cb) (filter (\<lambda>a. \<not> silent a) acts) V"
proof (induction acts arbitrary: V)
  case Nil
  then show ?case by simp
next
  case (Cons a acts)
  have "act_step cb a V = V" if "silent a"
    using that by (auto simp: silent_def fun_eq_iff split: option.splits) (auto simp: map_option_case split: option.splits)
  then show ?case using Cons by simp
qed

lemma hears_acts:
  "fold (act_step cb) (map (Hears c) mss) V c
    = map_option (\<lambda>(S, out). case serve cb (concat mss) S of (ans, S') \<Rightarrow> (S', out @ ans)) (V c)"
proof (induction mss arbitrary: V)
  case Nil
  then show ?case by (cases "V c") auto
next
  case (Cons ms mss)
  then show ?case by (cases "V c") (auto simp: serve_append split: prod.splits)
qed

text \<open>C5. Every client gets its own answers, once each and in order. Take a run of turns and a point of it
  where the session of a client is fresh: it was just accepted, or all it asked so far was parsed and
  the connection kept. When its further requests arrive whole, each in one turn, what was sent on it
  grows by exactly the serialised responses of the user's callback to these requests, up to and
  including the first that closes the connection, whatever other clients asked, came or left in
  between; when it leaves, the server no longer knows it.\<close>

theorem every_client_answered:
  fixes P :: "('z http_world_scheme) program" and n :: nat
  assumes "crowd_run P n G acts s s'" and "loop_resting G s"
    and "write_documented (pg_kernel P)" and "readv_documented (pg_kernel P)"
    and "filter (\<lambda>a. client a = c \<and> \<not> silent a) acts = before @ map (\<lambda>r. Hears c [asks r]) rs @ (if left then [Ends c] else [])"
    and "fold (act_step cb) before (clients_of G s) c = Some ((context_init, [], True), base)"
    and "\<forall>r\<in>set rs. asked_ok r" and "cb = hs_httpCallback (hw_servers s (su_http G))"
  shows "if left then c \<notin> ran (ts_connects (sw_servers s' (su_server G)))
    else sent c s' @ unsent c s' = base @ concat (map response_text (answers cb (map asked_request rs)))
      \<and> contents (cn_inputBuffer (cw_conns s' c)) = []
      \<and> (cn_state (cw_conns s' c) = kConnected \<longleftrightarrow> (\<forall>r\<in>set rs. \<not> rs_closeConnection (answer cb (asked_request r))))"
proof -
  let ?V = "clients_of G s" and ?hears = "map (\<lambda>r. Hears c [asks r]) rs"
  have split: "?hears = map (Hears c) (map (\<lambda>r. [asks r]) rs)" "concat (map (\<lambda>r. [asks r]) rs) = map asks rs" by simp_all
  have fin: "clients_of G s' c = fold (act_step cb) (filter (\<lambda>a. client a = c \<and> \<not> silent a) acts) ?V c"
    using crowd_run_effect [OF assms(1-4)] silent_acts [of cb "filter (\<lambda>a. client a = c) acts" ?V]
      acts_own [of ?V c ?V cb acts, OF refl] by (simp add: assms(8) conj_commute)
  show ?thesis
  proof (cases left)
    case True
    then have "clients_of G s' c = None" unfolding fin assms(5) by simp
    then show ?thesis using True by (simp add: clients_of_def split: if_splits)
  next
    case False
    then have "clients_of G s' c = map_option (\<lambda>(S, out). case serve cb (map asks rs) S of (ans, S') \<Rightarrow> (S', out @ ans))
        (Some ((context_init, [], True), base))"
      unfolding fin assms(5) by (simp add: split hears_acts assms(6) del: map_map)
    then have "clients_of G s' c = Some ((context_init, [], \<forall>r\<in>set rs. \<not> rs_closeConnection (answer cb (asked_request r))),
        base @ concat (map response_text (answers cb (map asked_request rs))))"
      by (simp add: serve_asked [OF assms(7)])
    then show ?thesis using False by (simp add: clients_of_def session_of_def split: if_splits)
  qed
qed

section \<open>Witnesses\<close>

text \<open>Server 3 with its listening socket on descriptor 4 and the connection 1 on descriptor 9; the poll
  reports that a client waits and that the connection is readable.\<close>

definition sample_site :: site where
  "sample_site = \<lparr>su_server = 3, su_http = 2, su_acceptor = 0, su_loop = 0\<rparr>"

definition sample_crowd :: http_world where
  "sample_crowd = sample_served
     \<lparr>chans := (\<lambda>k. if k = 7 then (channel_new 0 4)\<lparr>ch_readCallBack := Some (AcceptorHandleRead 0), ch_event := 3, ch_index := 0\<rparr>
        else (made_channel 0 9 1)\<lparr>ch_event := 3, ch_index := 1\<rparr>),
      w_loops := (\<lambda>_. (w_loops sample_served 0)\<lparr>lp_poller :=
        \<lparr>pl_pollfds = [\<lparr>pfd_fd = 4, pfd_events = 3, pfd_revents = 0\<rparr>, \<lparr>pfd_fd = 9, pfd_events = 3, pfd_revents = 0\<rparr>],
         pl_channels = [4 \<mapsto> 7, 9 \<mapsto> 1]\<rparr>\<rparr>),
      cw_conns := (\<lambda>_. (cw_conns sample_served 1)\<lparr>cn_name := ''s#1''\<rparr>),
      sw_servers := (\<lambda>_. \<lparr>ts_loop = 0, ts_name = ''s'', ts_acceptor = 0,
        ts_threadpoll = \<lparr>tp_baseloop = 0, tp_started = True, tp_numThreads = 0, tp_next = 0, tp_loops = []\<rparr>,
        ts_connectCallBack = Some 0, ts_messageCallBack = Some 2, ts_started = True, ts_nextConnId = 2,
        ts_connects = [''s#1'' \<mapsto> 1]\<rparr>),
      aw_acceptors := (\<lambda>_. \<lparr>ac_loop = 0, ac_fd = 4, ac_channel = 7, ac_newConnCallBack = Some 3, ac_listenning = True\<rparr>)\<rparr>"

definition both_answer :: poll_answer where
  "both_answer = \<lparr>pa_nums = 2, pa_revents = [1, 1], pa_now = 5\<rparr>"

definition both_events :: "(nat \<times> event) list" where
  "both_events = [(7, Accepts 2), (1, Serves 1)]"

lemma sample_site_sel [simp]:
  "su_server sample_site = 3" "su_http sample_site = 2" "su_acceptor sample_site = 0" "su_loop sample_site = 0"
  by (simp_all add: sample_site_def)

lemma sample_crowd_sel:
  "chans sample_crowd k = (if k = 7 then (channel_new 0 4)\<lparr>ch_readCallBack := Some (AcceptorHandleRead 0), ch_event := 3, ch_index := 0\<rparr>
        else (made_channel 0 9 1)\<lparr>ch_event := 3, ch_index := 1\<rparr>)"
  "lp_poller (w_loops sample_crowd l) =
        \<lparr>pl_pollfds = [\<lparr>pfd_fd = 4, pfd_events = 3, pfd_revents = 0\<rparr>, \<lparr>pfd_fd = 9, pfd_events = 3, pfd_revents = 0\<rparr>],
         pl_channels = [4 \<mapsto> 7, 9 \<mapsto> 1]\<rparr>"
  "cw_conns sample_crowd c = (cw_conns sample_served 1)\<lparr>cn_name := ''s#1''\<rparr>"
  "sw_servers sample_crowd v = \<lparr>ts_loop = 0, ts_name = ''s'', ts_acceptor = 0,
        ts_threadpoll = \<lparr>tp_baseloop = 0, tp_started = True, tp_numThreads = 0, tp_next = 0, tp_loops = []\<rparr>,
        ts_connectCallBack = Some 0, ts_messageCallBack = Some 2, ts_started = True, ts_nextConnId = 2,
        ts_connects = [''s#1'' \<mapsto> 1]\<rparr>"
  "aw_acceptors sample_crowd a = \<lparr>ac_loop = 0, ac_fd = 4, ac_channel = 7, ac_newConnCallBack = Some 3, ac_listenning = True\<rparr>"
  "w_tid sample_crowd = 7" "lp_threadId (w_loops sample_crowd l) = 7" "sk_trace sample_crowd = []" "pending_of l sample_crowd = []"
  "hw_contexts sample_crowd c = None" "hw_servers sample_crowd h = \<lparr>hs_server = 0, hs_httpCallback = defaultHttpCallback\<rparr>"
  using sample_served_sel sample_served_http
  by (simp_all add: sample_crowd_def view_defs)

lemma sample_crowd_conn:
  "cn_state (cw_conns sample_crowd c) = kConnected" "contents (cn_inputBuffer (cw_conns sample_crowd c)) = []"
  "cn_outputBuffer (cw_conns sample_crowd c) = buffer_init" "cn_loop (cw_conns sample_crowd c) = 0" "cn_name (cw_conns sample_crowd c) = ''s#1''"
  "cn_channel (cw_conns sample_crowd c) = 1" "cn_messageCallBack (cw_conns sample_crowd c) = Some 2"
  "cn_fd (cw_conns sample_crowd c) = 9"
  "cn_closeCallBack (cw_conns sample_crowd c) = Some 3"
  using servedD(4) [OF sample_served] by (simp_all add: sample_crowd_sel(3) sample_conn_simps)

lemma sample_crowd_input: "cn_inputBuffer (cw_conns sample_crowd c) = cn_inputBuffer (cw_conns sample_served 1)"
  by (simp add: sample_crowd_sel(3))

lemma sample_crowd_live: "session_live 3 2 0 1 sample_crowd" "session_of 1 sample_crowd = (context_init, [], True)"
  "sent 1 sample_crowd = []" "unsent 1 sample_crowd = []"
proof -
  show "session_of 1 sample_crowd = (context_init, [], True)"
    by (simp add: session_of_def sample_crowd_conn sample_crowd_sel(10) auto_context_def)
  show s: "sent 1 sample_crowd = []" "unsent 1 sample_crowd = []"
    by (simp_all add: sent_def unsent_def sample_crowd_conn sample_crowd_sel(8) written_def contents_init)
  have ch: "cn_channel (cw_conns sample_crowd 1) = 1" by (simp add: sample_crowd_conn)
  have p: "poller_ok (lp_poller (w_loops sample_crowd 0)) (chans sample_crowd)"
    by (auto simp: sample_crowd_sel poller_ok_def decoded_def made_channel_def channel_new_def less_Suc_eq)
  then have reg: "conn_registered 1 sample_crowd"
    by (simp add: conn_registered_def Let_def registered_def isInLoopThread_def sample_crowd_conn)
      (simp add: sample_crowd_sel made_channel_def channel_new_def)
  have w: "\<not> isWriting (chans sample_crowd 1)" by (simp add: sample_crowd_sel isWriting_def poll_bits made_channel_def channel_new_def)
  have b: "buf_ok (cn_inputBuffer (cw_conns sample_crowd 1))" using servedD(3) [OF sample_served] by (simp add: sample_crowd_input)
  have "conn_ok 1 sample_crowd"
    using reg w b by (simp add: conn_ok_def conn_registered_def Let_def sample_crowd_conn buf_ok_init contents_init)
  moreover have "down 1 sample_crowd = 0" by (simp add: down_def sample_crowd_sel shutdowns_def)
  ultimately have out: "out_ok 1 0 sample_crowd" by (simp add: out_ok_def sample_crowd_conn)
  have "served 3 1 sample_crowd"
    using reg b by (simp add: served_def Let_def sample_crowd_conn) (simp add: sample_crowd_sel)
  then show "session_live 3 2 0 1 sample_crowd"
    using out by (simp add: session_live_def sample_crowd_conn sample_crowd_sel(1,10) auto_context_def expecting_def context_init_def
        made_channel_def)
qed

lemma sample_crowd_ready: "crowd sample_site [1] [] sample_crowd"
proof -
  have "ts_connects (sw_servers sample_crowd 3) = [''s#1'' \<mapsto> 1]" by (simp add: sample_crowd_sel)
  have "numbered (sw_servers sample_crowd 3) ''s#1''"
    by (auto simp: numbered_def sample_crowd_sel conn_suffix_def dec_int_def dec.simps intro!: exI [of _ 1])
  then have ok: "server_ok 3 sample_crowd"
    by (simp add: server_ok_def Let_def sample_crowd_conn) (simp add: sample_crowd_sel pool_ok_def)
  have at: "attended sample_site 1 sample_crowd"
    using sample_crowd_live(1) by (auto simp: attended_def sample_crowd_conn)
  have "listening sample_site sample_crowd"
    by (simp add: listening_def Let_def sample_crowd_sel loop_channels_def)
  then have "server_live sample_site sample_crowd"
    using ok doomedD(6,7) [OF attended_doomed [OF at]] by (simp add: server_live_def Let_def sample_crowd_sel)
  moreover have "conn_channel sample_crowd 1 = 1" by (simp add: conn_channel_def sample_crowd_conn)
  ultimately show ?thesis using at by (simp add: crowd_def) (simp add: sample_crowd_sel)
qed

lemma sample_resting: "loop_resting sample_site sample_crowd"
  using sample_crowd_ready sample_crowd_sel(9) [of 0] by (auto simp: loop_resting_def crowd_busy_def)

lemma both_ready:
  "poll_documented (pl_pollfds (lp_poller (w_loops sample_crowd 0))) (pa_nums both_answer) (pa_revents both_answer)"
  "ready (lp_poller (w_loops sample_crowd 0)) (pa_revents both_answer) = map fst both_events"
proof -
  show "poll_documented (pl_pollfds (lp_poller (w_loops sample_crowd 0))) (pa_nums both_answer) (pa_revents both_answer)"
    by (auto simp: poll_documented_def sample_crowd_sel both_answer_def less_Suc_eq)
  show "ready (lp_poller (w_loops sample_crowd 0)) (pa_revents both_answer) = map fst both_events"
    by (simp add: ready_def slot_channel_def sample_crowd_sel both_answer_def both_events_def upt_rec)
qed

text \<open>The poll, and what the acceptor's channel has to accept.\<close>

lemma both_polled:
  "\<exists>s0. poll_active 0 both_answer sample_crowd = Inr s0 \<and> same_world sample_crowd s0 \<and> pending_of 0 s0 = []
    \<and> ch_revent (chans s0 7) = POLLIN \<and> ch_revent (chans s0 1) = POLLIN \<and> event_given serving_program sample_site 5 s0 (Accepts 2)
    \<and> acts_of serving_program sample_site 5 s0 (Accepts 2) = [Begins 2 []]"
proof -
  have "loop_resting sample_site sample_crowd" by (rule sample_resting)
  then have ok: "poller_ok (lp_poller (w_loops sample_crowd 0)) (chans sample_crowd)"
    using server_liveD(2) [OF crowdD(1) [OF sample_crowd_ready]] by simp
  from same_world_poll [OF both_ready(1) ok] obtain s0 where
    s0: "poll_active 0 both_answer sample_crowd = Inr s0" "same_world sample_crowd s0" "\<forall>k. pending_of k s0 = pending_of k sample_crowd"
      "\<forall>k\<in>set (map fst both_events). ch_revent (chans s0 k) = scast (pa_revents both_answer ! nat (ch_index (chans sample_crowd k)))"
    unfolding both_ready(2) by blast
  have rev: "ch_revent (chans s0 7) = POLLIN" "ch_revent (chans s0 1) = POLLIN"
    using s0(4) by (simp_all add: both_events_def both_answer_def sample_crowd_sel poll_bits)
  let ?F = "upd_chan 7 (\<lambda>k. k\<lparr>ch_eventHanding := True\<rparr>) s0"
  note w = s0(2) and wF = same_world_flag [of s0 7 True]
  note v = same_worldD(2,3,5,6) [OF w] same_worldD(2,3,5,6) [OF wF]
  have lc: "loop_channels 0 ?F = [4 \<mapsto> 7, 9 \<mapsto> 1]"
    by (simp add: same_worldD(9) [OF wF] same_worldD(9) [OF w]) (simp add: loop_channels_def sample_crowd_sel)
  have pend: "pending_of 0 ?F = []" using s0(3) by (simp add: loop_simps sample_crowd_sel)
  have acc: "accepting serving_program sample_site ?F = (a, 2, 2) \<Longrightarrow> an_ret a = 0" for a
    by (auto simp: accepting_def Let_def serving_program_def sample_program_def delivers_def three_bytes_def)
  have acc2: "\<exists>a. accepting serving_program sample_site ?F = (a, 2, 2)" "an_ret (fst (accepting serving_program sample_site s0)) = 0"
    by (simp_all add: accepting_def Let_def serving_program_def sample_program_def delivers_def three_bytes_def)
  then obtain a where a: "accepting serving_program sample_site ?F = (a, 2, 2)" by blast
  have "accept_given serving_program sample_site 2 ?F"
    unfolding accept_given_def a prod.case using acc [OF a] pend
    by (simp add: lc) (simp add: v sample_crowd_sel)
  moreover have ch: "acceptor_channel sample_site s0 = 7" by (simp add: acceptor_channel_def v sample_crowd_sel)
  ultimately have "event_given serving_program sample_site 5 s0 (Accepts 2)" using rev(1) by simp
  moreover have "acts_of serving_program sample_site 5 s0 (Accepts 2) = [Begins 2 []]"
    using acc2(2) by (simp add: v sample_crowd_sel written_def)
  ultimately show ?thesis using s0(1-3) rev by (intro exI [of _ s0]) (simp add: sample_crowd_sel)
qed

lemma hello_heard_at:
  assumes "cw_conns s 1 = cw_conns sample_crowd 1" and "hw_contexts s 1 = None"
  shows "can_read (pg_kernel serving_program) defaultHttpCallback 1 5 s" and "heard (pg_kernel serving_program) 1 POLLIN 5 s = [asks hello]"
proof -
  have in_len: "length (snd (asks hello)) \<le> extraBuf_size" "0 < length (snd (asks hello))"
    unfolding hello_text by (simp_all add: kCRLF_def extraBuf_size_def)
  have conn: "cn_inputBuffer (cw_conns s 1) = cn_inputBuffer (cw_conns sample_served 1)" "cn_outputBuffer (cw_conns s 1) = buffer_init"
    by (simp_all only: assms(1) sample_crowd_input sample_crowd_conn)
  have arr: "an_data (arrives (pg_kernel serving_program) 1 s) = snd (asks hello)" "0 < an_ret (arrives (pg_kernel serving_program) 1 s)"
    using in_len by (simp_all add: arrives_def read_call_def serving_program_def delivers_def)
  have can: "can_read (pg_kernel serving_program) defaultHttpCallback 1 5 sample_served"
    using hello_given by (simp add: turn_given_def Let_def sample_conn_simps sample_served_http readable_answer_def sample_served_sel poll_bits)
  show "can_read (pg_kernel serving_program) defaultHttpCallback 1 5 s"
    using can arr(2) unfolding can_read_def Let_def arr(1) hello_arrives(1) assms(2) conn sample_served_http sample_served_conn by (elim conjE) (intro conjI)
  have "(5, snd (asks hello)) = asks hello" by (simp add: hello_def)
  then show "heard (pg_kernel serving_program) 1 POLLIN 5 s = [asks hello]"
    unfolding heard_def arr(1) by (simp add: poll_bits)
qed

lemma both_given: "crowd_given serving_program (Suc (Suc 0)) sample_site both_answer both_events sample_crowd"
  and both_acts: "crowd_acts serving_program (Suc (Suc 0)) sample_site both_answer both_events sample_crowd = [Begins 2 [], Hears 1 [asks hello]]"
proof -
  from both_polled obtain s0 where
    s0: "poll_active 0 both_answer sample_crowd = Inr s0" "same_world sample_crowd s0" "pending_of 0 s0 = []"
      "ch_revent (chans s0 7) = POLLIN" "ch_revent (chans s0 1) = POLLIN" "event_given serving_program sample_site 5 s0 (Accepts 2)"
      "acts_of serving_program sample_site 5 s0 (Accepts 2) = [Begins 2 []]" by blast
  note v = same_worldD(1,3,4,5) [OF s0(2)]
  have cr: "crowd sample_site [1] [] s0" by (rule same_world_crowd(1) [OF s0(2) sample_crowd_ready])
  have ch: "acceptor_channel sample_site s0 = 7" "conn_channel s0 1 = 1"
    by (simp_all add: acceptor_channel_def conn_channel_def v sample_crowd_sel(5) sample_crowd_conn)
  have g: "ch_revent (chans s0 (acceptor_channel sample_site s0)) = POLLIN"
    "accept_given serving_program sample_site 2 (upd_chan (acceptor_channel sample_site s0) (\<lambda>k. k\<lparr>ch_eventHanding := True\<rparr>) s0)"
    using s0(6) by simp_all
  have pend: "pending_of (su_loop sample_site) s0 = map ConnectDestory []" using s0(3) by simp
  from crowd_accepts [OF cr g(1) pend g(2), of 0 5 defaultHttpCallback] obtain s1 where
    s1: "handleEvent (system_run serving_program (Suc (Suc 0))) (system_read serving_program (Suc (Suc 0))) 7 5 s0 = Inr s1"
      "crowd sample_site [2, 1] [] s1" "hw_servers s1 = hw_servers s0"
      "\<forall>x\<in>set [1]. cw_conns s1 x = cw_conns s0 x \<and> hw_contexts s1 x = hw_contexts s0 x
         \<and> ch_revent (chans s1 (conn_channel s0 x)) = ch_revent (chans s0 (conn_channel s0 x))"
    unfolding ch by (elim exE conjE) (rule that)
  have one: "cw_conns s1 1 = cw_conns sample_crowd 1" "hw_contexts s1 1 = None" "ch_revent (chans s1 1) = POLLIN"
    using s1(4) s0(5) ch(2) by (simp_all add: v sample_crowd_sel(10))
  have ch1: "conn_channel s1 1 = 1" unfolding conn_channel_def one(1) by (rule sample_crowd_conn)
  have r: "(POLLIN :: 32 word) \<in> session_bits" by (simp add: session_bits_def)
  have "1 \<in> ran (ts_connects (sw_servers s1 3))" using crowdD(7) [OF s1(2)] by simp
  then have serves: "event_given serving_program sample_site 5 s1 (Serves 1)"
    using hello_heard_at(1) [OF one(1,2)] r ch1 one(3) s1(3) by (simp add: v sample_crowd_sel(11))
  have act1: "acts_of serving_program sample_site 5 s1 (Serves 1) = [Hears 1 [asks hello]]"
    using hello_heard_at(2) [OF one(1,2)] ch1 one(3) by simp
  have k: "7 = event_channel sample_site s0 (Accepts 2)" "1 = event_channel sample_site s1 (Serves 1)" using ch ch1 by simp_all
  have "round_given serving_program (Suc (Suc 0)) sample_site 5 both_events s0"
    unfolding both_events_def round_given.simps s1(1) sum.case using k s0(6) serves by (simp split: sum.splits)
  then show "crowd_given serving_program (Suc (Suc 0)) sample_site both_answer both_events sample_crowd"
    using both_ready s0(1) by (simp add: crowd_given_def Let_def both_answer_def)
  have "round_acts serving_program (Suc (Suc 0)) sample_site 5 both_events s0 = [Begins 2 [], Hears 1 [asks hello]]"
    unfolding both_events_def round_acts.simps s1(1) sum.case s0(7) act1 by (simp split: sum.splits)
  moreover have "pa_now both_answer = 5" by (simp add: both_answer_def)
  ultimately show "crowd_acts serving_program (Suc (Suc 0)) sample_site both_answer both_events sample_crowd
      = [Begins 2 [], Hears 1 [asks hello]]"
    by (simp add: crowd_acts_def s0(1))
qed

lemma both_started: "clients_of sample_site sample_crowd = [1 \<mapsto> ((context_init, [], True), [])]"
  using crowd_clients [OF sample_crowd_ready] sample_crowd_live(2-4) by (auto simp: fun_eq_iff)

lemma both_callback: "defaultHttpCallback = hs_httpCallback (hw_servers sample_crowd (su_http sample_site))"
  by (simp add: sample_crowd_sel(11))

lemma crowd_turn_witness:
  "\<exists>s'. loop_turn (system_run serving_program 2) (system_read serving_program 2) 0 both_answer sample_crowd = Inr s'
    \<and> clients_of sample_site s' = [2 \<mapsto> ((context_init, [], True), []), 1 \<mapsto> ((context_init, [], False), not_found)]"
proof -
  from crowd_turn [OF sample_resting serving_documented both_given both_callback] obtain s' where
    s': "loop_turn (system_run serving_program (Suc (Suc 0))) (system_read serving_program (Suc (Suc 0))) 0 both_answer sample_crowd = Inr s'"
      "clients_of sample_site s' = fold (act_step defaultHttpCallback) [Begins 2 [], Hears 1 [asks hello]] [1 \<mapsto> ((context_init, [], True), [])]"
    unfolding both_acts both_started sample_site_sel by blast
  have two: "Suc (Suc 0) = 2" by simp
  have "clients_of sample_site s' = [2 \<mapsto> ((context_init, [], True), []), 1 \<mapsto> ((context_init, [], False), not_found)]"
    unfolding s'(2) fold_simps act_step.simps using hello_served by (simp add: fun_eq_iff)
  then show ?thesis using s'(1) unfolding two by blast
qed

lemma both_run: "\<exists>s'. crowd_run serving_program 0 sample_site [Begins 2 [], Hears 1 [asks hello]] sample_crowd s'"
proof -
  from crowd_turn_effect [OF sample_resting serving_documented both_given both_callback] obtain s' where
    "loop_turn (system_run serving_program (Suc (Suc 0))) (system_read serving_program (Suc (Suc 0))) (su_loop sample_site) both_answer sample_crowd = Inr s'"
    by blast
  from crowd_run.turn [OF both_given this crowd_run.over] show ?thesis unfolding append_Nil2 both_acts by blast
qed

lemma clients_independent_witness:
  "\<exists>s'. crowd_run serving_program 0 sample_site [Begins 2 [], Hears 1 [asks hello]] sample_crowd s'
    \<and> clients_of sample_site s' 2 = Some ((context_init, [], True), [])"
proof -
  obtain s' where s': "crowd_run serving_program 0 sample_site [Begins 2 [], Hears 1 [asks hello]] sample_crowd s'" using both_run by blast
  from clients_independent [OF s' sample_resting serving_documented, of 2]
  have "clients_of sample_site s' 2 = Some ((context_init, [], True), [])" by simp
  with s' show ?thesis by blast
qed

lemma every_client_answered_witness:
  "\<exists>s'. crowd_run serving_program 0 sample_site [Begins 2 [], Hears 1 [asks hello]] sample_crowd s'
    \<and> sent 1 s' @ unsent 1 s' = not_found \<and> cn_state (cw_conns s' 1) \<noteq> kConnected"
proof -
  obtain s' where s': "crowd_run serving_program 0 sample_site [Begins 2 [], Hears 1 [asks hello]] sample_crowd s'" using both_run by blast
  have own: "filter (\<lambda>a. client a = 1 \<and> \<not> silent a) [Begins 2 [], Hears 1 [asks hello]]
      = [] @ map (\<lambda>r. Hears 1 [asks r]) [hello] @ (if False then [Ends 1] else [])" by (simp add: silent_def)
  have fresh: "fold (act_step defaultHttpCallback) [] (clients_of sample_site sample_crowd) 1 = Some ((context_init, [], True), [])"
    by (simp add: both_started)
  have ok: "\<forall>r\<in>set [hello]. asked_ok r" using hello_ok by simp
  from every_client_answered [OF s' sample_resting serving_documented own fresh ok both_callback] have
    "sent 1 s' @ unsent 1 s' = concat (map response_text (answers defaultHttpCallback (map asked_request [hello])))"
    "cn_state (cw_conns s' 1) = kConnected \<longleftrightarrow> (\<forall>r\<in>set [hello]. \<not> rs_closeConnection (answer defaultHttpCallback (asked_request r)))"
    by simp_all
  moreover have "answers defaultHttpCallback (map asked_request [hello]) = [answer defaultHttpCallback (asked_request hello)]" by simp
  ultimately have "sent 1 s' @ unsent 1 s' = not_found" "cn_state (cw_conns s' 1) \<noteq> kConnected"
    by (simp_all add: default_text not_found_def) (simp add: default_answer)
  with s' show ?thesis by blast
qed

end
