(* ===== verification/PooledLife.thy ===== *)
theory PooledLife
  imports Session LoopThreads
begin

text \<open>
  The life of a connection of a server with loop threads. The acceptor runs in the thread of the server's
  loop and the connection in that of a loop of the pool; each hands work to the other through the queues
  of the loops. The threads take turns here; what they do to a queue while another uses it is the matter
  of the theory about loops and threads.
\<close>

section \<open>The state a thread change leaves\<close>

lemma as_thread_sel [simp]:
  "w_tid (as_thread t s) = t" "w_loops (as_thread t s) = w_loops s" "chans (as_thread t s) = chans s"
  "cw_conns (as_thread t s) = cw_conns s" "sw_servers (as_thread t s) = sw_servers s" "sk_trace (as_thread t s) = sk_trace s"
  "pending_of l (as_thread t s) = pending_of l s" "eventfd_of l (as_thread t s) = eventfd_of l s"
  "loop_channels l (as_thread t s) = loop_channels l s"
  by (simp_all add: as_thread_def view_defs loop_channels_def)

lemma queueInloop_loops [loop_simps]:
  "lp_threadId (w_loops (queueInloop k f s) l) = lp_threadId (w_loops s l)"
  "lp_poller (w_loops (queueInloop k f s) l) = lp_poller (w_loops s l)"
  by (simp_all add: loop_defs loop_simps)

lemma queueInloop_wakes:
  "\<not> isInLoopThread l s \<Longrightarrow> 0 < eventfd_of l (queueInloop l f s)"
  by (auto simp: loop_defs view_defs loop_simps eventfd_value_snoc)

lemma queueInloop_awake:
  "0 < eventfd_of l s \<Longrightarrow> 0 < eventfd_of l (queueInloop k f s)"
  by (auto simp: loop_defs view_defs loop_simps eventfd_value_snoc)

text \<open>The loop whose functors are about to run, with the flag set and the queue swapped out.\<close>

definition swapped :: "nat \<Rightarrow> ('cb, 'z) world_scheme \<Rightarrow> ('cb, 'z) world_scheme" where
  "swapped l = upd_loop l (\<lambda>lp. lp\<lparr>lp_callingPendingFunctors := True, lp_pendingFunctor := []\<rparr>)"

lemma doPendingFunctors_swapped:
  "doPendingFunctors run l s = bnd (fold_res run (pending_of l s) (swapped l s)) (\<lambda>s. Inr (set_calling l False s))"
proof -
  have "swap_pending l (set_calling l True s) = (pending_of l s, swapped l s)"
    by (simp add: swap_pending_def set_calling_def swapped_def upd_loop_def view_defs)
  then show ?thesis by (simp add: doPendingFunctors_def)
qed

lemma swapped_sel [simp]:
  "chans (swapped l s) = chans s" "w_tid (swapped l s) = w_tid s" "cw_conns (swapped l s) = cw_conns s"
  "sw_servers (swapped l s) = sw_servers s" "sk_trace (swapped l s) = sk_trace s"
  "lp_threadId (w_loops (swapped l s) k) = lp_threadId (w_loops s k)" "lp_poller (w_loops (swapped l s) k) = lp_poller (w_loops s k)"
  "loop_channels k (swapped l s) = loop_channels k s" "eventfd_of k (swapped l s) = eventfd_of k s"
  "pending_of k (swapped l s) = (if k = l then [] else pending_of k s)" "isInLoopThread k (swapped l s) = isInLoopThread k s"
  by (simp_all add: swapped_def loop_simps view_defs loop_channels_def isInLoopThread_def)

lemma set_calling_sel [simp]:
  "chans (set_calling l f s) = chans s" "w_tid (set_calling l f s) = w_tid s" "cw_conns (set_calling l f s) = cw_conns s"
  "sw_servers (set_calling l f s) = sw_servers s" "sk_trace (set_calling l f s) = sk_trace s"
  "lp_threadId (w_loops (set_calling l f s) k) = lp_threadId (w_loops s k)"
  "lp_poller (w_loops (set_calling l f s) k) = lp_poller (w_loops s k)"
  "loop_channels k (set_calling l f s) = loop_channels k s" "eventfd_of k (set_calling l f s) = eventfd_of k s"
  "pending_of k (set_calling l f s) = pending_of k s"
  by (simp_all add: set_calling_def loop_simps view_defs loop_channels_def)

section \<open>The hops\<close>

text \<open>The acceptor's thread: the connection is made and its establishment queued in the loop whose turn it is.\<close>

lemma hand_over:
  fixes P :: "('z http_world_scheme) program" and c n :: nat
  assumes ac: "ac_newConnCallBack (aw_acceptors s a) = Some sv" "ac_loop (aw_acceptors s a) = ts_loop (sw_servers s sv)"
    and here: "isInLoopThread (ts_loop (sw_servers s sv)) s"
    and ok: "server_ok sv s" "ts_nextConnId (sw_servers s sv) < 2147483647" "c \<notin> ran (ts_connects (sw_servers s sv))"
    and ans: "ans = pg_kernel P (sk_trace s) (SysAccept (ac_fd (aw_acceptors s a)))" "0 \<le> an_ret ans"
    and new: "pg_new_conn P (s\<lparr>sk_trace := sk_trace s @ [(SysAccept (ac_fd (aw_acceptors s a)), ans)]\<rparr>) = (ch, c)"
    and away: "\<not> isInLoopThread (turn (ts_threadpoll (sw_servers s sv)) 0) s"
  defines "l \<equiv> turn (ts_threadpoll (sw_servers s sv)) 0"
  shows "\<exists>s1 cn tp. system_run P (Suc (Suc n)) (AcceptorHandleRead a) s = Inr s1
    \<and> cw_conns s1 = (cw_conns s)(c := cn) \<and> cn_loop cn = l \<and> cn_state cn = kConnecting \<and> cn_fd cn = an_ret ans
    \<and> cn_channel cn = ch \<and> cn_closeCallBack cn = Some sv \<and> cn_name cn = next_name (sw_servers s sv)
    \<and> cn_inputBuffer cn = buffer_init \<and> cn_outputBuffer cn = buffer_init
    \<and> sw_servers s1 = (sw_servers s)(sv := server_after tp c (sw_servers s sv))
    \<and> chans s1 = (chans s)(ch := made_channel l (an_ret ans) c) \<and> w_tid s1 = w_tid s
    \<and> (\<forall>k. lp_threadId (w_loops s1 k) = lp_threadId (w_loops s k) \<and> lp_poller (w_loops s1 k) = lp_poller (w_loops s k)
        \<and> pending_of k s1 = pending_of k s @ (if k = l then [ConnectEstablished c] else []))
    \<and> 0 < eventfd_of l s1 \<and> ts_connects (sw_servers s sv) (next_name (sw_servers s sv)) = None"
proof -
  let ?K = "pg_kernel P" and ?run = "system_run P (Suc n)" and ?call = "SysAccept (ac_fd (aw_acceptors s a))"
  obtain s1 where s1: "s1 = snd (syscall ?K ?call s)" by blast
  have v1: "sw_servers s1 = sw_servers s" "cw_conns s1 = cw_conns s" "chans s1 = chans s" "w_loops s1 = w_loops s" "w_tid s1 = w_tid s"
    by (simp_all add: s1 loop_simps)
  have here1: "isInLoopThread k s1 = isInLoopThread k s" for k by (simp add: isInLoopThread_def v1)
  have pg: "pg_new_conn P s1 = (ch, c)" using ans(1) new by (simp add: s1 syscall_def Let_def)
  have "isInLoopThread (ac_loop (aw_acceptors s a)) s" using ac(2) here by simp
  then have accept: "system_run P (Suc (Suc n)) (AcceptorHandleRead a) s
      = server_newConnection ?K ?run ch c sv (an_ret ans) (an_addr ans) s1"
    using ac(1) ans pg by (simp add: perform_def Let_def acceptor_handleRead_eq s1 [symmetric])
  have ok1: "server_ok sv s1" by (rule server_ok_cong [OF ok(1) v1(1)]) (simp_all add: v1(2))
  have pre: "isInLoopThread (ts_loop (sw_servers s1 sv)) s1" "ts_nextConnId (sw_servers s1 sv) < 2147483647"
    using here ok(2) by (simp_all add: v1(1) here1)
  from newConnection_eq [OF pre(1) ok1 pre(2), of ?K ?run ch c "an_ret ans" "an_addr ans", unfolded v1 l_def [symmetric]]
  obtain tp s2 where
    s2: "server_newConnection ?K ?run ch c sv (an_ret ans) (an_addr ans) s1 = runInLoop ?run l (ConnectEstablished c) s2"
      "cw_conns s2 = (cw_conns s)(c := made_connection ?K ch sv (an_ret ans) (an_addr ans) s1)"
      "sw_servers s2 = (sw_servers s)(sv := server_after tp c (sw_servers s sv))"
      "w_loops s2 = w_loops s" "w_tid s2 = w_tid s" "chans s2 = (chans s)(ch := made_channel l (an_ret ans) c)"
    by (elim exE conjE) (rule that)
  have away2: "\<not> isInLoopThread l s2" using away by (simp add: isInLoopThread_def s2(4,5) l_def)
  have name: "ts_connects (sw_servers s sv) (next_name (sw_servers s sv)) = None"
  proof (rule ccontr)
    assume "ts_connects (sw_servers s sv) (next_name (sw_servers s sv)) \<noteq> None"
    then have "numbered (sw_servers s sv) (next_name (sw_servers s sv))" "1 \<le> ts_nextConnId (sw_servers s sv)"
      using ok(1) by (auto simp: server_ok_def Let_def)
    from next_name_fresh [OF this] show False by simp
  qed
  let ?s' = "queueInloop l (ConnectEstablished c) s2"
  have "system_run P (Suc (Suc n)) (AcceptorHandleRead a) s = Inr ?s'"
    unfolding accept s2(1) by (simp add: runInLoop_def away2)
  moreover have "pending_of k s2 = pending_of k s" for k by (simp add: view_defs s2(4))
  moreover have "chans ?s' = chans s2" by (simp add: loop_defs loop_simps)
  ultimately show ?thesis
    using s2 queueInloop_wakes [OF away2, of "ConnectEstablished c"] name
    by (intro exI [of _ ?s'] exI [of _ "made_connection ?K ch sv (an_ret ans) (an_addr ans) s1"] exI [of _ tp])
      (simp add: loop_simps v1(1) l_def)
qed

text \<open>The thread of the connection's loop: the queued establishment registers the channel.\<close>

lemma establish_pending:
  fixes P :: "('z http_world_scheme) program" and c n :: nat
  assumes fresh: "conn_fresh c s" and st: "cn_state (cw_conns s c) = kConnecting"
    and pend: "pending_of (cn_loop (cw_conns s c)) s = [ConnectEstablished c]"
  defines "l \<equiv> cn_loop (cw_conns s c)"
  shows "\<exists>s'. doPendingFunctors (system_run P (Suc n)) l s = Inr s' \<and> conn_registered c s'
    \<and> cw_conns s' = (cw_conns s)(c := setState kConnected (cw_conns s c)) \<and> sw_servers s' = sw_servers s \<and> w_tid s' = w_tid s
    \<and> loop_channels l s' = (loop_channels l s)(cn_fd (cw_conns s c) \<mapsto> cn_channel (cw_conns s c))
    \<and> (\<forall>k. lp_threadId (w_loops s' k) = lp_threadId (w_loops s k) \<and> eventfd_of k s' = eventfd_of k s
        \<and> pending_of k s' = (if k = l then [] else pending_of k s))"
proof -
  let ?t = "swapped l s"
  have "registrable k ?t = registrable k s" for k by (simp add: registrable_def)
  then have "conn_fresh c ?t" using fresh by (simp add: conn_fresh_def Let_def)
  from established_effect [OF this, of "system_env P (system_run P n)"] st obtain t' pl i where
    t': "connectEestablished (system_env P (system_run P n)) c ?t
          = call_set (cn_connectionCallBack (cw_conns s c)) (\<lambda>h. http_onConnection h c) t'"
      "t' = set_poller l pl ((chans s)(cn_channel (cw_conns s c) := setIndex i (readingBits (chans s (cn_channel (cw_conns s c))))))
        (upd_conn c (setState kConnected) ?t)"
      "conn_ok c t'" "cw_conns t' = (cw_conns s)(c := setState kConnected (cw_conns s c))"
      "loop_channels l t' = (loop_channels l s)(cn_fd (cw_conns s c) \<mapsto> cn_channel (cw_conns s c))"
    by (simp add: l_def) blast
  have run: "system_run P (Suc n) (ConnectEstablished c) ?t = Inr t'"
    using t'(1) by (simp add: perform_def Let_def call_set_def http_onConnection_def split: option.splits)
  let ?s' = "set_calling l False t'"
  have "doPendingFunctors (system_run P (Suc n)) l s = Inr ?s'"
    using pend by (simp add: doPendingFunctors_swapped l_def run [unfolded l_def] del: system_run.simps)
  moreover have "conn_registered c ?s'"
    by (rule conn_registered_cong [OF conn_ok_registered [OF t'(3)]]) simp_all
  moreover have "queues_same ?t t'"
    using run established_same [of P "system_run P n" c ?t t'] by (simp add: perform_def Let_def)
  then have "pending_of k t' = (if k = l then [] else pending_of k s)" "eventfd_of k t' = eventfd_of k s" for k
    by (simp_all add: queues_same_def)
  moreover have "sw_servers t' = sw_servers s" "w_tid t' = w_tid s" "lp_threadId (w_loops t' k) = lp_threadId (w_loops s k)" for k
    by (simp_all add: t'(2) loop_simps)
  ultimately show ?thesis using t'(4,5) by (intro exI [of _ ?s']) simp
qed

text \<open>The same thread: each report that the connection closed queues its removal in the server's loop.\<close>

lemma close_from_afar:
  fixes P :: "('z http_world_scheme) program" and c n :: nat
  assumes reg: "conn_registered c s" and st: "cn_state (cw_conns s c) \<in> {kConnected, kDisconnecting}"
    and cb: "cn_closeCallBack (cw_conns s c) = Some sv" and away: "\<not> isInLoopThread (ts_loop (sw_servers s sv)) s"
  defines "b \<equiv> ts_loop (sw_servers s sv)" and "l \<equiv> cn_loop (cw_conns s c)"
  shows "\<exists>s'. system_run P (Suc (Suc n)) (ConnHandleClose c) s = Inr s' \<and> conn_registered c s'
    \<and> cw_conns s' = cw_conns s \<and> sw_servers s' = sw_servers s \<and> w_tid s' = w_tid s \<and> loop_channels l s' = loop_channels l s
    \<and> (\<forall>k. lp_threadId (w_loops s' k) = lp_threadId (w_loops s k)
        \<and> pending_of k s' = pending_of k s @ (if k = b then [RemoveConnectionInLoop sv c] else []))
    \<and> 0 < eventfd_of b s'"
proof -
  let ?E = "system_env P (system_run P (Suc n))"
  from handleClose_effect [OF reg st, of ?E] cb obtain t pl where
    t: "handleClose ?E c s = server_removeConnection (system_run P (Suc n)) sv c t"
      "t = upd_loop l (\<lambda>lp. lp\<lparr>lp_poller := pl\<rparr>) (upd_chan (cn_channel (cw_conns s c)) noBits s)"
      "conn_registered c t" "cw_conns t = cw_conns s" "loop_channels l t = loop_channels l s"
    by (auto simp: l_def)
  have tv: "sw_servers t = sw_servers s" "w_tid t = w_tid s" "pending_of k t = pending_of k s"
    "lp_threadId (w_loops t k) = lp_threadId (w_loops s k)" for k
    by (simp_all add: t(2) loop_simps view_defs)
  have away': "\<not> isInLoopThread b t" using away by (simp add: isInLoopThread_def tv b_def)
  let ?s' = "queueInloop b (RemoveConnectionInLoop sv c) t"
  have "system_run P (Suc (Suc n)) (ConnHandleClose c) s = Inr ?s'"
    using away' by (simp add: perform_def Let_def t(1) server_removeConnection_def runInLoop_def tv(1) b_def)
  moreover have "conn_registered c ?s'"
    by (rule conn_registered_cong [OF t(3)]) (simp_all add: loop_simps queueInloop_def queue_wake_def queue_push_def wakeup_def)
  ultimately show ?thesis
    using queueInloop_wakes [OF away', of "RemoveConnectionInLoop sv c"]
    by (intro exI [of _ ?s']) (simp add: loop_simps tv t(4,5))
qed

lemma closes_from_afar:
  fixes P :: "('z http_world_scheme) program" and c n k :: nat
  assumes "conn_registered c s" and "cn_state (cw_conns s c) \<in> {kConnected, kDisconnecting}"
    and "cn_closeCallBack (cw_conns s c) = Some sv" and "\<not> isInLoopThread (ts_loop (sw_servers s sv)) s"
    and "0 < k"
  defines "b \<equiv> ts_loop (sw_servers s sv)" and "l \<equiv> cn_loop (cw_conns s c)"
  shows "\<exists>s'. fold_res (system_run P (Suc (Suc n))) (replicate k (ConnHandleClose c)) s = Inr s' \<and> conn_registered c s'
    \<and> cw_conns s' = cw_conns s \<and> sw_servers s' = sw_servers s \<and> w_tid s' = w_tid s \<and> loop_channels l s' = loop_channels l s
    \<and> (\<forall>j. lp_threadId (w_loops s' j) = lp_threadId (w_loops s j)
        \<and> pending_of j s' = pending_of j s @ (if j = b then replicate k (RemoveConnectionInLoop sv c) else []))
    \<and> 0 < eventfd_of b s'"
  using assms(1-5) unfolding b_def l_def
proof (induction k arbitrary: s)
  case 0
  then show ?case by simp
next
  case (Suc k)
  from close_from_afar [OF Suc.prems(1-4), of P n] obtain t where
    t: "system_run P (Suc (Suc n)) (ConnHandleClose c) s = Inr t" "conn_registered c t"
      "cw_conns t = cw_conns s" "sw_servers t = sw_servers s" "w_tid t = w_tid s"
      "loop_channels (cn_loop (cw_conns s c)) t = loop_channels (cn_loop (cw_conns s c)) s"
      "\<And>j. lp_threadId (w_loops t j) = lp_threadId (w_loops s j)"
      "\<And>j. pending_of j t = pending_of j s @ (if j = ts_loop (sw_servers s sv) then [RemoveConnectionInLoop sv c] else [])"
      "0 < eventfd_of (ts_loop (sw_servers s sv)) t" by blast
  show ?case
  proof (cases "k = 0")
    case True
    then show ?thesis using t by (intro exI [of _ t]) simp
  next
    case False
    have away: "\<not> isInLoopThread (ts_loop (sw_servers t sv)) t" using Suc.prems(4) by (simp add: isInLoopThread_def t(4,5,7))
    have pre: "cn_state (cw_conns t c) \<in> {kConnected, kDisconnecting}" "cn_closeCallBack (cw_conns t c) = Some sv" "0 < k"
      using Suc.prems(2,3) False by (simp_all add: t(3))
    from Suc.IH [OF t(2) pre(1,2) away pre(3), unfolded t(3,4)] obtain s' where
      s': "fold_res (system_run P (Suc (Suc n))) (replicate k (ConnHandleClose c)) t = Inr s'" "conn_registered c s'"
      "cw_conns s' = cw_conns s" "sw_servers s' = sw_servers s" "w_tid s' = w_tid t"
      "loop_channels (cn_loop (cw_conns s c)) s' = loop_channels (cn_loop (cw_conns s c)) t"
      "\<forall>j. lp_threadId (w_loops s' j) = lp_threadId (w_loops t j)
        \<and> pending_of j s' = pending_of j t @ (if j = ts_loop (sw_servers s sv) then replicate k (RemoveConnectionInLoop sv c) else [])"
      "0 < eventfd_of (ts_loop (sw_servers s sv)) s'"
      by (elim exE conjE) (rule that)
    have "fold_res (system_run P (Suc (Suc n))) (replicate (Suc k) (ConnHandleClose c)) s = Inr s'"
      using t(1) s'(1) by simp
    then show ?thesis using s'(2-8) t(5-8) by (intro exI [of _ s']) (simp del: system_run.simps)
  qed
qed

text \<open>The server's thread: the first removal forgets the connection and queues its destruction in its loop;
  the others find nothing to remove.\<close>

lemma remove_unknown:
  assumes "isInLoopThread (ts_loop (sw_servers s sv)) s" and "ts_connects (sw_servers s sv) (cn_name (cw_conns s c)) = None"
  shows "server_removeConnectionInLoop sv c s = Inr s"
proof -
  have m: "(ts_connects (sw_servers s sv))(cn_name (cw_conns s c) := None) = ts_connects (sw_servers s sv)"
    using assms(2) by (simp add: fun_upd_idem)
  have "ts\<lparr>ts_connects := ts_connects ts\<rparr> = ts" for ts by (cases ts) simp
  then have "upd_server sv (\<lambda>ts. ts\<lparr>ts_connects := ts_connects (sw_servers s sv)\<rparr>) s = s"
    by (simp add: upd_server_def)
  then show ?thesis
    unfolding server_removeConnectionInLoop_def map_erase_def assms(2) m Let_def by (simp add: assertInLoopThread_in assms(1))
qed

lemma forget_pending:
  fixes P :: "('z http_world_scheme) program" and c n k :: nat
  assumes here: "isInLoopThread (ts_loop (sw_servers s sv)) s"
    and known: "ts_connects (sw_servers s sv) (cn_name (cw_conns s c)) = Some c"
    and pend: "pending_of (ts_loop (sw_servers s sv)) s = replicate (Suc k) (RemoveConnectionInLoop sv c)"
    and away: "\<not> isInLoopThread (cn_loop (cw_conns s c)) s"
  defines "b \<equiv> ts_loop (sw_servers s sv)" and "l \<equiv> cn_loop (cw_conns s c)"
  shows "\<exists>s'. doPendingFunctors (system_run P (Suc n)) b s = Inr s' \<and> cw_conns s' = cw_conns s \<and> chans s' = chans s
    \<and> sw_servers s' = forgets sv (cn_name (cw_conns s c)) (sw_servers s) \<and> w_tid s' = w_tid s
    \<and> (\<forall>j. lp_threadId (w_loops s' j) = lp_threadId (w_loops s j) \<and> lp_poller (w_loops s' j) = lp_poller (w_loops s j)
        \<and> pending_of j s' = (if j = b then [] else pending_of j s @ (if j = l then [ConnectDestory c] else [])))
    \<and> 0 < eventfd_of l s'"
proof -
  let ?run = "system_run P (Suc n)" and ?cn = "cw_conns s c" and ?t = "swapped b s"
  let ?u = "upd_server sv (\<lambda>ts. ts\<lparr>ts_connects := (ts_connects ts)(cn_name ?cn := None)\<rparr>) ?t"
  let ?v = "queueInloop l (ConnectDestory c) ?u"
  have ne: "l \<noteq> b" using here away by (auto simp: l_def b_def)
  have first: "?run (RemoveConnectionInLoop sv c) ?t = Inr ?v"
    using here known
    by (simp add: perform_def Let_def server_removeConnectionInLoop_def assertInLoopThread_in map_erase_def upd_server_def l_def)
  have uv: "sw_servers ?v = forgets sv (cn_name ?cn) (sw_servers s)" "cw_conns ?v = cw_conns s" "chans ?v = chans s" "w_tid ?v = w_tid s"
    "lp_threadId (w_loops ?v j) = lp_threadId (w_loops s j)" "lp_poller (w_loops ?v j) = lp_poller (w_loops s j)"
    "pending_of j ?v = (if j = b then [] else pending_of j s @ (if j = l then [ConnectDestory c] else []))" for j
    using ne by (simp_all add: loop_simps forgets_def)
  have "isInLoopThread (ts_loop (sw_servers ?v sv)) ?v" using here by (simp add: isInLoopThread_def uv)
  moreover have "ts_connects (sw_servers ?v sv) (cn_name (cw_conns ?v c)) = None" by (simp add: uv(1,2))
  ultimately have "server_removeConnectionInLoop sv c ?v = Inr ?v" by (rule remove_unknown)
  then have "?run (RemoveConnectionInLoop sv c) ?v = Inr ?v" by (simp add: perform_def Let_def)
  then have "fold_res ?run (replicate j (RemoveConnectionInLoop sv c)) ?v = Inr ?v" for j
    by (induction j) (simp_all del: system_run.simps)
  then have "fold_res ?run (replicate (Suc k) (RemoveConnectionInLoop sv c)) ?t = Inr ?v"
    using first by (simp del: system_run.simps)
  then have "doPendingFunctors ?run b s = Inr (set_calling b False ?v)"
    using pend by (simp add: doPendingFunctors_swapped b_def del: system_run.simps)
  moreover have "\<not> isInLoopThread l ?u" using away by (simp add: isInLoopThread_def loop_simps l_def)
  ultimately show ?thesis
    using uv queueInloop_wakes [of l ?u "ConnectDestory c"]
    by (intro exI [of _ "set_calling b False ?v"]) (simp del: system_run.simps)
qed

section \<open>The life of a connection\<close>

text \<open>The first two hops: from the listening socket to a connection served in its own loop.\<close>

lemma pooled_opens:
  fixes P :: "('z http_world_scheme) program" and c n :: nat
  assumes ac: "ac_newConnCallBack (aw_acceptors s a) = Some sv" "ac_loop (aw_acceptors s a) = ts_loop (sw_servers s sv)"
    and here: "isInLoopThread (ts_loop (sw_servers s sv)) s"
    and ok: "server_ok sv s" "ts_nextConnId (sw_servers s sv) < 2147483647" "c \<notin> ran (ts_connects (sw_servers s sv))"
    and ans: "ans = pg_kernel P (sk_trace s) (SysAccept (ac_fd (aw_acceptors s a)))" "0 \<le> an_ret ans"
    and new: "pg_new_conn P (s\<lparr>sk_trace := sk_trace s @ [(SysAccept (ac_fd (aw_acceptors s a)), ans)]\<rparr>) = (ch, c)"
    and l: "l = turn (ts_threadpoll (sw_servers s sv)) 0" and away: "\<not> isInLoopThread l s"
    and pl: "poller_ok (lp_poller (w_loops s l)) (chans s)" "loop_channels l s (an_ret ans) = None" "ch \<notin> ran (loop_channels l s)"
    and pend: "pending_of l s = []"
  defines "run \<equiv> system_run P (Suc (Suc n))"
  shows "\<exists>s1 s2. run (AcceptorHandleRead a) s = Inr s1 \<and> 0 < eventfd_of l s1
    \<and> doPendingFunctors run l (as_thread (lp_threadId (w_loops s l)) s1) = Inr s2 \<and> conn_registered c s2
    \<and> cn_state (cw_conns s2 c) = kConnected \<and> cn_closeCallBack (cw_conns s2 c) = Some sv
    \<and> cn_loop (cw_conns s2 c) = l \<and> cn_fd (cw_conns s2 c) = an_ret ans
    \<and> ts_loop (sw_servers s2 sv) = ts_loop (sw_servers s sv) \<and> ts_connects (sw_servers s sv) (cn_name (cw_conns s2 c)) = None
    \<and> ts_connects (sw_servers s2 sv) = (ts_connects (sw_servers s sv))(cn_name (cw_conns s2 c) \<mapsto> c)
    \<and> w_tid s2 = lp_threadId (w_loops s l) \<and> loop_channels l s2 = (loop_channels l s)(an_ret ans \<mapsto> ch)
    \<and> (\<forall>k. lp_threadId (w_loops s2 k) = lp_threadId (w_loops s k) \<and> pending_of k s2 = (if k = l then [] else pending_of k s))"
proof -
  from hand_over [OF ac here ok ans new away [unfolded l], of n, folded l run_def] obtain s1 cn tp where
    s1: "run (AcceptorHandleRead a) s = Inr s1" "cw_conns s1 = (cw_conns s)(c := cn)" "cn_loop cn = l" "cn_state cn = kConnecting"
      "cn_fd cn = an_ret ans" "cn_channel cn = ch" "cn_closeCallBack cn = Some sv" "cn_name cn = next_name (sw_servers s sv)"
      "cn_inputBuffer cn = buffer_init" "cn_outputBuffer cn = buffer_init"
      "sw_servers s1 = (sw_servers s)(sv := server_after tp c (sw_servers s sv))"
      "chans s1 = (chans s)(ch := made_channel l (an_ret ans) c)" "w_tid s1 = w_tid s"
      "\<forall>k. lp_threadId (w_loops s1 k) = lp_threadId (w_loops s k) \<and> lp_poller (w_loops s1 k) = lp_poller (w_loops s k)
        \<and> pending_of k s1 = pending_of k s @ (if k = l then [ConnectEstablished c] else [])"
      "0 < eventfd_of l s1" "ts_connects (sw_servers s sv) (next_name (sw_servers s sv)) = None"
    by (elim exE conjE) (rule that)
  obtain t where t: "t = as_thread (lp_threadId (w_loops s l)) s1" by blast
  have tv: "w_tid t = lp_threadId (w_loops s l)" "w_loops t = w_loops s1" "chans t = chans s1" "cw_conns t = cw_conns s1"
    "sw_servers t = sw_servers s1" "pending_of k t = pending_of k s1" for k
    by (simp_all add: t view_defs)
  have ch1: "loop_channels l t = loop_channels l s" by (simp add: loop_channels_def tv(2) s1(14))
  have "conn_fresh c t"
    using poller_ok_fresh [OF pl(1), of ch] ans(2) pl(2,3)
    by (simp add: conn_fresh_def Let_def tv s1 registrable_def isInLoopThread_def loop_channels_def buf_ok_init contents_init)
  moreover have "pending_of (cn_loop (cw_conns t c)) t = [ConnectEstablished c]"
    using pend s1(14) by (simp add: tv s1(2,3))
  moreover have "cn_state (cw_conns t c) = kConnecting" by (simp add: tv s1(2,4))
  ultimately obtain s2 where
    s2: "doPendingFunctors run l t = Inr s2" "conn_registered c s2" "cw_conns s2 = (cw_conns s1)(c := setState kConnected cn)"
      "sw_servers s2 = sw_servers s1" "w_tid s2 = lp_threadId (w_loops s l)"
      "loop_channels l s2 = (loop_channels l s)(an_ret ans \<mapsto> ch)"
      "\<forall>k. lp_threadId (w_loops s2 k) = lp_threadId (w_loops s k) \<and> pending_of k s2 = (if k = l then [] else pending_of k s)"
    using establish_pending [of c t P "Suc n"] s1(14)
    by (auto simp: tv s1(2,3,5,6) ch1 run_def simp del: system_run.simps)
  have "cn_state (cw_conns s2 c) = kConnected" "cn_closeCallBack (cw_conns s2 c) = Some sv"
    "cn_loop (cw_conns s2 c) = l" "ts_loop (sw_servers s2 sv) = ts_loop (sw_servers s sv)"
    "cn_name (cw_conns s2 c) = next_name (sw_servers s sv)" "cn_fd (cw_conns s2 c) = an_ret ans"
    "ts_connects (sw_servers s2 sv) = (ts_connects (sw_servers s sv))(next_name (sw_servers s sv) \<mapsto> c)"
    by (simp_all add: s2(3,4) s1(3,5,7,8,11))
  then show ?thesis using s1(1,15,16) s2(1,2,5-7)
    by - (rule exI [of _ s1], rule exI [of _ s2], simp add: t [symmetric])
qed

text \<open>The other three: reports that it closed, its removal, its destruction.\<close>

lemma pooled_closes:
  fixes P :: "('z http_world_scheme) program" and c n k :: nat
  assumes reg: "conn_registered c s" and st: "cn_state (cw_conns s c) = kConnected"
    and cb: "cn_closeCallBack (cw_conns s c) = Some sv" and b: "ts_loop (sw_servers s sv) = b"
    and l: "cn_loop (cw_conns s c) = l" and here: "w_tid s = lp_threadId (w_loops s l)"
    and away: "\<not> isInLoopThread b s" and known: "ts_connects (sw_servers s sv) (cn_name (cw_conns s c)) = Some c"
    and pend: "pending_of b s = []" "pending_of l s = []"
  defines "run \<equiv> system_run P (Suc (Suc n))"
  shows "\<exists>s3 s4 s5. fold_res run (replicate (Suc k) (ConnHandleClose c)) s = Inr s3 \<and> 0 < eventfd_of b s3
    \<and> doPendingFunctors run b (as_thread (lp_threadId (w_loops s b)) s3) = Inr s4 \<and> 0 < eventfd_of l s4
    \<and> doPendingFunctors run l (as_thread (lp_threadId (w_loops s l)) s4) = Inr s5
    \<and> cn_state (cw_conns s5 c) = kDisconnected \<and> pending_of l s5 = []
    \<and> ts_connects (sw_servers s5 sv) = (ts_connects (sw_servers s sv))(cn_name (cw_conns s c) := None)
    \<and> loop_channels l s5 = (loop_channels l s)(cn_fd (cw_conns s c) := None)"
proof -
  have st': "cn_state (cw_conns s c) \<in> {kConnected, kDisconnecting}" using st by simp
  from closes_from_afar [OF reg st' cb away [folded b] zero_less_Suc [of k], of P n, unfolded b l, folded run_def] obtain s3 where
    s3: "fold_res run (replicate (Suc k) (ConnHandleClose c)) s = Inr s3" "conn_registered c s3" "cw_conns s3 = cw_conns s"
      "sw_servers s3 = sw_servers s" "w_tid s3 = w_tid s" "loop_channels l s3 = loop_channels l s"
      "\<forall>j. lp_threadId (w_loops s3 j) = lp_threadId (w_loops s j)
        \<and> pending_of j s3 = pending_of j s @ (if j = b then replicate (Suc k) (RemoveConnectionInLoop sv c) else [])"
      "0 < eventfd_of b s3"
    by (elim exE conjE) (rule that)
  let ?u = "as_thread (lp_threadId (w_loops s b)) s3"
  have lb: "l \<noteq> b" using here away by (auto simp: isInLoopThread_def)
  have u: "isInLoopThread (ts_loop (sw_servers ?u sv)) ?u" "\<not> isInLoopThread (cn_loop (cw_conns ?u c)) ?u"
    "ts_connects (sw_servers ?u sv) (cn_name (cw_conns ?u c)) = Some c"
    "pending_of (ts_loop (sw_servers ?u sv)) ?u = replicate (Suc k) (RemoveConnectionInLoop sv c)"
    using away here known pend(1) by (simp_all add: isInLoopThread_def s3(3,4,7) b l)
  from forget_pending [OF u(1,3,4,2), of P "Suc n", folded run_def, unfolded as_thread_sel s3(3,4) b l] obtain s4 where
    s4: "doPendingFunctors run b ?u = Inr s4" "cw_conns s4 = cw_conns s" "chans s4 = chans s3"
      "sw_servers s4 = forgets sv (cn_name (cw_conns s c)) (sw_servers s)"
      "\<forall>j. lp_threadId (w_loops s4 j) = lp_threadId (w_loops s3 j) \<and> lp_poller (w_loops s4 j) = lp_poller (w_loops s3 j)
        \<and> pending_of j s4 = (if j = b then [] else pending_of j s3 @ (if j = l then [ConnectDestory c] else []))"
      "0 < eventfd_of l s4"
    by (elim exE conjE) (rule that)
  obtain v where v: "v = as_thread (lp_threadId (w_loops s l)) s4" by blast
  have vv: "w_tid v = lp_threadId (w_loops s l)" "w_loops v = w_loops s4" "chans v = chans s4" "cw_conns v = cw_conns s"
    "sw_servers v = sw_servers s4" "pending_of j v = pending_of j s4" for j
    by (simp_all add: v s4(2) view_defs)
  have regv: "conn_registered c v"
    by (rule conn_registered_cong [OF s3(2)]) (simp_all add: vv s4(3,5) s3(3,5) here)
  have pendv: "pending_of (cn_loop (cw_conns v c)) v = [ConnectDestory c]"
    using lb pend(2) by (simp add: vv l s4(5) s3(7))
  have chv: "loop_channels l v = loop_channels l s" using s3(6) by (simp add: loop_channels_def vv(2) s4(5))
  from destroy_pending [OF regv _ pendv, of P "Suc n", folded run_def, unfolded vv l] st obtain s5 where
    "doPendingFunctors run l v = Inr s5" "cn_state (cw_conns s5 c) = kDisconnected"
      "loop_channels l s5 = (loop_channels l v)(cn_fd (cw_conns s c) := None)" "sw_servers s5 = sw_servers s4" "pending_of l s5 = []"
    by blast
  then show ?thesis using s3(1,8) s4(1,6)
    by - (rule exI [of _ s3], rule exI [of _ s4], rule exI [of _ s5],
      simp add: chv s4(4) v [symmetric] del: fold_res.simps replicate.simps)
qed

text \<open>C3. A connection of a server with loop threads lives in its own loop and dies once. The acceptor's thread
  makes it and wakes the loop whose turn it is; that loop's thread establishes it and registers its
  channel; however often (at least once) that thread reports it closed, the server's loop is woken, its
  thread forgets the connection once and wakes the connection's loop, whose thread destroys it and takes
  its channel out of the poller. Every step runs in the thread it asserts, none fails, and afterwards the
  server's map and the poller's channels are what they were before, with nothing left to run.\<close>

theorem pooled_life:
  fixes P :: "('z http_world_scheme) program" and c n k :: nat
  assumes "ac_newConnCallBack (aw_acceptors s a) = Some sv" and "ac_loop (aw_acceptors s a) = b" and "ts_loop (sw_servers s sv) = b"
    and "isInLoopThread b s" and "server_ok sv s" and "ts_nextConnId (sw_servers s sv) < 2147483647"
    and "c \<notin> ran (ts_connects (sw_servers s sv))"
    and "l = turn (ts_threadpoll (sw_servers s sv)) 0" and "\<not> isInLoopThread l s"
    and "ans = pg_kernel P (sk_trace s) (SysAccept (ac_fd (aw_acceptors s a)))" and "0 \<le> an_ret ans"
    and "pg_new_conn P (s\<lparr>sk_trace := sk_trace s @ [(SysAccept (ac_fd (aw_acceptors s a)), ans)]\<rparr>) = (ch, c)"
    and "poller_ok (lp_poller (w_loops s l)) (chans s)" and "loop_channels l s (an_ret ans) = None"
    and "ch \<notin> ran (loop_channels l s)" and "pending_of b s = []" and "pending_of l s = []"
    and "run = system_run P (Suc (Suc n))" and "own = as_thread (lp_threadId (w_loops s l))"
  shows "\<exists>s1 s2 s3 s4 s5.
      run (AcceptorHandleRead a) s = Inr s1 \<and> 0 < eventfd_of l s1
    \<and> doPendingFunctors run l (own s1) = Inr s2 \<and> cn_state (cw_conns s2 c) = kConnected
    \<and> loop_channels l s2 = (loop_channels l s)(an_ret ans \<mapsto> ch)
    \<and> fold_res run (replicate (Suc k) (ConnHandleClose c)) s2 = Inr s3 \<and> 0 < eventfd_of b s3
    \<and> doPendingFunctors run b (as_thread (w_tid s) s3) = Inr s4 \<and> 0 < eventfd_of l s4
    \<and> doPendingFunctors run l (own s4) = Inr s5 \<and> cn_state (cw_conns s5 c) = kDisconnected
    \<and> ts_connects (sw_servers s5 sv) = ts_connects (sw_servers s sv) \<and> loop_channels l s5 = loop_channels l s
    \<and> pending_of l s5 = []"
proof -
  have ab: "ac_loop (aw_acceptors s a) = ts_loop (sw_servers s sv)" by (simp add: assms(2,3))
  from pooled_opens [OF assms(1) ab assms(4) [folded assms(3)] assms(5-7,10-12,8,9,13-15,17), of n, folded assms(18,19), unfolded assms(3)]
  obtain s1 s2 where
    s2: "run (AcceptorHandleRead a) s = Inr s1" "0 < eventfd_of l s1" "doPendingFunctors run l (own s1) = Inr s2"
      "conn_registered c s2" "cn_state (cw_conns s2 c) = kConnected" "cn_closeCallBack (cw_conns s2 c) = Some sv"
      "cn_loop (cw_conns s2 c) = l" "cn_fd (cw_conns s2 c) = an_ret ans" "ts_loop (sw_servers s2 sv) = b"
      "ts_connects (sw_servers s sv) (cn_name (cw_conns s2 c)) = None"
      "ts_connects (sw_servers s2 sv) = (ts_connects (sw_servers s sv))(cn_name (cw_conns s2 c) \<mapsto> c)"
      "w_tid s2 = lp_threadId (w_loops s l)" "loop_channels l s2 = (loop_channels l s)(an_ret ans \<mapsto> ch)"
      "\<forall>k. lp_threadId (w_loops s2 k) = lp_threadId (w_loops s k) \<and> pending_of k s2 = (if k = l then [] else pending_of k s)"
    by (elim exE conjE) (rule that)
  have t: "w_tid s2 = lp_threadId (w_loops s2 l)" "\<not> isInLoopThread b s2" "lp_threadId (w_loops s2 b) = w_tid s"
    "lp_threadId (w_loops s2 l) = lp_threadId (w_loops s l)"
    using assms(4,9) by (simp_all add: isInLoopThread_def s2(12,14))
  have p: "ts_connects (sw_servers s2 sv) (cn_name (cw_conns s2 c)) = Some c" "pending_of b s2 = []" "pending_of l s2 = []"
    using assms(16) by (simp_all add: s2(11,14))
  from pooled_closes [OF s2(4-6,9,7) t(1,2) p, of P n k, folded assms(18), unfolded t(3,4), folded assms(19)]
  obtain s3 s4 s5 where
    s5: "fold_res run (replicate (Suc k) (ConnHandleClose c)) s2 = Inr s3" "0 < eventfd_of b s3"
      "doPendingFunctors run b (as_thread (w_tid s) s3) = Inr s4" "0 < eventfd_of l s4" "doPendingFunctors run l (own s4) = Inr s5"
      "cn_state (cw_conns s5 c) = kDisconnected" "pending_of l s5 = []"
      "ts_connects (sw_servers s5 sv) = (ts_connects (sw_servers s2 sv))(cn_name (cw_conns s2 c) := None)"
      "loop_channels l s5 = (loop_channels l s2)(cn_fd (cw_conns s2 c) := None)"
    by (elim exE conjE) (rule that)
  have "ts_connects (sw_servers s5 sv) = ts_connects (sw_servers s sv)" "loop_channels l s5 = loop_channels l s"
    using s2(10) assms(14) by (simp_all add: s5(8,9) s2(8,11,13) fun_upd_idem)
  then show ?thesis using s2(1-3,5,13) s5(1-7) by blast
qed

section \<open>Witness\<close>

text \<open>The listening server of the earlier example with one loop thread, whose number is 8.\<close>

definition sample_pooled :: http_world where
  "sample_pooled = sample_listening
     \<lparr>sw_servers := (\<lambda>_. \<lparr>ts_loop = 0, ts_name = ''s'', ts_acceptor = 0,
        ts_threadpoll = \<lparr>tp_baseloop = 0, tp_started = True, tp_numThreads = 1, tp_next = 0, tp_loops = [1]\<rparr>,
        ts_connectCallBack = Some 0, ts_messageCallBack = Some 0, ts_started = True, ts_nextConnId = 1,
        ts_connects = Map.empty\<rparr>),
      w_loops := (w_loops sample_listening)(1 := (w_loops sample_listening 1)\<lparr>lp_threadId := 8, lp_poller := poller_new\<rparr>)\<rparr>"

lemma sample_pooled_sel:
  "aw_acceptors sample_pooled a = \<lparr>ac_loop = 0, ac_fd = 4, ac_channel = 7, ac_newConnCallBack = Some 3, ac_listenning = True\<rparr>"
  "ts_loop (sw_servers sample_pooled v) = 0" "ts_connects (sw_servers sample_pooled v) = Map.empty"
  "ts_nextConnId (sw_servers sample_pooled v) = 1"
  "ts_threadpoll (sw_servers sample_pooled v) = \<lparr>tp_baseloop = 0, tp_started = True, tp_numThreads = 1, tp_next = 0, tp_loops = [1]\<rparr>"
  "sk_trace sample_pooled = []" "w_tid sample_pooled = 7" "lp_threadId (w_loops sample_pooled 0) = 7"
  "lp_threadId (w_loops sample_pooled 1) = 8" "lp_poller (w_loops sample_pooled 1) = poller_new" "pending_of k sample_pooled = []"
  using sample_served_sel(6) [of k] sample_served_sel(6) [of "Suc 0"]
  by (simp_all add: sample_pooled_def sample_listening_sel sample_served_sel view_defs)

lemma pooled_life_witness:
  "\<exists>s1 s2 s3 s4 s5. system_run sample_program 2 (AcceptorHandleRead 0) sample_pooled = Inr s1
    \<and> doPendingFunctors (system_run sample_program 2) 1 (as_thread 8 s1) = Inr s2 \<and> cn_state (cw_conns s2 2) = kConnected
    \<and> fold_res (system_run sample_program 2) [ConnHandleClose 2, ConnHandleClose 2] s2 = Inr s3
    \<and> doPendingFunctors (system_run sample_program 2) 0 (as_thread 7 s3) = Inr s4
    \<and> doPendingFunctors (system_run sample_program 2) 1 (as_thread 8 s4) = Inr s5
    \<and> cn_state (cw_conns s5 2) = kDisconnected \<and> ts_connects (sw_servers s5 3) = Map.empty"
proof -
  let ?s = "sample_pooled"
  let ?ans = "pg_kernel sample_program (sk_trace ?s) (SysAccept (ac_fd (aw_acceptors ?s 0)))"
  have a: "ac_newConnCallBack (aw_acceptors ?s 0) = Some 3" "ac_loop (aw_acceptors ?s 0) = 0" "ts_loop (sw_servers ?s 3) = 0"
    "isInLoopThread 0 ?s" "server_ok 3 ?s" "ts_nextConnId (sw_servers ?s 3) < 2147483647" "2 \<notin> ran (ts_connects (sw_servers ?s 3))"
    "1 = turn (ts_threadpoll (sw_servers ?s 3)) 0" "\<not> isInLoopThread 1 ?s"
    by (simp_all add: sample_pooled_sel isInLoopThread_def server_ok_def Let_def pool_ok_def turn_def)
      (simp_all add: sample_pooled_sel [unfolded One_nat_def])
  have ret: "0 \<le> an_ret ?ans" by (simp add: sample_program_def delivers_def three_bytes_def)
  have new: "pg_new_conn sample_program (?s\<lparr>sk_trace := sk_trace ?s @ [(SysAccept (ac_fd (aw_acceptors ?s 0)), ?ans)]\<rparr>) = (2, 2)"
    by (simp add: sample_program_def)
  have p: "poller_ok (lp_poller (w_loops ?s 1)) (chans ?s)" "loop_channels 1 ?s (an_ret ?ans) = None" "2 \<notin> ran (loop_channels 1 ?s)"
    unfolding sample_pooled_sel(10) loop_channels_def by (simp_all add: poller_new_def poller_ok_def)
  have own: "as_thread 8 = as_thread (lp_threadId (w_loops ?s 1))" by (simp only: sample_pooled_sel(9))
  have two: "Suc (Suc 0) = 2" and rep: "replicate (Suc 1) x = [x, x]" for x :: closure by simp_all
  from pooled_life [OF a refl ret new p sample_pooled_sel(11) sample_pooled_sel(11) refl own, of 0 1]
  show ?thesis unfolding two rep sample_pooled_sel(7) sample_pooled_sel(3) by blast
qed

end
