(* ===== verification/EchoServer.thy ===== *)
theory EchoServer
  imports ConnectionOutput ConnectionLife
begin

text \<open>
  The echo server of the test \<open>testTcpServer\<close> in src/main.cpp: the callbacks \<open>onConnection\<close> and
  \<open>onMessage\<close> on the connections of a \<open>TcpServer\<close>, and what a client gets back.
\<close>

section \<open>The callbacks\<close>

definition echo_onConnection :: "kernel \<Rightarrow> nat \<Rightarrow> 'z conn_world_scheme \<Rightarrow> 'z conn_world_scheme res" where
  "echo_onConnection K c s = Inr (if isConneted (cw_conns s c) then conn_setTcpNoDelay K c True s else s)"

definition echo_onMessage ::
  "kernel \<Rightarrow> ('z conn_world_scheme) env \<Rightarrow> nat \<Rightarrow> 'z conn_world_scheme \<Rightarrow> 'z conn_world_scheme res" where
  "echo_onMessage K E c s =
     bnd (retrieveAsString (cn_inputBuffer (cw_conns s c))) (\<lambda>(message, buf).
     conn_send K E c message (upd_conn c (\<lambda>cn. cn\<lparr>cn_inputBuffer := buf\<rparr>) s))"

text \<open>The functions bound to the connections; what runs a closure and what closes a connection are those of the
  server.\<close>

definition echo_env ::
  "kernel \<Rightarrow> ('z conn_world_scheme) env \<Rightarrow> ('z conn_world_scheme) env" where
  "echo_env K E = E\<lparr>on_connection := (\<lambda>_ c. echo_onConnection K c), on_message := (\<lambda>_ c _. echo_onMessage K E c)\<rparr>"

section \<open>One event\<close>

definition echo_ok :: "nat \<Rightarrow> 'z conn_world_scheme \<Rightarrow> bool" where
  "echo_ok c s \<longleftrightarrow> conn_ok c s \<and> cn_state (cw_conns s c) = kConnected \<and> contents (cn_inputBuffer (cw_conns s c)) = []
     \<and> cn_messageCallBack (cw_conns s c) \<noteq> None"

text \<open>What the next read of the connection returns, and that there is memory for it in both buffers.\<close>

definition echo_reads :: "kernel \<Rightarrow> nat \<Rightarrow> 'z conn_world_scheme \<Rightarrow> answer" where
  "echo_reads K c s = K (sk_trace s) (SysReadv (cn_fd (cw_conns s c))
     (writableBytes (cn_inputBuffer (cw_conns s c)) + extraBuf_size))"

definition echo_fits :: "kernel \<Rightarrow> nat \<Rightarrow> 'z conn_world_scheme \<Rightarrow> bool" where
  "echo_fits K c s \<longleftrightarrow> 0 < an_ret (echo_reads K c s)
     \<and> length (store (cn_inputBuffer (cw_conns s c))) + length (an_data (echo_reads K c s)) \<le> size_max
     \<and> length (an_data (echo_reads K c s)) \<le> room (cn_outputBuffer (cw_conns s c))"

lemma set_output_message [simp]: "cn_messageCallBack (set_output b cn) = cn_messageCallBack cn"
  by (simp add: set_output_def)

lemma output_only_input:
  "output_only c s s' \<Longrightarrow> cn_inputBuffer (cw_conns s' c) = cn_inputBuffer (cw_conns s c)
    \<and> cn_messageCallBack (cw_conns s' c) = cn_messageCallBack (cw_conns s c)"
  by (auto simp: output_only_def)

lemma echo_message:
  assumes ok: "conn_ok c s" and st: "cn_state (cw_conns s c) = kConnected" and doc: "write_documented K"
    and fits: "length (contents (cn_inputBuffer (cw_conns s c))) \<le> room (cn_outputBuffer (cw_conns s c))"
    and cb: "cn_messageCallBack (cw_conns s c) \<noteq> None"
  shows "\<exists>s'. echo_onMessage K E c s = Inr s' \<and> echo_ok c s'
    \<and> sent c s' @ unsent c s' = sent c s @ unsent c s @ contents (cn_inputBuffer (cw_conns s c))"
proof -
  let ?in = "cn_inputBuffer (cw_conns s c)"
  let ?t = "upd_conn c (set_input (retrieveAll ?in)) s"
  have b: "buf_ok (retrieveAll ?in)" "contents (retrieveAll ?in) = []"
    using retrieveAll_ok [OF conn_okD(4) [OF ok]] by simp_all
  have t: "conn_ok c ?t" by (rule conn_ok_input [OF ok b(1)])
  have v: "cw_conns ?t c = set_input (retrieveAll ?in) (cw_conns s c)" "sent c ?t = sent c s" "unsent c ?t = unsent c s"
    by (simp_all add: loop_simps sent_def unsent_def)
  have "length (contents ?in) \<le> room (cn_outputBuffer (cw_conns ?t c))" using fits by (simp add: v)
  from send_effect [OF t doc this] obtain s' where s': "sendInloop K c (contents ?in) ?t = Inr s'" "conn_ok c s'"
    "output_only c ?t s'" "sent c s' @ unsent c s' = sent c s @ unsent c s @ contents ?in" by (auto simp: v)
  have "echo_onMessage K E c s = conn_send K E c (contents ?in) ?t"
    by (simp add: echo_onMessage_def retrieveAsString_ok [OF conn_okD(4) [OF ok]] set_input_def [abs_def])
  also have "\<dots> = Inr s'" using conn_ok_in_loop [OF t] by (simp add: conn_send_def v st s'(1))
  finally have "echo_onMessage K E c s = Inr s'" .
  moreover have "echo_ok c s'"
    using s'(2) output_onlyD(1) [OF s'(3)] output_only_input [OF s'(3)] st cb b(2) by (simp add: echo_ok_def v)
  ultimately show ?thesis using s'(4) by blast
qed

lemma echo_read:
  assumes e: "echo_ok c s" and doc: "write_documented K" "readv_documented K" and fits: "echo_fits K c s"
  shows "\<exists>s'. conn_handleRead K (echo_env K E) c t s = Inr s' \<and> echo_ok c s'
    \<and> sent c s' @ unsent c s' = sent c s @ unsent c s @ an_data (echo_reads K c s)"
proof -
  let ?a = "echo_reads K c s"
  have c: "conn_ok c s" and st: "cn_state (cw_conns s c) = kConnected" and empty: "contents (cn_inputBuffer (cw_conns s c)) = []"
    and cb: "cn_messageCallBack (cw_conns s c) \<noteq> None" using e by (simp_all add: echo_ok_def)
  obtain n where n: "cn_messageCallBack (cw_conns s c) = Some n" using cb by auto
  let ?call = "SysReadv (cn_fd (cw_conns s c)) (writableBytes (cn_inputBuffer (cw_conns s c)) + extraBuf_size)"
  from handleRead_start [OF conn_ok_registered [OF c] conn_okD(4) [OF c] doc(2), folded echo_reads_def, of "echo_env K E" t]
    fits n empty obtain b where
    b: "buf_ok b" "contents b = an_data ?a"
      "conn_handleRead K (echo_env K E) c t s
        = echo_onMessage K E c (upd_conn c (set_input b) (snd (syscall K ?call s)))"
    by (auto simp: echo_fits_def call_any_def Let_def echo_env_def)
  let ?s = "upd_conn c (set_input b) (snd (syscall K ?call s))"
  have ok: "conn_ok c ?s" by (rule conn_ok_input [OF conn_ok_syscall [OF c] b(1)])
  have v: "cw_conns ?s c = set_input b (cw_conns s c)" "sent c ?s = sent c s" "unsent c ?s = unsent c s"
    by (simp_all add: loop_simps sent_def unsent_def written_snoc)
  from echo_message [OF ok _ doc(1), of E] st cb fits b(2) show ?thesis
    by (simp add: b(3) v echo_fits_def)
qed

lemma echo_write:
  assumes e: "echo_ok c s" and doc: "write_documented K"
  shows "\<exists>s'. conn_handleWrite K c s = Inr s' \<and> echo_ok c s' \<and> sent c s' @ unsent c s' = sent c s @ unsent c s"
proof -
  have "conn_ok c s" using e by (simp add: echo_ok_def)
  from write_effect [OF this doc] obtain s' where s': "conn_handleWrite K c s = Inr s'" "conn_ok c s'" "output_only c s s'"
    "sent c s' @ unsent c s' = sent c s @ unsent c s" by blast
  then have "echo_ok c s'" using e output_onlyD(1) [OF s'(3)] output_only_input [OF s'(3)] by (simp add: echo_ok_def)
  with s' show ?thesis by blast
qed

section \<open>A conversation\<close>

text \<open>The events of a connection up to a moment, with what was read at each read event.\<close>

inductive echo_run ::
  "kernel \<Rightarrow> ('z conn_world_scheme) env \<Rightarrow> nat \<Rightarrow> string list \<Rightarrow> 'z conn_world_scheme \<Rightarrow> 'z conn_world_scheme \<Rightarrow> bool"
  for K :: kernel and E :: "('z conn_world_scheme) env" and c :: nat where
  quiet: "echo_run K E c [] s s"
| readable: "echo_fits K c s \<Longrightarrow> conn_handleRead K (echo_env K E) c t s = Inr u \<Longrightarrow> echo_run K E c ds u s'
    \<Longrightarrow> echo_run K E c (an_data (echo_reads K c s) # ds) s s'"
| writable: "conn_handleWrite K c s = Inr u \<Longrightarrow> echo_run K E c ds u s' \<Longrightarrow> echo_run K E c ds s s'"

lemma echo_run_effect:
  assumes "echo_run K E c ds s s'" and "echo_ok c s" and "write_documented K" and "readv_documented K"
  shows "echo_ok c s' \<and> sent c s' @ unsent c s' = sent c s @ unsent c s @ concat ds"
  using assms
proof (induction rule: echo_run.induct)
  case (quiet s)
  then show ?case by simp
next
  case (readable s t u ds s')
  from echo_read [OF readable.prems(1,2,3) readable.hyps(1), of E t] readable.hyps(2)
  have u: "echo_ok c u" "sent c u @ unsent c u = sent c s @ unsent c s @ an_data (echo_reads K c s)" by auto
  from readable.IH [OF u(1) readable.prems(2,3)] have "echo_ok c s'"
    and s': "sent c s' @ unsent c s' = (sent c u @ unsent c u) @ concat ds" by simp_all
  then show ?case unfolding s' u(2) by simp
next
  case (writable s u ds s')
  from echo_write [OF writable.prems(1,2)] writable.hyps(1)
  have u: "echo_ok c u" "sent c u @ unsent c u = sent c s @ unsent c s" by auto
  from writable.IH [OF u(1) writable.prems(2,3)] have "echo_ok c s'"
    and s': "sent c s' @ unsent c s' = (sent c u @ unsent c u) @ concat ds" by simp_all
  then show ?case unfolding s' u(2) by simp
qed

lemma echo_established:
  assumes fresh: "conn_fresh c s" and st: "cn_state (cw_conns s c) = kConnecting"
    and cbs: "cn_connectionCallBack (cw_conns s c) \<noteq> None" "cn_messageCallBack (cw_conns s c) \<noteq> None"
    and empty: "contents (cn_inputBuffer (cw_conns s c)) = []"
  shows "\<exists>s'. connectEestablished (echo_env K E) c s = Inr s' \<and> echo_ok c s' \<and> unsent c s' = []
    \<and> sent c s' = sent c s \<and> map fst (sk_trace s') = map fst (sk_trace s) @ [SysTcpNoDelay (cn_fd (cw_conns s c)) True]
    \<and> cn_inputBuffer (cw_conns s' c) = cn_inputBuffer (cw_conns s c)
    \<and> cn_outputBuffer (cw_conns s' c) = cn_outputBuffer (cw_conns s c)"
proof -
  obtain n where n: "cn_connectionCallBack (cw_conns s c) = Some n" using cbs(1) by auto
  from established_effect [OF fresh st, of "echo_env K E"] obtain t where
    t: "connectEestablished (echo_env K E) c s = echo_onConnection K c t" "conn_ok c t"
      "cw_conns t = (cw_conns s)(c := setState kConnected (cw_conns s c))" "sk_trace t = sk_trace s"
    by (auto simp: n call_set_def echo_env_def)
  let ?s' = "conn_setTcpNoDelay K c True t"
  have "connectEestablished (echo_env K E) c s = Inr ?s'"
    by (simp add: t(1) echo_onConnection_def isConneted_def t(3) setState_def)
  moreover have conns: "cw_conns ?s' = cw_conns t"
    by (simp add: conn_setTcpNoDelay_def socket_setTcpNoDelay_def loop_simps)
  moreover have "conn_ok c ?s'"
    unfolding conn_setTcpNoDelay_def socket_setTcpNoDelay_def by (rule conn_ok_syscall [OF t(2)])
  moreover have "contents (cn_outputBuffer (cw_conns s c)) = []" using fresh by (simp add: conn_fresh_def Let_def)
  ultimately show ?thesis using cbs(2) empty
    by (intro exI [of _ ?s'])
      (simp add: echo_ok_def t(3,4) setState_def unsent_def sent_def conn_setTcpNoDelay_def socket_setTcpNoDelay_def
        syscall_def Let_def loop_simps written_snoc)
qed

text \<open>C22. The echo server of src/main.cpp gives every client back exactly what it sends. Once its connection
  is established, with Nagle's algorithm switched off first, and through any sequence of read and write
  events, what the kernel has taken followed by what is still buffered is the concatenation of all that
  was read, in order; nothing is left in the input buffer, the connection stays connected, and the
  next event of either kind is handled, too.\<close>

theorem echo_returns:
  assumes "conn_fresh c s0" and "cn_state (cw_conns s0 c) = kConnecting"
    and "cn_connectionCallBack (cw_conns s0 c) \<noteq> None" and "cn_messageCallBack (cw_conns s0 c) \<noteq> None"
    and "contents (cn_inputBuffer (cw_conns s0 c)) = []" and "write_documented K" and "readv_documented K"
    and "connectEestablished (echo_env K E) c s0 = Inr s" and "echo_run K E c ds s s'"
  shows "map fst (sk_trace s) = map fst (sk_trace s0) @ [SysTcpNoDelay (cn_fd (cw_conns s0 c)) True]
    \<and> sent c s' @ unsent c s' = sent c s0 @ concat ds
    \<and> contents (cn_inputBuffer (cw_conns s' c)) = [] \<and> cn_state (cw_conns s' c) = kConnected
    \<and> (echo_fits K c s' \<longrightarrow> (\<exists>u. conn_handleRead K (echo_env K E) c t s' = Inr u))
    \<and> (\<exists>u. conn_handleWrite K c s' = Inr u)"
proof -
  from echo_established [OF assms(1-5), of K E] assms(8) have
    e: "echo_ok c s" "unsent c s = []" "sent c s = sent c s0"
      "map fst (sk_trace s) = map fst (sk_trace s0) @ [SysTcpNoDelay (cn_fd (cw_conns s0 c)) True]" by auto
  from echo_run_effect [OF assms(9) e(1) assms(6,7)]
  have s': "echo_ok c s'" "sent c s' @ unsent c s' = sent c s0 @ concat ds" by (simp_all add: e(2,3))
  have "echo_fits K c s' \<longrightarrow> (\<exists>u. conn_handleRead K (echo_env K E) c t s' = Inr u)"
    using echo_read [OF s'(1) assms(6,7), of E t] by blast
  moreover have "\<exists>u. conn_handleWrite K c s' = Inr u" using echo_write [OF s'(1) assms(6)] by blast
  ultimately show ?thesis using e(4) s' by (simp add: echo_ok_def)
qed

text \<open>A client that sends ''abc''.\<close>

lemma echo_returns_witness:
  "\<exists>s s'. connectEestablished (echo_env three_bytes sample_env) 1 (sample_conns False kConnecting) = Inr s
    \<and> echo_run three_bytes sample_env 1 [''abc''] s s' \<and> sent 1 s' @ unsent 1 s' = ''abc''"
proof -
  let ?s0 = "sample_conns False kConnecting"
  have f: "conn_fresh 1 ?s0" using sample_conn_fresh(1) [of kConnecting]
    by (simp add: conn_fresh_def Let_def buf_ok_init contents_init channel_new_def)
  have st: "cn_state (cw_conns ?s0 1) = kConnecting" "cn_connectionCallBack (cw_conns ?s0 1) \<noteq> None"
    "cn_messageCallBack (cw_conns ?s0 1) \<noteq> None" "contents (cn_inputBuffer (cw_conns ?s0 1)) = []"
    by (simp_all add: sample_connection_def contents_init)
  have doc: "write_documented three_bytes" "readv_documented three_bytes"
    by (auto simp: write_documented_def readv_documented_def three_bytes_def)
  from echo_established [OF f st, of three_bytes sample_env] obtain s where
    s: "connectEestablished (echo_env three_bytes sample_env) 1 ?s0 = Inr s" "echo_ok 1 s"
      "cn_inputBuffer (cw_conns s 1) = buffer_init" "cn_outputBuffer (cw_conns s 1) = buffer_init"
    by (auto simp: sample_connection_def)
  have "3 \<le> writableBytes (cn_inputBuffer (cw_conns s 1)) + extraBuf_size" by (simp add: extraBuf_size_def)
  then have d: "echo_reads three_bytes 1 s = \<lparr>an_ret = 3, an_errno = 0, an_val = 0, an_addr = address_zero, an_data = ''abc''\<rparr>"
    by (simp add: echo_reads_def three_bytes_def)
  have "length (store buffer_init) + 3 \<le> size_max" by (simp add: buffer_init_def kInitialSize_def kCheapPrepared_def)
  then have fits: "echo_fits three_bytes 1 s" by (simp add: echo_fits_def d [unfolded One_nat_def] s(3,4) [unfolded One_nat_def] room_init)
  from echo_read [OF s(2) doc fits, of sample_env 0] obtain u where
    "conn_handleRead three_bytes (echo_env three_bytes sample_env) 1 0 s = Inr u" by blast
  from readable [OF fits this quiet] have r: "echo_run three_bytes sample_env 1 [''abc''] s u"
    by (simp add: d [unfolded One_nat_def])
  have "sent 1 u @ unsent 1 u = sent 1 ?s0 @ concat [''abc'']"
    using echo_returns [OF f st doc s(1) r] by blast
  then show ?thesis using s(1) r by (auto simp: sent_def written_def)
qed

end
