(* ===== verification/TestHttp.thy ===== *)
theory TestHttp
  imports HttpServer
begin

text \<open>
  The HTTP tests: the callback \<open>onRequest\<close> that src/http/httpServer_test.cpp gives to the server, and the
  test \<open>testHttpRequest\<close> of src/main.cpp. What they log is left out.
\<close>

section \<open>The test page\<close>

text \<open>\<open>now\<close> is what \<open>TimeStamp::now().toFormattedString()\<close> returns.\<close>

definition test_page :: "string \<Rightarrow> string" where
  "test_page now = ''<html><head><title>this is title</title></head>'' @ ''<body><h1>hello</h1>Now is '' @ now
     @ ''</body></html>''"

definition test_onRequest :: "string \<Rightarrow> http_callback" where
  "test_onRequest now req resp =
     (if rq_path req = ''/'' then
        let resp = setStatusCode k200OK resp;
            resp = setStatusMessage ''OK'' resp;
            resp = setContentType ''text/html'' resp;
            resp = response_addHeader ''server'' ''txh'' resp
        in setBody (test_page now) resp
      else resp)"

section \<open>The test of the parser\<close>

definition test_request_text :: string where
  "test_request_text = ''GET /index.html HTTP/1.1'' @ kCRLF @ ''Host:www.test.com'' @ kCRLF @ kCRLF"

definition testHttpRequest :: "int \<Rightarrow> unit res" where
  "testHttpRequest now =
     bnd buffer_new (\<lambda>input.
     bnd (buf_append input test_request_text) (\<lambda>input.
     let context = context_init in
     case parseRequest now context input of
       None \<Rightarrow> Inl NoReturn
     | Some parsed \<Rightarrow>
         bnd parsed (\<lambda>(ok, context, input).
         must ok
         (let request = hc_request context in
          must (rq_method request = kGet)
          (must (rq_path request = ''/index.html'')
          (must (rq_version request = kHttp11)
          (must (getHeader ''Host'' request = ''www.test.com'')
          (must (getHeader ''User-Agent'' request = [])
            (Inr ())))))))))"

section \<open>The properties\<close>

text \<open>The lines that say how the body ends.\<close>

definition framing :: "bool \<Rightarrow> nat \<Rightarrow> string" where
  "framing close n =
     (if close then ''Connection: close'' @ kCRLF
      else ''Content-Length: '' @ dec n @ kCRLF @ ''Connection: Keep-Alive'' @ kCRLF)"

lemma framing_eq: "concat (map (\<lambda>l. l @ kCRLF) (framing_lines r)) = framing (rs_closeConnection r) (length (rs_body r))"
  by (simp add: framing_lines_def framing_def)

lemma status_texts: "dec (status_value k200OK) = ''200''" "dec (status_value kUnknowStatus) = ''0''"
  by (simp_all add: dec.simps)

lemma response_texts:
  "response_text r = status_line r @ kCRLF @ framing (rs_closeConnection r) (length (rs_body r))
    @ concat (map (\<lambda>h. field_line h @ kCRLF) (rs_headers r)) @ kCRLF @ rs_body r"
proof -
  have "map (\<lambda>l. l @ kCRLF) (map field_line (rs_headers r)) = map (\<lambda>h. field_line h @ kCRLF) (rs_headers r)" by simp
  then show ?thesis
    by (simp only: response_text_def head_lines_def list.map map_append concat.simps concat_append framing_eq append_assoc)
qed

lemma page_response:
  assumes "rq_path req = ''/''"
  shows "answer (test_onRequest now) req
    = \<lparr>rs_headers = [(''Content-Type'', ''text/html''), (''server'', ''txh'')], rs_statusCode = k200OK,
      rs_statusMessage = ''OK'', rs_closeConnection = wants_close req, rs_body = test_page now\<rparr>"
proof -
  have "map_put ''server'' ''txh'' (map_put ''Content-Type'' ''text/html'' [])
      = [(''Content-Type'', ''text/html''), (''server'', ''txh'')]" by code_simp
  then show ?thesis
    by (simp only: answer_def test_onRequest_def assms simp_thms if_True Let_def response_new_def setStatusCode_def setStatusMessage_def
        setContentType_def response_addHeader_def setBody_def http_response.simps)
qed

lemma other_response:
  assumes "rq_path req \<noteq> ''/''"
  shows "answer (test_onRequest now) req = response_new (wants_close req)"
  using assms by (simp only: answer_def test_onRequest_def if_False)

text \<open>The request of \<open>testHttpRequest\<close>, whose header has no blank behind its colon.\<close>

lemma test_request_parsed:
  "parse_str t context_init test_request_text
    = (True, \<lparr>hc_state = kGotAll, hc_request = \<lparr>rq_method = kGet, rq_version = kHttp11, rq_path = ''/index.html'', rq_query = [],
        rq_receiveTime = t, rq_headers = [(''Host'', ''www.test.com'')]\<rparr>\<rparr>, [])"
proof -
  let ?line = "request_line kGet ''/index.html'' [] kHttp11" and ?host = "''Host'' @ CHR '':'' # ''www.test.com''"
  have whole: "test_request_text = ?line @ kCRLF @ ?host @ kCRLF @ kCRLF"
    by (simp add: test_request_text_def request_line_def)
  have target: "target_ok ''/index.html'' []" by (simp add: target_ok_def)
  have sp1: "split_line test_request_text = Some (?line, ?host @ kCRLF @ kCRLF)"
    unfolding whole by (rule split_line_no_cr [OF request_line_no_cr [OF target]])
  have "CHR 0x0D \<notin> set ?host" by simp
  then have sp2: "split_line (?host @ kCRLF @ kCRLF) = Some (?host, kCRLF)" by (rule split_line_no_cr)
  have sp3: "split_line kCRLF = Some ([], [])" using split_line_no_cr [of "[]" "[]"] by simp
  have colon: "find_char (CHR '':'') ?host = 4" using find_char_here [of "CHR '':''" "''Host''" "''www.test.com''"] by simp
  have "trimmed ''www.test.com''" by code_simp
  then have add: "addHeader ?host 4 r = r\<lparr>rq_headers := map_put ''Host'' ''www.test.com'' (rq_headers r)\<rparr>" for r
    using addHeader_field [of "''www.test.com''" "[]" "[]" "''Host''" r] by (simp add: numeral_eq_Suc)
  have len: "(4 \<noteq> length ?host) = True" by simp
  have put: "map_put ''Host'' ''www.test.com'' [] = [(''Host'', ''www.test.com'')]" by code_simp
  have "processRequestLine ?line request_init
      = (True, request_init\<lparr>rq_method := kGet, rq_path := ''/index.html'', rq_query := [], rq_version := kHttp11\<rparr>)"
    by (rule request_line_parsed [OF _ _ target]) simp_all
  then have "parse_str t context_init test_request_text
      = parse_str t \<lparr>hc_state = kExpectRequestHead, hc_request = \<lparr>rq_method = kGet, rq_version = kHttp11, rq_path = ''/index.html'',
          rq_query = [], rq_receiveTime = t, rq_headers = []\<rparr>\<rparr> (?host @ kCRLF @ kCRLF)"
    by (subst parse_str_line) (simp_all only: context_init_def http_context.simps sp1 option.case prod.case if_True setReceiveTime_def
        request_init_def http_request.simps)
  also have "\<dots> = parse_str t \<lparr>hc_state = kExpectRequestHead, hc_request = \<lparr>rq_method = kGet, rq_version = kHttp11, rq_path = ''/index.html'',
          rq_query = [], rq_receiveTime = t, rq_headers = [(''Host'', ''www.test.com'')]\<rparr>\<rparr> kCRLF"
    by (subst parse_str_head) (simp_all only: http_context.simps sp2 option.case prod.case colon len if_True add http_request.simps put)
  also have "\<dots> = (True, \<lparr>hc_state = kGotAll, hc_request = \<lparr>rq_method = kGet, rq_version = kHttp11, rq_path = ''/index.html'', rq_query = [],
        rq_receiveTime = t, rq_headers = [(''Host'', ''www.test.com'')]\<rparr>\<rparr>, [])"
    by (subst parse_str_head) (simp_all add: sp3)
  finally show ?thesis .
qed

lemma testHttpRequest_ok: "testHttpRequest now = Inr ()"
proof -
  have fits: "length test_request_text \<le> room buffer_init" by (simp add: test_request_text_def kCRLF_def room_init)
  have new: "buffer_new = Inr buffer_init" by (rule buffer_new_eq)
  from buf_append_room [OF buf_ok_init fits] obtain b where
    b: "buf_append buffer_init test_request_text = Inr b" "buf_ok b" "contents b = test_request_text"
    by (auto simp: contents_init)
  have "expecting context_init" by (simp add: expecting_def context_init_def)
  from parseRequest_ok [OF b(2) this test_request_parsed [of now, folded b(3)]] obtain b' where
    p: "parseRequest now context_init b = Some (Inr (True, \<lparr>hc_state = kGotAll, hc_request = \<lparr>rq_method = kGet, rq_version = kHttp11,
      rq_path = ''/index.html'', rq_query = [], rq_receiveTime = now, rq_headers = [(''Host'', ''www.test.com'')]\<rparr>\<rparr>, b'))" by blast
  have f: "map_find ''Host'' [(''Host'', ''www.test.com'')] = Some ''www.test.com''"
    "map_find ''User-Agent'' [(''Host'', ''www.test.com'')] = None" by code_simp+
  show ?thesis
    unfolding testHttpRequest_def new bnd_Inr b(1) Let_def p option.case prod.case http_context.simps http_request.simps getHeader_def f
    by simp
qed

text \<open>The HTTP tests. The callback of src/http/httpServer_test.cpp answers a request for ''/'' with its page and
  with the framing the request asks for; to a request for anything else it gives a response nobody has
  set a status in, so that the client is answered with the status 0. Every assertion of
  \<open>testHttpRequest\<close> in src/main.cpp holds, whatever the time.\<close>

theorem http_tests:
  "response_text (answer (test_onRequest now) req)
    = (if rq_path req = ''/''
       then ''HTTP/1.1 200 OK'' @ kCRLF @ framing (wants_close req) (length (test_page now))
         @ ''Content-Type: text/html'' @ kCRLF @ ''server: txh'' @ kCRLF @ kCRLF @ test_page now
       else ''HTTP/1.1 0 '' @ kCRLF @ framing (wants_close req) 0 @ kCRLF)
   \<and> testHttpRequest time = Inr ()"
proof (intro conjI testHttpRequest_ok)
  show "response_text (answer (test_onRequest now) req)
    = (if rq_path req = ''/''
       then ''HTTP/1.1 200 OK'' @ kCRLF @ framing (wants_close req) (length (test_page now))
         @ ''Content-Type: text/html'' @ kCRLF @ ''server: txh'' @ kCRLF @ kCRLF @ test_page now
       else ''HTTP/1.1 0 '' @ kCRLF @ framing (wants_close req) 0 @ kCRLF)"
  proof (cases "rq_path req = ''/''")
    case True
    show ?thesis
      unfolding response_texts page_response [OF True] status_line_def http_response.simps status_texts field_line_def
        list.map concat.simps fst_conv snd_conv if_P [OF True]
      by simp
  next
    case False
    show ?thesis
      unfolding response_texts other_response [OF False] response_new_def status_line_def http_response.simps status_texts
        list.map concat.simps if_not_P [OF False]
      by simp
  qed
qed

end
