(* ===== verification/TestLoops.thy ===== *)
theory TestLoops
  imports TimerQueue
begin

text \<open>
  The tests \<open>testQueue\<close> and \<open>testTimer\<close> of src/main.cpp, from the construction of their loops to the end of
  their scopes: functions that run in the loop, as timers and as functors, and queue one another. The
  loop is \<open>loop_loop\<close> of EventLoop, over the answers of its polls. The lines the functions print with
  \<open>printf\<close> are kept in the state, a name and the flag each; what they log is left out.
\<close>

section \<open>The functions\<close>

record test_loop = timer_world +
  tl_flag :: int
  tl_out :: "(string \<times> int) list"
  tl_cnt :: int
  tl_toCancel :: "nat \<times> int"

definition print_flag :: "string \<Rightarrow> 'z test_loop_scheme \<Rightarrow> 'z test_loop_scheme" where
  "print_flag name s = s\<lparr>tl_out := tl_out s @ [(name, tl_flag s)]\<rparr>"

abbreviation Run1 :: closure where "Run1 \<equiv> UserTask 1"
abbreviation Run2 :: closure where "Run2 \<equiv> UserTask 2"
abbreviation Run3 :: closure where "Run3 \<equiv> UserTask 3"
abbreviation Run4 :: closure where "Run4 \<equiv> UserTask 4"
abbreviation CancelSelf :: closure where "CancelSelf \<equiv> UserTask 5"

text \<open>\<open>l\<close> is the loop of \<open>globelLoop\<close>; \<open>new\<close> is where the next timer is allocated.\<close>

definition run1 ::
  "(closure \<Rightarrow> 'z test_loop_scheme \<Rightarrow> 'z test_loop_scheme res) \<Rightarrow> nat \<Rightarrow> 'z test_loop_scheme \<Rightarrow> 'z test_loop_scheme res" where
  "run1 run l s =
     (let s = print_flag ''run1'' (s\<lparr>tl_flag := 1\<rparr>)
      in bnd (runInLoop run l Run2 s) (\<lambda>s. Inr (s\<lparr>tl_flag := 2\<rparr>)))"

definition run2 :: "nat \<Rightarrow> 'z test_loop_scheme \<Rightarrow> 'z test_loop_scheme" where
  "run2 l s = queueInloop l Run3 (print_flag ''run2'' s)"

definition run3 ::
  "clock \<Rightarrow> ('z test_loop_scheme \<Rightarrow> nat) \<Rightarrow> (closure \<Rightarrow> 'z test_loop_scheme \<Rightarrow> 'z test_loop_scheme res) \<Rightarrow> nat
    \<Rightarrow> 'z test_loop_scheme \<Rightarrow> 'z test_loop_scheme res" where
  "run3 clock new run l s =
     (let s = print_flag ''run3'' s
      in bnd (runAfter clock run (new s) (3, 0) Run4 l s) (\<lambda>(_, s). Inr (s\<lparr>tl_flag := 3\<rparr>)))"

definition run4 :: "nat \<Rightarrow> 'z test_loop_scheme \<Rightarrow> 'z test_loop_scheme" where
  "run4 l s = loop_quit l (print_flag ''run4'' s)"

text \<open>\<open>print\<close>, with its post-increment, and \<open>cancelSelf\<close>.\<close>

definition test_print :: "clock \<Rightarrow> nat \<Rightarrow> 'z test_loop_scheme \<Rightarrow> 'z test_loop_scheme" where
  "test_print clock l s =
     (let s = snd (clock_now clock s); cnt = tl_cnt s; s = s\<lparr>tl_cnt := cnt + 1\<rparr>
      in if cnt > 10 then loop_quit l s else s)"

definition cancelSelf ::
  "clock \<Rightarrow> (closure \<Rightarrow> 'z test_loop_scheme \<Rightarrow> 'z test_loop_scheme res) \<Rightarrow> nat \<Rightarrow> 'z test_loop_scheme
    \<Rightarrow> 'z test_loop_scheme res" where
  "cancelSelf clock run l s = (let s = test_print clock l s in timer_cancel run (tl_toCancel s) l s)"

text \<open>Running a closure, nested \<open>n\<close> deep.\<close>

fun test_run ::
  "clock \<Rightarrow> ('z test_loop_scheme \<Rightarrow> nat) \<Rightarrow> nat \<Rightarrow> nat \<Rightarrow> closure \<Rightarrow> 'z test_loop_scheme \<Rightarrow> 'z test_loop_scheme res" where
  "test_run clock new l 0 cl s = Inl StackOverflow"
| "test_run clock new l (Suc n) cl s =
     (let run = test_run clock new l n in
      case cl of
        LoopHandleRead k \<Rightarrow> Inr (loop_handleRead k s)
      | TimerHandleRead k \<Rightarrow> timer_handleRead clock run k s
      | AddTimerInloop k p \<Rightarrow> addTimerInloop clock k p s
      | CancelInLoop k p sequence \<Rightarrow> timer_cancelInLoop k p sequence s
      | UserTask i \<Rightarrow>
          if i = 1 then run1 run l s else if i = 2 then Inr (run2 l s)
          else if i = 3 then run3 clock new run l s else if i = 4 then Inr (run4 l s)
          else if i = 5 then cancelSelf clock run l s else Inr s
      | _ \<Rightarrow> Inr s)"

declare test_run.simps(2) [simp del]

text \<open>What the constructor of a loop is given by the system: the descriptors of its timer and of its eventfd, the
  addresses of their channels, and what its two members without an initialiser happen to hold.\<close>

record loop_args =
  la_timerfd :: int
  la_channel :: nat
  la_wakeupFd :: int
  la_wakeupChannel :: nat
  la_quit :: bool
  la_calling :: bool

definition test_loop_new :: "loop_args \<Rightarrow> nat \<Rightarrow> 'z test_loop_scheme \<Rightarrow> 'z test_loop_scheme res" where
  "test_loop_new A l s = loop_new (timer_queue_new (la_timerfd A) (la_channel A)) (la_quit A) (la_calling A)
     (la_wakeupFd A) (la_wakeupChannel A) (LoopHandleRead l) l s"

definition leave_scope :: "nat \<Rightarrow> 'z test_loop_scheme \<Rightarrow> 'z test_loop_scheme res" where
  "leave_scope l s = bnd (loop_destroy l s) (\<lambda>s. Inr (timer_queue_destroy l s))"

text \<open>The tests, with the answers of the polls of their loop; the flag says whether the test ended before
  the answers did.\<close>

definition testQueue ::
  "clock \<Rightarrow> ('z test_loop_scheme \<Rightarrow> nat) \<Rightarrow> nat \<Rightarrow> loop_args \<Rightarrow> poll_answer list \<Rightarrow> nat \<Rightarrow> 'z test_loop_scheme
    \<Rightarrow> (bool \<times> 'z test_loop_scheme) res" where
  "testQueue clock new n A answers l s =
     (let run = test_run clock new l n; s = print_flag ''main'' s in
      bnd (test_loop_new A l s) (\<lambda>s.
      bnd (runAfter clock run (new s) (2, 0) Run1 l s) (\<lambda>(_, s).
      bnd (loop_loop run (\<lambda>cb _. run cb) l answers s) (\<lambda>(ended, s).
      if ended then bnd (leave_scope l (print_flag ''main'' s)) (\<lambda>s. Inr (True, s)) else Inr (False, s)))))"

definition testTimer ::
  "clock \<Rightarrow> ('z test_loop_scheme \<Rightarrow> nat) \<Rightarrow> nat \<Rightarrow> loop_args \<Rightarrow> poll_answer list \<Rightarrow> nat \<Rightarrow> 'z test_loop_scheme
    \<Rightarrow> (bool \<times> 'z test_loop_scheme) res" where
  "testTimer clock new n A answers l s =
     (let run = test_run clock new l n in
      bnd (test_loop_new A l s) (\<lambda>s.
      bnd (runEvery clock run (new s) (1, 0) CancelSelf l s) (\<lambda>(timerId, s).
      let s = s\<lparr>tl_toCancel := timerId\<rparr> in
      bnd (loop_loop run (\<lambda>cb _. run cb) l answers s) (\<lambda>(ended, s).
      if ended then bnd (leave_scope l s) (\<lambda>s. Inr (True, s)) else Inr (False, s)))))"

section \<open>One timer\<close>

text \<open>A loop with no timer, or with a single one, filed under the number of timers created.\<close>

definition no_timer :: "nat \<Rightarrow> 'z test_loop_scheme \<Rightarrow> bool" where
  "no_timer l s \<longleftrightarrow> tq_timers (tw_queues s l) = [] \<and> tq_activeTimers (tw_queues s l) = []"

definition one_timer :: "nat \<Rightarrow> nat \<Rightarrow> timer \<Rightarrow> 'z test_loop_scheme \<Rightarrow> bool" where
  "one_timer l p t s \<longleftrightarrow> tq_timers (tw_queues s l) = [(tm_expiration t, p)]
     \<and> tq_activeTimers (tw_queues s l) = [(p, tw_created s)] \<and> tw_timers s p = Some t"

text \<open>What the operations on timers leave alone.\<close>

definition tests_same :: "'z test_loop_scheme \<Rightarrow> 'z test_loop_scheme \<Rightarrow> bool" where
  "tests_same s s' \<longleftrightarrow> w_loops s' = w_loops s \<and> w_tid s' = w_tid s \<and> tl_flag s' = tl_flag s
     \<and> tl_out s' = tl_out s \<and> tl_cnt s' = tl_cnt s \<and> tl_toCancel s' = tl_toCancel s \<and> chans s' = chans s"

lemma add_first:
  assumes c: "isInLoopThread l s" and none: "no_timer l s"
  shows "\<exists>s'. addTimer (test_run clock new l (Suc n)) p cb whn interval l s = Inr ((p, tw_created s'), s')
    \<and> tests_same s s' \<and> tw_ticks s' = Suc (tw_ticks s) \<and> tw_created s' = tw_created s + 1
    \<and> one_timer l p \<lparr>tm_callBack = cb, tm_expiration = whn, tm_interval = interval,
        tm_repeat = double_positive interval, tm_sequence = tw_created s\<rparr> s'"
  using c none
  by (simp add: addTimer_def runInLoop_def isInLoopThread_def timer_new_sel test_run.simps(2) addTimerInloop_def
      assertInLoopThread_def timer_insert_def no_timer_def with_timer_def Let_def upd_queue_sel resetTimerfd_def clock_now_def
      tests_same_def one_timer_def numCreated_def)
    (simp add: upd_queue_def timer_new_def upd_timer_def)

text \<open>The channels, the poller and the flag to quit as they were.\<close>

definition stays :: "nat \<Rightarrow> 'z test_loop_scheme \<Rightarrow> 'z test_loop_scheme \<Rightarrow> bool" where
  "stays l s s' \<longleftrightarrow> chans s' = chans s \<and> lp_poller (w_loops s' l) = lp_poller (w_loops s l)
     \<and> lp_quit (w_loops s' l) = lp_quit (w_loops s l)"

text \<open>The queue while the callback of its only timer runs.\<close>

definition firing :: "nat \<Rightarrow> nat \<Rightarrow> timer \<Rightarrow> 'z test_loop_scheme \<Rightarrow> bool" where
  "firing l p t s \<longleftrightarrow> no_timer l s \<and> tq_callingExpiredTimers (tw_queues s l) \<and> tq_cancelingTimers (tw_queues s l) = []
     \<and> tw_timers s p = Some t"

lemma fires:
  assumes c: "isInLoopThread l s" and one: "one_timer l p t s" and p: "p < uintptr_max" and due: "tm_expiration t \<le> clock (tw_ticks s)"
  defines "now \<equiv> clock (tw_ticks s)"
  shows "\<exists>u. timer_handleRead clock run l s = bnd (run (tm_callBack t) u) (\<lambda>v.
        timer_reset clock [(tm_expiration t, p)] now l (upd_queue l (\<lambda>q. q\<lparr>tq_callingExpiredTimers := False\<rparr>) v))
    \<and> tests_same s u \<and> firing l p t u \<and> tw_ticks u = Suc (tw_ticks s) \<and> tw_created u = tw_created s"
proof -
  have b: "below (clock (tw_ticks s), uintptr_max) [(tm_expiration t, p)] = [(tm_expiration t, p)]"
    "from_bound (clock (tw_ticks s), uintptr_max) [(tm_expiration t, p)] = []"
    using due p by (auto simp: below_def from_bound_def less_prod_def)
  let ?u = "upd_queue l (\<lambda>q. q\<lparr>tq_timers := [], tq_activeTimers := [], tq_callingExpiredTimers := True,
    tq_cancelingTimers := []\<rparr>) (s\<lparr>tw_ticks := Suc (tw_ticks s)\<rparr>)"
  have "timer_handleRead clock run l s = bnd (run (tm_callBack t) ?u) (\<lambda>v.
      timer_reset clock [(tm_expiration t, p)] now l (upd_queue l (\<lambda>q. q\<lparr>tq_callingExpiredTimers := False\<rparr>) v))"
    using c one
    by (simp add: timer_handleRead_def isInLoopThread_def assertInLoopThread_def clock_now_def getExpired_def
        one_timer_def Let_def b upd_queue_sel numCreated_def timer_run_def with_timer_def now_def)
      (simp add: upd_queue_def)
  moreover have "tests_same s ?u" "firing l p t ?u" "tw_ticks ?u = Suc (tw_ticks s)" "tw_created ?u = tw_created s"
    using one by (simp_all add: tests_same_def firing_def no_timer_def one_timer_def upd_queue_def)
  ultimately show ?thesis by blast
qed

lemma reset_last:
  assumes none: "no_timer l s" and t: "tw_timers s p = Some t"
    and over: "\<not> tm_repeat t \<or> (p, tw_created s) \<in> set (tq_cancelingTimers (tw_queues s l))"
  shows "timer_reset clock [(e, p)] now l s = Inr (upd_timer p None s)"
  using assms
  by (auto simp: timer_reset_def timer_reset_one_def with_timer_def numCreated_def no_timer_def upd_timer_sel
      timestamp_invaild_def timestamp_valid_def)

lemma queueInloop_tests:
  "tw_queues (queueInloop l f s) = tw_queues s" "tw_timers (queueInloop l f s) = tw_timers s"
  "tw_created (queueInloop l f s) = tw_created s" "tw_ticks (queueInloop l f s) = tw_ticks s"
  "tl_flag (queueInloop l f s) = tl_flag s" "tl_out (queueInloop l f s) = tl_out s" "tl_cnt (queueInloop l f s) = tl_cnt s"
  "tl_toCancel (queueInloop l f s) = tl_toCancel s" "w_tid (queueInloop l f s) = w_tid s"
  "lp_threadId (w_loops (queueInloop l f s) l) = lp_threadId (w_loops s l)" "lp_poller (w_loops (queueInloop l f s) l) = lp_poller (w_loops s l)"
  "lp_quit (w_loops (queueInloop l f s) l) = lp_quit (w_loops s l)" "chans (queueInloop l f s) = chans s"
  by (simp_all add: loop_defs upd_loop_def)

lemma tests_view:
  "pending_of l (s\<lparr>tl_flag := f\<rparr>) = pending_of l s" "pending_of l (s\<lparr>tl_out := out\<rparr>) = pending_of l s"
  "calling_of l (s\<lparr>tl_flag := f\<rparr>) = calling_of l s" "calling_of l (s\<lparr>tl_out := out\<rparr>) = calling_of l s"
  "isInLoopThread l (s\<lparr>tl_flag := f\<rparr>) = isInLoopThread l s" "isInLoopThread l (s\<lparr>tl_out := out\<rparr>) = isInLoopThread l s"
  "isInLoopThread l (queueInloop l g s) = isInLoopThread l s"
  "pending_of l (upd_timer p x s) = pending_of l s" "pending_of l (upd_queue l h s) = pending_of l s"
  "calling_of l (upd_timer p x s) = calling_of l s" "calling_of l (upd_queue l h s) = calling_of l s"
  "isInLoopThread l (upd_timer p x s) = isInLoopThread l s" "isInLoopThread l (upd_queue l h s) = isInLoopThread l s"
  "no_timer l (upd_timer p x s) = no_timer l s"
  "no_timer l (upd_queue l (\<lambda>q. q\<lparr>tq_callingExpiredTimers := b\<rparr>) s) = no_timer l s"
  "tl_flag (upd_timer p x s) = tl_flag s" "tl_flag (upd_queue l h s) = tl_flag s"
  "tl_out (upd_timer p x s) = tl_out s" "tl_out (upd_queue l h s) = tl_out s"
  "tl_cnt (upd_timer p x s) = tl_cnt s" "tl_cnt (upd_queue l h s) = tl_cnt s"
  "stays l r (upd_timer p x s) = stays l r s" "stays l r (upd_queue l h s) = stays l r s"
  by (simp_all add: view_defs isInLoopThread_def loop_simps no_timer_def queueInloop_tests stays_def)
    (simp_all add: upd_timer_def upd_queue_def)

lemma tests_same_view:
  "tests_same s s' \<Longrightarrow> pending_of l s' = pending_of l s \<and> calling_of l s' = calling_of l s
    \<and> isInLoopThread l s' = isInLoopThread l s"
  by (simp add: tests_same_def view_defs isInLoopThread_def)

lemma no_timer_cong:
  "tw_queues s' = tw_queues s \<Longrightarrow> no_timer l s' = no_timer l s"
  by (simp add: no_timer_def)

text \<open>Once the callback of the only timer has returned and neither repeats the timer nor adds another, the timer
  is freed.\<close>

lemma fired:
  assumes c: "isInLoopThread l s" and one: "one_timer l p t s" and p: "p < uintptr_max" and due: "tm_expiration t \<le> clock (tw_ticks s)"
    and cb: "\<And>u. tests_same s u \<Longrightarrow> firing l p t u \<Longrightarrow> tw_ticks u = Suc (tw_ticks s) \<Longrightarrow> tw_created u = tw_created s \<Longrightarrow>
      \<exists>v. run (tm_callBack t) u = Inr v \<and> no_timer l v \<and> tw_timers v p = Some t
        \<and> (\<not> tm_repeat t \<or> (p, tw_created v) \<in> set (tq_cancelingTimers (tw_queues v l))) \<and> Q v"
  shows "\<exists>v. timer_handleRead clock run l s
      = Inr (upd_timer p None (upd_queue l (\<lambda>q. q\<lparr>tq_callingExpiredTimers := False\<rparr>) v)) \<and> no_timer l v \<and> Q v"
proof -
  from fires [where run = run and clock = clock, OF c one p due] obtain u where u: "timer_handleRead clock run l s = bnd (run (tm_callBack t) u) (\<lambda>v.
        timer_reset clock [(tm_expiration t, p)] (clock (tw_ticks s)) l (upd_queue l (\<lambda>q. q\<lparr>tq_callingExpiredTimers := False\<rparr>) v))"
    "tests_same s u" "firing l p t u" "tw_ticks u = Suc (tw_ticks s)" "tw_created u = tw_created s"
    by (elim exE conjE) (rule that)
  from cb [OF u(2-5)] obtain v where v: "run (tm_callBack t) u = Inr v" "no_timer l v" "tw_timers v p = Some t"
    "\<not> tm_repeat t \<or> (p, tw_created v) \<in> set (tq_cancelingTimers (tw_queues v l))" "Q v"
    by (elim exE conjE) (rule that)
  let ?w = "upd_queue l (\<lambda>q. q\<lparr>tq_callingExpiredTimers := False\<rparr>) v"
  have "no_timer l ?w" "tw_timers ?w p = Some t"
    "\<not> tm_repeat t \<or> (p, tw_created ?w) \<in> set (tq_cancelingTimers (tw_queues ?w l))"
    using v(2-4) by (simp_all add: no_timer_def upd_queue_sel)
  note reset_last [OF this, of clock "tm_expiration t" "clock (tw_ticks s)"]
  then show ?thesis using u(1) v(1,2,5) by (intro exI [of _ v]) simp
qed

lemma first_turn:
  assumes c: "isInLoopThread l s" and calm: "pending_of l s = []" "\<not> calling_of l s" and one: "one_timer l p t s"
    and p: "p < uintptr_max" and t: "tm_callBack t = Run1" "\<not> tm_repeat t" and due: "tm_expiration t \<le> clock (tw_ticks s)"
  shows "\<exists>v. test_run clock new l (Suc (Suc (Suc n))) (TimerHandleRead l) s = Inr v \<and> no_timer l v \<and> isInLoopThread l v
    \<and> pending_of l v = [Run3] \<and> \<not> calling_of l v \<and> tl_out v = tl_out s @ [(''run1'', 1), (''run2'', 1)] \<and> tl_flag v = 2
    \<and> tw_ticks v = Suc (tw_ticks s) \<and> stays l s v"
proof -
  let ?Q = "\<lambda>v :: 'a test_loop_scheme. isInLoopThread l v \<and> pending_of l v = [Run3] \<and> \<not> calling_of l v
    \<and> tl_out v = tl_out s @ [(''run1'', 1), (''run2'', 1)] \<and> tl_flag v = 2 \<and> tw_ticks v = Suc (tw_ticks s) \<and> stays l s v"
  have "\<exists>v. test_run clock new l (Suc (Suc n)) Run1 u = Inr v \<and> no_timer l v \<and> tw_timers v p = Some t
      \<and> (\<not> tm_repeat t \<or> (p, tw_created v) \<in> set (tq_cancelingTimers (tw_queues v l))) \<and> ?Q v"
    if u: "tests_same s u" "firing l p t u" "tw_ticks u = Suc (tw_ticks s)" for u
  proof -
    let ?u = "print_flag ''run1'' (u\<lparr>tl_flag := 1\<rparr>)"
    have here: "isInLoopThread l ?u" using c u(1) by (simp add: isInLoopThread_def tests_same_def print_flag_def)
    let ?v = "(run2 l ?u)\<lparr>tl_flag := 2\<rparr>"
    have "test_run clock new l (Suc (Suc n)) Run1 u = Inr ?v"
      by (simp add: test_run.simps(2) run1_def Let_def runInLoop_def here)
    moreover have "no_timer l ?v" "tw_timers ?v p = Some t"
      using u(2) by (simp_all add: firing_def no_timer_def run2_def print_flag_def queueInloop_tests)
    moreover have "?Q ?v"
      using c calm u(1,3) tests_same_view [OF u(1), of l]
      by (simp add: tests_same_def run2_def print_flag_def queueInloop_tests queueInloop_view tests_view stays_def)
    ultimately show ?thesis using t(2) by blast
  qed
  then have cb: "\<exists>v. test_run clock new l (Suc (Suc n)) (tm_callBack t) u = Inr v \<and> no_timer l v \<and> tw_timers v p = Some t
      \<and> (\<not> tm_repeat t \<or> (p, tw_created v) \<in> set (tq_cancelingTimers (tw_queues v l))) \<and> ?Q v"
    if "tests_same s u" "firing l p t u" "tw_ticks u = Suc (tw_ticks s)" "tw_created u = tw_created s" for u
    unfolding t(1) using that(1-3) by blast
  from fired [where run = "test_run clock new l (Suc (Suc n))" and Q = ?Q and clock = clock, OF c one p due cb] obtain v where
    v: "timer_handleRead clock (test_run clock new l (Suc (Suc n))) l s
      = Inr (upd_timer p None (upd_queue l (\<lambda>q. q\<lparr>tq_callingExpiredTimers := False\<rparr>) v))" "no_timer l v" "?Q v" by blast
  show ?thesis
    by (intro exI [of _ "upd_timer p None (upd_queue l (\<lambda>q. q\<lparr>tq_callingExpiredTimers := False\<rparr>) v)"])
      (use v in \<open>simp add: test_run.simps(2) Let_def tests_view upd_timer_sel upd_queue_sel\<close>)
qed


lemma tests_same_timers:
  "tests_same s s' \<Longrightarrow> tl_out s' = tl_out s \<and> tl_flag s' = tl_flag s \<and> w_loops s' = w_loops s"
  by (simp add: tests_same_def)

lemma loop_only:
  "tw_queues (upd_loop l f s) = tw_queues s" "tw_timers (upd_loop l f s) = tw_timers s" "tw_created (upd_loop l f s) = tw_created s"
  "tw_ticks (upd_loop l f s) = tw_ticks s" "tl_out (upd_loop l f s) = tl_out s" "tl_flag (upd_loop l f s) = tl_flag s"
  "tl_cnt (upd_loop l f s) = tl_cnt s" "no_timer l (upd_loop l f s) = no_timer l s" "one_timer l p t (upd_loop l f s) = one_timer l p t s"
  by (simp_all add: upd_loop_def no_timer_def one_timer_def)

lemma second_round:
  assumes c: "isInLoopThread l s" and q: "pending_of l s = [Run3]" "tl_flag s = 2" and none: "no_timer l s"
  shows "\<exists>s' p t. doPendingFunctors (test_run clock new l (Suc (Suc n))) l s = Inr s' \<and> isInLoopThread l s'
    \<and> pending_of l s' = [] \<and> \<not> calling_of l s' \<and> tl_out s' = tl_out s @ [(''run3'', 2)] \<and> tl_flag s' = 3
    \<and> tw_ticks s' = tw_ticks s + 2 \<and> one_timer l p t s' \<and> p \<in> range new \<and> tm_callBack t = Run4 \<and> \<not> tm_repeat t
    \<and> tm_expiration t = clock (tw_ticks s) + 3000000 \<and> stays l s s'"
proof -
  let ?s1 = "upd_loop l (\<lambda>lp. lp\<lparr>lp_pendingFunctor := []\<rparr>) (set_calling l True s)"
  let ?s2 = "print_flag ''run3'' ?s1"
  let ?s3 = "?s2\<lparr>tw_ticks := Suc (tw_ticks ?s2)\<rparr>"
  let ?t = "\<lparr>tm_callBack = Run4, tm_expiration = clock (tw_ticks s) + 3000000, tm_interval = (0, 0),
        tm_repeat = double_positive (0, 0), tm_sequence = tw_created ?s3\<rparr>"
  have v: "isInLoopThread l ?s3" "no_timer l ?s3" "pending_of l ?s3 = []" "tl_out ?s3 = tl_out s @ [(''run3'', 2)]"
    "tw_ticks ?s3 = Suc (tw_ticks s)"
    using c q(2) none
    by (simp_all add: print_flag_def set_calling_def loop_only no_timer_def isInLoopThread_def loop_simps view_defs)
  from add_first [OF v(1,2), of clock new n "new ?s2" Run4 "clock (tw_ticks s) + 3000000" "(0, 0)"] obtain u where
    u: "addTimer (test_run clock new l (Suc n)) (new ?s2) Run4 (clock (tw_ticks s) + 3000000) (0, 0) l ?s3 = Inr ((new ?s2, tw_created u), u)"
      "tests_same ?s3 u" "tw_ticks u = Suc (tw_ticks ?s3)"
      "one_timer l (new ?s2) ?t u" by blast
  have k: "tw_ticks ?s2 = tw_ticks s" by (simp add: print_flag_def set_calling_def loop_only)
  have "test_run clock new l (Suc (Suc n)) Run3 ?s1 = Inr (u\<lparr>tl_flag := 3\<rparr>)"
    using u(1) by (simp add: test_run.simps(2) run3_def Let_def runAfter_def clock_now_def runAt_def k addTime_seconds)
  then have r: "doPendingFunctors (test_run clock new l (Suc (Suc n))) l s = Inr (set_calling l False (u\<lparr>tl_flag := 3\<rparr>))"
    using q(1) by (simp add: doPendingFunctors_def swap_pending_def set_calling_def loop_simps view_defs)
  let ?s' = "set_calling l False (u\<lparr>tl_flag := 3\<rparr>)"
  have "isInLoopThread l ?s'" "pending_of l ?s' = []" "tl_out ?s' = tl_out s @ [(''run3'', 2)]"
    using tests_same_view [OF u(2), of l] tests_same_timers [OF u(2)] v
    by (simp_all add: set_calling_def loop_simps loop_only isInLoopThread_def view_defs)
  moreover have "\<not> calling_of l ?s'" "tl_flag ?s' = 3" by (simp_all add: set_calling_def loop_simps loop_only view_defs)
  moreover have "tw_ticks ?s' = tw_ticks s + 2" using u(3) v(5) by (simp add: set_calling_def loop_only)
  moreover have "one_timer l (new ?s2) ?t ?s'" using u(4) by (simp add: set_calling_def loop_only one_timer_def)
  moreover have "stays l s ?s'" using u(2) by (simp add: stays_def tests_same_def print_flag_def set_calling_def loop_simps)
  moreover have "tm_callBack ?t = Run4" "\<not> tm_repeat ?t" "tm_expiration ?t = clock (tw_ticks s) + 3000000"
    by (simp_all add: double_positive_def)
  ultimately show ?thesis using r by blast
qed

lemma last_fire:
  assumes c: "isInLoopThread l s" and calm: "pending_of l s = []" and one: "one_timer l p t s"
    and p: "p < uintptr_max" and t: "tm_callBack t = Run4" "\<not> tm_repeat t" and due: "tm_expiration t \<le> clock (tw_ticks s)"
  shows "\<exists>v. test_run clock new l (Suc (Suc n)) (TimerHandleRead l) s = Inr v \<and> no_timer l v \<and> pending_of l v = []
    \<and> tl_out v = tl_out s @ [(''run4'', tl_flag s)] \<and> tl_flag v = tl_flag s \<and> lp_quit (w_loops v l) \<and> chans v = chans s
    \<and> isInLoopThread l v"
proof -
  let ?Q = "\<lambda>v :: 'a test_loop_scheme. pending_of l v = [] \<and> tl_out v = tl_out s @ [(''run4'', tl_flag s)] \<and> tl_flag v = tl_flag s
    \<and> lp_quit (w_loops v l) \<and> chans v = chans s \<and> isInLoopThread l v"
  have cb: "\<exists>v. test_run clock new l (Suc n) (tm_callBack t) u = Inr v \<and> no_timer l v \<and> tw_timers v p = Some t
      \<and> (\<not> tm_repeat t \<or> (p, tw_created v) \<in> set (tq_cancelingTimers (tw_queues v l))) \<and> ?Q v"
    if u: "tests_same s u" "firing l p t u" "tw_ticks u = Suc (tw_ticks s)" "tw_created u = tw_created s" for u
  proof -
    have here: "isInLoopThread l u" using tests_same_view [OF u(1), of l] c by simp
    then have r: "run4 l u = set_quit l True (print_flag ''run4'' u)"
      by (simp add: run4_def loop_quit_def Let_def isInLoopThread_def print_flag_def set_quit_def loop_simps)
    have "?Q (run4 l u)" "no_timer l (run4 l u)" "tw_timers (run4 l u) p = Some t"
      unfolding r using tests_same_view [OF u(1), of l] tests_same_timers [OF u(1)] u(1,2) calm here
      by (simp_all add: set_quit_def loop_only loop_simps view_defs print_flag_def firing_def no_timer_def tests_same_def isInLoopThread_def)
    then show ?thesis using t(2) by (simp add: test_run.simps(2) Let_def t(1))
  qed
  from fired [where run = "test_run clock new l (Suc n)" and Q = ?Q and clock = clock, OF c one p due cb] obtain v where
    v: "timer_handleRead clock (test_run clock new l (Suc n)) l s
      = Inr (upd_timer p None (upd_queue l (\<lambda>q. q\<lparr>tq_callingExpiredTimers := False\<rparr>) v))" "no_timer l v" "?Q v" by blast
  let ?w = "upd_timer p None (upd_queue l (\<lambda>q. q\<lparr>tq_callingExpiredTimers := False\<rparr>) v)"
  have "no_timer l ?w" "?Q ?w" using v(2,3) by (simp_all add: tests_view upd_timer_sel upd_queue_sel)
  then show ?thesis using v(1) by (intro exI [of _ ?w]) (simp add: test_run.simps(2) Let_def)
qed

section \<open>Turns of the loop\<close>

text \<open>The poller of the loop holds the channels of the timer and of the eventfd, in the order the constructor
  registers them; reading the timer is the only callback of the first.\<close>

definition watches :: "nat \<Rightarrow> loop_args \<Rightarrow> 'z test_loop_scheme \<Rightarrow> bool" where
  "watches l A s \<longleftrightarrow> map pfd_fd (pl_pollfds (lp_poller (w_loops s l))) = [la_timerfd A, la_wakeupFd A]
     \<and> pl_channels (lp_poller (w_loops s l)) (la_timerfd A) = Some (la_channel A)
     \<and> ch_readCallBack (chans s (la_channel A)) = Some (TimerHandleRead l)
     \<and> ch_closeCallBack (chans s (la_channel A)) = None \<and> ch_errorCallBack (chans s (la_channel A)) = None
     \<and> ch_writeCallBack (chans s (la_channel A)) = None"

definition resting :: "nat \<Rightarrow> loop_args \<Rightarrow> 'z test_loop_scheme \<Rightarrow> bool" where
  "resting l A s \<longleftrightarrow> isInLoopThread l s \<and> pending_of l s = [] \<and> \<not> calling_of l s \<and> \<not> lp_quit (w_loops s l) \<and> watches l A s"

definition same_tests :: "'z test_loop_scheme \<Rightarrow> 'z test_loop_scheme \<Rightarrow> bool" where
  "same_tests s s' \<longleftrightarrow> tw_queues s' = tw_queues s \<and> tw_timers s' = tw_timers s \<and> tw_created s' = tw_created s
     \<and> tw_ticks s' = tw_ticks s \<and> w_tid s' = w_tid s \<and> tl_flag s' = tl_flag s \<and> tl_out s' = tl_out s
     \<and> tl_cnt s' = tl_cnt s \<and> tl_toCancel s' = tl_toCancel s"

lemma same_tests_view:
  assumes "same_tests s s'"
  shows "no_timer l s' = no_timer l s" "one_timer l p t s' = one_timer l p t s" "tw_ticks s' = tw_ticks s" "tl_flag s' = tl_flag s"
    "tl_out s' = tl_out s" "tl_cnt s' = tl_cnt s" "tl_toCancel s' = tl_toCancel s" "tw_timers s' = tw_timers s" "tw_created s' = tw_created s"
  using assms by (simp_all add: same_tests_def no_timer_def one_timer_def)

lemma same_tests_trans: "same_tests s t \<Longrightarrow> same_tests t u \<Longrightarrow> same_tests s u"
  by (simp add: same_tests_def)

text \<open>The answers of poll(2): the timer is readable, or nothing is (a timeout or an error).\<close>

definition timer_answer :: "int \<Rightarrow> poll_answer" where
  "timer_answer t = \<lparr>pa_nums = 1, pa_revents = [1, 0], pa_now = t\<rparr>"

definition idle_answer :: "poll_answer \<Rightarrow> bool" where
  "idle_answer a \<longleftrightarrow> pa_nums a \<le> 0 \<and> length (pa_revents a) = 2"

text \<open>A call of the pending functors that finds none.\<close>

lemma no_pending:
  assumes "pending_of l s = []"
  shows "\<exists>s'. doPendingFunctors run l s = Inr s' \<and> same_tests s s' \<and> chans s' = chans s \<and> \<not> calling_of l s' \<and> pending_of l s' = []
    \<and> lp_poller (w_loops s' l) = lp_poller (w_loops s l) \<and> lp_quit (w_loops s' l) = lp_quit (w_loops s l)
    \<and> isInLoopThread l s' = isInLoopThread l s"
proof -
  let ?t = "set_calling l False (upd_loop l (\<lambda>lp. lp\<lparr>lp_pendingFunctor := []\<rparr>) (set_calling l True s))"
  have "doPendingFunctors run l s = Inr ?t"
    using assms by (simp add: doPendingFunctors_def swap_pending_def set_calling_def loop_simps view_defs)
  moreover have "same_tests s ?t" by (simp add: same_tests_def set_calling_def upd_loop_def)
  ultimately show ?thesis
    by (intro exI [of _ ?t]) (simp add: set_calling_def loop_simps view_defs isInLoopThread_def)
qed

lemma map2_revents: "length rs = length fds \<Longrightarrow> map pfd_fd (map2 (\<lambda>pfd r. pfd\<lparr>pfd_revents := r\<rparr>) fds rs) = map pfd_fd fds"
  by (induction rs fds rule: list_induct2) simp_all

lemma idle_turn:
  assumes rest: "resting l A s" and idle: "idle_answer a"
  shows "\<exists>s'. loop_turn run runRead l a s = Inr s' \<and> resting l A s' \<and> same_tests s s'"
proof -
  let ?pl = "lp_poller (w_loops s l)"
  let ?pl' = "?pl\<lparr>pl_pollfds := map2 (\<lambda>pfd r. pfd\<lparr>pfd_revents := r\<rparr>) (pl_pollfds ?pl) (pa_revents a)\<rparr>"
  let ?s1 = "upd_loop l (\<lambda>lp. lp\<lparr>lp_poller := ?pl', lp_activeChannels := [], lp_pollReturnTime := pa_now a\<rparr>) s"
  have "length (pl_pollfds ?pl) = 2" using rest by (auto simp: resting_def watches_def dest: arg_cong [of _ _ length])
  then have fds: "map pfd_fd (pl_pollfds ?pl') = map pfd_fd (pl_pollfds ?pl)"
    using idle map2_revents [of "pa_revents a" "pl_pollfds ?pl"] by (simp add: idle_answer_def)
  have "poll_active l a s = Inr ?s1"
    using idle by (simp add: poll_active_def poller_poll_def idle_answer_def Let_def)
  then have turn: "loop_turn run runRead l a s = doPendingFunctors run l ?s1" by (simp add: loop_turn_def loop_simps)
  have "pending_of l ?s1 = []" using rest by (simp add: resting_def view_defs loop_simps)
  from no_pending [OF this, of run] obtain s' where s': "doPendingFunctors run l ?s1 = Inr s'" "same_tests ?s1 s'" "chans s' = chans ?s1"
    "\<not> calling_of l s'" "pending_of l s' = []" "lp_poller (w_loops s' l) = lp_poller (w_loops ?s1 l)"
    "lp_quit (w_loops s' l) = lp_quit (w_loops ?s1 l)" "isInLoopThread l s' = isInLoopThread l ?s1" by (elim exE conjE) (rule that)
  have "resting l A s'"
    using rest s'(3-8) fds by (simp add: resting_def watches_def loop_simps isInLoopThread_def)
  moreover have "same_tests s s'" using s'(2) by (simp add: same_tests_def upd_loop_def)
  ultimately show ?thesis using turn s'(1) by simp
qed

lemma idle_turns:
  assumes "resting l A s" and "\<forall>a\<in>set as. idle_answer a"
  shows "\<exists>s'. loop_while run runRead l (as @ rest) s = loop_while run runRead l rest s' \<and> resting l A s' \<and> same_tests s s'"
  using assms
proof (induction as arbitrary: s)
  case Nil
  then show ?case by (intro exI [of _ s]) (simp add: same_tests_def)
next
  case (Cons a as)
  from idle_turn [OF Cons.prems(1), of a run runRead] Cons.prems(2) obtain t where
    t: "loop_turn run runRead l a s = Inr t" "resting l A t" "same_tests s t" by auto
  from Cons.IH [OF t(2)] Cons.prems(2) obtain s' where
    s': "loop_while run runRead l (as @ rest) t = loop_while run runRead l rest s'" "resting l A s'" "same_tests t s'" by auto
  have "\<not> lp_quit (w_loops s l)" using Cons.prems(1) by (simp add: resting_def)
  then show ?case using s' t(1) same_tests_trans [OF t(3) s'(3)] by (intro exI [of _ s']) simp
qed

text \<open>A turn in which the timer is readable: \<open>p\<close> is the state its callback is called in.\<close>

lemma timer_turn:
  assumes "resting l A s"
  shows "\<exists>p. resting l A p \<and> same_tests s p \<and> (\<forall>v. run (TimerHandleRead l) p = Inr v \<longrightarrow> chans v = chans p \<longrightarrow>
    loop_turn run (\<lambda>cb _. run cb) l (timer_answer t) s
      = doPendingFunctors run l (upd_chan (la_channel A) (\<lambda>ch. ch\<lparr>ch_eventHanding := False\<rparr>) v))"
proof -
  let ?pl = "lp_poller (w_loops s l)" and ?c = "la_channel A"
  from assms obtain f g where fds: "pl_pollfds ?pl = [f, g]" "pfd_fd f = la_timerfd A" "pfd_fd g = la_wakeupFd A"
    and ch: "pl_channels ?pl (la_timerfd A) = Some ?c"
    unfolding resting_def watches_def by (auto simp: map_eq_Cons_conv)
  let ?pl' = "?pl\<lparr>pl_pollfds := [f\<lparr>pfd_revents := 1\<rparr>, g\<lparr>pfd_revents := 0\<rparr>]\<rparr>"
  let ?s1 = "upd_loop l (\<lambda>lp. lp\<lparr>lp_poller := ?pl', lp_activeChannels := [?c], lp_pollReturnTime := t\<rparr>)
    (s\<lparr>chans := (chans s)(?c := setEvent 1 (chans s ?c))\<rparr>)"
  let ?p = "upd_chan ?c (\<lambda>ch. ch\<lparr>ch_eventHanding := True\<rparr>) ?s1"
  have "scast (1 :: 16 word) = (1 :: 32 word)" "0 < sint (1 :: 16 word)" by simp_all
  then have poll: "poll_active l (timer_answer t) s = Inr ?s1"
    by (simp add: poll_active_def timer_answer_def poller_poll_def Let_def fds ch)
  have rp: "ch_revent (chans ?p ?c) = 1" by (simp add: loop_simps setEvent_def)
  have rest: "resting l A ?p" using assms fds
    by (simp add: resting_def watches_def loop_simps view_defs isInLoopThread_def setEvent_def)
  then have cbs: "ch_readCallBack (chans ?p ?c) = Some (TimerHandleRead l)" by (simp add: resting_def watches_def)
  have bits: "(1 :: 32 word) AND POLLHUP = 0" "(1 :: 32 word) AND (POLLNVAL OR POLLERR) = 0"
    "(1 :: 32 word) AND (POLLIN OR POLLPRI OR POLLRDHUP) \<noteq> 0" "(1 :: 32 word) AND POLLOUT = 0"
    by (simp_all add: poll_bits)
  have "handleEvent run (\<lambda>cb _. run cb) ?c t ?s1 = Inr (upd_chan ?c (\<lambda>ch. ch\<lparr>ch_eventHanding := False\<rparr>) v)"
    if v: "run (TimerHandleRead l) ?p = Inr v" "chans v = chans ?p" for v
    using v rp cbs unfolding handleEvent_def Let_def call_if_def by (simp add: bits)
  then have "loop_turn run (\<lambda>cb _. run cb) l (timer_answer t) s
      = doPendingFunctors run l (upd_chan ?c (\<lambda>ch. ch\<lparr>ch_eventHanding := False\<rparr>) v)"
    if "run (TimerHandleRead l) ?p = Inr v" "chans v = chans ?p" for v
    using that poll by (simp add: loop_turn_def loop_simps, simp add: timer_answer_def)
  moreover have "same_tests s ?p" by (simp add: same_tests_def upd_chan_def upd_loop_def)
  ultimately show ?thesis using rest by blast
qed

section \<open>The properties\<close>

text \<open>What the tests start from: a thread without a loop, descriptors and channels of their own, and the
  allocator.\<close>

definition test_ready :: "('z test_loop_scheme \<Rightarrow> nat) \<Rightarrow> loop_args \<Rightarrow> 'z test_loop_scheme \<Rightarrow> bool" where
  "test_ready new A s \<longleftrightarrow> w_loopInThread s (w_tid s) = None \<and> 0 \<le> la_timerfd A \<and> 0 \<le> la_wakeupFd A
     \<and> la_timerfd A \<noteq> la_wakeupFd A \<and> la_channel A \<noteq> la_wakeupChannel A \<and> \<not> la_calling A
     \<and> tl_flag s = 0 \<and> tl_out s = [] \<and> tl_cnt s = 0 \<and> range new \<subseteq> {..<uintptr_max}"

lemma test_loop_made:
  assumes "test_ready new A s0" and "w_loopInThread s (w_tid s) = None"
  shows "\<exists>u. test_loop_new A l s = Inr u \<and> isInLoopThread l u \<and> pending_of l u = [] \<and> \<not> calling_of l u \<and> watches l A u
    \<and> no_timer l u \<and> \<not> lp_looping (w_loops u l) \<and> tl_flag u = tl_flag s \<and> tl_out u = tl_out s \<and> tl_cnt u = tl_cnt s
    \<and> tw_ticks u = tw_ticks s \<and> tw_created u = tw_created s"
  using assms
  by (simp add: test_ready_def test_loop_new_def loop_new_def timer_queue_new_def enableReading_def channel_update_def
      loop_updateChannel_def with_poller_def poller_updateChannel_def Let_def poller_new_def channel_new_def readingBits_def
      setReadCallBack_def setIndex_def isInLoopThread_def assertInLoopThread_def fatal_unless_def upd_loop_def upd_chan_def
      upd_queue_def view_defs watches_def no_timer_def)

lemma chan_only:
  "no_timer l (upd_chan c g s) = no_timer l s" "one_timer l p t (upd_chan c g s) = one_timer l p t s"
  "isInLoopThread l (upd_chan c g s) = isInLoopThread l s" "pending_of l (upd_chan c g s) = pending_of l s"
  "calling_of l (upd_chan c g s) = calling_of l s" "tl_flag (upd_chan c g s) = tl_flag s" "tl_out (upd_chan c g s) = tl_out s"
  "tl_cnt (upd_chan c g s) = tl_cnt s" "tl_toCancel (upd_chan c g s) = tl_toCancel s" "tw_ticks (upd_chan c g s) = tw_ticks s"
  "tw_timers (upd_chan c g s) = tw_timers s" "tw_queues (upd_chan c g s) = tw_queues s"
  by (simp_all add: upd_chan_def no_timer_def one_timer_def isInLoopThread_def view_defs)

lemma watches_handled:
  assumes "watches l A p" and "chans v = chans p" and "lp_poller (w_loops v l) = lp_poller (w_loops p l)"
  shows "watches l A (upd_chan (la_channel A) (\<lambda>ch. ch\<lparr>ch_eventHanding := False\<rparr>) v)"
  using assms by (simp add: watches_def loop_simps)

text \<open>The first turn with a timer: \<open>run1\<close>, \<open>run2\<close> and then the functor \<open>run3\<close>.\<close>

lemma queue_first_turn:
  assumes rest: "resting l A s" and one: "one_timer l q t s" and q: "q < uintptr_max" and t: "tm_callBack t = Run1" "\<not> tm_repeat t"
    and due: "tm_expiration t \<le> clock (tw_ticks s)"
  shows "\<exists>w q' t'. loop_turn (test_run clock new l (Suc (Suc (Suc n)))) (\<lambda>cb _. test_run clock new l (Suc (Suc (Suc n))) cb) l (timer_answer now) s = Inr w
    \<and> resting l A w \<and> tl_out w = tl_out s @ [(''run1'', 1), (''run2'', 1), (''run3'', 2)] \<and> tl_flag w = 3
    \<and> tw_ticks w = tw_ticks s + 3 \<and> one_timer l q' t' w \<and> q' \<in> range new \<and> tm_callBack t' = Run4 \<and> \<not> tm_repeat t'
    \<and> tm_expiration t' = clock (tw_ticks s + 1) + 3000000"
proof -
  let ?run = "test_run clock new l (Suc (Suc (Suc n)))" and ?handled = "upd_chan (la_channel A) (\<lambda>ch. ch\<lparr>ch_eventHanding := False\<rparr>)"
  from timer_turn [OF rest, of ?run now] obtain p where p: "resting l A p" "same_tests s p"
    and turn: "\<And>v. ?run (TimerHandleRead l) p = Inr v \<Longrightarrow> chans v = chans p \<Longrightarrow>
      loop_turn ?run (\<lambda>cb _. ?run cb) l (timer_answer now) s = doPendingFunctors ?run l (?handled v)" by blast
  note P = same_tests_view [OF p(2)]
  have pr: "isInLoopThread l p" "pending_of l p = []" "\<not> calling_of l p" "watches l A p" "\<not> lp_quit (w_loops p l)"
    using p(1) by (simp_all add: resting_def)
  from first_turn [where clock = clock and new = new and n = n, OF pr(1-3) _ q t] one due obtain v where
    v: "?run (TimerHandleRead l) p = Inr v" "no_timer l v" "isInLoopThread l v" "pending_of l v = [Run3]" "\<not> calling_of l v"
      "tl_out v = tl_out p @ [(''run1'', 1), (''run2'', 1)]" "tl_flag v = 2" "tw_ticks v = Suc (tw_ticks p)" "stays l p v"
    unfolding P(2,3) by auto
  let ?v = "?handled v"
  have "isInLoopThread l ?v" "pending_of l ?v = [Run3]" "tl_flag ?v = 2" "no_timer l ?v" using v by (simp_all add: chan_only)
  from second_round [where clock = clock and new = new and n = "Suc n", OF this] obtain w q' t' where
    w: "doPendingFunctors ?run l ?v = Inr w" "isInLoopThread l w" "pending_of l w = []" "\<not> calling_of l w"
      "tl_out w = tl_out ?v @ [(''run3'', 2)]" "tl_flag w = 3" "tw_ticks w = tw_ticks ?v + 2" "one_timer l q' t' w"
      "q' \<in> range new" "tm_callBack t' = Run4" "\<not> tm_repeat t'" "tm_expiration t' = clock (tw_ticks ?v) + 3000000" "stays l ?v w"
    by (elim exE conjE) (rule that)
  have sv: "chans v = chans p" "lp_poller (w_loops v l) = lp_poller (w_loops p l)" "\<not> lp_quit (w_loops v l)"
    using v(9) pr(5) by (simp_all add: stays_def)
  have "watches l A w" using watches_handled [OF pr(4) sv(1,2)] w(13) by (simp add: watches_def stays_def)
  moreover have "\<not> lp_quit (w_loops w l)" using w(13) sv(3) by (simp add: stays_def loop_simps)
  ultimately have "resting l A w" using w(2-4) by (simp add: resting_def)
  then show ?thesis
    using turn [OF v(1) sv(1)] w(1,5-12) v(6,8) by (intro exI [of _ w] exI [of _ q'] exI [of _ t']) (simp add: chan_only P)
qed

lemma queue_last_turn:
  assumes rest: "resting l A s" and one: "one_timer l q t s" and q: "q < uintptr_max" and t: "tm_callBack t = Run4" "\<not> tm_repeat t"
    and due: "tm_expiration t \<le> clock (tw_ticks s)"
  shows "\<exists>x. loop_turn (test_run clock new l (Suc (Suc n))) (\<lambda>cb _. test_run clock new l (Suc (Suc n)) cb) l (timer_answer now) s = Inr x
    \<and> no_timer l x \<and> pending_of l x = [] \<and> tl_out x = tl_out s @ [(''run4'', tl_flag s)] \<and> tl_flag x = tl_flag s
    \<and> lp_quit (w_loops x l) \<and> isInLoopThread l x"
proof -
  let ?run = "test_run clock new l (Suc (Suc n))" and ?handled = "upd_chan (la_channel A) (\<lambda>ch. ch\<lparr>ch_eventHanding := False\<rparr>)"
  from timer_turn [OF rest, of ?run now] obtain p where p: "resting l A p" "same_tests s p"
    and turn: "\<And>v. ?run (TimerHandleRead l) p = Inr v \<Longrightarrow> chans v = chans p \<Longrightarrow>
      loop_turn ?run (\<lambda>cb _. ?run cb) l (timer_answer now) s = doPendingFunctors ?run l (?handled v)" by blast
  note P = same_tests_view [OF p(2)]
  have pr: "isInLoopThread l p" "pending_of l p = []" using p(1) by (simp_all add: resting_def)
  from last_fire [where clock = clock and new = new and n = n, OF pr _ q t] one due obtain v where
    v: "?run (TimerHandleRead l) p = Inr v" "no_timer l v" "pending_of l v = []" "tl_out v = tl_out p @ [(''run4'', tl_flag p)]"
      "tl_flag v = tl_flag p" "lp_quit (w_loops v l)" "chans v = chans p" "isInLoopThread l v"
    unfolding P(2,3) by auto
  have "pending_of l (?handled v) = []" using v(3) by (simp add: chan_only)
  from no_pending [OF this, of ?run] obtain x where x: "doPendingFunctors ?run l (?handled v) = Inr x" "same_tests (?handled v) x"
    "pending_of l x = []" "lp_quit (w_loops x l) = lp_quit (w_loops (?handled v) l)" "isInLoopThread l x = isInLoopThread l (?handled v)"
    by (elim exE conjE) (rule that)
  show ?thesis
    using turn [OF v(1,7)] x(1,3-5) v(2,4-6,8) same_tests_view [OF x(2)]
    by (intro exI [of _ x]) (simp add: chan_only loop_simps P)
qed

text \<open>A loop just made whose only timer was added before it is entered.\<close>

lemma first_timer:
  assumes ready: "test_ready new A s0" and "w_loopInThread s (w_tid s) = None" and run: "0 < n"
  shows "\<exists>u v. test_loop_new A l s = Inr u \<and> addTimer (test_run clock new l n) (new u) cb (clock (tw_ticks u) + d) interval l (u\<lparr>tw_ticks := Suc (tw_ticks u)\<rparr>)
      = Inr ((new u, tw_created v), v)
    \<and> \<not> lp_looping (w_loops v l) \<and> isInLoopThread l v \<and> tw_ticks u = tw_ticks s \<and> tw_ticks v = tw_ticks s + 2
    \<and> tl_out v = tl_out s \<and> tl_flag v = tl_flag s \<and> tl_cnt v = tl_cnt s
    \<and> one_timer l (new u) \<lparr>tm_callBack = cb, tm_expiration = clock (tw_ticks s) + d, tm_interval = interval,
        tm_repeat = double_positive interval, tm_sequence = tw_created s\<rparr> v
    \<and> resting l A (upd_loop l (\<lambda>lp. lp\<lparr>lp_looping := True, lp_quit := False\<rparr>) v)"
proof -
  obtain m where n: "n = Suc m" using run by (cases n) auto
  from test_loop_made [OF ready assms(2), of l] obtain u where
    u: "test_loop_new A l s = Inr u" "isInLoopThread l u" "pending_of l u = []" "\<not> calling_of l u" "watches l A u" "no_timer l u"
      "\<not> lp_looping (w_loops u l)" "tl_flag u = tl_flag s" "tl_out u = tl_out s" "tl_cnt u = tl_cnt s" "tw_ticks u = tw_ticks s"
      "tw_created u = tw_created s" by (elim exE conjE) (rule that)
  let ?u = "u\<lparr>tw_ticks := Suc (tw_ticks u)\<rparr>"
  have "isInLoopThread l ?u" "no_timer l ?u" using u(2,6) by (simp_all add: isInLoopThread_def no_timer_def)
  from add_first [OF this, of clock new m "new u" cb "clock (tw_ticks u) + d" interval] obtain v where
    v: "addTimer (test_run clock new l n) (new u) cb (clock (tw_ticks u) + d) interval l ?u = Inr ((new u, tw_created v), v)"
      "tests_same ?u v" "tw_ticks v = Suc (tw_ticks ?u)"
      "one_timer l (new u) \<lparr>tm_callBack = cb, tm_expiration = clock (tw_ticks u) + d, tm_interval = interval,
        tm_repeat = double_positive interval, tm_sequence = tw_created ?u\<rparr> v" unfolding n by blast
  have v2: "isInLoopThread l v" "pending_of l v = []" "\<not> calling_of l v" "watches l A v" "\<not> lp_looping (w_loops v l)"
    "tl_flag v = tl_flag s" "tl_out v = tl_out s" "tl_cnt v = tl_cnt s" "tw_ticks v = tw_ticks s + 2"
    using v(2,3) u by (simp_all add: tests_same_def watches_def isInLoopThread_def view_defs)
  then have "resting l A (upd_loop l (\<lambda>lp. lp\<lparr>lp_looping := True, lp_quit := False\<rparr>) v)"
    by (simp add: resting_def watches_def loop_simps view_defs isInLoopThread_def)
  with u(1,11,12) v(1,4) v2 show ?thesis by (intro exI [of _ u] exI [of _ v]) simp
qed

text \<open>\<open>loop()\<close> on a loop that is not looping.\<close>

lemma loop_entered:
  assumes "\<not> lp_looping (w_loops v l)" and "isInLoopThread l v"
  shows "loop_loop run runRead l answers v
    = bnd (loop_while run runRead l answers (upd_loop l (\<lambda>lp. lp\<lparr>lp_looping := True, lp_quit := False\<rparr>) v)) (\<lambda>(ended, s).
        Inr (ended, if ended then upd_loop l (\<lambda>lp. lp\<lparr>lp_looping := False\<rparr>) s else s))"
  using assms by (simp add: loop_loop_def assertInLoopThread_in)

text \<open>Leaving the scope of a loop that has ended and has no timers.\<close>

lemma scope_left:
  assumes "\<not> lp_looping (w_loops s l)" and "no_timer l s"
  shows "leave_scope l s = Inr (s\<lparr>w_loopInThread := (w_loopInThread s)(w_tid s := None)\<rparr>)"
  using assms by (simp add: leave_scope_def loop_destroy_def timer_queue_destroy_def no_timer_def)

lemma queue_first_part:
  assumes rest: "resting l A s" and one: "one_timer l q t s" and q: "q < uintptr_max" and t: "tm_callBack t = Run1" "\<not> tm_repeat t"
    and due: "tm_expiration t \<le> clock (tw_ticks s)" and idle: "\<forall>a\<in>set idle1. idle_answer a"
    and run: "run = test_run clock new l n" "3 \<le> n"
  shows "\<exists>w q' t'. loop_while run (\<lambda>cb _. run cb) l (idle1 @ timer_answer now1 # others) s = loop_while run (\<lambda>cb _. run cb) l others w
      \<and> resting l A w \<and> tl_out w = tl_out s @ [(''run1'', 1), (''run2'', 1), (''run3'', 2)] \<and> tl_flag w = 3
      \<and> tw_ticks w = tw_ticks s + 3 \<and> one_timer l q' t' w \<and> q' \<in> range new \<and> tm_callBack t' = Run4 \<and> \<not> tm_repeat t'
      \<and> tm_expiration t' = clock (tw_ticks s + 1) + 3000000"
proof -
  obtain m where "n = 3 + m" using run(2) le_Suc_ex by blast
  then have n: "n = Suc (Suc (Suc m))" by simp
  let ?go = "loop_while run (\<lambda>cb _. run cb) l"
  from idle_turns [OF rest idle, of run "\<lambda>cb _. run cb" "timer_answer now1 # others"] obtain a where
    a: "?go (idle1 @ timer_answer now1 # others) s = ?go (timer_answer now1 # others) a" "resting l A a" "same_tests s a" by blast
  note A = same_tests_view [OF a(3)]
  from queue_first_turn [OF a(2) _ q t, of clock new m now1] one due obtain w q' t' where
    w: "loop_turn run (\<lambda>cb _. run cb) l (timer_answer now1) a = Inr w" "resting l A w"
      "tl_out w = tl_out s @ [(''run1'', 1), (''run2'', 1), (''run3'', 2)]" "tl_flag w = 3" "tw_ticks w = tw_ticks s + 3"
      "one_timer l q' t' w" "q' \<in> range new" "tm_callBack t' = Run4" "\<not> tm_repeat t'" "tm_expiration t' = clock (tw_ticks s + 1) + 3000000"
    unfolding A run(1) n by blast
  have "\<not> lp_quit (w_loops a l)" using a(2) by (simp add: resting_def)
  then show ?thesis using a(1) w by (intro exI [of _ w] exI [of _ q'] exI [of _ t']) simp
qed

lemma queue_turns:
  assumes rest: "resting l A s" and one: "one_timer l q t s" and q: "q < uintptr_max" and t: "tm_callBack t = Run1" "\<not> tm_repeat t"
    and due: "tm_expiration t \<le> clock (tw_ticks s)" "clock (tw_ticks s + 1) + 3000000 \<le> clock (tw_ticks s + 3)"
    and idle: "\<forall>a\<in>set idle1. idle_answer a" "\<forall>a\<in>set idle2. idle_answer a"
    and run: "run = test_run clock new l n" "3 \<le> n" and new: "range new \<subseteq> {..<uintptr_max}"
  shows "\<exists>a. loop_while run (\<lambda>cb _. run cb) l idle1 s = Inr (False, a) \<and> tl_out a = tl_out s"
    and "\<exists>b. loop_while run (\<lambda>cb _. run cb) l (idle1 @ timer_answer now1 # idle2) s = Inr (False, b)
      \<and> tl_out b = tl_out s @ [(''run1'', 1), (''run2'', 1), (''run3'', 2)]"
    and "\<exists>x. loop_while run (\<lambda>cb _. run cb) l (idle1 @ timer_answer now1 # idle2 @ timer_answer now2 # others) s = Inr (True, x)
      \<and> no_timer l x \<and> pending_of l x = [] \<and> tl_flag x = 3
      \<and> tl_out x = tl_out s @ [(''run1'', 1), (''run2'', 1), (''run3'', 2), (''run4'', 3)]"
proof -
  obtain m where "n = 3 + m" using run(2) le_Suc_ex by blast
  then have n: "n = Suc (Suc (Suc m))" by simp
  let ?go = "loop_while run (\<lambda>cb _. run cb) l"
  from idle_turns [OF rest idle(1)] obtain a where a: "?go idle1 s = Inr (lp_quit (w_loops a l), a)" "resting l A a" "same_tests s a"
    by (metis append_Nil2 loop_while.simps(1))
  then show "\<exists>a. ?go idle1 s = Inr (False, a) \<and> tl_out a = tl_out s"
    by (intro exI [of _ a]) (simp add: resting_def same_tests_def)
  note step = queue_first_part [OF rest one q t due(1) idle(1) run]
  from step [of now1 idle2] obtain w where w: "?go (idle1 @ timer_answer now1 # idle2) s = ?go idle2 w" "resting l A w"
    "tl_out w = tl_out s @ [(''run1'', 1), (''run2'', 1), (''run3'', 2)]" by blast
  from idle_turns [OF w(2) idle(2), of run "\<lambda>cb _. run cb" "[]"] obtain b where
    b: "?go idle2 w = Inr (lp_quit (w_loops b l), b)" "resting l A b" "same_tests w b" by auto
  then show "\<exists>b. ?go (idle1 @ timer_answer now1 # idle2) s = Inr (False, b)
      \<and> tl_out b = tl_out s @ [(''run1'', 1), (''run2'', 1), (''run3'', 2)]"
    using w(1,3) by (intro exI [of _ b]) (simp add: resting_def same_tests_def)
  from step [of now1 "idle2 @ timer_answer now2 # others"] obtain w q' t' where
    w: "?go (idle1 @ timer_answer now1 # idle2 @ timer_answer now2 # others) s = ?go (idle2 @ timer_answer now2 # others) w" "resting l A w"
      "tl_out w = tl_out s @ [(''run1'', 1), (''run2'', 1), (''run3'', 2)]" "tl_flag w = 3" "tw_ticks w = tw_ticks s + 3"
      "one_timer l q' t' w" "q' \<in> range new" "tm_callBack t' = Run4" "\<not> tm_repeat t'" "tm_expiration t' = clock (tw_ticks s + 1) + 3000000"
    by blast
  from idle_turns [OF w(2) idle(2), of run "\<lambda>cb _. run cb" "timer_answer now2 # others"] obtain b where
    b: "?go (idle2 @ timer_answer now2 # others) w = ?go (timer_answer now2 # others) b" "resting l A b" "same_tests w b" by blast
  note B = same_tests_view [OF b(3)]
  have one': "one_timer l q' t' b" using w(6) by (simp only: B)
  have lim: "q' < uintptr_max" "tm_expiration t' \<le> clock (tw_ticks b)" using w(7) new due(2) unfolding w(10) B(3) w(5) by auto
  from queue_last_turn [where clock = clock, OF b(2) one' lim(1) w(8,9) lim(2), of new "Suc m" now2] obtain x where
    x: "loop_turn run (\<lambda>cb _. run cb) l (timer_answer now2) b = Inr x" "no_timer l x" "pending_of l x = []"
      "tl_out x = tl_out b @ [(''run4'', tl_flag b)]" "tl_flag x = tl_flag b" "lp_quit (w_loops x l)"
    unfolding B run(1) n by blast
  have "?go others x = Inr (True, x)" using x(6) by (cases others) simp_all
  moreover have "\<not> lp_quit (w_loops b l)" using b(2) by (simp add: resting_def)
  ultimately show "\<exists>x. ?go (idle1 @ timer_answer now1 # idle2 @ timer_answer now2 # others) s = Inr (True, x)
      \<and> no_timer l x \<and> pending_of l x = [] \<and> tl_flag x = 3
      \<and> tl_out x = tl_out s @ [(''run1'', 1), (''run2'', 1), (''run3'', 2), (''run4'', 3)]"
    using w(1) b(1) x by (intro exI [of _ x]) (simp add: B w(3,4))
qed

text \<open>C26. \<open>testQueue\<close> of src/main.cpp, from the construction of its loop to the end of its scope: \<open>runInLoop\<close> from
  a timer of the loop calls \<open>run2\<close> at once, before \<open>run1\<close> goes on; what \<open>run2\<close> queues runs after the
  timers of the same turn, when \<open>run1\<close> has set the flag for the second time; the timer \<open>run3\<close> adds runs in
  a later turn, the next in which poll(2) reports the descriptor of the timers. Before each of these
  two turns the loop may turn any number of times with nothing to do. The flags printed are 0, 1, 1, 2, 3, 3.
  The loop does not end before the second of these turns, and with it, whatever later polls might
  have answered; it is then left without timers or functors, and is destroyed without a failed assertion.\<close>

theorem queue_order:
  assumes "test_ready new A s" and "\<forall>a\<in>set idle1. idle_answer a" and "\<forall>a\<in>set idle2. idle_answer a"
    and "clock (tw_ticks s) + 2000000 \<le> clock (tw_ticks s + 2)"
    and "clock (tw_ticks s + 3) + 3000000 \<le> clock (tw_ticks s + 5)" and "3 \<le> n"
  shows "(\<exists>a. testQueue clock new n A idle1 l s = Inr (False, a) \<and> tl_out a = [(''main'', 0)])
    \<and> (\<exists>b. testQueue clock new n A (idle1 @ timer_answer now1 # idle2) l s = Inr (False, b)
         \<and> tl_out b = [(''main'', 0), (''run1'', 1), (''run2'', 1), (''run3'', 2)])
    \<and> (\<exists>s'. testQueue clock new n A (idle1 @ timer_answer now1 # idle2 @ timer_answer now2 # others) l s = Inr (True, s')
         \<and> no_timer l s' \<and> pending_of l s' = []
         \<and> tl_out s' = [(''main'', 0), (''run1'', 1), (''run2'', 1), (''run3'', 2), (''run4'', 3), (''main'', 3)])"
proof -
  let ?run = "test_run clock new l n" and ?s = "print_flag ''main'' s"
  have s: "w_loopInThread ?s (w_tid ?s) = None" "tl_out ?s = [(''main'', 0)]" "tl_flag ?s = 0" "tw_ticks ?s = tw_ticks s"
    and new: "range new \<subseteq> {..<uintptr_max}"
    using assms(1) by (simp_all add: test_ready_def print_flag_def)
  have "0 < n" using assms(6) by simp
  from first_timer [OF assms(1) s(1) this, of l clock Run1 2000000 "(0, 0)"] obtain u v where
    u: "test_loop_new A l ?s = Inr u"
      "addTimer ?run (new u) Run1 (clock (tw_ticks u) + 2000000) (0, 0) l (u\<lparr>tw_ticks := Suc (tw_ticks u)\<rparr>) = Inr ((new u, tw_created v), v)"
    and v: "\<not> lp_looping (w_loops v l)" "isInLoopThread l v" "tw_ticks v = tw_ticks s + 2" "tl_out v = [(''main'', 0)]"
      "one_timer l (new u) \<lparr>tm_callBack = Run1, tm_expiration = clock (tw_ticks s) + 2000000, tm_interval = (0, 0),
        tm_repeat = double_positive (0, 0), tm_sequence = tw_created ?s\<rparr> v" (is "one_timer l _ ?t v")
      "resting l A (upd_loop l (\<lambda>lp. lp\<lparr>lp_looping := True, lp_quit := False\<rparr>) v)"
    unfolding s by (elim exE conjE) (rule that)
  let ?v = "upd_loop l (\<lambda>lp. lp\<lparr>lp_looping := True, lp_quit := False\<rparr>) v"
  have run: "testQueue clock new n A answers l s
      = bnd (loop_while ?run (\<lambda>cb _. ?run cb) l answers ?v) (\<lambda>(ended, s). let s = if ended then upd_loop l (\<lambda>lp. lp\<lparr>lp_looping := False\<rparr>) s else s in
          if ended then bnd (leave_scope l (print_flag ''main'' s)) (\<lambda>s. Inr (True, s)) else Inr (False, s))" for answers
    unfolding testQueue_def Let_def u(1) bnd_Inr runAfter_def clock_now_def prod.case runAt_def
    by (simp add: addTime_seconds u(2) loop_entered [OF v(1,2)] bnd_assoc case_prod_beta del: One_nat_def)
      (rule bnd_cong, simp_all add: case_prod_beta)
  have q: "new u < uintptr_max" using new by auto
  have t: "tm_callBack ?t = Run1" "\<not> tm_repeat ?t" by (simp_all add: double_positive_def)
  have w: "one_timer l (new u) ?t ?v" "tl_out ?v = [(''main'', 0)]" "tw_ticks ?v = tw_ticks s + 2"
    using v(3-5) by (simp_all add: loop_only)
  have due: "tm_expiration ?t \<le> clock (tw_ticks ?v)" "clock (tw_ticks ?v + 1) + 3000000 \<le> clock (tw_ticks ?v + 3)"
    using assms(4,5) unfolding w(3) by (simp_all add: numeral_eq_Suc)
  note turns = queue_turns [OF v(6) w(1) q t due assms(2,3) refl assms(6) new, unfolded w(2)]
  from turns(1) have "\<exists>a. testQueue clock new n A idle1 l s = Inr (False, a) \<and> tl_out a = [(''main'', 0)]"
    by (auto simp: run)
  moreover from turns(2) [of now1] have "\<exists>b. testQueue clock new n A (idle1 @ timer_answer now1 # idle2) l s = Inr (False, b)
      \<and> tl_out b = [(''main'', 0), (''run1'', 1), (''run2'', 1), (''run3'', 2)]" by (auto simp: run)
  moreover from turns(3) [of now1 now2 others] obtain x where
    x: "loop_while ?run (\<lambda>cb _. ?run cb) l (idle1 @ timer_answer now1 # idle2 @ timer_answer now2 # others) ?v = Inr (True, x)"
      "no_timer l x" "pending_of l x = []" "tl_flag x = 3"
      "tl_out x = [(''main'', 0), (''run1'', 1), (''run2'', 1), (''run3'', 2), (''run4'', 3)]" by auto
  let ?x = "print_flag ''main'' (upd_loop l (\<lambda>lp. lp\<lparr>lp_looping := False\<rparr>) x)"
  have "\<not> lp_looping (w_loops ?x l)" "no_timer l ?x" using x(2) by (simp_all add: print_flag_def loop_simps no_timer_def loop_only)
  note left = scope_left [OF this]
  have "testQueue clock new n A (idle1 @ timer_answer now1 # idle2 @ timer_answer now2 # others) l s
      = Inr (True, ?x\<lparr>w_loopInThread := (w_loopInThread ?x)(w_tid ?x := None)\<rparr>)" by (simp add: run x(1) left)
  then have "\<exists>s'. testQueue clock new n A (idle1 @ timer_answer now1 # idle2 @ timer_answer now2 # others) l s = Inr (True, s')
      \<and> no_timer l s' \<and> pending_of l s' = []
      \<and> tl_out s' = [(''main'', 0), (''run1'', 1), (''run2'', 1), (''run3'', 2), (''run4'', 3), (''main'', 3)]"
    using x(2-5) by (simp add: print_flag_def no_timer_def view_defs loop_simps loop_only)
  ultimately show ?thesis by blast
qed

text \<open>A thread without a loop, and a clock that advances by three seconds with each reading.\<close>

definition sample_tests :: test_loop where
  "sample_tests = \<lparr>chans = (\<lambda>_. channel_new 0 0), w_tid = 7,
     w_loops = (\<lambda>_. \<lparr>lp_threadId = 7, lp_looping = False, lp_quit = False, lp_callingPendingFunctors = False,
       lp_poller = poller_new, lp_activeChannels = [], lp_pollReturnTime = 0, lp_wakeupFd = 5,
       lp_wakeupChannel = 0, lp_eventfd = [], lp_pendingFunctor = []\<rparr>),
     w_loopInThread = (\<lambda>_. None), tw_timers = Map.empty, tw_created = 0,
     tw_queues = (\<lambda>_. \<lparr>tq_timerfd = 4, tq_channel = 1, tq_timers = [], tq_callingExpiredTimers = False,
       tq_activeTimers = [], tq_cancelingTimers = [], tq_settime = []\<rparr>),
     tw_ticks = 0, tl_flag = 0, tl_out = [], tl_cnt = 0, tl_toCancel = (0, 0)\<rparr>"

definition three_seconds :: clock where
  "three_seconds n = 3000000 * int n"

definition sample_args :: loop_args where
  "sample_args = \<lparr>la_timerfd = 4, la_channel = 1, la_wakeupFd = 5, la_wakeupChannel = 2, la_quit = True, la_calling = False\<rparr>"

definition sample_timeout :: poll_answer where
  "sample_timeout = \<lparr>pa_nums = 0, pa_revents = [0, 0], pa_now = 0\<rparr>"

lemma sample_tests_ready: "test_ready (\<lambda>_. 1) sample_args sample_tests" "tw_ticks sample_tests = 0" "idle_answer sample_timeout"
  by (auto simp: test_ready_def sample_tests_def sample_args_def uintptr_max_def idle_answer_def sample_timeout_def)

lemma queue_order_witness:
  "\<exists>s'. testQueue three_seconds (\<lambda>_. 1) 3 sample_args [sample_timeout, timer_answer 0, timer_answer 0, sample_timeout] 0 sample_tests = Inr (True, s')
    \<and> map snd (tl_out s') = [0, 1, 1, 2, 3, 3]"
proof -
  have c: "three_seconds (tw_ticks sample_tests) + 2000000 \<le> three_seconds (tw_ticks sample_tests + 2)"
    "three_seconds (tw_ticks sample_tests + 3) + 3000000 \<le> three_seconds (tw_ticks sample_tests + 5)"
    by (simp_all add: three_seconds_def sample_tests_ready)
  have "\<forall>a\<in>set [sample_timeout]. idle_answer a" "\<forall>a\<in>set []. idle_answer a" by (simp_all add: sample_tests_ready(3))
  from queue_order [OF sample_tests_ready(1) this c order_refl, of 0 0 0 "[sample_timeout]"] show ?thesis by auto
qed

section \<open>\<open>testTimer\<close>\<close>

lemma cancel_turn:
  assumes rest: "resting l A s" and one: "one_timer l q t s" and q: "q < uintptr_max" and t: "tm_callBack t = CancelSelf"
    and cnt: "tl_cnt s = 0" and mine: "tl_toCancel s = (q, tw_created s)" and due: "tm_expiration t \<le> clock (tw_ticks s)"
  shows "\<exists>x. loop_turn (test_run clock new l (Suc (Suc (Suc n)))) (\<lambda>cb _. test_run clock new l (Suc (Suc (Suc n))) cb) l (timer_answer now) s = Inr x
    \<and> resting l A x \<and> no_timer l x \<and> tl_cnt x = 1 \<and> tw_timers x q = None"
proof -
  let ?run = "test_run clock new l (Suc (Suc (Suc n)))" and ?handled = "upd_chan (la_channel A) (\<lambda>ch. ch\<lparr>ch_eventHanding := False\<rparr>)"
  from timer_turn [OF rest, of ?run now] obtain p where p: "resting l A p" "same_tests s p"
    and turn: "\<And>v. ?run (TimerHandleRead l) p = Inr v \<Longrightarrow> chans v = chans p \<Longrightarrow>
      loop_turn ?run (\<lambda>cb _. ?run cb) l (timer_answer now) s = doPendingFunctors ?run l (?handled v)" by blast
  note P = same_tests_view [OF p(2)]
  have pr: "isInLoopThread l p" "pending_of l p = []" "\<not> calling_of l p" "watches l A p" "\<not> lp_quit (w_loops p l)"
    using p(1) by (simp_all add: resting_def)
  let ?Q = "\<lambda>v :: 'a test_loop_scheme. isInLoopThread l v \<and> pending_of l v = [] \<and> \<not> calling_of l v \<and> tl_cnt v = 1 \<and> stays l p v"
  have cb: "\<exists>v. test_run clock new l (Suc (Suc n)) (tm_callBack t) x = Inr v \<and> no_timer l v \<and> tw_timers v q = Some t
      \<and> (\<not> tm_repeat t \<or> (q, tw_created v) \<in> set (tq_cancelingTimers (tw_queues v l))) \<and> ?Q v"
    if x: "tests_same p x" "firing l q t x" "tw_ticks x = Suc (tw_ticks p)" "tw_created x = tw_created p" for x
  proof -
    let ?y = "x\<lparr>tw_ticks := Suc (tw_ticks x), tl_cnt := 1\<rparr>"
    have y: "test_print clock l x = ?y" using x(1) cnt P(6) by (simp add: test_print_def clock_now_def tests_same_def)
    have here: "isInLoopThread l ?y" using tests_same_view [OF x(1), of l] pr(1) by (simp add: isInLoopThread_def)
    let ?v = "upd_queue l (\<lambda>q. q\<lparr>tq_cancelingTimers := [tl_toCancel x]\<rparr>) ?y"
    have tc: "tl_toCancel x = (q, tw_created x)" using x(1,4) mine P(7,9) by (simp add: tests_same_def)
    have "test_run clock new l (Suc (Suc n)) CancelSelf x = Inr ?v"
      using here x(2) tc by (simp add: test_run.simps(2) cancelSelf_def Let_def y timer_cancel_def runInLoop_def
          timer_cancelInLoop_def assertInLoopThread_in firing_def no_timer_def) (simp add: upd_queue_def)
    moreover have "no_timer l ?v" "tw_timers ?v q = Some t" "(q, tw_created ?v) \<in> set (tq_cancelingTimers (tw_queues ?v l))"
      using x(2) tc by (simp_all add: firing_def no_timer_def upd_queue_sel)
    moreover have "?Q ?v" using here tests_same_view [OF x(1), of l] pr(2,3) x(1)
      by (simp add: tests_same_def isInLoopThread_def view_defs upd_queue_def stays_def)
    ultimately show ?thesis using t by auto
  qed
  have one': "one_timer l q t p" "tm_expiration t \<le> clock (tw_ticks p)" using one due by (simp_all only: P)
  from fired [where run = "test_run clock new l (Suc (Suc n))" and Q = ?Q and clock = clock, OF pr(1) one'(1) q one'(2) cb] obtain v where
    v: "timer_handleRead clock (test_run clock new l (Suc (Suc n))) l p
      = Inr (upd_timer q None (upd_queue l (\<lambda>q. q\<lparr>tq_callingExpiredTimers := False\<rparr>) v))" "no_timer l v" "?Q v" by blast
  let ?w = "upd_timer q None (upd_queue l (\<lambda>q. q\<lparr>tq_callingExpiredTimers := False\<rparr>) v)"
  have w: "no_timer l ?w" "tw_timers ?w q = None" "?Q ?w"
    using v(2,3) by (simp_all add: tests_view upd_timer_sel upd_queue_sel)
  have fire: "?run (TimerHandleRead l) p = Inr ?w" using v(1) by (simp add: test_run.simps(2) Let_def)
  have sw: "chans ?w = chans p" "lp_poller (w_loops ?w l) = lp_poller (w_loops p l)" "\<not> lp_quit (w_loops ?w l)"
    using w(3) pr(5) by (simp_all add: stays_def)
  have "pending_of l (?handled ?w) = []" using w(3) by (simp add: chan_only)
  from no_pending [OF this, of ?run] obtain x where x: "doPendingFunctors ?run l (?handled ?w) = Inr x" "same_tests (?handled ?w) x"
    "chans x = chans (?handled ?w)" "\<not> calling_of l x" "pending_of l x = []" "lp_poller (w_loops x l) = lp_poller (w_loops (?handled ?w) l)"
    "lp_quit (w_loops x l) = lp_quit (w_loops (?handled ?w) l)" "isInLoopThread l x = isInLoopThread l (?handled ?w)"
    by (elim exE conjE) (rule that)
  have "watches l A x" using watches_handled [OF pr(4) sw(1,2)] x(3,6) by (simp add: watches_def)
  moreover have "\<not> lp_quit (w_loops x l)" using x(7) sw(3) by (simp add: loop_simps)
  moreover have "isInLoopThread l x" using x(8) w(3) by (simp add: chan_only)
  ultimately have "resting l A x" using x(4,5) by (simp add: resting_def)
  then show ?thesis using turn [OF fire sw(1)] x(1) w same_tests_view [OF x(2)] by (intro exI [of _ x]) (simp add: chan_only)
qed

text \<open>\<open>testTimer\<close> of src/main.cpp: the repeating timer that its own callback cancels is not filed again. The
  callback runs once, the timer is freed and the loop has no other; as \<open>print\<close> quits the loop only when
  it is called for the twelfth time, the loop goes on for as long as its polls are answered.\<close>

theorem timer_cancels_itself:
  assumes "test_ready new A s" and "\<forall>a\<in>set idle1. idle_answer a" and "\<forall>a\<in>set idle2. idle_answer a"
    and "clock (tw_ticks s) + 1000000 \<le> clock (tw_ticks s + 2)" and "3 \<le> n"
  shows "\<exists>s' p. testTimer clock new n A (idle1 @ timer_answer now # idle2) l s = Inr (False, s') \<and> tl_cnt s' = 1
    \<and> no_timer l s' \<and> pending_of l s' = [] \<and> p \<in> range new \<and> tw_timers s' p = None"
proof -
  obtain m where "n = 3 + m" using assms(5) le_Suc_ex by blast
  then have n: "n = Suc (Suc (Suc m))" by simp
  let ?run = "test_run clock new l n"
  have s: "w_loopInThread s (w_tid s) = None" "tl_cnt s = 0" and new: "range new \<subseteq> {..<uintptr_max}" using assms(1) by (simp_all add: test_ready_def)
  have "0 < n" using assms(5) by simp
  from first_timer [OF assms(1) s(1) this, of l clock CancelSelf 1000000 "(1, 0)"] obtain u v where
    u: "test_loop_new A l s = Inr u"
      "addTimer ?run (new u) CancelSelf (clock (tw_ticks u) + 1000000) (1, 0) l (u\<lparr>tw_ticks := Suc (tw_ticks u)\<rparr>) = Inr ((new u, tw_created v), v)"
    and v: "\<not> lp_looping (w_loops v l)" "isInLoopThread l v" "tw_ticks v = tw_ticks s + 2" "tl_cnt v = tl_cnt s"
      "one_timer l (new u) \<lparr>tm_callBack = CancelSelf, tm_expiration = clock (tw_ticks s) + 1000000, tm_interval = (1, 0),
        tm_repeat = double_positive (1, 0), tm_sequence = tw_created s\<rparr> v" (is "one_timer l _ ?t v")
      "resting l A (upd_loop l (\<lambda>lp. lp\<lparr>lp_looping := True, lp_quit := False\<rparr>) v)"
    by (elim exE conjE) (rule that)
  let ?w = "v\<lparr>tl_toCancel := (new u, tw_created v)\<rparr>"
  let ?v = "upd_loop l (\<lambda>lp. lp\<lparr>lp_looping := True, lp_quit := False\<rparr>) ?w"
  have w: "\<not> lp_looping (w_loops ?w l)" "isInLoopThread l ?w" using v(1,2) by (simp_all add: isInLoopThread_def)
  have run: "testTimer clock new n A answers l s
      = bnd (loop_while ?run (\<lambda>cb _. ?run cb) l answers ?v) (\<lambda>(ended, s). let s = if ended then upd_loop l (\<lambda>lp. lp\<lparr>lp_looping := False\<rparr>) s else s in
          if ended then bnd (leave_scope l s) (\<lambda>s. Inr (True, s)) else Inr (False, s))" for answers
    unfolding testTimer_def Let_def u(1) bnd_Inr runEvery_def clock_now_def prod.case
    by (simp add: addTime_seconds u(2) loop_entered [OF w] bnd_assoc case_prod_beta del: One_nat_def)
      (rule bnd_cong, simp_all add: case_prod_beta)
  have rest: "resting l A ?v" using v(6) by (simp add: resting_def watches_def loop_simps view_defs isInLoopThread_def)
  from idle_turns [OF rest assms(2), of ?run "\<lambda>cb _. ?run cb" "timer_answer now # idle2"] obtain a where
    a: "loop_while ?run (\<lambda>cb _. ?run cb) l (idle1 @ timer_answer now # idle2) ?v = loop_while ?run (\<lambda>cb _. ?run cb) l (timer_answer now # idle2) a"
      "resting l A a" "same_tests ?v a" by blast
  note B = same_tests_view [OF a(3)]
  have q: "new u < uintptr_max" using new by auto
  have one: "one_timer l (new u) ?t a" "tl_cnt a = 0" "tl_toCancel a = (new u, tw_created a)" "tm_expiration ?t \<le> clock (tw_ticks a)"
    using v(3-5) s(2) assms(4) unfolding B by (simp_all add: loop_only one_timer_def) (simp_all add: upd_loop_def)
  from cancel_turn [where t = ?t and n = m and new = new and clock = clock, OF a(2) one(1) q _ one(2,3,4), of now] obtain x where
    x: "loop_turn ?run (\<lambda>cb _. ?run cb) l (timer_answer now) a = Inr x" "resting l A x" "no_timer l x" "tl_cnt x = 1"
      "tw_timers x (new u) = None" unfolding n by auto
  from idle_turns [OF x(2) assms(3), of ?run "\<lambda>cb _. ?run cb" "[]"] obtain y where
    y: "loop_while ?run (\<lambda>cb _. ?run cb) l idle2 x = Inr (lp_quit (w_loops y l), y)" "resting l A y" "same_tests x y" by auto
  have "testTimer clock new n A (idle1 @ timer_answer now # idle2) l s = Inr (False, y)"
    using a(2) x(1) y(1,2) by (simp add: run a(1) resting_def)
  then show ?thesis using x(3-5) y(2) same_tests_view [OF y(3)] by (intro exI [of _ y] exI [of _ "new u"]) (simp add: resting_def)
qed

lemma timer_cancels_itself_witness:
  "\<exists>s'. testTimer three_seconds (\<lambda>_. 1) 3 sample_args [timer_answer 0, sample_timeout] 0 sample_tests = Inr (False, s') \<and> tl_cnt s' = 1 \<and> no_timer 0 s'"
proof -
  have c: "three_seconds (tw_ticks sample_tests) + 1000000 \<le> three_seconds (tw_ticks sample_tests + 2)"
    by (simp add: three_seconds_def sample_tests_ready)
  have "\<forall>a\<in>set []. idle_answer a" "\<forall>a\<in>set [sample_timeout]. idle_answer a" by (simp_all add: sample_tests_ready(3))
  from timer_cancels_itself [OF sample_tests_ready(1) this c order_refl, of 0 0] show ?thesis by auto
qed

end
