(* ===== verification/UnitTest.thy ===== *)
theory UnitTest
  imports Decimal
begin

text \<open>
  The test harness of src/unitTest.h: the table of tests that the macro \<open>TEST\<close> fills while the
  static objects of a file are initialised, \<open>RunAllTests\<close>, the assertions of \<open>Tester\<close>, and the
  tests src/main.cpp registers and runs. What is printed is kept in the state, line by line.
\<close>

section \<open>The table of tests\<close>

text \<open>A test: its name, and the function, named by a number, which the argument \<open>run\<close> of the definitions
  below calls. The table is a null pointer until the first registration.\<close>

record test =
  t_name :: string
  t_func :: nat

record test_world =
  ut_out :: "string list"

definition say_line :: "string \<Rightarrow> 'z test_world_scheme \<Rightarrow> 'z test_world_scheme" where
  "say_line line s = s\<lparr>ut_out := ut_out s @ [line]\<rparr>"

definition RegisterTest :: "string \<Rightarrow> nat \<Rightarrow> test list option \<Rightarrow> bool \<times> test list option" where
  "RegisterTest name func tests =
     (let tests = (if tests = None then Some [] else tests);
          t = \<lparr>t_name = name, t_func = func\<rparr>
      in (True, map_option (\<lambda>ts. ts @ [t]) tests))"

text \<open>The body of the loop of \<open>RunAllTests\<close>, with the number of the tests that have run.\<close>

definition run_test ::
  "string option \<Rightarrow> (nat \<Rightarrow> 'z test_world_scheme \<Rightarrow> 'z test_world_scheme res) \<Rightarrow> test
    \<Rightarrow> nat \<times> 'z test_world_scheme \<Rightarrow> (nat \<times> 'z test_world_scheme) res" where
  "run_test match run t = (\<lambda>(nums, s).
     if match \<noteq> None \<and> t_name t \<noteq> the match then Inr (nums, s)
     else bnd (run (t_func t) (say_line (''========== test '' @ t_name t) s)) (\<lambda>s. Inr (nums + 1, s)))"

definition RunAllTests ::
  "string option \<Rightarrow> (nat \<Rightarrow> 'z test_world_scheme \<Rightarrow> 'z test_world_scheme res) \<Rightarrow> test list option
    \<Rightarrow> 'z test_world_scheme \<Rightarrow> 'z test_world_scheme res" where
  "RunAllTests match run tests s =
     (case tests of None \<Rightarrow> Inl BadPointer
      | Some ts \<Rightarrow>
          if length ts \<noteq> 0 then
            bnd (fold_res (run_test match run) ts (0, s)) (\<lambda>(nums, s).
            Inr (say_line (''========== Passed '' @ dec nums) s))
          else Inr s)"

section \<open>Assertions\<close>

text \<open>A \<open>Tester\<close> is a temporary: its destructor runs at the end of the assertion.\<close>

record tester =
  te_ok :: bool
  te_fname :: string
  te_line :: nat
  te_ss :: string

definition tester_new :: "string \<Rightarrow> nat \<Rightarrow> tester" where
  "tester_new f l = \<lparr>te_ok = True, te_fname = f, te_line = l, te_ss = []\<rparr>"

definition tester_Is :: "bool \<Rightarrow> string \<Rightarrow> tester \<Rightarrow> tester" where
  "tester_Is flag msg t = (if \<not> flag then t\<lparr>te_ss := te_ss t @ '' '' @ msg, te_ok := False\<rparr> else t)"

definition tester_IsEq :: "('a \<Rightarrow> string) \<Rightarrow> 'a \<Rightarrow> 'a \<Rightarrow> tester \<Rightarrow> tester" where
  "tester_IsEq shown x y t =
     (if \<not> x = y then t\<lparr>te_ss := te_ss t @ ''fail '' @ shown x @ '' == '' @ shown y, te_ok := False\<rparr> else t)"

definition tester_put :: "string \<Rightarrow> tester \<Rightarrow> tester" where
  "tester_put x t = (if \<not> te_ok t then t\<lparr>te_ss := te_ss t @ '' '' @ x\<rparr> else t)"

text \<open>What the destructor prints, and whether it exits.\<close>

definition tester_destroy :: "tester \<Rightarrow> string list \<times> unit res" where
  "tester_destroy t =
     (if \<not> te_ok t then
        ([''ASSERT FAILED '' @ te_fname t @ '' '' @ dec (te_line t) @ '' '' @ te_ss t], Inl ExitFailure)
      else ([], Inr ()))"

section \<open>What the harness does\<close>

definition selected :: "string option \<Rightarrow> test list \<Rightarrow> test list" where
  "selected match ts = filter (\<lambda>t. match = None \<or> match = Some (t_name t)) ts"

text \<open>Announce a test and run it.\<close>

definition announced ::
  "(nat \<Rightarrow> 'z test_world_scheme \<Rightarrow> 'z test_world_scheme res) \<Rightarrow> test \<Rightarrow> 'z test_world_scheme \<Rightarrow> 'z test_world_scheme res" where
  "announced run t s = run (t_func t) (say_line (''========== test '' @ t_name t) s)"

definition registered_tests :: "(string \<times> nat) list \<Rightarrow> test list option" where
  "registered_tests regs = fold (\<lambda>(name, func) tests. snd (RegisterTest name func tests)) regs None"

lemma registered_from:
  "fold (\<lambda>(name, func) tests. snd (RegisterTest name func tests)) regs (Some ts)
    = Some (ts @ map (\<lambda>(name, func). \<lparr>t_name = name, t_func = func\<rparr>) regs)"
  by (induction regs arbitrary: ts) (auto simp: RegisterTest_def)

lemma registered_eq:
  "registered_tests regs
    = (if regs = [] then None else Some (map (\<lambda>(name, func). \<lparr>t_name = name, t_func = func\<rparr>) regs))"
proof (cases regs)
  case (Cons r rs)
  obtain name func where r: "r = (name, func)" by force
  have "snd (RegisterTest name func None) = Some [\<lparr>t_name = name, t_func = func\<rparr>]" by (simp add: RegisterTest_def)
  then show ?thesis by (simp add: registered_tests_def Cons r registered_from)
qed (simp add: registered_tests_def)

lemma run_test_eq:
  "run_test match run t (n, s)
    = (if match = None \<or> match = Some (t_name t) then bnd (announced run t s) (\<lambda>s. Inr (Suc n, s)) else Inr (n, s))"
  by (cases match) (auto simp: run_test_def announced_def)

lemma run_tests_eq:
  "fold_res (run_test match run) ts (n, s)
    = bnd (fold_res (announced run) (selected match ts) s) (\<lambda>s'. Inr (n + length (selected match ts), s'))"
proof (induction ts arbitrary: n s)
  case (Cons t ts)
  show ?case
  proof (cases "match = None \<or> match = Some (t_name t)")
    case True
    then have "selected match (t # ts) = t # selected match ts" by (auto simp: selected_def)
    then show ?thesis using True Cons by (simp add: run_test_eq bnd_assoc)
  next
    case False
    then have "selected match (t # ts) = selected match ts" by (auto simp: selected_def)
    then show ?thesis using False Cons by (simp only: run_test_eq fold_res.simps if_False bnd_Inr)
  qed
qed (simp add: selected_def)

text \<open>The checks of one assertion in the order they are chained, and a reference for what comes of them:
  nothing is recorded before the first check that fails, and every message after it is.\<close>

datatype check = Is bool string | IsEq string string | Put string

fun chained :: "check \<Rightarrow> tester \<Rightarrow> tester" where
  "chained (Is flag msg) t = tester_Is flag msg t"
| "chained (IsEq x y) t = tester_IsEq id x y t"
| "chained (Put x) t = tester_put x t"

fun check_holds :: "check \<Rightarrow> bool" where
  "check_holds (Is flag msg) = flag"
| "check_holds (IsEq x y) \<longleftrightarrow> x = y"
| "check_holds (Put x) = True"

fun after_failure :: "check \<Rightarrow> string" where
  "after_failure (Is flag msg) = (if flag then [] else '' '' @ msg)"
| "after_failure (IsEq x y) = (if x = y then [] else ''fail '' @ x @ '' == '' @ y)"
| "after_failure (Put x) = '' '' @ x"

fun complaint :: "check list \<Rightarrow> string" where
  "complaint [] = []"
| "complaint (c # cs) = (if check_holds c then complaint cs else after_failure c @ concat (map after_failure cs))"

lemma chained_failed:
  "\<not> te_ok t \<Longrightarrow> fold chained cs t = t\<lparr>te_ss := te_ss t @ concat (map after_failure cs)\<rparr>"
proof (induction cs arbitrary: t)
  case (Cons c cs)
  have "chained c t = t\<lparr>te_ss := te_ss t @ after_failure c\<rparr>"
    using Cons.prems by (cases c) (simp_all add: tester_Is_def tester_IsEq_def tester_put_def)
  then show ?case using Cons by simp
qed simp

lemma chained_ok:
  "te_ok t \<Longrightarrow> fold chained cs t
    = (if list_all check_holds cs then t else t\<lparr>te_ss := te_ss t @ complaint cs, te_ok := False\<rparr>)"
proof (induction cs)
  case (Cons c cs)
  show ?case
  proof (cases "check_holds c")
    case True
    then have "chained c t = t"
      using Cons.prems by (cases c) (simp_all add: tester_Is_def tester_IsEq_def tester_put_def)
    then show ?thesis using Cons True by simp
  next
    case False
    then have "chained c t = t\<lparr>te_ss := te_ss t @ after_failure c, te_ok := False\<rparr>"
      by (cases c) (simp_all add: tester_Is_def tester_IsEq_def tester_put_def)
    then show ?thesis using False by (simp add: chained_failed)
  qed
qed simp

section \<open>The tests of the program\<close>

text \<open>The tests of src/main.cpp, in the order of their registration.\<close>

definition main_tests :: "(string \<times> nat) list" where
  "main_tests = [(''testHttp'', 0), (''testHttpRequest'', 1), (''testConnector'', 2), (''testTcpServer'', 3),
     (''testAccept'', 4), (''testNetAddress'', 5), (''testEventLoopThread'', 6), (''testSafeTimeCall'', 7),
     (''testQueue'', 8), (''testTimer'', 9), (''testLog'', 10)]"

definition program_main ::
  "(nat \<Rightarrow> 'z test_world_scheme \<Rightarrow> 'z test_world_scheme res) \<Rightarrow> 'z test_world_scheme \<Rightarrow> 'z test_world_scheme res" where
  "program_main run s = RunAllTests (Some ''testHttp'') run (registered_tests main_tests) s"

lemma main_selects: "selected (Some ''testHttp'') (map (\<lambda>(name, func). \<lparr>t_name = name, t_func = func\<rparr>) main_tests)
    = [\<lparr>t_name = ''testHttp'', t_func = 0\<rparr>]"
  by (simp add: selected_def main_tests_def)

section \<open>The properties\<close>

text \<open>The test harness (src/unitTest.h, src/main.cpp). \<open>RunAllTests\<close> announces and runs, in the order of
  registration, the registered tests that have the given name, or all of them when none is given, and
  prints how many there were if each returned; with nothing registered it reads through a null
  pointer. An assertion lets the program go on exactly when all its checks hold; otherwise it prints
  the file, the line, the first check that failed and everything chained behind it, and exits. The
  program runs the HTTP server and no other test.\<close>

theorem tests_run:
  "RunAllTests match run (registered_tests regs) s
     = (if regs = [] then Inl BadPointer
        else let ts = selected match (map (\<lambda>(name, func). \<lparr>t_name = name, t_func = func\<rparr>) regs) in
          bnd (fold_res (announced run) ts s) (\<lambda>s'. Inr (say_line (''========== Passed '' @ dec (length ts)) s')))
   \<and> tester_destroy (fold chained checks (tester_new file line))
     = (if list_all check_holds checks then ([], Inr ())
        else ([''ASSERT FAILED '' @ file @ '' '' @ dec line @ '' '' @ complaint checks], Inl ExitFailure))
   \<and> program_main run s
     = bnd (announced run \<lparr>t_name = ''testHttp'', t_func = 0\<rparr> s) (\<lambda>s'. Inr (say_line ''========== Passed 1'' s'))"
proof (intro conjI)
  show "RunAllTests match run (registered_tests regs) s
     = (if regs = [] then Inl BadPointer
        else let ts = selected match (map (\<lambda>(name, func). \<lparr>t_name = name, t_func = func\<rparr>) regs) in
          bnd (fold_res (announced run) ts s) (\<lambda>s'. Inr (say_line (''========== Passed '' @ dec (length ts)) s')))"
    by (simp add: RunAllTests_def registered_eq run_tests_eq bnd_assoc Let_def)
next
  show "tester_destroy (fold chained checks (tester_new file line))
     = (if list_all check_holds checks then ([], Inr ())
        else ([''ASSERT FAILED '' @ file @ '' '' @ dec line @ '' '' @ complaint checks], Inl ExitFailure))"
    by (simp add: chained_ok tester_new_def tester_destroy_def)
next
  have "dec 1 = ''1''" by (simp add: dec.simps)
  then have "''========== Passed '' @ dec 1 = ''========== Passed 1''" by simp
  moreover have "main_tests \<noteq> []" by (simp add: main_tests_def)
  ultimately show "program_main run s
     = bnd (announced run \<lparr>t_name = ''testHttp'', t_func = 0\<rparr> s) (\<lambda>s'. Inr (say_line ''========== Passed 1'' s'))"
    by (simp add: program_main_def RunAllTests_def registered_eq run_tests_eq main_selects bnd_assoc)
qed

end
