(* ===== verification/TestSockets.thy ===== *)
theory TestSockets
  imports Acceptor Connector
begin

text \<open>
  The tests \<open>testNetAddress\<close>, \<open>testAccept\<close> and \<open>testConnector\<close> of src/main.cpp: what the first prints, and the
  callbacks the others give an acceptor and a connector.
\<close>

section \<open>The callbacks\<close>

definition testNetAddress :: string where
  "testNetAddress = toHostPort (address_of_port 32767)"

text \<open>\<open>newConnCallBack\<close> ignores how much of the greeting was written.\<close>

definition newConnCallBack :: "kernel \<Rightarrow> int \<Rightarrow> net_address \<Rightarrow> 'z sock_world_scheme \<Rightarrow> 'z sock_world_scheme" where
  "newConnCallBack K connfd addr s =
     (let s = snd (syscall K (SysWrite connfd (take 13 (''how are you?'' @ [CHR 0x0A]))) s)
      in sys_close K connfd s)"

text \<open>The callback of \<open>testConnector\<close> quits the loop \<open>globelLoop\<close> and leaves the descriptor open.\<close>

definition connectionCallback :: "nat \<Rightarrow> int \<Rightarrow> ('cb, 'z) world_scheme \<Rightarrow> ('cb, 'z) world_scheme" where
  "connectionCallback globelLoop sockfd s = loop_quit globelLoop s"

definition testAccept_handler :: "kernel \<Rightarrow> nat \<Rightarrow> 'z acceptor_world_scheme \<Rightarrow> 'z acceptor_world_scheme res" where
  "testAccept_handler K = acceptor_handleRead K (\<lambda>_ connfd addr s. Inr (newConnCallBack K connfd addr s))"

definition testConnector_env :: "kernel \<Rightarrow> clock \<Rightarrow> (closure \<Rightarrow> 'z connector_world_scheme \<Rightarrow> 'z connector_world_scheme res)
    \<Rightarrow> nat \<Rightarrow> nat \<Rightarrow> nat \<Rightarrow> ('z connector_world_scheme) connector_env" where
  "testConnector_env K clock run globelLoop ch p =
     \<lparr>ke_kernel = K, ke_clock = clock, ke_run = run,
      ke_connected = (\<lambda>_ sockfd s. Inr (connectionCallback globelLoop sockfd s)), ke_channel = ch, ke_timer = p\<rparr>"

section \<open>What the tests do\<close>

lemma netAddress_test: "testNetAddress = ''0.0.0.0:32767''"
proof -
  have "unat (htons (sin_port (address_of_port 32767))) = 32767" by (simp add: port_of_address)
  moreover have "bytes_ok (address_of_port 32767)" by (simp add: bytes_ok_def address_of_port_def)
  ultimately show ?thesis
    unfolding testNetAddress_def
    by (simp add: toHostPort_def Let_def promoted_port snprintf_def INET_ADDRSTRLEN_def)
      (simp add: address_of_port_def dec.simps)
qed

text \<open>\<open>testAccept\<close> greets each client with one call of \<open>write\<close> and closes its descriptor, nothing else.\<close>

lemma accept_test:
  assumes "isInLoopThread (ac_loop (aw_acceptors s a)) s" and "ac_newConnCallBack (aw_acceptors s a) = Some cb"
    and ans: "ans = K (sk_trace s) (SysAccept (ac_fd (aw_acceptors s a)))" "0 \<le> an_ret ans"
  shows "\<exists>s' w c. testAccept_handler K a s = Inr s'
    \<and> sk_trace s' = sk_trace s @ [(SysAccept (ac_fd (aw_acceptors s a)), ans),
        (SysWrite (an_ret ans) (''how are you?'' @ [CHR 0x0A]), w), (SysClose (an_ret ans), c)]
    \<and> aw_acceptors s' = aw_acceptors s \<and> w_loops s' = w_loops s"
proof -
  let ?t = "snd (syscall K (SysAccept (ac_fd (aw_acceptors s a))) s)"
  have "testAccept_handler K a s = Inr (newConnCallBack K (an_ret ans) (an_addr ans) ?t)"
    using assms by (simp add: testAccept_handler_def acceptor_handleRead_eq [OF assms(1)] Let_def)
  then show ?thesis
    by (intro exI conjI, assumption) (simp_all add: newConnCallBack_def sys_close_def Let_def syscall_def ans(1))
qed

text \<open>\<open>testConnector\<close> ends with its first connection: the loop does not turn again.\<close>

lemma connector_test:
  fixes s :: "'z connector_world_scheme" and k l ch p :: nat and K :: kernel and clock :: clock
    and run' :: "closure \<Rightarrow> 'z connector_world_scheme \<Rightarrow> 'z connector_world_scheme res"
  defines "E \<equiv> testConnector_env K clock run' l ch p"
  assumes "ct_state (kw_connectors s k) = kConnecting" and "removeAndResetChannel k s = Inr (sockfd, s1)"
    and "getSocketError K sockfd s1 = (0, s2)" and "isSelfConnect K sockfd s2 = (False, s3)"
    and "ct_connect (kw_connectors s3 k)" and "ct_connectCallback (kw_connectors s3 k) = Some cb"
  shows "\<exists>s'. connector_handleWrite E k s = Inr s' \<and> ct_state (kw_connectors s' k) = kConnected
    \<and> loop_while run runRead l answers s' = Inr (True, s')"
proof -
  let ?s = "connectionCallback l sockfd (upd_connector k (setStatus kConnected) s3)"
  have "connector_handleWrite E k s = Inr ?s"
    using assms(2-7) by (simp add: connector_handleWrite_def E_def testConnector_env_def Let_def upd_connector_def setStatus_def)
  moreover have "ct_state (kw_connectors ?s k) = kConnected" "lp_quit (w_loops ?s l)"
    by (simp_all add: connectionCallback_def loop_quit_def set_quit_def wakeup_def upd_loop_def upd_connector_def setStatus_def Let_def)
  moreover from this(2) have "loop_while run runRead l answers ?s = Inr (True, ?s)" by (cases answers) simp_all
  ultimately show ?thesis by blast
qed

end
