(* ===== verification/Observable.thy ===== *)
theory Observable
  imports Prelude "HOL-Library.Sublist"
begin

text \<open>
  The observers of src/other/Observable.h and src/other/Observable.cpp: a list of weak pointers, and
  \<open>notifyAll\<close>, which turns each into a shared pointer for the time of the call and erases those that
  have expired. Objects are named by addresses that are not used again; an object lives as long as
  it has owners, or is held by \<open>notifyAll\<close>. Other threads may let go of their pointers between any
  two steps; \<open>register_\<close> waits for the mutex \<open>notifyAll\<close> holds.
\<close>

section \<open>The list and its notification\<close>

text \<open>Where \<open>notifyAll\<close> is: at the head of its loop, or before or behind the call of \<open>update\<close>.\<close>

datatype notify_pc = Looking | Updating nat | Updated nat | Notified

record observable =
  ob_owners :: "nat \<Rightarrow> nat"
  ob_observers :: "nat list"
  ob_it :: nat
  ob_pc :: notify_pc
  ob_updates :: "nat list"
  ob_destroyed :: "nat list"

definition register_observer :: "nat \<Rightarrow> observable \<Rightarrow> observable" where
  "register_observer p S = S\<lparr>ob_observers := ob_observers S @ [p]\<rparr>"

text \<open>The shared pointer \<open>ob\<close> of the loop's body, and the number of owners of an object with it.\<close>

definition ob_held :: "notify_pc \<Rightarrow> nat \<Rightarrow> nat" where
  "ob_held pc p = (case pc of Updating q \<Rightarrow> if q = p then 1 else 0 | Updated q \<Rightarrow> if q = p then 1 else 0 | _ \<Rightarrow> 0)"

definition use_count :: "nat \<Rightarrow> observable \<Rightarrow> nat" where
  "use_count p S = ob_owners S p + ob_held (ob_pc S) p"

text \<open>The last owner destroys the object.\<close>

definition destroy_if_last :: "nat \<Rightarrow> observable \<Rightarrow> observable" where
  "destroy_if_last p S = (if use_count p S = 0 then S\<lparr>ob_destroyed := ob_destroyed S @ [p]\<rparr> else S)"

definition erase_at :: "nat \<Rightarrow> 'a list \<Rightarrow> 'a list" where
  "erase_at i xs = take i xs @ drop (Suc i) xs"

inductive notify_step :: "observable \<Rightarrow> observable \<Rightarrow> bool" where
  lock_live: "ob_pc S = Looking \<Longrightarrow> ob_it S < length (ob_observers S) \<Longrightarrow> p = ob_observers S ! ob_it S
    \<Longrightarrow> use_count p S \<noteq> 0 \<Longrightarrow> notify_step S (S\<lparr>ob_pc := Updating p\<rparr>)"
| lock_expired: "ob_pc S = Looking \<Longrightarrow> ob_it S < length (ob_observers S) \<Longrightarrow> use_count (ob_observers S ! ob_it S) S = 0
    \<Longrightarrow> notify_step S (S\<lparr>ob_observers := erase_at (ob_it S) (ob_observers S)\<rparr>)"
| update: "ob_pc S = Updating p \<Longrightarrow> notify_step S (S\<lparr>ob_updates := ob_updates S @ [p], ob_pc := Updated p\<rparr>)"
| forward: "ob_pc S = Updated p
    \<Longrightarrow> notify_step S (destroy_if_last p (S\<lparr>ob_it := Suc (ob_it S), ob_pc := Looking\<rparr>))"
| finished: "ob_pc S = Looking \<Longrightarrow> ob_it S = length (ob_observers S) \<Longrightarrow> notify_step S (S\<lparr>ob_pc := Notified\<rparr>)"

text \<open>Another thread lets go of a shared pointer it has.\<close>

inductive observer_step :: "observable \<Rightarrow> observable \<Rightarrow> bool" where
  notify: "notify_step S S' \<Longrightarrow> observer_step S S'"
| let_go: "0 < ob_owners S p
    \<Longrightarrow> observer_step S (destroy_if_last p (S\<lparr>ob_owners := (ob_owners S)(p := ob_owners S p - 1)\<rparr>))"

inductive_cases notify_stepE [elim]: "notify_step S S'"
inductive_cases observer_stepE [elim]: "observer_step S S'"

text \<open>The call of \<open>notifyAll\<close>.\<close>

definition notify_start :: "observable \<Rightarrow> observable" where
  "notify_start S = S\<lparr>ob_it := 0, ob_pc := Looking, ob_updates := []\<rparr>"

section \<open>What a notification does\<close>

lemma destroy_if_last_sel [simp]:
  "ob_owners (destroy_if_last p S) = ob_owners S" "ob_observers (destroy_if_last p S) = ob_observers S"
  "ob_it (destroy_if_last p S) = ob_it S" "ob_pc (destroy_if_last p S) = ob_pc S" "ob_updates (destroy_if_last p S) = ob_updates S"
  "use_count q (destroy_if_last p S) = use_count q S"
  "set (ob_destroyed (destroy_if_last p S)) = set (ob_destroyed S) \<union> (if use_count p S = 0 then {p} else {})"
  by (simp_all add: destroy_if_last_def use_count_def)

text \<open>The observers in front of the iterator are those updated. An object with an owner, the notification
  included, has not been destroyed. What is left of the list is what was updated and what was not
  visited yet; \<open>registered\<close> is the list at the start, and an object that still has owners was not dropped.\<close>

definition visited :: "observable \<Rightarrow> nat" where
  "visited S = (case ob_pc S of Updated p \<Rightarrow> Suc (ob_it S) | _ \<Rightarrow> ob_it S)"

definition so_far :: "nat list \<Rightarrow> nat \<Rightarrow> observable \<Rightarrow> bool" where
  "so_far registered passed S \<longleftrightarrow> passed \<le> length registered \<and> ob_observers S = ob_updates S @ drop passed registered
     \<and> subseq (ob_updates S) (take passed registered)
     \<and> (\<forall>p. ob_owners S p \<noteq> 0 \<longrightarrow> count_list (ob_updates S) p = count_list (take passed registered) p)"

definition notify_ok :: "nat list \<Rightarrow> observable \<Rightarrow> bool" where
  "notify_ok registered S \<longleftrightarrow> length (ob_updates S) = visited S
     \<and> (\<forall>p. use_count p S \<noteq> 0 \<longrightarrow> p \<notin> set (ob_destroyed S))
     \<and> (case ob_pc S of Looking \<Rightarrow> True
        | Updating p \<Rightarrow> ob_it S < length (ob_observers S) \<and> ob_observers S ! ob_it S = p
        | Updated p \<Rightarrow> True
        | Notified \<Rightarrow> ob_it S = length (ob_observers S))
     \<and> (\<exists>passed. so_far registered passed S)"

lemma so_far_next:
  assumes "so_far registered passed S" and "length (ob_updates S) < length (ob_observers S)"
  shows "passed < length registered" and "registered ! passed = ob_observers S ! length (ob_updates S)"
    and "take (Suc passed) registered = take passed registered @ [ob_observers S ! length (ob_updates S)]"
    and "drop passed registered = ob_observers S ! length (ob_updates S) # drop (Suc passed) registered"
proof -
  have o: "ob_observers S = ob_updates S @ drop passed registered" using assms(1) by (simp add: so_far_def)
  show p: "passed < length registered" using assms by (simp add: o)
  then show e: "registered ! passed = ob_observers S ! length (ob_updates S)" by (simp add: o nth_append)
  show "take (Suc passed) registered = take passed registered @ [ob_observers S ! length (ob_updates S)]"
    using p e by (simp add: take_Suc_conv_app_nth)
  show "drop passed registered = ob_observers S ! length (ob_updates S) # drop (Suc passed) registered"
    using Cons_nth_drop_Suc [OF p] e by simp
qed

lemma subseq_snoc: "subseq xs ys \<Longrightarrow> subseq xs (ys @ [y])"
  using list_emb_append_mono [of "(=)" xs ys "[]" "[y]"] by simp

lemma ob_held_simps [simp]:
  "ob_held Looking p = 0" "ob_held Notified p = 0" "ob_held (Updating q) p = (if q = p then 1 else 0)"
  "ob_held (Updated q) p = (if q = p then 1 else 0)"
  by (simp_all add: ob_held_def)

lemma notify_kept:
  assumes "notify_step S S'" and ok: "notify_ok registered S"
  shows "notify_ok registered S'"
proof -
  from ok obtain passed where f: "so_far registered passed S" and len: "length (ob_updates S) = visited S"
    and alive: "\<forall>p. use_count p S \<noteq> 0 \<longrightarrow> p \<notin> set (ob_destroyed S)"
    by (auto simp: notify_ok_def)
  from assms(1) show ?thesis
  proof cases
    case (lock_live p)
    then show ?thesis using f len alive
      by (auto simp: notify_ok_def visited_def use_count_def so_far_def)
  next
    case lock_expired
    have it: "length (ob_updates S) = ob_it S" using len lock_expired(2) by (simp add: visited_def)
    note n = so_far_next [OF f, unfolded it, OF lock_expired(3)]
    have dead: "ob_owners S (ob_observers S ! ob_it S) = 0" using lock_expired(4) by (simp add: use_count_def)
    have o: "ob_observers S = ob_updates S @ drop passed registered" using f by (simp add: so_far_def)
    have "erase_at (ob_it S) (ob_observers S) = ob_updates S @ drop (Suc passed) registered"
      unfolding erase_at_def o using n(1) by (simp add: it [symmetric])
    moreover have "subseq (ob_updates S) (take (Suc passed) registered)"
      using f unfolding n(3) so_far_def by (simp add: subseq_snoc)
    moreover have "count_list (ob_updates S) p = count_list (take (Suc passed) registered) p" if "ob_owners S p \<noteq> 0" for p
      using f that dead unfolding n(3) so_far_def by auto
    ultimately have "so_far registered (Suc passed) S'"
      using n(1) lock_expired(1) by (simp add: so_far_def)
    then show ?thesis using len alive lock_expired(1,2)
      by (auto simp: notify_ok_def visited_def use_count_def)
  next
    case (update p)
    then have it: "length (ob_updates S) = ob_it S" and at: "ob_it S < length (ob_observers S)" "ob_observers S ! ob_it S = p"
      using ok by (auto simp: notify_ok_def visited_def)
    note n = so_far_next [OF f, unfolded it, OF at(1), unfolded at(2)]
    have "so_far registered (Suc passed) S'"
      using f n(1) unfolding so_far_def update(1) n(3) by (simp add: n(4) list_emb_append_mono)
    then show ?thesis using alive update by (auto simp: notify_ok_def visited_def use_count_def it)
  next
    case (forward p)
    have "so_far registered passed S'" using f by (simp add: forward(1) so_far_def)
    then show ?thesis using alive len forward
      by (auto simp: notify_ok_def visited_def use_count_def split: if_splits)
  next
    case finished
    then show ?thesis using f len alive by (auto simp: notify_ok_def visited_def use_count_def so_far_def)
  qed
qed

lemma destroyed_kept:
  assumes "\<forall>p. use_count p S \<noteq> 0 \<longrightarrow> p \<notin> set (ob_destroyed S)"
  shows "\<forall>q. use_count q (destroy_if_last p S) \<noteq> 0 \<longrightarrow> q \<notin> set (ob_destroyed (destroy_if_last p S))"
  using assms by auto

lemma let_go_kept:
  assumes ok: "notify_ok registered S"
  shows "notify_ok registered (destroy_if_last p (S\<lparr>ob_owners := (ob_owners S)(p := ob_owners S p - 1)\<rparr>))"
proof -
  have "\<forall>q. use_count q (S\<lparr>ob_owners := (ob_owners S)(p := ob_owners S p - 1)\<rparr>) \<noteq> 0
      \<longrightarrow> q \<notin> set (ob_destroyed (S\<lparr>ob_owners := (ob_owners S)(p := ob_owners S p - 1)\<rparr>))"
    using ok by (fastforce simp: notify_ok_def use_count_def split: if_splits)
  note alive = destroyed_kept [OF this, of p]
  from ok show ?thesis
    unfolding notify_ok_def
    by (intro conjI alive) (auto simp: visited_def so_far_def split: notify_pc.splits)
qed

lemma observer_kept: "observer_step S S' \<Longrightarrow> notify_ok registered S \<Longrightarrow> notify_ok registered S'"
  by (auto elim!: observer_stepE intro: notify_kept let_go_kept [simplified])

definition notifying :: "nat list \<Rightarrow> observable \<Rightarrow> bool" where
  "notifying registered S \<longleftrightarrow> (\<exists>S0. S = notify_start S0 \<and> ob_observers S0 = registered
     \<and> (\<forall>p. ob_owners S0 p \<noteq> 0 \<longrightarrow> p \<notin> set (ob_destroyed S0)))"

lemma notifying_ok: "notifying registered S \<Longrightarrow> notify_ok registered S"
  by (auto simp: notifying_def notify_start_def notify_ok_def visited_def use_count_def so_far_def intro: exI [of _ 0])

interpretation observers: inductive_invariant "notifying registered" observer_step "notify_ok registered" for registered
  by unfold_locales (rule notifying_ok observer_kept, assumption+)+

text \<open>The loop has always a step to take, and cannot take steps for ever: what is ahead of the iterator
  shrinks, whatever the other threads let go of in between.\<close>

definition notify_left :: "observable \<Rightarrow> nat" where
  "notify_left S = 3 * (length (ob_observers S) - ob_it S)
     + (case ob_pc S of Looking \<Rightarrow> 3 | Updating _ \<Rightarrow> 2 | Updated _ \<Rightarrow> 1 | Notified \<Rightarrow> 0)"

lemma notify_progress:
  assumes "notify_ok registered S" and "ob_pc S \<noteq> Notified"
  shows "\<exists>S'. notify_step S S'"
proof (cases "ob_pc S")
  case Looking
  have "ob_it S \<le> length (ob_observers S)"
    using assms(1) Looking by (auto simp: notify_ok_def visited_def so_far_def)
  then show ?thesis using Looking lock_live lock_expired finished by (metis le_neq_implies_less)
qed (use assms(2) in \<open>auto intro: update forward\<close>)

lemma notify_terminates:
  assumes "notify_ok registered S" and "notify_step S S'"
  shows "notify_left S' < notify_left S"
  using assms(2)
proof cases
  case (forward p)
  then have "length (ob_updates S) = Suc (ob_it S)" "length (ob_updates S) \<le> length (ob_observers S)"
    using assms(1) by (auto simp: notify_ok_def visited_def so_far_def)
  then show ?thesis using forward by (simp add: notify_left_def)
qed (auto simp: notify_left_def erase_at_def)

lemma let_go_left: "notify_left (destroy_if_last p (S\<lparr>ob_owners := w\<rparr>)) = notify_left S"
  by (simp add: notify_left_def)

lemma notified_ok:
  assumes "notify_ok registered S" and "ob_pc S = Notified"
  shows "ob_observers S = ob_updates S" "subseq (ob_updates S) registered"
    "ob_owners S p \<noteq> 0 \<Longrightarrow> count_list (ob_updates S) p = count_list registered p"
proof -
  from assms obtain passed where f: "so_far registered passed S" and "length (ob_updates S) = length (ob_observers S)"
    by (auto simp: notify_ok_def visited_def)
  then have "passed = length registered" by (auto simp: so_far_def)
  with f show "ob_observers S = ob_updates S" "subseq (ob_updates S) registered"
    "ob_owners S p \<noteq> 0 \<Longrightarrow> count_list (ob_updates S) p = count_list registered p"
    by (simp_all add: so_far_def)
qed

lemma updating_alive: "notify_ok registered S \<Longrightarrow> ob_pc S = Updating p \<Longrightarrow> p \<notin> set (ob_destroyed S)"
  by (auto simp: notify_ok_def use_count_def)

section \<open>The property\<close>

text \<open>C37. \<open>Observable::notifyAll\<close> (src/other/Observable.cpp), with other threads letting go of their
  observers between any two of its steps: an object is never updated after its destruction; the
  loop always has a step to take until it ends, each of its steps brings the end nearer and
  nothing another thread does puts it off; and when it ends, the list holds exactly the observers
  that were updated, in the order of their registration, and every object that still has an owner
  was updated as often as it was registered. The expired pointers are gone from the list.\<close>

theorem observers_notified:
  assumes "reachable_from (notifying registered) observer_step S"
  shows "(\<forall>p. ob_pc S = Updating p \<longrightarrow> p \<notin> set (ob_destroyed S))
    \<and> (ob_pc S \<noteq> Notified \<longrightarrow> (\<exists>S'. notify_step S S'))
    \<and> (\<forall>S'. notify_step S S' \<longrightarrow> notify_left S' < notify_left S)
    \<and> (\<forall>S'. observer_step S S' \<longrightarrow> notify_left S' \<le> notify_left S)
    \<and> (ob_pc S = Notified \<longrightarrow> ob_observers S = ob_updates S \<and> subseq (ob_updates S) registered
        \<and> (\<forall>p. ob_owners S p \<noteq> 0 \<longrightarrow> count_list (ob_updates S) p = count_list registered p))"
proof -
  note ok = observers.always [OF assms]
  have "notify_left S' \<le> notify_left S" if "observer_step S S'" for S'
    using that notify_terminates [OF ok] by (fastforce simp: let_go_left)
  then show ?thesis
    using updating_alive [OF ok] notify_progress [OF ok] notify_terminates [OF ok] notified_ok [OF ok] by blast
qed

text \<open>Three observers, the second of which nobody owns any more, and the third let go of while the first is
  updated.\<close>

definition three_observers :: observable where
  "three_observers = register_observer 3 (register_observer 2 (register_observer 1
     \<lparr>ob_owners = (\<lambda>p. if p = 1 \<or> p = 3 then 1 else 0), ob_observers = [], ob_it = 0, ob_pc = Notified,
       ob_updates = [], ob_destroyed = [2]\<rparr>))"

text \<open>The step of the loop as a function.\<close>

definition notify_next :: "observable \<Rightarrow> observable" where
  "notify_next S = (case ob_pc S of
       Looking \<Rightarrow>
         if ob_it S < length (ob_observers S) then
           (let p = ob_observers S ! ob_it S
            in if use_count p S \<noteq> 0 then S\<lparr>ob_pc := Updating p\<rparr>
               else S\<lparr>ob_observers := erase_at (ob_it S) (ob_observers S)\<rparr>)
         else S\<lparr>ob_pc := Notified\<rparr>
     | Updating p \<Rightarrow> S\<lparr>ob_updates := ob_updates S @ [p], ob_pc := Updated p\<rparr>
     | Updated p \<Rightarrow> destroy_if_last p (S\<lparr>ob_it := Suc (ob_it S), ob_pc := Looking\<rparr>)
     | Notified \<Rightarrow> S)"

lemma notify_next_step:
  "ob_pc S \<noteq> Notified \<Longrightarrow> ob_it S \<le> length (ob_observers S) \<Longrightarrow> notify_step S (notify_next S)"
  by (cases "ob_pc S") (auto simp: notify_next_def Let_def intro: notify_step.intros)

definition let_go_of :: "nat \<Rightarrow> observable \<Rightarrow> observable" where
  "let_go_of p S = destroy_if_last p (S\<lparr>ob_owners := (ob_owners S)(p := ob_owners S p - 1)\<rparr>)"

lemma notify_chain:
  "observer_step\<^sup>*\<^sup>* S0 S \<Longrightarrow> ob_pc S \<noteq> Notified \<and> ob_it S \<le> length (ob_observers S)
    \<Longrightarrow> observer_step\<^sup>*\<^sup>* S0 (notify_next S)"
  using rtranclp.rtrancl_into_rtrancl notify notify_next_step by metis

lemma let_go_chain:
  "observer_step\<^sup>*\<^sup>* S0 S \<Longrightarrow> 0 < ob_owners S p \<Longrightarrow> observer_step\<^sup>*\<^sup>* S0 (let_go_of p S)"
  unfolding let_go_of_def using rtranclp.rtrancl_into_rtrancl let_go by metis

text \<open>The notification up to the call of \<open>update\<close>, and the rest of it after the thread with the third
  observer has let go.\<close>

definition third_let_go :: observable where
  "third_let_go = let_go_of 3 (notify_next (notify_next (notify_start three_observers)))"

definition three_notified :: observable where
  "three_notified = notify_next (notify_next (notify_next (notify_next third_let_go)))"

lemmas three_eval = three_notified_def third_let_go_def three_observers_def notify_start_def notify_next_def register_observer_def
  let_go_of_def destroy_if_last_def use_count_def erase_at_def Let_def numeral_eq_Suc

lemma three_notified_sel:
  "ob_updates three_notified = [1]" "ob_pc three_notified = Notified" "ob_destroyed three_notified = [2, 3]"
  by (simp_all add: three_eval)

lemma three_notified_reached: "reachable_from (notifying [1, 2, 3]) observer_step three_notified"
proof -
  have "notifying [1, 2, 3] (notify_start three_observers)"
    by (auto simp: notifying_def three_observers_def register_observer_def)
  moreover have "observer_step\<^sup>*\<^sup>* (notify_start three_observers) three_notified"
    unfolding three_notified_def third_let_go_def
    by (intro notify_chain let_go_chain) (simp_all add: three_eval)
  ultimately show ?thesis by (auto simp: reachable_from_def)
qed

lemma observers_notified_witness:
  "ob_pc three_notified = Notified \<and> ob_observers three_notified = [1] \<and> ob_destroyed three_notified = [2, 3]"
  using observers_notified [OF three_notified_reached] three_notified_sel by simp

end
