(* ===== verification/StockFactory.thy ===== *)
theory StockFactory
  imports Prelude "HOL-Library.AList"
begin

text \<open>
  The factory of src/other/StockFactory.h and src/other/StockFactory.cpp: a map from keys to weak pointers,
  \<open>get\<close>, which gives every caller the same stock while anybody has it, and the deleter bound to each
  stock, which takes the entry of its key out of the map if the factory still lives. Stocks are named by
  addresses that are not used again. The deleter runs in the thread that let go of the last pointer,
  and the calls of other threads come between its steps; \<open>get\<close> and \<open>removeStock\<close> hold the mutex and
  are steps of their own.
\<close>

section \<open>The factory, the stocks and the deleter\<close>

text \<open>A stock from its construction to the end of \<open>weakDeleteStock\<close>: owned; without owners; behind a
  successful \<open>wp.lock()\<close>; about to be deleted, with or without the factory held; deleted, the pointer to
  the factory yet to be released.\<close>

datatype stock_state = Unborn | Alive | Expired | Removing | Deleting bool | Returning | Gone

record factory =
  sf_stocks :: "(string \<times> nat) list"
  sf_key :: "nat \<Rightarrow> string"
  sf_owners :: "nat \<Rightarrow> nat"
  sf_state :: "nat \<Rightarrow> stock_state"
  sf_born :: "nat list"
  sf_owned :: nat
  sf_destroyed :: bool

fun holds_factory :: "stock_state \<Rightarrow> bool" where
  "holds_factory Removing \<longleftrightarrow> True"
| "holds_factory (Deleting held) \<longleftrightarrow> held"
| "holds_factory Returning \<longleftrightarrow> True"
| "holds_factory _ \<longleftrightarrow> False"

definition factory_owned :: "factory \<Rightarrow> bool" where
  "factory_owned S \<longleftrightarrow> sf_owned S \<noteq> 0 \<or> (\<exists>p\<in>set (sf_born S). holds_factory (sf_state S p))"

text \<open>The last pointer to the factory destroys it.\<close>

definition destroy_unowned :: "factory \<Rightarrow> factory" where
  "destroy_unowned S = (if factory_owned S then S else S\<lparr>sf_destroyed := True\<rparr>)"

definition set_stock :: "nat \<Rightarrow> stock_state \<Rightarrow> factory \<Rightarrow> factory" where
  "set_stock p st S = S\<lparr>sf_state := (sf_state S)(p := st)\<rparr>"

definition getSize :: "factory \<Rightarrow> nat" where
  "getSize S = length (sf_stocks S)"

text \<open>\<open>get\<close>, with the address \<open>p\<close> for the stock it may have to make.\<close>

definition stock_new :: "string \<Rightarrow> nat \<Rightarrow> factory \<Rightarrow> factory" where
  "stock_new key p S = S\<lparr>sf_stocks := AList.update key p (sf_stocks S), sf_key := (sf_key S)(p := key),
     sf_owners := (sf_owners S)(p := 1), sf_state := (sf_state S)(p := Alive), sf_born := p # sf_born S\<rparr>"

definition stock_share :: "nat \<Rightarrow> factory \<Rightarrow> factory" where
  "stock_share p S = S\<lparr>sf_owners := (sf_owners S)(p := Suc (sf_owners S p))\<rparr>"

definition stock_get :: "string \<Rightarrow> nat \<Rightarrow> factory \<Rightarrow> nat \<times> factory" where
  "stock_get key p S = (case map_of (sf_stocks S) key of
       Some q \<Rightarrow> if sf_owners S q \<noteq> 0 then (q, stock_share q S) else (p, stock_new key p S)
     | None \<Rightarrow> (p, stock_new key p S))"

text \<open>One pointer to a stock goes; the last one calls the deleter.\<close>

definition stock_release :: "nat \<Rightarrow> factory \<Rightarrow> factory" where
  "stock_release p S =
     (let T = S\<lparr>sf_owners := (sf_owners S)(p := sf_owners S p - 1)\<rparr>
      in if sf_owners T p = 0 then set_stock p Expired T else T)"

text \<open>The steps of \<open>weakDeleteStock\<close>.\<close>

definition weak_lock :: "nat \<Rightarrow> factory \<Rightarrow> factory" where
  "weak_lock p S = set_stock p (if factory_owned S then Removing else Deleting False) S"

definition removeStock :: "nat \<Rightarrow> factory \<Rightarrow> factory" where
  "removeStock p S = S\<lparr>sf_stocks := AList.delete (sf_key S p) (sf_stocks S)\<rparr>"

definition stock_delete :: "nat \<Rightarrow> factory \<Rightarrow> factory" where
  "stock_delete p S = set_stock p (if holds_factory (sf_state S p) then Returning else Gone) S"

definition release_factory :: "nat \<Rightarrow> factory \<Rightarrow> factory" where
  "release_factory p S = destroy_unowned (set_stock p Gone S)"

definition weakDeleteStock :: "nat \<Rightarrow> factory \<Rightarrow> factory" where
  "weakDeleteStock p S =
     (if factory_owned S
      then release_factory p (stock_delete p (set_stock p (Deleting True) (removeStock p (weak_lock p S))))
      else stock_delete p (weak_lock p S))"

text \<open>\<open>deleteStock\<close>, which nothing calls: it was the deleter when the factory had to outlive its stocks.\<close>

definition deleteStock :: "nat \<Rightarrow> factory \<Rightarrow> factory" where
  "deleteStock p S = set_stock p Gone (removeStock p S)"

definition factory_release :: "factory \<Rightarrow> factory" where
  "factory_release S = destroy_unowned (S\<lparr>sf_owned := sf_owned S - 1\<rparr>)"

text \<open>What any thread may do next. \<open>get\<close> is called through a pointer to the factory.\<close>

inductive stock_step :: "factory \<Rightarrow> factory \<Rightarrow> bool" where
  get: "sf_owned S \<noteq> 0 \<Longrightarrow> sf_state S p = Unborn \<Longrightarrow> stock_step S (snd (stock_get key p S))"
| share: "sf_owners S p \<noteq> 0 \<Longrightarrow> stock_step S (stock_share p S)"
| release: "sf_owners S p \<noteq> 0 \<Longrightarrow> stock_step S (stock_release p S)"
| locks: "sf_state S p = Expired \<Longrightarrow> stock_step S (weak_lock p S)"
| removes: "sf_state S p = Removing \<Longrightarrow> stock_step S (set_stock p (Deleting True) (removeStock p S))"
| deletes: "sf_state S p = Deleting held \<Longrightarrow> stock_step S (stock_delete p S)"
| returns: "sf_state S p = Returning \<Longrightarrow> stock_step S (release_factory p S)"
| factory_share: "sf_owned S \<noteq> 0 \<Longrightarrow> stock_step S (S\<lparr>sf_owned := Suc (sf_owned S)\<rparr>)"
| factory_drop: "sf_owned S \<noteq> 0 \<Longrightarrow> stock_step S (factory_release S)"

text \<open>The same without interference: a thread that lets go of the last pointer runs the deleter at once.\<close>

definition stock_drop :: "nat \<Rightarrow> factory \<Rightarrow> factory" where
  "stock_drop p S =
     (let T = stock_release p S in if sf_state T p = Expired then weakDeleteStock p T else T)"

inductive alone_step :: "factory \<Rightarrow> factory \<Rightarrow> bool" where
  alone_get: "sf_owned S \<noteq> 0 \<Longrightarrow> sf_state S p = Unborn \<Longrightarrow> alone_step S (snd (stock_get key p S))"
| alone_share: "sf_owners S p \<noteq> 0 \<Longrightarrow> alone_step S (stock_share p S)"
| alone_drop: "sf_owners S p \<noteq> 0 \<Longrightarrow> alone_step S (stock_drop p S)"
| alone_factory_share: "sf_owned S \<noteq> 0 \<Longrightarrow> alone_step S (S\<lparr>sf_owned := Suc (sf_owned S)\<rparr>)"
| alone_factory_drop: "sf_owned S \<noteq> 0 \<Longrightarrow> alone_step S (factory_release S)"

inductive_cases stock_stepE [elim]: "stock_step S S'"
inductive_cases alone_stepE [elim]: "alone_step S S'"

definition new_factory :: factory where
  "new_factory = \<lparr>sf_stocks = [], sf_key = (\<lambda>_. []), sf_owners = (\<lambda>_. 0), sf_state = (\<lambda>_. Unborn),
     sf_born = [], sf_owned = 1, sf_destroyed = False\<rparr>"

lemmas stock_defs = set_stock_def stock_new_def stock_share_def weak_lock_def removeStock_def stock_delete_def
  release_factory_def factory_release_def destroy_unowned_def

section \<open>What every interleaving keeps\<close>

definition factory_ok :: "factory \<Rightarrow> bool" where
  "factory_ok S \<longleftrightarrow> distinct (map fst (sf_stocks S))
     \<and> (\<forall>p. sf_owners S p \<noteq> 0 \<longleftrightarrow> sf_state S p = Alive)
     \<and> (\<forall>k p. (k, p) \<in> set (sf_stocks S) \<longrightarrow> sf_key S p = k
          \<and> (\<not> sf_destroyed S \<longrightarrow> sf_state S p \<in> {Alive, Expired, Removing}))
     \<and> (\<forall>p. sf_state S p \<noteq> Unborn \<longleftrightarrow> p \<in> set (sf_born S))
     \<and> (sf_destroyed S \<longleftrightarrow> \<not> factory_owned S)"

lemma new_factory_ok: "factory_ok new_factory"
  by (simp add: factory_ok_def new_factory_def factory_owned_def)

lemma factory_okD:
  assumes "factory_ok S"
  shows "distinct (map fst (sf_stocks S))" "sf_owners S p \<noteq> 0 \<longleftrightarrow> sf_state S p = Alive"
    "(k, p) \<in> set (sf_stocks S) \<Longrightarrow> sf_key S p = k"
    "(k, p) \<in> set (sf_stocks S) \<Longrightarrow> \<not> sf_destroyed S \<Longrightarrow> sf_state S p \<in> {Alive, Expired, Removing}"
    "sf_state S p \<noteq> Unborn \<longleftrightarrow> p \<in> set (sf_born S)" "sf_destroyed S \<longleftrightarrow> \<not> factory_owned S"
  using assms unfolding factory_ok_def by blast+

lemma owned_not_destroyed: "factory_ok S \<Longrightarrow> sf_owned S \<noteq> 0 \<Longrightarrow> \<not> sf_destroyed S \<and> factory_owned S"
  by (simp add: factory_ok_def factory_owned_def)

lemma update_entry: "(k', v') \<in> set (AList.update k v xs) \<Longrightarrow> (k', v') = (k, v) \<or> (k', v') \<in> set xs"
  by (induction xs) (auto split: if_splits)

lemma deleteStock_weak:
  "factory_owned S \<Longrightarrow> sf_stocks (weakDeleteStock p S) = sf_stocks (deleteStock p S)
    \<and> sf_state (weakDeleteStock p S) = sf_state (deleteStock p S)"
  by (simp add: weakDeleteStock_def deleteStock_def stock_defs)

text \<open>A stock whose deleter runs moves on; the factory goes if nothing holds it any more.\<close>

lemma deleter_moves:
  assumes ok: "factory_ok S" and was: "sf_state S p \<notin> {Unborn, Alive}" and to: "st \<notin> {Unborn, Alive}"
    and entry: "\<And>k. (k, p) \<in> set (sf_stocks S) \<Longrightarrow> sf_destroyed S \<or> st \<in> {Expired, Removing}"
    and held: "holds_factory st \<Longrightarrow> factory_owned S"
  shows "factory_ok (destroy_unowned (set_stock p st S))"
proof -
  let ?T = "set_stock p st S"
  have gone: "sf_destroyed S \<Longrightarrow> \<not> factory_owned ?T"
    using held factory_okD(6) [OF ok] by (auto simp: factory_owned_def set_stock_def)
  have e: "\<And>k q. (k, q) \<in> set (sf_stocks S) \<Longrightarrow> \<not> sf_destroyed S \<Longrightarrow> sf_state ?T q \<in> {Alive, Expired, Removing}"
    using factory_okD(4) [OF ok] entry by (fastforce simp: set_stock_def)
  have o: "\<And>q. sf_owners S q \<noteq> 0 \<longleftrightarrow> sf_state ?T q = Alive"
    using factory_okD(2) [OF ok] was to by (auto simp: set_stock_def)
  have b: "\<And>q. sf_state ?T q \<noteq> Unborn \<longleftrightarrow> q \<in> set (sf_born S)"
    using factory_okD(5) [OF ok] was to by (auto simp: set_stock_def)
  have u: "factory_owned (?T\<lparr>sf_destroyed := d\<rparr>) = factory_owned ?T" for d by (simp add: factory_owned_def)
  have sel: "sf_stocks ?T = sf_stocks S" "sf_key ?T = sf_key S" "sf_owners ?T = sf_owners S"
    "sf_born ?T = sf_born S" "sf_destroyed ?T = sf_destroyed S" by (simp_all add: set_stock_def)
  show ?thesis
  proof (cases "factory_owned ?T")
    case True
    then have "\<not> sf_destroyed S" using gone by blast
    with True show ?thesis unfolding destroy_unowned_def
      using factory_okD(1,3) [OF ok] o b e by (simp add: factory_ok_def sel)
  next
    case False
    then show ?thesis unfolding destroy_unowned_def
      using factory_okD(1,3) [OF ok] o b by (simp add: factory_ok_def sel u)
  qed
qed

lemma destroy_unowned_id: "factory_owned S \<or> sf_destroyed S \<Longrightarrow> destroy_unowned S = S"
  by (cases S) (auto simp: destroy_unowned_def factory_owned_def)

lemma holder_owned:
  assumes "factory_ok S" and "holds_factory (sf_state S p)"
  shows "factory_owned S"
proof -
  have "sf_state S p \<noteq> Unborn" using assms(2) by auto
  then have "p \<in> set (sf_born S)" using factory_okD(5) [OF assms(1)] by blast
  then show ?thesis using assms(2) by (auto simp: factory_owned_def)
qed

lemma weak_lock_ok: "factory_ok S \<Longrightarrow> sf_state S p = Expired \<Longrightarrow> factory_ok (weak_lock p S)"
proof -
  assume ok: "factory_ok S" and p: "sf_state S p = Expired"
  let ?st = "if factory_owned S then Removing else Deleting False"
  have "factory_ok (destroy_unowned (set_stock p ?st S))"
    using factory_okD(6) [OF ok] by (intro deleter_moves [OF ok]) (auto simp: p split: if_splits)
  moreover have "factory_owned (set_stock p ?st S) \<or> sf_destroyed (set_stock p ?st S)"
    using factory_okD(5) [OF ok, of p] factory_okD(6) [OF ok] p by (auto simp: factory_owned_def set_stock_def)
  ultimately show ?thesis by (simp add: weak_lock_def destroy_unowned_id)
qed

lemma removeStock_sel [simp]:
  "sf_state (removeStock p S) = sf_state S" "sf_born (removeStock p S) = sf_born S"
  "sf_key (removeStock p S) = sf_key S" "sf_owners (removeStock p S) = sf_owners S"
  "sf_destroyed (removeStock p S) = sf_destroyed S" "sf_owned (removeStock p S) = sf_owned S"
  "factory_owned (removeStock p S) = factory_owned S"
  "(k, q) \<in> set (sf_stocks (removeStock p S)) \<longleftrightarrow> (k, q) \<in> set (sf_stocks S) \<and> k \<noteq> sf_key S p"
  by (auto simp: removeStock_def factory_owned_def AList.delete_eq)

lemma removeStock_ok: "factory_ok S \<Longrightarrow> factory_ok (removeStock p S)"
  unfolding factory_ok_def removeStock_sel by (simp add: removeStock_def distinct_delete) blast

lemma owned_set_stock:
  "\<not> holds_factory (sf_state S p) \<Longrightarrow> \<not> holds_factory st \<Longrightarrow> factory_owned (set_stock p st S) = factory_owned S"
  by (auto simp: factory_owned_def set_stock_def)

lemma owned_holder: "p \<in> set (sf_born S) \<Longrightarrow> holds_factory st \<Longrightarrow> factory_owned (set_stock p st S)"
  by (auto simp: factory_owned_def set_stock_def)

lemma removes_ok:
  assumes ok: "factory_ok S" and p: "sf_state S p = Removing"
  shows "factory_ok (set_stock p (Deleting True) (removeStock p S))"
proof -
  have born: "p \<in> set (sf_born S)" using factory_okD(5) [OF ok, of p] p by simp
  have "factory_owned S" by (rule holder_owned [OF ok, of p]) (simp add: p)
  then have "factory_ok (destroy_unowned (set_stock p (Deleting True) (removeStock p S)))"
    using factory_okD(3) [OF ok] by (intro deleter_moves [OF removeStock_ok [OF ok]]) (auto simp: p)
  then show ?thesis using born by (simp add: destroy_unowned_id owned_holder)
qed

lemma deletes_ok:
  assumes ok: "factory_ok S" and p: "sf_state S p = Deleting held"
  shows "factory_ok (stock_delete p S)"
proof -
  let ?st = "if holds_factory (sf_state S p) then Returning else Gone"
  have born: "p \<in> set (sf_born S)" using factory_okD(5) [OF ok, of p] p by simp
  have "factory_ok (destroy_unowned (set_stock p ?st S))"
    using factory_okD(4) [OF ok, of _ p] holder_owned [OF ok, of p]
    by (intro deleter_moves [OF ok]) (auto simp: p split: if_splits)
  moreover have "factory_owned (set_stock p ?st S) \<or> sf_destroyed (set_stock p ?st S)"
    using owned_holder [OF born, of Returning] owned_set_stock [of S p Gone] factory_okD(6) [OF ok] p
    by (cases held) (simp_all add: set_stock_def)
  ultimately show ?thesis by (simp add: stock_delete_def destroy_unowned_id)
qed

lemma returns_ok: "factory_ok S \<Longrightarrow> sf_state S p = Returning \<Longrightarrow> factory_ok (release_factory p S)"
  unfolding release_factory_def by (rule deleter_moves) (auto dest: factory_okD(4))

lemma share_ok: "factory_ok S \<Longrightarrow> sf_owners S p \<noteq> 0 \<Longrightarrow> factory_ok (stock_share p S)"
  by (auto simp: factory_ok_def stock_share_def factory_owned_def)

lemma new_ok:
  assumes ok: "factory_ok S" and o: "sf_owned S \<noteq> 0" and p: "sf_state S p = Unborn"
  shows "factory_ok (stock_new key p S)"
proof -
  have nd: "\<not> sf_destroyed S" using owned_not_destroyed [OF ok o] by simp
  have old: "q \<noteq> p \<and> sf_key S q = k \<and> sf_state S q \<in> {Alive, Expired, Removing}" if "(k, q) \<in> set (sf_stocks S)" for k q
    using factory_okD(3,4) [OF ok that] nd p by auto
  have e: "(k, q) = (key, p) \<or> q \<noteq> p \<and> sf_key S q = k \<and> sf_state S q \<in> {Alive, Expired, Removing}"
    if "(k, q) \<in> set (sf_stocks (stock_new key p S))" for k q
    using that old by (auto simp: stock_new_def dest: update_entry)
  then have "sf_key (stock_new key p S) q = k \<and> sf_state (stock_new key p S) q \<in> {Alive, Expired, Removing}"
    if "(k, q) \<in> set (sf_stocks (stock_new key p S))" for k q
    using that by (fastforce simp: stock_new_def)
  moreover have "distinct (map fst (sf_stocks (stock_new key p S)))"
    using factory_okD(1) [OF ok] by (simp add: stock_new_def distinct_update)
  moreover have "sf_owners (stock_new key p S) q \<noteq> 0 \<longleftrightarrow> sf_state (stock_new key p S) q = Alive"
    "sf_state (stock_new key p S) q \<noteq> Unborn \<longleftrightarrow> q \<in> set (sf_born (stock_new key p S))" for q
    using factory_okD(2,5) [OF ok, of q] by (simp_all add: stock_new_def)
  moreover have "factory_owned (stock_new key p S)" "\<not> sf_destroyed (stock_new key p S)"
    using o nd by (simp_all add: factory_owned_def stock_new_def)
  ultimately show ?thesis unfolding factory_ok_def by blast
qed

lemma get_ok:
  "factory_ok S \<Longrightarrow> sf_owned S \<noteq> 0 \<Longrightarrow> sf_state S p = Unborn \<Longrightarrow> factory_ok (snd (stock_get key p S))"
  by (simp add: stock_get_def new_ok share_ok split: option.splits)

lemma release_ok:
  assumes ok: "factory_ok S" and p: "sf_owners S p \<noteq> 0"
  shows "factory_ok (stock_release p S)"
  using ok p factory_okD(2,5) [OF ok, of p]
  by (auto simp: factory_ok_def stock_release_def Let_def set_stock_def factory_owned_def)

lemma factory_release_ok: "factory_ok S \<Longrightarrow> sf_owned S \<noteq> 0 \<Longrightarrow> factory_ok (factory_release S)"
  by (auto simp: factory_ok_def factory_release_def destroy_unowned_def factory_owned_def)

lemma factory_share_ok: "factory_ok S \<Longrightarrow> sf_owned S \<noteq> 0 \<Longrightarrow> factory_ok (S\<lparr>sf_owned := Suc (sf_owned S)\<rparr>)"
  by (simp add: factory_ok_def factory_owned_def)

lemmas stock_ok_intros = get_ok share_ok release_ok weak_lock_ok removes_ok deletes_ok returns_ok
  factory_share_ok factory_release_ok

lemma stock_kept: "stock_step S S' \<Longrightarrow> factory_ok S \<Longrightarrow> factory_ok S'"
  by (erule stock_stepE) (auto intro: stock_ok_intros)

interpretation factories: inductive_invariant "(=) new_factory" stock_step factory_ok
  by unfold_locales (auto intro: new_factory_ok stock_kept)

section \<open>What one caller after the other keeps\<close>

text \<open>As long as no call comes between the steps of a deleter, the map holds exactly the stocks that live.\<close>

definition factory_exact :: "factory \<Rightarrow> bool" where
  "factory_exact S \<longleftrightarrow> factory_ok S \<and> (\<forall>p. sf_state S p \<in> {Unborn, Alive, Gone})
     \<and> (\<not> sf_destroyed S \<longrightarrow> (\<forall>p. sf_state S p = Alive \<longrightarrow> map_of (sf_stocks S) (sf_key S p) = Some p))"

lemma exact_entry:
  assumes "factory_exact S" and "\<not> sf_destroyed S"
  shows "(k, p) \<in> set (sf_stocks S) \<longleftrightarrow> sf_state S p = Alive \<and> sf_key S p = k"
proof
  assume e: "(k, p) \<in> set (sf_stocks S)"
  have "factory_ok S" "sf_state S p \<in> {Unborn, Alive, Gone}" using assms(1) by (simp_all add: factory_exact_def)
  then show "sf_state S p = Alive \<and> sf_key S p = k" using factory_okD(3,4) [of S k p] e assms(2) by auto
next
  assume "sf_state S p = Alive \<and> sf_key S p = k"
  then have "map_of (sf_stocks S) k = Some p" using assms by (auto simp: factory_exact_def)
  then show "(k, p) \<in> set (sf_stocks S)" by (rule map_of_SomeD)
qed

lemma exact_size:
  assumes ex: "factory_exact S" and nd: "\<not> sf_destroyed S"
  shows "getSize S = card {p. sf_state S p = Alive}"
proof -
  have d: "distinct (map fst (sf_stocks S))" using ex by (simp add: factory_exact_def factory_ok_def)
  have "inj_on snd (set (sf_stocks S))" using exact_entry [OF ex nd] by (auto simp: inj_on_def)
  then have "card (snd ` set (sf_stocks S)) = length (sf_stocks S)"
    using d by (simp add: card_image distinct_card distinct_map)
  moreover have "snd ` set (sf_stocks S) = {p. sf_state S p = Alive}"
  proof (rule set_eqI)
    fix p
    have "p \<in> snd ` set (sf_stocks S) \<longleftrightarrow> (\<exists>k. (k, p) \<in> set (sf_stocks S))" by force
    then show "p \<in> snd ` set (sf_stocks S) \<longleftrightarrow> p \<in> {p. sf_state S p = Alive}" by (simp add: exact_entry [OF ex nd])
  qed
  ultimately show ?thesis by (simp add: getSize_def)
qed

lemma exact_get:
  assumes ex: "factory_exact S" and nd: "\<not> sf_destroyed S"
  shows "stock_get key q S = (case map_of (sf_stocks S) key of Some p \<Rightarrow> (p, stock_share p S) | None \<Rightarrow> (q, stock_new key q S))"
proof (cases "map_of (sf_stocks S) key")
  case (Some p)
  then have "sf_state S p = Alive" using exact_entry [OF ex nd] map_of_SomeD by metis
  then have "sf_owners S p \<noteq> 0" using ex factory_okD(2) by (metis factory_exact_def)
  then show ?thesis using Some by (simp add: stock_get_def)
qed (simp add: stock_get_def)

lemma exact_share: "factory_exact S \<Longrightarrow> sf_owners S p \<noteq> 0 \<Longrightarrow> factory_exact (stock_share p S)"
  using share_ok [of S p] by (simp add: factory_exact_def) (simp add: stock_share_def)

lemma exact_new:
  assumes ex: "factory_exact S" and o: "sf_owned S \<noteq> 0" and p: "sf_state S p = Unborn" and none: "map_of (sf_stocks S) key = None"
  shows "factory_exact (stock_new key p S)"
proof -
  have ok: "factory_ok S" using ex by (simp add: factory_exact_def)
  have nd: "\<not> sf_destroyed S" using owned_not_destroyed [OF ok o] by simp
  have "map_of (sf_stocks (stock_new key p S)) (sf_key (stock_new key p S) q) = Some q"
    if "sf_state (stock_new key p S) q = Alive" for q
  proof (cases "q = p")
    case False
    then have "map_of (sf_stocks S) (sf_key S q) = Some q" using that ex nd by (simp add: stock_new_def factory_exact_def)
    then show ?thesis using False none by (auto simp: stock_new_def update_conv')
  qed (simp add: stock_new_def update_conv')
  moreover have "sf_state (stock_new key p S) q \<in> {Unborn, Alive, Gone}" for q
    using ex by (simp add: factory_exact_def stock_new_def)
  ultimately show ?thesis using new_ok [OF ok o p] by (simp add: factory_exact_def)
qed

lemma weakDelete_runs:
  assumes ok: "factory_ok S" and p: "sf_state S p = Expired"
  shows "stock_step\<^sup>*\<^sup>* S (weakDeleteStock p S)"
proof (cases "factory_owned S")
  case True
  let ?A = "weak_lock p S" and ?B = "set_stock p (Deleting True) (removeStock p (weak_lock p S))"
  have "stock_step S ?A" using p by (rule locks)
  moreover have "stock_step ?A ?B" by (rule removes) (simp add: weak_lock_def set_stock_def True)
  moreover have "stock_step ?B (stock_delete p ?B)" by (rule deletes) (simp add: set_stock_def)
  moreover have "stock_step (stock_delete p ?B) (release_factory p (stock_delete p ?B))"
    by (rule returns) (simp add: stock_delete_def set_stock_def)
  ultimately show ?thesis unfolding weakDeleteStock_def by (simp add: True)
next
  case False
  have "stock_step S (weak_lock p S)" using p by (rule locks)
  moreover have "stock_step (weak_lock p S) (stock_delete p (weak_lock p S))"
    by (rule deletes [of _ _ False]) (simp add: weak_lock_def set_stock_def False)
  ultimately show ?thesis unfolding weakDeleteStock_def by (simp add: False)
qed

lemma alone_refines:
  assumes "alone_step S S'" and ok: "factory_ok S"
  shows "stock_step\<^sup>*\<^sup>* S S'"
  using assms(1)
proof cases
  case (alone_drop p)
  have "stock_step S (stock_release p S)" using alone_drop(2) by (rule release)
  moreover have "stock_step\<^sup>*\<^sup>* (stock_release p S) S'"
    unfolding alone_drop(1) stock_drop_def Let_def
    by (simp add: weakDelete_runs release_ok [OF ok alone_drop(2)])
  ultimately show ?thesis by (rule converse_rtranclp_into_rtranclp)
qed (auto intro: stock_step.intros)

lemma alone_ok:
  assumes "alone_step S S'" and "factory_ok S"
  shows "factory_ok S'"
proof -
  from alone_refines [OF assms] show ?thesis
    using assms(2) by (induction rule: rtranclp_induct) (auto intro: stock_kept)
qed

lemma weakDelete_sel:
  "sf_state (weakDeleteStock p S) = (sf_state S)(p := Gone)" "sf_key (weakDeleteStock p S) = sf_key S"
  "sf_stocks (weakDeleteStock p S) = (if factory_owned S then AList.delete (sf_key S p) (sf_stocks S) else sf_stocks S)"
  "sf_destroyed S \<Longrightarrow> sf_destroyed (weakDeleteStock p S)"
  by (simp_all add: weakDeleteStock_def stock_defs)

lemma exact_drop:
  assumes ex: "factory_exact S" and p: "sf_owners S p \<noteq> 0"
  shows "factory_exact (stock_drop p S)"
proof -
  have ok: "factory_ok S" using ex by (simp add: factory_exact_def)
  then have alive: "sf_state S p = Alive" using factory_okD(2) p by blast
  have ok': "factory_ok (stock_drop p S)" using alone_ok [OF alone_drop [OF p] ok] .
  show ?thesis
  proof (cases "sf_owners S p = 1")
    case True
    let ?T = "stock_release p S"
    have T: "sf_state ?T = (sf_state S)(p := Expired)" "sf_key ?T = sf_key S" "sf_stocks ?T = sf_stocks S"
      "sf_destroyed ?T = sf_destroyed S"
      by (simp_all add: stock_release_def Let_def set_stock_def True)
    have nd: "\<not> sf_destroyed S \<Longrightarrow> factory_owned ?T"
      using factory_okD(6) [OF release_ok [OF ok p]] by (simp add: T)
    have drop: "stock_drop p S = weakDeleteStock p ?T" by (simp add: stock_drop_def Let_def T)
    have "map_of (AList.delete (sf_key S p) (sf_stocks S)) (sf_key S q) = Some q"
      if "sf_state S q = Alive" "q \<noteq> p" "\<not> sf_destroyed S" for q
    proof -
      have "map_of (sf_stocks S) (sf_key S q) = Some q" "map_of (sf_stocks S) (sf_key S p) = Some p"
        using ex that alive by (simp_all add: factory_exact_def)
      then have "sf_key S q \<noteq> sf_key S p" using that(2) by auto
      then show ?thesis using that ex by (simp add: delete_conv' factory_exact_def)
    qed
    moreover have "\<not> sf_destroyed (stock_drop p S) \<Longrightarrow> \<not> sf_destroyed S"
      unfolding drop using weakDelete_sel(4) [of ?T p] by (auto simp: T)
    ultimately show ?thesis
      using ok' nd ex by (auto simp: factory_exact_def drop weakDelete_sel T)
  next
    case False
    then have "stock_drop p S = S\<lparr>sf_owners := (sf_owners S)(p := sf_owners S p - 1)\<rparr>"
      using p alive by (simp add: stock_drop_def stock_release_def Let_def)
    then show ?thesis using ok' ex by (simp add: factory_exact_def)
  qed
qed

lemma exact_factory_release:
  assumes ex: "factory_exact S" and o: "sf_owned S \<noteq> 0"
  shows "factory_exact (factory_release S)"
proof -
  have "factory_ok (factory_release S)" using factory_release_ok o ex by (simp add: factory_exact_def)
  moreover have "sf_state (factory_release S) = sf_state S" "sf_key (factory_release S) = sf_key S"
    "sf_stocks (factory_release S) = sf_stocks S" "sf_destroyed S \<Longrightarrow> sf_destroyed (factory_release S)"
    by (simp_all add: factory_release_def destroy_unowned_def)
  ultimately show ?thesis using ex by (auto simp: factory_exact_def)
qed

lemma exact_get_kept:
  assumes ex: "factory_exact S" and o: "sf_owned S \<noteq> 0" and p: "sf_state S p = Unborn"
  shows "factory_exact (snd (stock_get key p S))"
proof -
  have ok: "factory_ok S" using ex by (simp add: factory_exact_def)
  have nd: "\<not> sf_destroyed S" using owned_not_destroyed [OF ok o] by simp
  show ?thesis
  proof (cases "map_of (sf_stocks S) key")
    case None
    then show ?thesis by (simp add: exact_get [OF ex nd] exact_new [OF ex o p])
  next
    case (Some q)
    then have "sf_state S q = Alive" using exact_entry [OF ex nd] map_of_SomeD by metis
    then have "sf_owners S q \<noteq> 0" using factory_okD(2) [OF ok] by blast
    then show ?thesis using Some by (simp add: exact_get [OF ex nd] exact_share [OF ex])
  qed
qed

lemma alone_kept:
  assumes "alone_step S S'" and ex: "factory_exact S"
  shows "factory_exact S'"
  using assms(1)
proof cases
  case alone_factory_share
  then show ?thesis using ex factory_share_ok by (simp add: factory_exact_def)
qed (use ex in \<open>simp_all add: exact_get_kept exact_share exact_drop exact_factory_release\<close>)

lemma new_factory_exact: "factory_exact new_factory"
  using new_factory_ok by (simp add: factory_exact_def) (simp add: new_factory_def)

interpretation alone_factories: inductive_invariant "(=) new_factory" alone_step factory_exact
  by unfold_locales (auto intro: new_factory_exact alone_kept)

lemmas stock_more = rtranclp.rtrancl_into_rtrancl [of stock_step]
lemmas alone_more = rtranclp.rtrancl_into_rtrancl [of alone_step]

section \<open>The properties\<close>

text \<open>C34. The stock factory under every interleaving of its callers and of the steps of the deleters
  (\<open>StockFactory::get\<close>, \<open>weakDeleteStock\<close> and \<open>removeStock\<close> of src/other/StockFactory.cpp): a stock that
  somebody has is not being deleted, and one that nobody has is; the deleter calls \<open>removeStock\<close> only on a
  factory that has not been destroyed, and the factory is destroyed as soon as neither a caller nor a
  deleter holds it; while it lives, no two entries have one key, each entry stands under the key of its
  stock, and no stock that has been removed or deleted still has one, so that once the deleters are
  through, the map has no more entries than there are stocks in use.\<close>

theorem stocks_safe:
  assumes "reachable_from ((=) new_factory) stock_step S"
  shows "(\<forall>p. sf_owners S p \<noteq> 0 \<longleftrightarrow> sf_state S p = Alive)
    \<and> (\<forall>p. sf_state S p = Removing \<longrightarrow> \<not> sf_destroyed S)
    \<and> (sf_destroyed S \<longleftrightarrow> sf_owned S = 0 \<and> (\<forall>p. \<not> holds_factory (sf_state S p)))
    \<and> (\<not> sf_destroyed S \<longrightarrow> distinct (map fst (sf_stocks S))
        \<and> (\<forall>(k, p)\<in>set (sf_stocks S). sf_key S p = k \<and> sf_state S p \<in> {Alive, Expired, Removing}))"
proof -
  note ok = factories.always [OF assms]
  have "sf_destroyed S \<longleftrightarrow> sf_owned S = 0 \<and> (\<forall>p. \<not> holds_factory (sf_state S p))"
    using factory_okD(6) [OF ok] holder_owned [OF ok] by (auto simp: factory_owned_def)
  moreover have "\<forall>p. sf_state S p = Removing \<longrightarrow> \<not> sf_destroyed S"
    using holder_owned [OF ok] factory_okD(6) [OF ok] by (metis holds_factory.simps(1))
  moreover have "\<forall>p. sf_owners S p \<noteq> 0 \<longleftrightarrow> sf_state S p = Alive" using factory_okD(2) [OF ok] by blast
  moreover have "\<not> sf_destroyed S \<longrightarrow> distinct (map fst (sf_stocks S))
      \<and> (\<forall>(k, p)\<in>set (sf_stocks S). sf_key S p = k \<and> sf_state S p \<in> {Alive, Expired, Removing})"
    using factory_okD(1,3,4) [OF ok] by blast
  ultimately show ?thesis by blast
qed

text \<open>\<open>testObjectLife\<close>: the first stock outlives the factory.\<close>

definition two_stocks :: factory where
  "two_stocks = snd (stock_get ''test1'' 2 (snd (stock_get ''test'' 1 new_factory)))"

definition factory_left :: factory where
  "factory_left = factory_release (stock_drop 2 two_stocks)"

lemmas two_stocks_eval = factory_left_def two_stocks_def stock_get_def new_factory_def stock_drop_def
  stock_release_def weakDeleteStock_def factory_owned_def stock_defs Let_def

lemma two_stocks_alone:
  "alone_step\<^sup>*\<^sup>* new_factory two_stocks" "alone_step\<^sup>*\<^sup>* new_factory factory_left"
proof -
  let ?S = "snd (stock_get ''test'' 1 new_factory)"
  have s1: "alone_step new_factory ?S" by (rule alone_get) (simp_all add: new_factory_def)
  have s2: "alone_step ?S two_stocks"
    unfolding two_stocks_def by (rule alone_get) (simp_all add: two_stocks_eval)
  have s3: "alone_step two_stocks (stock_drop 2 two_stocks)"
    by (rule alone_drop) (simp add: two_stocks_eval)
  have s4: "alone_step (stock_drop 2 two_stocks) factory_left"
    unfolding factory_left_def by (rule alone_factory_drop) (simp add: two_stocks_eval)
  show r: "alone_step\<^sup>*\<^sup>* new_factory two_stocks"
    by (rule alone_more [OF r_into_rtranclp [of alone_step, OF s1] s2])
  show "alone_step\<^sup>*\<^sup>* new_factory factory_left"
    by (rule alone_more [OF alone_more [OF r s3] s4])
qed

lemma alone_runs: "alone_step\<^sup>*\<^sup>* new_factory S \<Longrightarrow> stock_step\<^sup>*\<^sup>* new_factory S"
proof (induction rule: rtranclp_induct)
  case (step S S')
  have "factory_exact S" using step(1) alone_factories.always [of S] by (simp add: reachable_from_def)
  then have "stock_step\<^sup>*\<^sup>* S S'" using step(2) alone_refines by (simp add: factory_exact_def)
  with step(3) show ?case by (rule rtranclp_trans)
qed simp

lemma stocks_safe_witness:
  "sf_destroyed factory_left \<and> sf_owners factory_left 1 = 1 \<and> sf_state factory_left 1 = Alive
    \<and> sf_state factory_left 2 = Gone"
proof -
  have "reachable_from ((=) new_factory) stock_step factory_left"
    using alone_runs [OF two_stocks_alone(2)] by (auto simp: reachable_from_def)
  note s = stocks_safe [OF this]
  have "sf_owned factory_left = 0" "sf_state factory_left 1 = Alive" "\<not> holds_factory (sf_state factory_left p)" "sf_owners factory_left 1 = 1"
    "sf_state factory_left 2 = Gone" for p
    by (simp_all add: two_stocks_eval)
  with s show ?thesis by simp
qed

text \<open>C35. When every thread that lets go of a last pointer is through with the deleter before the next call
  (src/other/StockFactory.cpp), the map of a living factory holds exactly the stocks in use, each under its
  key: there is at most one stock in use for each key, \<open>getSize\<close> is the number of the stocks in use, and
  \<open>get\<close> returns the stock in use with the key, which it shares, or else a new one. Each such call is a
  sequence of the steps of \<open>stocks_safe\<close>.\<close>

theorem stocks_shared:
  assumes "reachable_from ((=) new_factory) alone_step S" and "\<not> sf_destroyed S"
  shows "(\<forall>k p. (k, p) \<in> set (sf_stocks S) \<longleftrightarrow> sf_state S p = Alive \<and> sf_key S p = k)
    \<and> (\<forall>p q. sf_state S p = Alive \<and> sf_state S q = Alive \<and> sf_key S p = sf_key S q \<longrightarrow> p = q)
    \<and> getSize S = card {p. sf_state S p = Alive}
    \<and> (\<forall>p q. sf_state S p = Alive \<longrightarrow> stock_get (sf_key S p) q S = (p, stock_share p S))
    \<and> (\<forall>k q. (\<forall>p. sf_state S p = Alive \<longrightarrow> sf_key S p \<noteq> k) \<longrightarrow> stock_get k q S = (q, stock_new k q S))
    \<and> (\<forall>S'. alone_step S S' \<longrightarrow> stock_step\<^sup>*\<^sup>* S S')"
proof -
  note ex = alone_factories.always [OF assms(1)]
  have live: "map_of (sf_stocks S) (sf_key S p) = Some p" if "sf_state S p = Alive" for p
    using ex that assms(2) by (simp add: factory_exact_def)
  have "stock_get k q S = (q, stock_new k q S)" if "\<forall>p. sf_state S p = Alive \<longrightarrow> sf_key S p \<noteq> k" for k q
  proof -
    have "map_of (sf_stocks S) k = None"
      using that exact_entry [OF ex assms(2)] by (cases "map_of (sf_stocks S) k") (auto dest: map_of_SomeD)
    then show ?thesis by (simp add: stock_get_def)
  qed
  moreover have "p = q" if "sf_state S p = Alive" "sf_state S q = Alive" "sf_key S p = sf_key S q" for p q
    using live [OF that(1)] live [OF that(2)] that(3) by (metis option.inject)
  moreover have "stock_get (sf_key S p) q S = (p, stock_share p S)" if "sf_state S p = Alive" for p q
    by (simp add: exact_get [OF ex assms(2)] live that)
  moreover have "stock_step\<^sup>*\<^sup>* S S'" if "alone_step S S'" for S'
    using that ex alone_refines by (simp add: factory_exact_def)
  ultimately show ?thesis using exact_entry [OF ex assms(2)] exact_size [OF ex assms(2)] by blast
qed

lemma stocks_shared_witness:
  "getSize two_stocks = card {p. sf_state two_stocks p = Alive} \<and> stock_get ''test'' 3 two_stocks = (1, stock_share 1 two_stocks)"
proof -
  have r: "reachable_from ((=) new_factory) alone_step two_stocks"
    using two_stocks_alone(1) by (auto simp: reachable_from_def)
  have e: "\<not> sf_destroyed two_stocks" "sf_state two_stocks 1 = Alive" "sf_key two_stocks 1 = ''test''"
    by (simp_all add: two_stocks_eval)
  note t = stocks_shared [OF r e(1), THEN conjunct2, THEN conjunct2]
  show ?thesis
    by (rule conjI [OF t [THEN conjunct1] t [THEN conjunct2, THEN conjunct1, rule_format, OF e(2), unfolded e(3)]])
qed

text \<open>C36. With other calls between the steps of a deleter that is not so (src/other/StockFactory.cpp). Take
  any state in which the last pointer to the stock \<open>p\<close> is gone, its entry still stands and its deleter has
  not begun. A \<open>get\<close> of its key makes a new stock \<open>q\<close>, and that is the one the next \<open>get\<close> would share;
  but when the deleter of \<open>p\<close> then goes on, \<open>removeStock\<close>, which erases the key whatever stands under it,
  erases the entry of \<open>q\<close>, which is still in use, and the next \<open>get\<close> makes another stock \<open>r\<close>: two stocks
  with one key are in use at the same time. All of this are steps that threads may take. Had the deleter
  run before the first \<open>get\<close>, the second would have shared \<open>q\<close>.\<close>

theorem removal_overtaken:
  assumes "reachable_from ((=) new_factory) stock_step S" and "sf_owned S \<noteq> 0"
    and "sf_state S p = Expired" and "map_of (sf_stocks S) key = Some p"
    and "sf_state S q = Unborn" and "sf_state S r = Unborn" and "q \<noteq> r"
  shows "\<exists>S1 S2 S3. stock_get key q S = (q, S1) \<and> stock_get key r S1 = (q, stock_share q S1)
    \<and> set_stock p (Deleting True) (removeStock p (weak_lock p S1)) = S2
    \<and> sf_state S2 q = Alive \<and> sf_key S2 q = key \<and> map_of (sf_stocks S2) key = None
    \<and> stock_get key r S2 = (r, S3) \<and> sf_state S3 q = Alive \<and> sf_state S3 r = Alive
    \<and> sf_key S3 q = key \<and> sf_key S3 r = key \<and> \<not> sf_destroyed S3
    \<and> stock_step\<^sup>*\<^sup>* S S1 \<and> stock_step\<^sup>*\<^sup>* S1 S2 \<and> stock_step\<^sup>*\<^sup>* S2 S3
    \<and> (\<exists>T. stock_get key q (weakDeleteStock p S) = (q, T) \<and> stock_get key r T = (q, stock_share q T))"
proof -
  note ok = factories.always [OF assms(1)]
  have key: "sf_key S p = key" using factory_okD(3) [OF ok map_of_SomeD [OF assms(4)]] .
  have "sf_owners S p = 0" using factory_okD(2) [OF ok, of p] assms(3) by simp
  then have g1: "stock_get key q S = (q, stock_new key q S)" using assms(4) by (simp add: stock_get_def)
  have ne: "p \<noteq> q" "p \<noteq> r" using assms(3,5,6) by auto
  let ?S1 = "stock_new key q S"
  let ?L = "weak_lock p ?S1"
  let ?S2 = "set_stock p (Deleting True) (removeStock p ?L)"
  let ?S3 = "stock_new key r ?S2"
  have o1: "factory_owned ?S1" using assms(2) by (simp add: factory_owned_def stock_new_def)
  have s1: "stock_step S ?S1" using get [OF assms(2,5), of key] by (simp add: g1)
  have s2: "stock_step ?S1 ?L" by (rule locks) (simp add: stock_new_def assms(3) ne)
  have s3: "stock_step ?L ?S2" by (rule removes) (simp add: weak_lock_def o1 set_stock_def)
  have g2: "stock_get key r ?S1 = (q, stock_share q ?S1)"
    by (simp add: stock_get_def stock_new_def update_conv')
  have none: "map_of (sf_stocks ?S2) key = None"
    by (simp add: set_stock_def removeStock_def weak_lock_def stock_new_def key ne delete_conv')
  then have g3: "stock_get key r ?S2 = (r, ?S3)" by (simp add: stock_get_def)
  have v2: "sf_owned ?S2 \<noteq> 0" "sf_state ?S2 r = Unborn" "sf_state ?S2 q = Alive" "sf_key ?S2 q = key"
    using assms(2,6,7) ne by (simp_all add: set_stock_def weak_lock_def stock_new_def)
  have s4: "stock_step ?S2 ?S3" using get [OF v2(1,2), of key] by (simp add: g3)
  have "\<not> sf_destroyed S" using owned_not_destroyed [OF ok assms(2)] by simp
  then have v3: "sf_state ?S3 q = Alive" "sf_state ?S3 r = Alive" "sf_key ?S3 q = key" "sf_key ?S3 r = key" "\<not> sf_destroyed ?S3"
    using v2(3,4) assms(7) by (simp_all add: stock_new_def) (simp add: set_stock_def weak_lock_def)
  have "map_of (sf_stocks (weakDeleteStock p S)) key = None"
    using owned_not_destroyed [OF ok assms(2)]
    by (simp add: weakDeleteStock_def stock_defs removeStock_def key delete_conv')
  then have late: "stock_get key q (weakDeleteStock p S) = (q, stock_new key q (weakDeleteStock p S))"
    by (simp add: stock_get_def)
  have shared: "stock_get key r (stock_new key q (weakDeleteStock p S)) = (q, stock_share q (stock_new key q (weakDeleteStock p S)))"
    by (simp add: stock_get_def stock_new_def update_conv')
  note r2 = stock_more [OF r_into_rtranclp [of stock_step, OF s2] s3]
  show ?thesis
    by (rule exI [of _ ?S1], rule exI [of _ ?S2], rule exI [of _ ?S3])
      (intro conjI g1 g2 refl v2(3,4) none g3 v3 r_into_rtranclp [of stock_step, OF s1] r2
        r_into_rtranclp [of stock_step, OF s4] exI [of _ "stock_new key q (weakDeleteStock p S)"] late shared)
qed

definition just_released :: factory where
  "just_released = stock_release 1 (snd (stock_get ''test'' 1 new_factory))"

lemma removal_overtaken_witness:
  "\<exists>S. reachable_from ((=) new_factory) stock_step S \<and> sf_state S 2 = Alive \<and> sf_state S 3 = Alive \<and> sf_key S 2 = sf_key S 3"
proof -
  note eval = just_released_def two_stocks_eval
  have s1: "stock_step new_factory (snd (stock_get ''test'' 1 new_factory))" by (rule get) (simp_all add: new_factory_def)
  have s2: "stock_step (snd (stock_get ''test'' 1 new_factory)) just_released"
    unfolding just_released_def by (rule release) (simp add: two_stocks_eval)
  have run: "stock_step\<^sup>*\<^sup>* new_factory just_released" by (rule stock_more [OF r_into_rtranclp [of stock_step, OF s1] s2])
  then have r: "reachable_from ((=) new_factory) stock_step just_released" by (auto simp: reachable_from_def)
  have e: "sf_owned just_released \<noteq> 0" "sf_state just_released 1 = Expired" "map_of (sf_stocks just_released) ''test'' = Some 1"
    "sf_state just_released 2 = Unborn" "sf_state just_released 3 = Unborn" "(2 :: nat) \<noteq> 3"
    by (simp_all add: eval)
  from removal_overtaken [OF r e] obtain S1 S2 S3 where
    "stock_step\<^sup>*\<^sup>* just_released S1" "stock_step\<^sup>*\<^sup>* S1 S2" "stock_step\<^sup>*\<^sup>* S2 S3"
    "sf_state S3 2 = Alive" "sf_state S3 3 = Alive" "sf_key S3 2 = ''test''" "sf_key S3 3 = ''test''"
    by (elim exE conjE) (rule that)
  with run show ?thesis
    by (intro exI [of _ S3]) (auto simp: reachable_from_def intro: rtranclp_trans)
qed

end
