(* ===== verification/UniqueLock.thy ===== *)
theory UniqueLock
  imports Prelude
begin

text \<open>
  The counter of src/other/UniqueLock.h and src/other/UniqueLock.cpp, which 20 threads increment. The line
  \<open>unique_lock<mutex> lock(mutex);\<close> of \<open>func\<close> names the type \<open>mutex\<close> and not the object \<open>mtx\<close>: it declares
  a function and locks nothing, so that \<open>counter++\<close> is a read and a write which those of the other
  threads may come between.
\<close>

section \<open>The threads\<close>

text \<open>Where a thread is in \<open>func\<close>: before the read, holding the value it read, returned.\<close>

datatype worker = Ready | Holding int | Returned

record counting =
  ct_counter :: int
  ct_worker :: "nat \<Rightarrow> worker"

text \<open>The threads are numbered below \<open>n\<close>; \<open>testMutex\<close> makes 20.\<close>

definition worker_count :: nat where
  "worker_count = 20"

inductive func_step :: "nat \<Rightarrow> counting \<Rightarrow> counting \<Rightarrow> bool" for n :: nat where
  reads: "i < n \<Longrightarrow> ct_worker S i = Ready
    \<Longrightarrow> func_step n S (S\<lparr>ct_worker := (ct_worker S)(i := Holding (ct_counter S))\<rparr>)"
| writes: "i < n \<Longrightarrow> ct_worker S i = Holding v
    \<Longrightarrow> func_step n S (S\<lparr>ct_counter := v + 1, ct_worker := (ct_worker S)(i := Returned)\<rparr>)"

inductive_cases func_stepE [elim]: "func_step n S S'"

definition counting_start :: counting where
  "counting_start = \<lparr>ct_counter = 0, ct_worker = (\<lambda>_. Ready)\<rparr>"

text \<open>What \<open>testMutex\<close> prints once it has joined every thread.\<close>

definition prints_count :: "nat \<Rightarrow> int \<Rightarrow> bool" where
  "prints_count n v \<longleftrightarrow> (\<exists>S. (func_step n)\<^sup>*\<^sup>* counting_start S \<and> (\<forall>i<n. ct_worker S i = Returned) \<and> ct_counter S = v)"

section \<open>Which counts are possible\<close>

text \<open>What any thread has read, and the counter itself, is at most the number of threads that have returned.\<close>

definition returned_workers :: "nat \<Rightarrow> counting \<Rightarrow> nat set" where
  "returned_workers n S = {i. i < n \<and> ct_worker S i = Returned}"

definition counting_ok :: "nat \<Rightarrow> counting \<Rightarrow> bool" where
  "counting_ok n S \<longleftrightarrow> 0 \<le> ct_counter S \<and> ct_counter S \<le> int (card (returned_workers n S))
     \<and> (returned_workers n S \<noteq> {} \<longrightarrow> 1 \<le> ct_counter S)
     \<and> (\<forall>i<n. \<forall>v. ct_worker S i = Holding v \<longrightarrow> 0 \<le> v \<and> v \<le> int (card (returned_workers n S)))"

lemma finite_returned [simp]: "finite (returned_workers n S)"
  by (simp add: returned_workers_def)

lemma returned_write:
  assumes "i < n" and "ct_worker S i = Holding v"
  defines "S' \<equiv> S\<lparr>ct_counter := v + 1, ct_worker := (ct_worker S)(i := Returned)\<rparr>"
  shows "card (returned_workers n S') = Suc (card (returned_workers n S))"
proof -
  have "returned_workers n S' = insert i (returned_workers n S)" "i \<notin> returned_workers n S"
    using assms by (auto simp: returned_workers_def)
  then show ?thesis by simp
qed

lemma counting_step:
  assumes "func_step n S S'" and "counting_ok n S"
  shows "counting_ok n S'"
  using assms(1)
proof cases
  case (reads i)
  have "returned_workers n S' = returned_workers n S" using reads by (auto simp: returned_workers_def)
  with assms(2) reads show ?thesis by (auto simp: counting_ok_def)
next
  case (writes i v)
  have "card (returned_workers n S') = Suc (card (returned_workers n S))"
    unfolding writes(1) by (rule returned_write [OF writes(2,3)])
  with assms(2) writes show ?thesis by (fastforce simp: counting_ok_def)
qed

interpretation counting_inv: inductive_invariant "\<lambda>S. S = counting_start" "func_step n" "counting_ok n" for n
proof
  show "S = counting_start \<Longrightarrow> counting_ok n S" for S
    by (simp add: counting_ok_def counting_start_def returned_workers_def)
  show "func_step n S S' \<Longrightarrow> counting_ok n S \<Longrightarrow> counting_ok n S'" for S S' by (rule counting_step)
qed

text \<open>The runs that lose increments: \<open>k\<close> threads read before any of them writes, the others follow one by one.\<close>

definition racing :: "nat \<Rightarrow> nat \<Rightarrow> int \<Rightarrow> counting" where
  "racing j k v = \<lparr>ct_counter = v, ct_worker = (\<lambda>i. if i < j then Returned else if i < k then Holding 0 else Ready)\<rparr>"

lemma racing_reads: "k \<le> n \<Longrightarrow> (func_step n)\<^sup>*\<^sup>* counting_start (racing 0 k 0)"
proof (induction k)
  case 0
  then show ?case by (simp add: racing_def counting_start_def)
next
  case (Suc k)
  have "func_step n (racing 0 k 0) ((racing 0 k 0)\<lparr>ct_worker := (ct_worker (racing 0 k 0))(k := Holding (ct_counter (racing 0 k 0)))\<rparr>)"
    using Suc.prems by (intro reads) (simp_all add: racing_def)
  moreover have "(racing 0 k 0)\<lparr>ct_worker := (ct_worker (racing 0 k 0))(k := Holding (ct_counter (racing 0 k 0)))\<rparr> = racing 0 (Suc k) 0"
    by (auto simp: racing_def fun_eq_iff less_Suc_eq)
  ultimately show ?case using Suc by (auto intro: rtranclp.rtrancl_into_rtrancl)
qed

lemma racing_writes: "j < k \<Longrightarrow> k \<le> n \<Longrightarrow> (func_step n)\<^sup>*\<^sup>* (racing 0 k 0) (racing (Suc j) k 1)"
proof (induction j)
  case 0
  have "func_step n (racing 0 k 0) ((racing 0 k 0)\<lparr>ct_counter := 0 + 1, ct_worker := (ct_worker (racing 0 k 0))(0 := Returned)\<rparr>)"
    using 0 by (intro writes) (simp_all add: racing_def)
  moreover have "(racing 0 k 0)\<lparr>ct_counter := 0 + 1, ct_worker := (ct_worker (racing 0 k 0))(0 := Returned)\<rparr> = racing (Suc 0) k 1"
    by (auto simp: racing_def fun_eq_iff)
  ultimately show ?case by auto
next
  case (Suc j)
  have "func_step n (racing (Suc j) k 1)
      ((racing (Suc j) k 1)\<lparr>ct_counter := 0 + 1, ct_worker := (ct_worker (racing (Suc j) k 1))(Suc j := Returned)\<rparr>)"
    using Suc.prems by (intro writes) (simp_all add: racing_def)
  moreover have "(racing (Suc j) k 1)\<lparr>ct_counter := 0 + 1, ct_worker := (ct_worker (racing (Suc j) k 1))(Suc j := Returned)\<rparr>
      = racing (Suc (Suc j)) k 1"
    by (auto simp: racing_def fun_eq_iff less_Suc_eq)
  ultimately show ?case using Suc by (auto intro: rtranclp.rtrancl_into_rtrancl)
qed

lemma racing_follows: "k + m \<le> n \<Longrightarrow> (func_step n)\<^sup>*\<^sup>* (racing k k v) (racing (k + m) (k + m) (v + int m))"
proof (induction m)
  case 0
  then show ?case by simp
next
  case (Suc m)
  let ?S = "racing (k + m) (k + m) (v + int m)"
  let ?T = "?S\<lparr>ct_worker := (ct_worker ?S)(k + m := Holding (ct_counter ?S))\<rparr>"
  let ?U = "?T\<lparr>ct_counter := (v + int m) + 1, ct_worker := (ct_worker ?T)(k + m := Returned)\<rparr>"
  have 1: "func_step n ?S ?T" using Suc.prems by (intro reads) (simp_all add: racing_def)
  have 2: "func_step n ?T ?U" using Suc.prems by (intro writes) (simp_all add: racing_def)
  have "?U = racing (k + Suc m) (k + Suc m) (v + int (Suc m))"
    by (auto simp: racing_def fun_eq_iff less_Suc_eq)
  with 1 2 Suc show ?case by (auto intro: rtranclp.rtrancl_into_rtrancl)
qed

text \<open>C40. The unlocked counter loses increments. When every thread has been joined, the count printed may be any
  number from 1 to the number of threads, and can be no other.\<close>

theorem counts_lost: "prints_count worker_count v \<longleftrightarrow> 1 \<le> v \<and> v \<le> int worker_count"
proof
  assume "prints_count worker_count v"
  then obtain S where S: "(func_step worker_count)\<^sup>*\<^sup>* counting_start S" "\<forall>i<worker_count. ct_worker S i = Returned" "ct_counter S = v"
    by (auto simp: prints_count_def)
  then have "counting_ok worker_count S"
    by (intro counting_inv.always) (auto simp: reachable_from_def)
  moreover have "returned_workers worker_count S = {..<worker_count}" using S(2) by (auto simp: returned_workers_def)
  moreover have "0 \<in> {..<worker_count}" by (simp add: worker_count_def)
  then have "{..<worker_count} \<noteq> {}" by blast
  ultimately show "1 \<le> v \<and> v \<le> int worker_count" using S(3) by (auto simp: counting_ok_def worker_count_def)
next
  assume v: "1 \<le> v \<and> v \<le> int worker_count"
  define k where "k = worker_count - nat (v - 1)"
  have k: "0 < k" "k \<le> worker_count" "k + nat (v - 1) = worker_count" using v by (auto simp: k_def)
  have "(func_step worker_count)\<^sup>*\<^sup>* counting_start (racing 0 k 0)" by (rule racing_reads [OF k(2)])
  also have "(func_step worker_count)\<^sup>*\<^sup>* (racing 0 k 0) (racing k k 1)"
    using racing_writes [of "k - 1" k worker_count] k(1,2) by simp
  also have "(func_step worker_count)\<^sup>*\<^sup>* (racing k k 1) (racing worker_count worker_count v)"
    using racing_follows [of k "nat (v - 1)" worker_count 1] k(3) v by simp
  finally show "prints_count worker_count v"
    unfolding prints_count_def by (intro exI [of _ "racing worker_count worker_count v"]) (simp add: racing_def)
qed

end
