(* ===== verification/Singleton.thy ===== *)
theory Singleton
  imports Prelude
begin

text \<open>
  The singleton of src/other/singleton.h: \<open>getInstance\<close>, which makes the object under \<open>pthread_once\<close>,
  called by any number of threads, and \<open>destroy\<close>, which the exit of the process calls. Objects are named
  by addresses; where the next is allocated is a parameter of the step that allocates it.
\<close>

section \<open>The threads\<close>

datatype once = OnceNever | OnceRunning | OnceDone

text \<open>A thread outside \<open>getInstance\<close>, at the first and the second statement of \<open>init\<close>, and with the reference
  \<open>getInstance\<close> returned; \<open>BadRef\<close> is a reference through a null pointer.\<close>

datatype getter = Outside | AtNew | AtExit | HasRef nat | BadRef

record singleton =
  sg_once :: once
  sg_value :: "nat option"
  sg_made :: "nat list"
  sg_deleted :: "nat list"
  sg_handlers :: nat
  sg_thread :: "nat \<Rightarrow> getter"

definition set_thread :: "nat \<Rightarrow> getter \<Rightarrow> singleton \<Rightarrow> singleton" where
  "set_thread i g S = S\<lparr>sg_thread := (sg_thread S)(i := g)\<rparr>"

text \<open>\<open>return *value\<close>.\<close>

definition ref_value :: "nat option \<Rightarrow> getter" where
  "ref_value v = (case v of None \<Rightarrow> BadRef | Some p \<Rightarrow> HasRef p)"

text \<open>\<open>pthread_once\<close> lets the first caller run \<open>init\<close>; the callers that come while it runs wait, so they have no
  step.\<close>

inductive singleton_step :: "singleton \<Rightarrow> singleton \<Rightarrow> bool" where
  enters: "sg_thread S i = Outside \<Longrightarrow> sg_once S = OnceNever
    \<Longrightarrow> singleton_step S (set_thread i AtNew (S\<lparr>sg_once := OnceRunning\<rparr>))"
| makes: "sg_thread S i = AtNew \<Longrightarrow> p \<notin> set (sg_made S)
    \<Longrightarrow> singleton_step S (set_thread i AtExit (S\<lparr>sg_value := Some p, sg_made := sg_made S @ [p]\<rparr>))"
| registers: "sg_thread S i = AtExit
    \<Longrightarrow> singleton_step S (set_thread i (ref_value (sg_value S)) (S\<lparr>sg_handlers := Suc (sg_handlers S), sg_once := OnceDone\<rparr>))"
| again: "sg_thread S i = Outside \<Longrightarrow> sg_once S = OnceDone
    \<Longrightarrow> singleton_step S (set_thread i (ref_value (sg_value S)) S)"
| leaves_ref: "sg_thread S i = HasRef p \<Longrightarrow> singleton_step S (set_thread i Outside S)"

inductive_cases singleton_stepE [elim]: "singleton_step S S'"

definition singleton_start :: singleton where
  "singleton_start = \<lparr>sg_once = OnceNever, sg_value = None, sg_made = [], sg_deleted = [], sg_handlers = 0, sg_thread = (\<lambda>_. Outside)\<rparr>"

text \<open>The exit of the process: each registered handler is \<open>destroy\<close>. The pointer stays.\<close>

definition singleton_destroy :: "singleton \<Rightarrow> singleton" where
  "singleton_destroy S = (case sg_value S of None \<Rightarrow> S | Some p \<Rightarrow> S\<lparr>sg_deleted := sg_deleted S @ [p]\<rparr>)"

definition singleton_exit :: "singleton \<Rightarrow> singleton" where
  "singleton_exit S = (singleton_destroy ^^ sg_handlers S) S"

section \<open>One object\<close>

definition initialising :: "getter \<Rightarrow> bool" where
  "initialising g \<longleftrightarrow> g = AtNew \<or> g = AtExit"

definition singleton_ok :: "singleton \<Rightarrow> bool" where
  "singleton_ok S \<longleftrightarrow>
     (case sg_once S of
        OnceNever \<Rightarrow> sg_value S = None \<and> sg_made S = [] \<and> sg_handlers S = 0 \<and> (\<forall>i. sg_thread S i = Outside)
      | OnceRunning \<Rightarrow> sg_handlers S = 0
          \<and> (\<exists>i. (sg_thread S i = AtNew \<and> sg_value S = None \<and> sg_made S = []
                \<or> sg_thread S i = AtExit \<and> (\<exists>p. sg_value S = Some p \<and> sg_made S = [p]))
               \<and> (\<forall>j. j \<noteq> i \<longrightarrow> sg_thread S j = Outside))
      | OnceDone \<Rightarrow> sg_handlers S = 1
          \<and> (\<exists>p. sg_value S = Some p \<and> sg_made S = [p] \<and> (\<forall>j. sg_thread S j = Outside \<or> sg_thread S j = HasRef p)))
     \<and> sg_deleted S = []"

lemma singleton_start_ok: "singleton_ok singleton_start"
  by (simp add: singleton_ok_def singleton_start_def)

lemma initialising_ex: "singleton_ok S \<Longrightarrow> sg_once S = OnceRunning \<Longrightarrow> \<exists>i. initialising (sg_thread S i)"
  by (auto simp: singleton_ok_def initialising_def)

lemma initialising_alone:
  assumes ok: "singleton_ok S" and i: "initialising (sg_thread S i)"
  shows "sg_once S = OnceRunning" and "sg_handlers S = 0" and "sg_deleted S = []" and "j \<noteq> i \<Longrightarrow> sg_thread S j = Outside"
    and "sg_thread S i = AtNew \<Longrightarrow> sg_made S = []"
    and "sg_thread S i = AtExit \<Longrightarrow> \<exists>p. sg_value S = Some p \<and> sg_made S = [p]"
proof -
  show once: "sg_once S = OnceRunning"
  proof (cases "sg_once S")
    case OnceDone
    then obtain p where "sg_thread S i = Outside \<or> sg_thread S i = HasRef p" using ok by (auto simp: singleton_ok_def)
    then show ?thesis using i by (auto simp: initialising_def)
  qed (use ok i in \<open>auto simp: singleton_ok_def initialising_def\<close>)
  with ok obtain k where k: "sg_handlers S = 0" "sg_deleted S = []" "\<forall>j. j \<noteq> k \<longrightarrow> sg_thread S j = Outside"
    "sg_thread S k = AtNew \<and> sg_made S = [] \<or> sg_thread S k = AtExit \<and> (\<exists>p. sg_value S = Some p \<and> sg_made S = [p])"
    unfolding singleton_ok_def by auto
  have "k = i" using k(3) i by (auto simp: initialising_def)
  with k show "sg_handlers S = 0" "sg_deleted S = []" "j \<noteq> i \<Longrightarrow> sg_thread S j = Outside"
    "sg_thread S i = AtNew \<Longrightarrow> sg_made S = []" "sg_thread S i = AtExit \<Longrightarrow> \<exists>p. sg_value S = Some p \<and> sg_made S = [p]"
    by auto
qed

lemma singleton_kept:
  assumes "singleton_step S S'" and ok: "singleton_ok S"
  shows "singleton_ok S'"
  using assms(1)
proof cases
  case (enters i)
  then show ?thesis using ok by (auto simp: singleton_ok_def set_thread_def intro!: exI [of _ i])
next
  case (makes i p)
  have "initialising (sg_thread S i)" by (simp add: makes(2) initialising_def)
  note a = initialising_alone [OF ok this]
  then show ?thesis using makes(2) by (auto simp: singleton_ok_def set_thread_def makes(1) intro!: exI [of _ i])
next
  case (registers i)
  have "initialising (sg_thread S i)" by (simp add: registers(2) initialising_def)
  note a = initialising_alone [OF ok this]
  then show ?thesis using registers(2) by (auto simp: singleton_ok_def set_thread_def ref_value_def registers(1))
next
  case (again i)
  then show ?thesis using ok by (auto simp: singleton_ok_def set_thread_def ref_value_def)
next
  case (leaves_ref i p)
  have "sg_once S = OnceDone"
  proof (cases "sg_once S")
    case OnceRunning
    then obtain k where "initialising (sg_thread S k)" using initialising_ex [OF ok] by blast
    with initialising_alone(4) [OF ok this, of i] leaves_ref(2) show ?thesis by (cases "i = k") (auto simp: initialising_def)
  qed (use ok leaves_ref(2) in \<open>auto simp: singleton_ok_def\<close>)
  then show ?thesis using ok leaves_ref by (auto simp: singleton_ok_def set_thread_def)
qed

interpretation singletons: inductive_invariant "(=) singleton_start" singleton_step singleton_ok
  by unfold_locales (auto intro: singleton_start_ok singleton_kept)

section \<open>The property\<close>

text \<open>The singleton of src/other/singleton.h, whatever the order of the steps of the threads that call
  \<open>getInstance\<close>: one object is made, and only one; nobody gets a reference through a null pointer, and
  all references are to that object; while one thread makes it, it has a step to take and the others wait;
  and once it is made the exit of the process deletes it, once.\<close>

theorem singleton_once:
  assumes "reachable_from ((=) singleton_start) singleton_step S"
  shows "length (sg_made S) \<le> 1 \<and> (\<forall>i. sg_thread S i \<noteq> BadRef)
    \<and> (\<forall>i p. sg_thread S i = HasRef p \<longrightarrow> sg_made S = [p])
    \<and> (sg_once S = OnceRunning \<longrightarrow> (\<exists>i S'. initialising (sg_thread S i) \<and> singleton_step S S'
         \<and> sg_thread S' i \<noteq> sg_thread S i \<and> (\<forall>j. j \<noteq> i \<longrightarrow> sg_thread S j = Outside)))
    \<and> sg_deleted (singleton_exit S) = (if sg_once S = OnceDone then sg_made S else [])"
proof (cases "sg_once S")
  case OnceNever
  then show ?thesis using singletons.always [OF assms] by (simp add: singleton_ok_def singleton_exit_def)
next
  case OnceRunning
  note ok = singletons.always [OF assms]
  from initialising_ex [OF ok OnceRunning] obtain i where i0: "initialising (sg_thread S i)" by blast
  note a = initialising_alone [OF ok i0]
  have "length (sg_made S) \<le> 1" using a(5,6) i0 by (auto simp: initialising_def)
  then have i: "initialising (sg_thread S i)" "\<forall>j. j \<noteq> i \<longrightarrow> sg_thread S j = Outside"
    "length (sg_made S) \<le> 1" "sg_handlers S = 0" "sg_deleted S = []"
    using i0 a(2,3,4) by simp_all
  have "\<exists>S'. singleton_step S S' \<and> sg_thread S' i \<noteq> sg_thread S i"
  proof (cases "sg_thread S i = AtNew")
    case True
    obtain p where "p \<notin> set (sg_made S)" using ex_new_if_finite [of "set (sg_made S)"] by (auto simp: infinite_UNIV_nat)
    from makes [OF True this] show ?thesis using True by (fastforce simp: set_thread_def)
  next
    case False
    then have e: "sg_thread S i = AtExit" using i(1) by (simp add: initialising_def)
    from registers [OF e] show ?thesis using e by (intro exI conjI) (auto simp: set_thread_def ref_value_def split: option.splits)
  qed
  moreover have "sg_thread S j \<noteq> BadRef \<and> sg_thread S j \<noteq> HasRef p" for j p
    using i(1,2) by (cases "j = i") (auto simp: initialising_def)
  ultimately show ?thesis using i OnceRunning by (auto simp: singleton_exit_def)
next
  case OnceDone
  then obtain p where p: "sg_value S = Some p" "sg_made S = [p]" "\<forall>j. sg_thread S j = Outside \<or> sg_thread S j = HasRef p"
    "sg_handlers S = 1" "sg_deleted S = []"
    using singletons.always [OF assms] by (auto simp: singleton_ok_def)
  then have "sg_deleted (singleton_exit S) = [p]" by (simp add: singleton_exit_def singleton_destroy_def)
  moreover have "sg_thread S j \<noteq> BadRef" "sg_thread S j = HasRef q \<longrightarrow> sg_made S = [q]" for j q
    using p(3) [rule_format, of j] p(2) by auto
  ultimately show ?thesis using p(2) OnceDone by simp
qed

lemmas singleton_more = rtranclp.rtrancl_into_rtrancl [of singleton_step]

lemma singleton_once_witness:
  "\<exists>S. reachable_from ((=) singleton_start) singleton_step S \<and> sg_thread S 0 = HasRef 5 \<and> sg_deleted (singleton_exit S) = [5]"
proof -
  let ?S1 = "set_thread 0 AtNew (singleton_start\<lparr>sg_once := OnceRunning\<rparr>)"
  let ?S2 = "set_thread 0 AtExit (?S1\<lparr>sg_value := Some 5, sg_made := sg_made ?S1 @ [5]\<rparr>)"
  let ?S3 = "set_thread 0 (ref_value (sg_value ?S2)) (?S2\<lparr>sg_handlers := Suc (sg_handlers ?S2), sg_once := OnceDone\<rparr>)"
  have s1: "singleton_step singleton_start ?S1" by (rule enters) (simp_all add: singleton_start_def)
  have s2: "singleton_step ?S1 ?S2" by (rule makes) (simp_all add: singleton_start_def set_thread_def)
  have s3: "singleton_step ?S2 ?S3" by (rule registers) (simp add: set_thread_def)
  have r: "reachable_from ((=) singleton_start) singleton_step ?S3"
    unfolding reachable_from_def
    by (intro exI [of _ singleton_start] conjI refl) (rule singleton_more [OF singleton_more [OF r_into_rtranclp [of singleton_step, OF s1] s2] s3])
  have "sg_thread ?S3 0 = HasRef 5" "sg_once ?S3 = OnceDone" "sg_made ?S3 = [5]"
    by (simp_all add: set_thread_def ref_value_def singleton_start_def)
  then show ?thesis using r singleton_once [OF r] by auto
qed

end
