(* ===== verification/ThreadKey.thy ===== *)
theory ThreadKey
  imports Prelude
begin

text \<open>
  The example of thread-specific data in src/other/pthreadKey.h: two threads store pointers to a local
  variable of different types under one key and read them back, while the main thread joins both and
  deletes the key. The pointers are untyped and the key is shared, so that each thread reads what it
  stored depends on the value of a key being one for each thread.
\<close>

section \<open>The threads\<close>

text \<open>What an address holds, and what is printed; the address of a local variable is the number of the
  thread whose variable it is. a \<open>float\<close> is a mantissa over a power of 2,
  and \<open>float_k\<close> the one nearest to 3.1415.\<close>

datatype stored = TestStruct int "int \<times> nat" | Temp int

datatype printed = Pointer nat | Members int "int \<times> nat" | Number int | Rule

definition float_k :: "int \<times> nat" where
  "float_k = (13176406, 22)"

text \<open>A line of each thread is one step. The threads are 0, that of \<open>testKey\<close>, 1 and 2; \<open>ky_fault\<close> is set
  by a read through a pointer that is null, dangling or of the wrong type, and by a use of the key while it
  does not exist.\<close>

record keyed =
  ky_live :: bool
  ky_specific :: "nat \<Rightarrow> nat option"
  ky_memory :: "nat \<Rightarrow> stored option"
  ky_line :: "nat \<Rightarrow> nat"
  ky_out :: "nat \<Rightarrow> printed list"
  ky_fault :: bool

definition next_line :: "nat \<Rightarrow> keyed \<Rightarrow> keyed" where
  "next_line i S = S\<lparr>ky_line := (ky_line S)(i := Suc (ky_line S i))\<rparr>"

definition prints :: "nat \<Rightarrow> printed \<Rightarrow> keyed \<Rightarrow> keyed" where
  "prints i p S = S\<lparr>ky_out := (ky_out S)(i := ky_out S i @ [p])\<rparr>"

definition setspecific :: "nat \<Rightarrow> nat \<Rightarrow> keyed \<Rightarrow> keyed" where
  "setspecific i p S = (if ky_live S then S\<lparr>ky_specific := (ky_specific S)(i := Some p)\<rparr> else S\<lparr>ky_fault := True\<rparr>)"

definition getspecific :: "nat \<Rightarrow> (nat \<Rightarrow> keyed \<Rightarrow> keyed) \<Rightarrow> keyed \<Rightarrow> keyed" where
  "getspecific i f S = (if ky_live S then (case ky_specific S i of None \<Rightarrow> S\<lparr>ky_fault := True\<rparr> | Some p \<Rightarrow> f p S)
     else S\<lparr>ky_fault := True\<rparr>)"

definition child1_line :: "nat \<Rightarrow> keyed \<Rightarrow> keyed" where
  "child1_line n S =
     (if n = 0 then S\<lparr>ky_memory := (ky_memory S)(1 := Some (TestStruct 10 float_k))\<rparr>
      else if n = 1 then setspecific 1 1 S
      else if n = 2 then prints 1 (Pointer 1) S
      else if n = 3 then getspecific 1 (\<lambda>p. prints 1 (Pointer p)) S
      else if n = 4 then getspecific 1 (\<lambda>p S. case ky_memory S p of
             Some (TestStruct i k) \<Rightarrow> prints 1 (Members i k) S
           | _ \<Rightarrow> S\<lparr>ky_fault := True\<rparr>) S
      else (prints 1 Rule S)\<lparr>ky_memory := (ky_memory S)(1 := None)\<rparr>)"

definition child2_line :: "nat \<Rightarrow> keyed \<Rightarrow> keyed" where
  "child2_line n S =
     (if n = 0 then S\<lparr>ky_memory := (ky_memory S)(2 := Some (Temp 20))\<rparr>
      else if n = 1 then S
      else if n = 2 then prints 2 (Pointer 2) S
      else if n = 3 then setspecific 2 2 S
      else if n = 4 then getspecific 2 (\<lambda>p. prints 2 (Pointer p)) S
      else (getspecific 2 (\<lambda>p S. case ky_memory S p of
             Some (Temp t) \<Rightarrow> prints 2 (Number t) S
           | _ \<Rightarrow> S\<lparr>ky_fault := True\<rparr>) S)\<lparr>ky_memory := (ky_memory S)(2 := None)\<rparr>)"

text \<open>\<open>testKey\<close> creates the key and the threads, waits for each and deletes the key; a thread that ran its six
  lines has returned.\<close>

definition testKey_line :: "nat \<Rightarrow> keyed \<Rightarrow> keyed" where
  "testKey_line n S = (if n = 0 then S\<lparr>ky_live := True, ky_specific := (\<lambda>_. None)\<rparr>
     else if n = 5 then (if ky_live S then S\<lparr>ky_live := False\<rparr> else S\<lparr>ky_fault := True\<rparr>)
     else S)"

inductive key_step :: "keyed \<Rightarrow> keyed \<Rightarrow> bool" where
  main: "n = ky_line S 0 \<Longrightarrow> n < 6 \<Longrightarrow> (n = 3 \<longrightarrow> ky_line S 1 = 6) \<Longrightarrow> (n = 4 \<longrightarrow> ky_line S 2 = 6)
    \<Longrightarrow> key_step S (next_line 0 (testKey_line n S))"
| child1: "2 \<le> ky_line S 0 \<Longrightarrow> n = ky_line S 1 \<Longrightarrow> n < 6 \<Longrightarrow> key_step S (next_line 1 (child1_line n S))"
| child2: "3 \<le> ky_line S 0 \<Longrightarrow> n = ky_line S 2 \<Longrightarrow> n < 6 \<Longrightarrow> key_step S (next_line 2 (child2_line n S))"

definition key_start :: keyed where
  "key_start = \<lparr>ky_live = False, ky_specific = (\<lambda>_. None), ky_memory = (\<lambda>_. None), ky_line = (\<lambda>_. 0), ky_out = (\<lambda>_. []), ky_fault = False\<rparr>"

section \<open>Each thread reads its own value\<close>

definition child1_prints :: "printed list" where
  "child1_prints = [Pointer 1, Pointer 1, Members 10 float_k, Rule]"

definition child2_prints :: "printed list" where
  "child2_prints = [Pointer 2, Pointer 2, Number 20]"

definition printed2 :: "nat \<Rightarrow> nat" where
  "printed2 n = (if n \<le> 3 then n - 2 else n - 3)"

definition main_ok :: "keyed \<Rightarrow> bool" where
  "main_ok S \<longleftrightarrow> (let m = ky_line S 0 in m \<le> 6 \<and> (ky_live S \<longleftrightarrow> 1 \<le> m \<and> m \<le> 5) \<and> \<not> ky_fault S \<and> ky_line S 1 \<le> 6 \<and> ky_line S 2 \<le> 6
     \<and> (m < 2 \<longrightarrow> ky_line S 1 = 0) \<and> (m < 3 \<longrightarrow> ky_line S 2 = 0) \<and> (4 \<le> m \<longrightarrow> ky_line S 1 = 6) \<and> (5 \<le> m \<longrightarrow> ky_line S 2 = 6))"

definition child1_ok :: "keyed \<Rightarrow> bool" where
  "child1_ok S \<longleftrightarrow> (let n = ky_line S 1 in ky_out S 1 = take (n - 2) child1_prints
     \<and> (1 \<le> n \<and> n \<le> 5 \<longrightarrow> ky_memory S 1 = Some (TestStruct 10 float_k)) \<and> (2 \<le> n \<longrightarrow> ky_specific S 1 = Some 1))"

definition child2_ok :: "keyed \<Rightarrow> bool" where
  "child2_ok S \<longleftrightarrow> (let n = ky_line S 2 in ky_out S 2 = take (printed2 n) child2_prints
     \<and> (1 \<le> n \<and> n \<le> 5 \<longrightarrow> ky_memory S 2 = Some (Temp 20)) \<and> (4 \<le> n \<longrightarrow> ky_specific S 2 = Some 2))"

definition key_ok :: "keyed \<Rightarrow> bool" where
  "key_ok S \<longleftrightarrow> main_ok S \<and> child1_ok S \<and> child2_ok S"

lemmas key_defs = key_ok_def main_ok_def child1_ok_def child2_ok_def next_line_def prints_def setspecific_def getspecific_def
  testKey_line_def child1_line_def child2_line_def child1_prints_def child2_prints_def printed2_def Let_def

lemma line_cases: "n < 6 \<Longrightarrow> n = 0 \<or> n = 1 \<or> n = 2 \<or> n = 3 \<or> n = 4 \<or> n = (5 :: nat)"
  by auto

lemma main_kept:
  assumes ok: "key_ok S" and n: "n = ky_line S 0" "n < 6" "n = 3 \<longrightarrow> ky_line S 1 = 6" "n = 4 \<longrightarrow> ky_line S 2 = 6"
  shows "key_ok (next_line 0 (testKey_line n S))"
  using line_cases [OF n(2)] n(1,3,4) ok by (elim disjE) (simp_all add: key_defs)

lemma child1_kept:
  assumes ok: "key_ok S" and n: "2 \<le> ky_line S 0" "n = ky_line S 1" "n < 6"
  shows "key_ok (next_line 1 (child1_line n S))"
  using line_cases [OF n(3)] n(1,2) ok by (elim disjE) (simp_all add: key_defs)

lemma child2_kept:
  assumes ok: "key_ok S" and n: "3 \<le> ky_line S 0" "n = ky_line S 2" "n < 6"
  shows "key_ok (next_line 2 (child2_line n S))"
  using line_cases [OF n(3)] n(1,2) ok by (elim disjE) (simp_all add: key_defs)

interpretation key_inv: inductive_invariant "\<lambda>S. S = key_start" key_step key_ok
proof
  show "S = key_start \<Longrightarrow> key_ok S" for S by (simp add: key_defs key_start_def)
  show "key_ok S'" if "key_step S S'" "key_ok S" for S S'
    using that(1)
  proof cases
    case (main n)
    show ?thesis unfolding main(1) by (rule main_kept [OF that(2) main(2-5)])
  next
    case (child1 n)
    show ?thesis unfolding child1(1) by (rule child1_kept [OF that(2) child1(2-4)])
  next
    case (child2 n)
    show ?thesis unfolding child2(1) by (rule child2_kept [OF that(2) child2(2-4)])
  qed
qed

text \<open>However the threads interleave, each reads back the pointer it stored itself, through the type it stored
  it with; no read goes astray, the key is deleted after the last use, and the run cannot get
  stuck before that.\<close>

lemma line_same [simp]:
  "ky_line (testKey_line n S) = ky_line S" "ky_line (child1_line n S) = ky_line S" "ky_line (child2_line n S) = ky_line S"
  by (simp_all add: testKey_line_def child1_line_def child2_line_def setspecific_def getspecific_def prints_def
      split: option.splits stored.splits)

definition lines_left :: "keyed \<Rightarrow> nat" where
  "lines_left S = 18 - (ky_line S 0 + ky_line S 1 + ky_line S 2)"

theorem own_values:
  assumes "reachable_from (\<lambda>S. S = key_start) key_step S"
  shows "\<not> ky_fault S" and "\<exists>rest. child1_prints = ky_out S 1 @ rest" and "\<exists>rest. child2_prints = ky_out S 2 @ rest"
    and "ky_line S 0 = 6 \<Longrightarrow> ky_out S 1 = child1_prints \<and> ky_out S 2 = child2_prints"
    and "ky_line S 0 < 6 \<Longrightarrow> \<exists>S'. key_step S S'" and "key_step S S' \<Longrightarrow> lines_left S' < lines_left S"
proof -
  have ok: "key_ok S" by (rule key_inv.always [OF assms])
  then show "\<not> ky_fault S" by (simp add: key_ok_def main_ok_def Let_def)
  show "\<exists>rest. child1_prints = ky_out S 1 @ rest" "\<exists>rest. child2_prints = ky_out S 2 @ rest"
    using ok unfolding key_ok_def child1_ok_def child2_ok_def Let_def by (metis append_take_drop_id)+
  show "ky_out S 1 = child1_prints \<and> ky_out S 2 = child2_prints" if "ky_line S 0 = 6"
    using ok that by (simp add: key_defs)
  show "\<exists>S'. key_step S S'" if m: "ky_line S 0 < 6"
  proof (cases "ky_line S 0 = 3 \<and> ky_line S 1 < 6 \<or> ky_line S 0 = 4 \<and> ky_line S 2 < 6")
    case True
    then show ?thesis using key_step.child1 [of S] key_step.child2 [of S] by auto
  next
    case False
    then show ?thesis using ok m key_step.main [of _ S, OF refl m] by (auto simp: key_ok_def main_ok_def Let_def)
  qed
  have le: "ky_line S 0 \<le> 6" "ky_line S 1 \<le> 6" "ky_line S 2 \<le> 6" using ok by (simp_all add: key_ok_def main_ok_def Let_def)
  show "lines_left S' < lines_left S" if "key_step S S'"
    using that by cases (use le in \<open>simp_all add: lines_left_def next_line_def\<close>)
qed

end
