(* ===== verification/AutoContext.thy ===== *)
theory AutoContext
  imports Prelude
begin

text \<open>
  The \<open>AutoContext\<close> of src/utility.h: an untyped pointer that makes its object when it is first asked for
  one, with the type it is asked for, and remembers how to delete it. A connection keeps the parser of
  its requests in one; HttpServer uses it at that single type, where it is an optional context.
\<close>

section \<open>The model\<close>

text \<open>Types are of any type \<open>'t\<close>; the heap says which type of object lives at an address. The deleter is the
  closure \<open>[this] { delete (T*)ctx; }\<close> for a type \<open>T\<close>.\<close>

record 't any_context =
  ax_ctx :: "nat option"
  ax_ctxDel :: "'t option"

type_synonym 't objects = "nat \<Rightarrow> 't option"

definition any_context_new :: "'t any_context" where
  "any_context_new = \<lparr>ax_ctx = None, ax_ctxDel = None\<rparr>"

text \<open>\<open>context<T>()\<close>; the object \<open>new\<close> makes is at the address \<open>p\<close>. The result is the address the reference
  of type \<open>T\<close> is to.\<close>

definition get_context :: "nat \<Rightarrow> 't \<Rightarrow> 't any_context \<times> 't objects \<Rightarrow> nat \<times> 't any_context \<times> 't objects" where
  "get_context p T = (\<lambda>(a, h). case ax_ctx a of
      None \<Rightarrow> (p, \<lparr>ax_ctx = Some p, ax_ctxDel = Some T\<rparr>, h(p \<mapsto> T))
    | Some c \<Rightarrow> (c, a, h))"

definition delete_as :: "'t \<Rightarrow> nat \<Rightarrow> 't objects \<Rightarrow> 't objects res" where
  "delete_as T p h = (if h p = Some T then Inr (h(p := None)) else Inl BadPointer)"

definition any_context_destroy :: "'t any_context \<times> 't objects \<Rightarrow> 't objects res" where
  "any_context_destroy = (\<lambda>(a, h). case ax_ctx a of
      None \<Rightarrow> Inr h
    | Some c \<Rightarrow> (case ax_ctxDel a of None \<Rightarrow> Inl BadFunctionCall | Some T \<Rightarrow> delete_as T c h))"

text \<open>Any number of calls, each with the type it asks for and the address \<open>new\<close> would return.\<close>

fun get_contexts :: "(nat \<times> 't) list \<Rightarrow> 't any_context \<times> 't objects \<Rightarrow> nat list \<times> 't any_context \<times> 't objects" where
  "get_contexts [] s = ([], s)"
| "get_contexts ((p, T) # asks) s =
     (case get_context p T s of (c, s') \<Rightarrow> case get_contexts asks s' of (cs, s'') \<Rightarrow> (c # cs, s''))"

section \<open>One object, made once and deleted once\<close>

lemma get_contexts_made:
  assumes "ax_ctx a = Some c"
  shows "get_contexts asks (a, h) = (replicate (length asks) c, a, h)"
  by (induction asks) (auto simp: get_context_def assms)

text \<open>Whatever it is asked for, an \<open>AutoContext\<close> makes at most one object, with the type of the first call, every
  call returns it, and the destructor deletes it with the type it was made with, so that the heap is
  what it was. The reference a later call returns is to an object of the type it asks for exactly if
  that is the type of the first call: the cast is not checked.\<close>

theorem one_context:
  assumes "h p = None"
  shows "\<exists>a h'. get_contexts ((p, T) # asks) (any_context_new, h) = (replicate (Suc (length asks)) p, a, h')
    \<and> (\<forall>U. h' p = Some U \<longleftrightarrow> U = T) \<and> (\<forall>q. q \<noteq> p \<longrightarrow> h' q = h q) \<and> any_context_destroy (a, h') = Inr h"
    and "any_context_destroy (any_context_new, h) = Inr h"
proof -
  let ?a = "\<lparr>ax_ctx = Some p, ax_ctxDel = Some T\<rparr>"
  have "get_contexts asks (?a, h(p \<mapsto> T)) = (replicate (length asks) p, ?a, h(p \<mapsto> T))"
    by (rule get_contexts_made) simp
  moreover have "any_context_destroy (?a, h(p \<mapsto> T)) = Inr h"
    using assms by (auto simp: any_context_destroy_def delete_as_def)
  ultimately show "\<exists>a h'. get_contexts ((p, T) # asks) (any_context_new, h) = (replicate (Suc (length asks)) p, a, h')
    \<and> (\<forall>U. h' p = Some U \<longleftrightarrow> U = T) \<and> (\<forall>q. q \<noteq> p \<longrightarrow> h' q = h q) \<and> any_context_destroy (a, h') = Inr h"
    by (intro exI [of _ ?a] exI [of _ "h(p \<mapsto> T)"]) (auto simp: get_context_def any_context_new_def)
  show "any_context_destroy (any_context_new, h) = Inr h"
    by (simp add: any_context_destroy_def any_context_new_def)
qed

end
