(* ===== verification/Spec2Isabelle.thy ===== *)
theory Spec2Isabelle
  imports Epoller LoopThreads LoopStart Connector Logging ManyClients PooledLife EchoServer TestHttp TestLoops UnitTest
    TestSockets Observable StockFactory UniqueLock Singleton ThreadKey AutoContext
begin

text \<open>
  A verification development for TcpNetLibrary, a C++ library for event-driven TCP servers in the style
  of the reactor pattern: one event loop for each thread, channels that tie descriptors to callbacks, and
  on top of them connections, a server, a connector and an HTTP server. The library's own code is
  modelled function by function; the source of every group of definitions is named below and at the
  head of its theory, and definitions keep the names of the source, with a prefix (\<open>conn_\<close>,
  \<open>server_\<close>, \<open>timer_\<close> and so on) where several classes share one.

  \<^bold>\<open>The program and how its parts interact.\<close> A loop (src/eventLoop.cpp) owns a poller (src/poller.cpp or
  src/epoller.cpp), a queue of timers (src/timerQueue.cpp) and a queue of functors other threads may
  extend. One turn of the loop polls, lets each active channel (src/channel.cpp) call the callbacks its
  reported events select, and runs the functors that were queued. An acceptor (src/acceptor.cpp) is a
  channel on a listening socket; for each new descriptor it calls the server (src/tcpServer.cpp), which
  makes a connection (src/tcpConnection.cpp), gives it to a loop of its pool of threads
  (src/eventLoopThreadPool.cpp, src/eventLoopThread.cpp) and keeps it in a map until it closes. A
  connection has two buffers (src/buffer.cpp). The HTTP server (src/http/httpServer.cpp) is the callback
  of such a server: it parses the input buffer (src/http/httpContext.cpp), has the user fill in a response
  and sends it (src/http/httpResponse.cpp). The connector (src/connector.cpp) is the client's side: it
  connects without blocking and tries again through the timers of its loop. The logger
  (src/logging.cpp) and the value classes (src/timeStamp.cpp, src/netAddress.cpp, src/socket.cpp)
  serve all of them.

  \<^bold>\<open>How state and effects are represented.\<close>
  \<^item> Objects live in heaps, functions from addresses to records with one field for each member. The state
    is an extensible record that grows along the program: \<open>chan_heap\<close> (channels), \<open>world\<close> (loops, and the
    number of the running thread), \<open>timer_world\<close> (timers and their queues, the count of clock readings),
    \<open>sock_world\<close> (the system calls made so far), \<open>conn_world\<close>, \<open>acceptor_world\<close>, \<open>server_world\<close> and
    \<open>http_world\<close>; \<open>connector_world\<close> and \<open>log_world\<close> branch off from \<open>sock_world\<close>. An operation of
    a class works on any extension of the record its class needs, so that it composes with what is built on top.
  \<^item> An operation that can end the program returns \<open>'a res\<close>, the sum of a \<open>fault\<close> and a value. The
    faults are the ways a run ends: a failed \<open>assert\<close> (src/Makefile does not define \<open>NDEBUG\<close>), the
    \<open>exit(1)\<close> of \<open>log_fatal\<close>, the exceptions of \<open>std::vector\<close> and of an empty \<open>std::function\<close>, a division
    by zero, the undefined behaviour of pointers and of \<open>int\<close>, a stack that overflows, and a call that
    never returns.
  \<^item> The kernel is a parameter: a function from the calls made so far, each with its answer, and the present
    call to its answer. The state keeps the calls, so that theorems can say which bytes were handed to
    \<open>write\<close>, and what was closed, shut down or renamed. What is asked of a kernel is a hypothesis that
    states the manual page of the call, such as \<open>write_documented\<close> (no more bytes are reported written
    than were given) or \<open>poll_documented\<close>; concrete kernels satisfy each of them in the witnesses.
    \<open>epoll_ctl\<close> and the answers of \<open>poll\<close> and \<open>epoll_wait\<close> are parameters of the same kind.
  \<^item> The clock is a function from the number of readings to microseconds. \<open>inet_pton\<close>, \<open>localtime_r\<close>
    and the offset of the time zone are arguments, and so are the addresses \<open>new\<close> returns.
  \<^item> A closure made by \<open>std::bind\<close> is a value of the datatype \<open>closure\<close>, one constructor for each bound member
    function of the library and one for the functions of the user. What runs a closure is an argument of
    the operations that call one, until the theory Program ties the knot with an interpreter.
  \<^item> Machine integers are words where the bits matter (event masks, ports, addresses) and otherwise integers
    with the conversion to \<open>size_t\<close>, \<open>ssize_t\<close> or \<open>short\<close> written out where the source converts.
  \<^item> Threads are interleaved steps over the shared state in LoopThreads, LoopStart and the exercises; PooledLife
    hands the state from one thread to the next (\<open>as_thread\<close>); every other theory is about what one
    thread does in its own loop, with the test \<open>isInLoopThread\<close> kept as in the source.
\<close>

text \<open>
  \<^bold>\<open>The theories.\<close>

  Foundations.
  \<^item> Prelude: faults and results with their sequencing, conversions of integers, slices of lists, and the locale
    \<open>inductive_invariant\<close> with the reachable states of a step relation.
  \<^item> StdContainers: \<open>std::map\<close> and \<open>std::set\<close> as sorted lists with lookup, insertion, erasure and ranges; the
    locale \<open>dictionary\<close> states the laws of a map, and is interpreted on the sorted list.
  \<^item> Decimal: the decimal conversions and the truncation of \<open>snprintf\<close>, with the reading back of a number.
  \<^item> Closures: the datatype of bound member functions.

  The reactor.
  \<^item> Channel: src/channel.h, src/channel.cpp. \<open>handleEvent\<close> re-reads the callbacks after each of them, as the
    code does; it is shown to run exactly the selected callbacks in their order.
  \<^item> PollerSpec: the contract of a poller, a registry of channels driven by their owners' protocol, as
    the locale \<open>channel_poller\<close>. Poller (src/poller.h, src/poller.cpp) and Epoller (src/epoller.h,
    src/epoller.cpp) interpret it, Epoller through the locale \<open>epoll_kernel\<close> of a documented
    \<open>epoll_ctl\<close>. So every run that follows the protocol is free of failed assertions for both, and
    the registered channels are those of the registry. What each of them then watches, and what the
    fill of the active channels reports, is stated for each; for \<open>poll\<close> this shows that a channel once
    disabled is never watched again.
  \<^item> EventLoop: src/eventLoop.h, src/eventLoop.cpp. The loop, its turn, \<open>runInLoop\<close>, \<open>queueInloop\<close>, wake-up,
    \<open>doPendingFunctors\<close>. The locale \<open>functor_runner\<close> states what a functor may do to the loop that
    runs it; it is interpreted on functors that queue further functors, and in ServerFunctors on those of the
    server. The function \<open>loop_loop\<close> takes the
    list of the answers of its polls: one turn for each answer, so the list is its fuel.
  \<^item> LoopThreads: the loop's thread and any number of other threads as one step relation; no wake-up is lost,
    functors run once each in order, and a call of \<open>quit()\<close> before \<open>loop()\<close> is lost in every run, though the
    same call ends a loop that polls. LoopStart: src/eventLoopThread.h,
    src/eventLoopThread.cpp, the hand-over of a loop from a new thread through mutex and condition
    variable, spurious wake-ups included; the two never block each other and a measure decreases.
    Both use \<open>inductive_invariant\<close>.
  \<^item> TimeStamp: src/timeStamp.h, src/timeStamp.cpp, with doubles as pairs of mantissa and exponent rounded to 53 bits.
    TimerQueue: src/timer.h, src/timer.cpp, src/timerId.h, src/timerId.cpp, src/timerQueue.h,
    src/timerQueue.cpp and the timer functions of src/eventLoop.cpp. The invariant \<open>tq_ok\<close> ties the two
    sets of a queue and the heap of timers together; filing, cancelling, expiring and restarting keep it. A
    whole poll with expired timers is followed from what their callbacks did (\<open>timer_act\<close>), in any order, to
    which of them are filed again; one cancelled after another was created is, against its cancellation.

  Connections.
  \<^item> Buffer: src/buffer.h, src/buffer.cpp. The invariant \<open>buf_ok\<close>, kept by every operation but
    \<open>shrink\<close> and a \<open>hasWriten\<close> that claims too much, the abstraction \<open>contents\<close>, and the locale
    \<open>byte_queue\<close> with its client, the refinement of a plain queue; it is interpreted on the buffer.
  \<^item> NetAddress and Sockets: src/netAddress.h, src/netAddress.cpp, src/socket.h, src/socket.cpp.
  \<^item> TcpConnection: the data and every operation of src/tcpConnection.cpp. ConnectionOutput: sending,
    shutting down and the write event, as one invariant over any sequence of them. ConnectionLife:
    the read event, establishing, closing and destroying, with the channel entering and leaving the poller.
  \<^item> Acceptor, EventLoopThreadPool, TcpServer: the files of the same names. A server is followed through any sequence of
    accepted connections and of reports that a connection closed.
  \<^item> Connector: src/connector.h, src/connector.cpp; the outcome of an attempt by its error, the delay
    of a retry, and the handlers.

  HTTP.
  \<^item> HttpRequest, HttpContext, HttpResponse: the files of the same names in src/http. The loop of
    \<open>parseRequest\<close> is a \<open>partial_function\<close>, so that not returning is a value; it refines a function on
    strings, which gives the round trip with printing and the independence of how the input is cut.
  \<^item> HttpServer: src/http/httpServer.h, src/http/httpServer.cpp and the \<open>AutoContext\<close> of src/utility.h
    at the type of the parser. AutoContext: the same object at any type, with its destructor.

  The rest.
  \<^item> Logging: src/logging.h, src/logging.cpp.
  \<^item> Program: the interpreter of closures over all components and the environment whose callbacks are those the
    constructors install. Two theorems cross every layer: from a readable listening socket to a
    registered connection, and from a reported end of the input to a connection that is gone.
  \<^item> ServerFunctors: which functors the program queues in a loop, and the interpretation of \<open>functor_runner\<close> on
    \<open>system_run\<close> and these functors.
  \<^item> Session: the abstract session of an HTTP connection, \<open>session_step\<close>, a function from the bytes that arrive
    to the bytes sent and the state of the parser; a turn of the loop refines it, whatever part of each
    write the kernel takes, and so does any number of turns (\<open>session_run\<close>). Requests that arrive whole
    are then answered once each and in order.
  \<^item> Untouched, Crowd, ManyClients: the same for any number of connections of a server in one loop. Untouched says
    what the handlers of one connection leave alone. Crowd states the server with the connections it
    serves and those it is about to destroy (\<open>crowd\<close>), and shows for each event, a connection accepted or
    refused for now, served, or closed by its peer, that it keeps the crowd and every other session. ManyClients
    abstracts the server to a map from connections to sessions and output (\<open>clients_of\<close>); a turn of the
    loop, its poll and its pending functors included, is a list of actions on the map, so clients are
    independent of each other, and each gets the answers to its own requests.
  \<^item> PooledLife: a connection of a server with loop threads through its four hops: accepted in the thread of the
    server, established in that of its loop, forgotten in that of the server, destroyed in its own.

  The test programs and the exercises of the repository.
  \<^item> UnitTest: src/unitTest.h, the table of tests, \<open>RunAllTests\<close> and the assertions, and \<open>main\<close> of src/main.cpp.
    EchoServer: the callbacks of its test \<open>testTcpServer\<close>; a client gets back what it sent.
    TestHttp: \<open>testHttpRequest\<close>, and the page of src/http/httpServer_test.cpp. TestLoops: \<open>testQueue\<close> and
    \<open>testTimer\<close>, in which timers and functors of one loop queue one another, each from the constructor of its
    loop through \<open>loop_loop\<close>, over the answers of its polls, to the end of its scope. TestSockets: \<open>testNetAddress\<close> and
    the callbacks of \<open>testAccept\<close> and \<open>testConnector\<close>.
  \<^item> Observable: src/other/Observable.cpp, weak pointers to observers that other threads let go of while they are
    notified. StockFactory: src/other/StockFactory.cpp, a map of weak pointers and the deleter that
    cleans it up, with the race between them, followed step by step from any state it can begin in. UniqueLock: src/other/UniqueLock.cpp, a counter whose lock
    locks nothing. Singleton: src/other/singleton.h. ThreadKey: src/other/pthreadKey.h, two threads that store
    under one key. All five are step relations over the threads that
    use them, with an \<open>inductive_invariant\<close>.

  \<^bold>\<open>What is shown.\<close> By component: invariants that every operation keeps (buffers, pollers, timer queues,
  servers, loops with their threads); what each operation does on every branch, the aborting ones
  included; refinements of an abstract object (buffer by queue, pollers by registry, parser by a
  function on strings, an HTTP connection by its session, a server
  by the map of its sessions); round trips (requests, responses, time stamps); termination (the parser
  returns exactly in the states that expect input, \<open>onMessage\<close> always returns); absence of lost
  notifications between threads. Where the code does not do what it seems to mean, the theorem states what it
  does and says so.

  \<^bold>\<open>Bounds.\<close> A vector has at most \<open>2^63 - 1\<close> bytes (\<open>size_max\<close>); \<open>room\<close> is what a buffer can still take, and a
  theorem about sequences of appends asks that they fit. The number of a connection is an \<open>int\<close>: a server
  is followed up to its connection number \<open>2^31 - 1\<close>, and beyond it the overflow is a fault. The
  length of a body of a response is below \<open>10^13\<close>, with which its length line fits the 32 bytes
  \<open>snprintf\<close> is given. Closures that call closures are run to a depth, an argument of
  \<open>system_run\<close>; beyond it the run is the fault \<open>StackOverflow\<close>. The theorems on the whole
  program hold for every depth of two or more, and none of their runs overflows; the tests of
  TestLoops need a depth of three.

  \<^bold>\<open>Not modelled.\<close>
  \<^item> In the library, the destruction of objects by \<open>std::shared_ptr\<close> and \<open>std::unique_ptr\<close>: records stay in their
    heaps. The destructors themselves are modelled; when the last reference dies is not. (In the exercises,
    which are about it, it is.) Nor is the join in the destructor of a loop's thread.
  \<^item> The member \<open>context_\<close> of a connection at the construction of the connection: the contexts are a map beside the
    connections, and the theorems that create a connection ask that it has no context at its address, as
    the constructor of \<open>AutoContext\<close> would leave it.
  \<^item> The text of messages to the log within the other components: a call of a log macro does nothing except
    where it is \<open>log_fatal\<close>. The logger itself is modelled. Messages to stderr are left out.
  \<^item> Signals (src/ignoreSigPipe.h), the wrappers of \<open>gettid\<close> and \<open>strerror_r\<close> (src/utility.cpp), and
    the empty classes of src/utility.h and src/tcpClient.cpp.
  \<^item> A system in which several loops run connections of one server at once: ManyClients has all connections in
    the loop of the server; the threads are interleaved for the queue of functors of a loop and for its
    start, and in PooledLife they take turns. Timers of the user do not run in the turns of ManyClients.
  \<^item> The tests of src/main.cpp that only construct objects of the library, queue a print or log
    (\<open>testEventLoopThread\<close>, \<open>testSafeTimeCall\<close>, \<open>testLog\<close>), the protocol buffer example in src/proto, whose
    generated code is not there, and the benchmarks in src/test, which are written for another library.
\<close>

end
